(* ===== verification/Ucore_Prelude.thy ===== *)
theory Ucore_Prelude
  imports Main "HOL-Library.Word" "HOL-Library.Monad_Syntax"
begin

text \<open>
  The prelude of the development: the machine integers and error codes of the kernel,
  the panic monad in which every operation is written, the rounding macros of
  \<^verbatim>\<open>types.h\<close> and the generic lemmas on lists, options and powers of two that the
  component theories share.

  An operation of the kernel that can fail an \<^verbatim>\<open>assert\<close> or call \<^verbatim>\<open>panic\<close> returns an
  \<^typ>\<open>'a option\<close>: \<^term>\<open>None\<close> is the panic, after which the kernel does not continue, and
  \<^term>\<open>Some\<close> carries the returned value and the new state. An operation whose C result is
  an \<^verbatim>\<open>int\<close> error code returns that integer (\<open>0\<close> or a negative code).
\<close>

unbundle bit_operations_syntax

section \<open>Machine integers\<close>

type_synonym u8 = "8 word"
type_synonym u32 = "32 word"
type_synonym u64 = "64 word"

section \<open>Error codes of \<^verbatim>\<open>error.h\<close>\<close>

definition E_INVAL :: int where [simp]: "E_INVAL = 3"
definition E_NO_MEM :: int where [simp]: "E_NO_MEM = 4"
definition E_TIMEOUT :: int where [simp]: "E_TIMEOUT = 11"
definition E_TOO_BIG :: int where [simp]: "E_TOO_BIG = 12"
definition E_BUSY :: int where [simp]: "E_BUSY = 15"
definition E_NOENT :: int where [simp]: "E_NOENT = 16"
definition E_MAX_OPEN :: int where [simp]: "E_MAX_OPEN = 22"

section \<open>The panic monad\<close>

text \<open>\<^verbatim>\<open>assert(b)\<close>: continue when \<open>b\<close> holds, panic otherwise.\<close>

definition kassert :: "bool \<Rightarrow> unit option" where
  "kassert b = (if b then Some () else None)"

lemma kassert_simps [simp]:
  "kassert True = Some ()" "kassert False = None"
  by (simp_all add: kassert_def)

lemma kassert_eq_Some [simp]: "(kassert b = Some u) = b"
  by (simp add: kassert_def)

lemma kassert_eq_None [simp]: "(kassert b = None) = (\<not> b)"
  by (simp add: kassert_def)

lemma kassert_bind [simp]: "b \<Longrightarrow> (kassert b \<bind> f) = f ()"
  by (simp add: kassert_def)

lemma kassert_bind_eq_Some [simp]:
  "((kassert b \<bind> f) = Some r) = (b \<and> f () = Some r)"
  by (simp add: kassert_def)

lemma bind_SomeE:
  assumes "(m \<bind> f) = Some r"
  obtains x where "m = Some x" and "f x = Some r"
  using assms by (cases m) auto

section \<open>Generic lemmas\<close>

lemma remove1_append_notin: "x \<notin> set xs \<Longrightarrow> remove1 x (xs @ ys) = xs @ remove1 x ys"
  by (simp add: remove1_append)

lemma length_remove1_in: "x \<in> set xs \<Longrightarrow> Suc (length (remove1 x xs)) = length xs"
  by (simp add: length_remove1) (metis Suc_pred length_pos_if_in_set)

lemma split_at_unique:
  "xs @ z # ys = us @ z # vs \<Longrightarrow> z \<notin> set xs \<Longrightarrow> z \<notin> set us \<Longrightarrow> xs = us \<and> ys = vs"
proof (induction xs arbitrary: us)
  case Nil
  then show ?case by (cases us) auto
next
  case (Cons x xs)
  then show ?case by (cases us) auto
qed

lemma map_update_same: "f y = f (xs ! i) \<Longrightarrow> map f (xs[i := y]) = map f xs"
  by (simp add: map_update) (metis list_update_id map_update)

lemma pow2_dvd_mono: "j \<le> k \<Longrightarrow> (2::nat) ^ k dvd n \<Longrightarrow> 2 ^ j dvd n"
  using le_imp_power_dvd dvd_trans by blast

lemma pow2_half: "0 < k \<Longrightarrow> (2::nat) ^ k = 2 ^ (k - 1) + 2 ^ (k - 1)"
  by (cases k) auto

lemma pow2_pos [simp]: "(0::nat) < 2 ^ k"
  by simp

lemma diff_pow2_less [simp]: "0 < n \<Longrightarrow> n - 2 ^ k < (n::nat)"
  by simp

lemma diff_pow2_less_le [simp]: "2 ^ k \<le> n \<Longrightarrow> n - 2 ^ k < (n::nat)"
  using pow2_pos [of k] by linarith

section \<open>Words as natural numbers\<close>

lemma unat_lt2p: "unat (w :: 'a::len word) < 2 ^ LENGTH('a)"
  by (rule unsigned_less)

lemma unat_of_nat_less: "n < 2 ^ LENGTH('a) \<Longrightarrow> unat (of_nat n :: 'a::len word) = n"
  by (simp add: unat_of_nat take_bit_nat_eq_self)

section \<open>Bits of natural numbers\<close>

lemma and_pred_pow2_eq_0: "(i AND (2 ^ k - 1) = 0) = (2 ^ k dvd (i::nat))"
proof -
  have "i AND (2 ^ k - 1) = i AND mask k" by (simp add: mask_eq_exp_minus_1)
  also have "\<dots> = i mod 2 ^ k" by (simp add: take_bit_eq_mod flip: take_bit_eq_mask)
  finally show ?thesis by (simp add: dvd_eq_mod_eq_0)
qed

lemma and_pow2_neq_0: "((i::nat) AND 2 ^ k \<noteq> 0) = odd (i div 2 ^ k)"
  by (simp add: and_exp_eq_0_iff_not_bit bit_iff_odd)

lemma xor_1_nat: "(m::nat) XOR 1 = (if even m then m + 1 else m - 1)"
  using xor_one_eq [of m] by (auto simp: of_bool_def)

lemma pow2_Suc_dvd_mult: "((2::nat) ^ Suc k dvd m * 2 ^ k) = even m"
proof -
  have "(2::nat) ^ Suc k = 2 * 2 ^ k" by simp
  then show ?thesis using nat_mult_dvd_cancel_disj [of "2 ^ k" 2 m] by (metis mult.commute power_not_zero zero_neq_numeral)
qed

lemma xor_pow2:
  assumes "2 ^ k dvd (i::nat)"
  shows "i XOR 2 ^ k = (if 2 ^ Suc k dvd i then i + 2 ^ k else i - 2 ^ k)"
proof -
  obtain m where i: "i = m * 2 ^ k" using assms by (metis dvd_div_mult_self)
  have "i XOR 2 ^ k = push_bit k m XOR push_bit k 1" by (simp add: i push_bit_eq_mult)
  also have "\<dots> = push_bit k (m XOR 1)" by (simp only: push_bit_xor)
  also have "\<dots> = (if even m then m + 1 else m - 1) * 2 ^ k" by (simp only: xor_1_nat push_bit_eq_mult)
  finally have eq: "i XOR 2 ^ k = (if even m then m + 1 else m - 1) * 2 ^ k" .
  have "(2 ^ Suc k dvd i) = even m" using i pow2_Suc_dvd_mult by simp
  with eq i show ?thesis by (simp add: algebra_simps diff_mult_distrib)
qed

lemma and_xor_pow2:
  assumes "2 ^ k dvd (i::nat)"
  shows "i AND (i XOR 2 ^ k) = (if 2 ^ Suc k dvd i then i else i - 2 ^ k)"
proof -
  obtain m where i: "i = m * 2 ^ k" using assms by (metis dvd_div_mult_self)
  have a: "m AND (m XOR 1) = (if even m then m else m - 1)"
    by (rule bit_eqI) (auto simp: bit_and_iff bit_xor_iff bit_1_iff xor_1_nat[symmetric] even_bit_succ_iff odd_bit_iff_bit_pred bit_0 intro!: gr0I)
  have "i AND (i XOR 2 ^ k) = push_bit k m AND (push_bit k m XOR push_bit k 1)"
    by (simp add: i push_bit_eq_mult)
  also have "\<dots> = push_bit k (m AND (m XOR 1))" by (simp only: push_bit_xor push_bit_and)
  also have "\<dots> = (if even m then m else m - 1) * 2 ^ k" by (simp only: a push_bit_eq_mult)
  finally have eq: "i AND (i XOR 2 ^ k) = (if even m then m else m - 1) * 2 ^ k" .
  have "(2 ^ Suc k dvd i) = even m" using i pow2_Suc_dvd_mult by simp
  with eq i show ?thesis by (simp add: diff_mult_distrib)
qed

end
