(* ===== verification/Strings.thy ===== *)
theory Strings
  imports Ucore_Prelude
begin

text \<open>
  The C string and memory functions of \<^verbatim>\<open>glue-ucore/libs/string.c\<close> and \<^verbatim>\<open>kern-ucore/libs/string.c\<close>, on a byte memory. Five of
  them are the assembly of \<^verbatim>\<open>glue-ucore/libs/x86.h\<close>, which every build selects: it is written with the string instructions of the
  processor below. A scan that only a NUL byte stops is a
  \<^theory_text>\<open>partial_function\<close>: it returns \<open>None\<close> where the C loop would not end, and the theorems show
  that it returns. Characters are bytes, pointers are natural numbers.
\<close>

type_synonym mem = "nat \<Rightarrow> u8"

section \<open>String instructions\<close>

text \<open>
  \<^verbatim>\<open>rep stosb\<close> and \<^verbatim>\<open>rep movsb\<close> with the count in \<^verbatim>\<open>rcx\<close>, the destination in \<^verbatim>\<open>rdi\<close> and the source in \<^verbatim>\<open>rsi\<close>; the direction flag
  of \<^verbatim>\<open>movsb\<close> is set by \<^verbatim>\<open>std\<close>. \<^verbatim>\<open>movsl\<close> loads four bytes and then stores them; \<^verbatim>\<open>rep movsl\<close> leaves the two pointers behind the
  last word.
\<close>

fun rep_stosb :: "mem \<Rightarrow> nat \<Rightarrow> u8 \<Rightarrow> nat \<Rightarrow> mem" where
  "rep_stosb m rdi al 0 = m"
| "rep_stosb m rdi al (Suc rcx) = rep_stosb (m(rdi := al)) (rdi + 1) al rcx"

fun rep_movsb :: "bool \<Rightarrow> mem \<Rightarrow> nat \<Rightarrow> nat \<Rightarrow> nat \<Rightarrow> mem" where
  "rep_movsb df m rdi rsi 0 = m"
| "rep_movsb df m rdi rsi (Suc rcx) =
     (if df then rep_movsb df (m(rdi := m rsi)) (rdi - 1) (rsi - 1) rcx else rep_movsb df (m(rdi := m rsi)) (rdi + 1) (rsi + 1) rcx)"

definition movsl :: "mem \<Rightarrow> nat \<Rightarrow> nat \<Rightarrow> mem" where
  "movsl m rdi rsi = m(rdi := m rsi, rdi + 1 := m (rsi + 1), rdi + 2 := m (rsi + 2), rdi + 3 := m (rsi + 3))"

fun rep_movsl :: "mem \<Rightarrow> nat \<Rightarrow> nat \<Rightarrow> nat \<Rightarrow> mem \<times> nat \<times> nat" where
  "rep_movsl m rdi rsi 0 = (m, rdi, rsi)"
| "rep_movsl m rdi rsi (Suc rcx) = rep_movsl (movsl m rdi rsi) (rdi + 4) (rsi + 4) rcx"

section \<open>The code\<close>

partial_function (option) strlen_loop :: "mem \<Rightarrow> nat \<Rightarrow> nat \<Rightarrow> nat option" where
  "strlen_loop m s cnt = (if m s \<noteq> 0 then strlen_loop m (s + 1) (cnt + 1) else Some cnt)"

definition strlen :: "mem \<Rightarrow> nat \<Rightarrow> nat option" where
  "strlen m s = strlen_loop m s 0"

function strnlen_loop :: "mem \<Rightarrow> nat \<Rightarrow> nat \<Rightarrow> nat \<Rightarrow> nat" where
  "strnlen_loop m s len cnt =
     (if cnt < len \<and> m s \<noteq> 0 then strnlen_loop m (s + 1) len (cnt + 1) else cnt)"
  by pat_completeness auto
termination
  by (relation "measure (\<lambda>(m, s, len, cnt). len - cnt)") auto

declare strnlen_loop.simps [simp del]

definition strnlen :: "mem \<Rightarrow> nat \<Rightarrow> nat \<Rightarrow> nat" where
  "strnlen m s len = strnlen_loop m s len 0"

text \<open>\<^verbatim>\<open>__strcpy\<close>: \<^verbatim>\<open>lodsb\<close>, \<^verbatim>\<open>stosb\<close>, and again unless the byte was 0.\<close>

partial_function (option) strcpy_asm :: "mem \<Rightarrow> nat \<Rightarrow> nat \<Rightarrow> mem option" where
  "strcpy_asm m rdi rsi =
     (let al = m rsi; m' = m(rdi := al) in if al \<noteq> 0 then strcpy_asm m' (rdi + 1) (rsi + 1) else Some m')"

definition strcpy :: "mem \<Rightarrow> nat \<Rightarrow> nat \<Rightarrow> mem option" where
  "strcpy m dst src = strcpy_asm m dst src"

fun strncpy :: "mem \<Rightarrow> nat \<Rightarrow> nat \<Rightarrow> nat \<Rightarrow> mem" where
  "strncpy m p src 0 = m"
| "strncpy m p src (Suc len) =
     (let m' = m(p := m src) in strncpy m' (p + 1) (if m src \<noteq> 0 then src + 1 else src) len)"

definition strcat :: "mem \<Rightarrow> nat \<Rightarrow> nat \<Rightarrow> mem option" where
  "strcat m dst src = do { n \<leftarrow> strlen m dst; strcpy m (dst + n) src }"

text \<open>\<^verbatim>\<open>(int)((unsigned char)*s1 - (unsigned char)*s2)\<close>.\<close>

definition char_diff :: "u8 \<Rightarrow> u8 \<Rightarrow> int" where
  "char_diff a b = uint a - uint b"

text \<open>
  \<^verbatim>\<open>__strcmp\<close>: \<^verbatim>\<open>scasb\<close> compares the byte that \<^verbatim>\<open>lodsb\<close> loaded as an unsigned number; after a difference \<^verbatim>\<open>sbbl\<close> spreads the borrow
  over \<^verbatim>\<open>eax\<close> and \<^verbatim>\<open>orb\<close> sets its lowest bit.
\<close>

partial_function (option) strcmp_asm :: "mem \<Rightarrow> nat \<Rightarrow> nat \<Rightarrow> int option" where
  "strcmp_asm m rsi rdi =
     (let al = m rsi in
      if al \<noteq> m rdi then Some (if al < m rdi then - 1 else 1)
      else if al \<noteq> 0 then strcmp_asm m (rsi + 1) (rdi + 1)
      else Some 0)"

definition strcmp :: "mem \<Rightarrow> nat \<Rightarrow> nat \<Rightarrow> int option" where
  "strcmp m s1 s2 = strcmp_asm m s1 s2"

fun strncmp :: "mem \<Rightarrow> nat \<Rightarrow> nat \<Rightarrow> nat \<Rightarrow> int" where
  "strncmp m s1 s2 0 = 0"
| "strncmp m s1 s2 (Suc n) =
     (if m s1 \<noteq> 0 \<and> m s1 = m s2 then strncmp m (s1 + 1) (s2 + 1) n else char_diff (m s1) (m s2))"

partial_function (option) strchr :: "mem \<Rightarrow> nat \<Rightarrow> u8 \<Rightarrow> nat option option" where
  "strchr m s c = (if m s \<noteq> 0 then if m s = c then Some (Some s) else strchr m (s + 1) c else Some None)"

partial_function (option) strfind :: "mem \<Rightarrow> nat \<Rightarrow> u8 \<Rightarrow> nat option" where
  "strfind m s c = (if m s \<noteq> 0 \<and> m s \<noteq> c then strfind m (s + 1) c else Some s)"

subsection \<open>\<^verbatim>\<open>strtol\<close>\<close>

partial_function (option) skip_blanks :: "mem \<Rightarrow> nat \<Rightarrow> nat option" where
  "skip_blanks m s = (if m s = 0x20 \<or> m s = 0x09 then skip_blanks m (s + 1) else Some s)"

text \<open>The value of a digit character, in any base.\<close>

definition digit_value :: "u8 \<Rightarrow> int option" where
  "digit_value c =
     (if 0x30 \<le> c \<and> c \<le> 0x39 then Some (uint c - 0x30)
      else if 0x61 \<le> c \<and> c \<le> 0x7A then Some (uint c - 0x61 + 10)
      else if 0x41 \<le> c \<and> c \<le> 0x5A then Some (uint c - 0x41 + 10)
      else None)"

text \<open>\<^verbatim>\<open>val\<close> is a \<^verbatim>\<open>long\<close>: the products and sums are taken in 64 bits.\<close>

partial_function (option) strtol_digits :: "mem \<Rightarrow> nat \<Rightarrow> int \<Rightarrow> u64 \<Rightarrow> (u64 \<times> nat) option" where
  "strtol_digits m s base val =
     (case digit_value (m s) of
        None \<Rightarrow> Some (val, s)
      | Some dig \<Rightarrow>
          if dig \<ge> base then Some (val, s)
          else strtol_digits m (s + 1) base (val * of_int base + of_int dig))"

definition strtol_sign :: "mem \<Rightarrow> nat \<Rightarrow> nat \<times> bool" where
  "strtol_sign m s = (if m s = 0x2B then (s + 1, False) else if m s = 0x2D then (s + 1, True) else (s, False))"

definition strtol_base :: "mem \<Rightarrow> nat \<Rightarrow> int \<Rightarrow> nat \<times> int" where
  "strtol_base m s base =
     (if (base = 0 \<or> base = 16) \<and> m s = 0x30 \<and> m (s + 1) = 0x78 then (s + 2, 16)
      else if base = 0 \<and> m s = 0x30 then (s + 1, 8)
      else if base = 0 then (s, 10)
      else (s, base))"

definition strtol :: "mem \<Rightarrow> nat \<Rightarrow> int \<Rightarrow> (int \<times> nat) option" where
  "strtol m s base = do {
     s \<leftarrow> skip_blanks m s;
     (case strtol_sign m s of (s, neg) \<Rightarrow>
      (case strtol_base m s base of (s, base) \<Rightarrow> do {
         (val, endptr) \<leftarrow> strtol_digits m s base 0;
         Some (sint (if neg then - val else val), endptr)
       }))
   }"

subsection \<open>Memory blocks\<close>

definition memset :: "mem \<Rightarrow> nat \<Rightarrow> u8 \<Rightarrow> nat \<Rightarrow> mem" where
  "memset m p c n = rep_stosb m p c n"

text \<open>\<^verbatim>\<open>__memcpy\<close> moves whole words and then, if the last two bits of the low half of \<^verbatim>\<open>n\<close> are not 0, the bytes that remain.\<close>

definition memcpy_asm :: "mem \<Rightarrow> nat \<Rightarrow> nat \<Rightarrow> nat \<Rightarrow> mem" where
  "memcpy_asm m dst src n =
     (case rep_movsl m dst src (n div 4) of (m, rdi, rsi) \<Rightarrow>
      let ecx = (of_nat n :: u32) AND 3 in if ecx = 0 then m else rep_movsb False m rdi rsi (unat ecx))"

definition memcpy :: "mem \<Rightarrow> nat \<Rightarrow> nat \<Rightarrow> nat \<Rightarrow> mem" where
  "memcpy m dst src n = memcpy_asm m dst src n"

definition memmove_asm :: "mem \<Rightarrow> nat \<Rightarrow> nat \<Rightarrow> nat \<Rightarrow> mem" where
  "memmove_asm m dst src n =
     (if dst < src then memcpy_asm m dst src n else rep_movsb True m (n - 1 + dst) (n - 1 + src) n)"

definition memmove :: "mem \<Rightarrow> nat \<Rightarrow> nat \<Rightarrow> nat \<Rightarrow> mem" where
  "memmove m dst src n = memmove_asm m dst src n"

fun memcmp :: "mem \<Rightarrow> nat \<Rightarrow> nat \<Rightarrow> nat \<Rightarrow> int" where
  "memcmp m s1 s2 0 = 0"
| "memcmp m s1 s2 (Suc n) =
     (if m s1 \<noteq> m s2 then char_diff (m s1) (m s2) else memcmp m (s1 + 1) (s2 + 1) n)"

text \<open>\<^verbatim>\<open>strdup\<close> and \<^verbatim>\<open>stradd\<close>; the result of \<^verbatim>\<open>kmalloc\<close> is an argument.\<close>

definition strdup :: "mem \<Rightarrow> nat \<Rightarrow> nat option \<Rightarrow> (nat option \<times> mem) option" where
  "strdup m src buf = do {
     len \<leftarrow> strlen m src;
     Some (case buf of
         None \<Rightarrow> (None, m)
       | Some dst \<Rightarrow> (Some dst, (memcpy m dst src len)(dst + len := 0)))
   }"

definition stradd :: "mem \<Rightarrow> nat \<Rightarrow> nat \<Rightarrow> nat option \<Rightarrow> (nat option \<times> mem) option" where
  "stradd m src1 src2 buf = do {
     len1 \<leftarrow> strlen m src1;
     len2 \<leftarrow> strlen m src2;
     Some (case buf of
         None \<Rightarrow> (None, m)
       | Some dst \<Rightarrow>
           (Some dst, (memcpy (memcpy m dst src1 len1) (dst + len1) src2 len2)(dst + len1 + len2 := 0)))
   }"

subsection \<open>\<^verbatim>\<open>printnum\<close>\<close>

text \<open>The characters \<^verbatim>\<open>printnum\<close> hands to \<^verbatim>\<open>putch\<close>, in order; \<^verbatim>\<open>do_div\<close> divides and gives the remainder.\<close>

definition digit_char :: "nat \<Rightarrow> u8" where
  "digit_char d =
     [0x30, 0x31, 0x32, 0x33, 0x34, 0x35, 0x36, 0x37, 0x38, 0x39, 0x61, 0x62, 0x63, 0x64, 0x65, 0x66] ! d"

partial_function (option) printnum :: "nat \<Rightarrow> nat \<Rightarrow> int \<Rightarrow> u8 \<Rightarrow> u8 list option" where
  "printnum num base width padc = do {
     front \<leftarrow> (if num \<ge> base then printnum (num div base) base (width - 1) padc
       else Some (replicate (nat (width - 1)) padc));
     Some (front @ [digit_char (num mod base)])
   }"

section \<open>C strings\<close>

fun c_str :: "mem \<Rightarrow> nat \<Rightarrow> u8 list \<Rightarrow> bool" where
  "c_str m s [] = (m s = 0)"
| "c_str m s (c # cs) = (m s = c \<and> c \<noteq> 0 \<and> c_str m (s + 1) cs)"

lemma c_str_cong: "(\<And>a. s \<le> a \<Longrightarrow> a \<le> s + length xs \<Longrightarrow> m' a = m a) \<Longrightarrow> c_str m' s xs = c_str m s xs"
  by (induction xs arbitrary: s) auto

lemma strlen_loop_c_str: "c_str m s xs \<Longrightarrow> strlen_loop m s cnt = Some (cnt + length xs)"
  by (induction xs arbitrary: s cnt) (simp_all add: strlen_loop.simps)

lemma strlen_c_str: "c_str m s xs \<Longrightarrow> strlen m s = Some (length xs)"
  by (simp add: strlen_def strlen_loop_c_str)

lemma strnlen_loop_c_str:
  "c_str m s xs \<Longrightarrow> cnt \<le> len \<Longrightarrow> strnlen_loop m s len cnt = min len (cnt + length xs)"
proof (induction xs arbitrary: s cnt)
  case (Cons x xs)
  then show ?case
    by (cases "cnt < len") (auto simp: strnlen_loop.simps [of m s len])
qed (simp add: strnlen_loop.simps)

lemma strnlen_c_str: "c_str m s xs \<Longrightarrow> strnlen m s len = min len (length xs)"
  by (simp add: strnlen_def strnlen_loop_c_str)

text \<open>A block of memory equal to another, everything else unchanged: the reference for all copies.\<close>

definition block_copy :: "mem \<Rightarrow> nat \<Rightarrow> nat \<Rightarrow> nat \<Rightarrow> mem" where
  "block_copy m dst src n = (\<lambda>a. if dst \<le> a \<and> a < dst + n then m (src + (a - dst)) else m a)"

lemma block_copy_apply:
  "block_copy m dst src n a = (if dst \<le> a \<and> a < dst + n then m (src + (a - dst)) else m a)"
  by (simp add: block_copy_def)

lemma movsb_back_eq: "src \<le> dst \<Longrightarrow> rep_movsb True m (n - 1 + dst) (n - 1 + src) n = block_copy m dst src n"
proof (induction n arbitrary: m)
  case (Suc n)
  let ?m = "m(n + dst := m (n + src))"
  have "rep_movsb True m (Suc n - 1 + dst) (Suc n - 1 + src) (Suc n) = rep_movsb True ?m (n - 1 + dst) (n - 1 + src) n" by (cases n) simp_all
  also have "\<dots> = block_copy ?m dst src n" by (rule Suc.IH [OF Suc.prems])
  also have "\<dots> = block_copy m dst src (Suc n)"
    using Suc.prems by (auto simp: block_copy_apply fun_eq_iff less_Suc_eq add.commute)
  finally show ?case .
qed (auto simp: block_copy_apply fun_eq_iff)

text \<open>A copy upwards can be cut anywhere when the destination is not above the source.\<close>

lemma block_copy_add:
  assumes "dst \<le> src \<or> src + k + n \<le> dst"
  shows "block_copy (block_copy m dst src k) (dst + k) (src + k) n = block_copy m dst src (k + n)"
proof
  fix a
  show "block_copy (block_copy m dst src k) (dst + k) (src + k) n a = block_copy m dst src (k + n) a"
  proof (cases "dst + k \<le> a")
    case True
    then obtain i where "a = dst + k + i" using le_Suc_ex by blast
    then show ?thesis using assms by (auto simp: block_copy_apply add.assoc)
  qed (auto simp: block_copy_apply)
qed

lemma block_copy_1: "block_copy m dst src (Suc 0) = m(dst := m src)"
  by (auto simp: block_copy_apply fun_eq_iff)

lemma movsl_eq: "movsl m dst src = block_copy m dst src 4"
proof
  fix a
  consider "a < dst" | "a = dst" | "a = dst + 1" | "a = dst + 2" | "a = dst + 3" | "dst + 4 \<le> a" by linarith
  then show "movsl m dst src a = block_copy m dst src 4 a" by cases (simp_all add: movsl_def block_copy_apply)
qed

lemma movsb_fwd_eq: "dst \<le> src \<or> src + n \<le> dst \<Longrightarrow> rep_movsb False m dst src n = block_copy m dst src n"
proof (induction n arbitrary: m dst src)
  case (Suc n)
  then show ?case using block_copy_add [of dst src 1 n m] by (auto simp: block_copy_1 fun_upd_def)
qed (auto simp: block_copy_apply fun_eq_iff)

lemma movsl_rep_eq:
  "dst \<le> src \<or> src + 4 * c \<le> dst \<Longrightarrow> rep_movsl m dst src c = (block_copy m dst src (4 * c), dst + 4 * c, src + 4 * c)"
proof (induction c arbitrary: m dst src)
  case (Suc c)
  then show ?case using block_copy_add [of dst src 4 "4 * c" m] by (auto simp: movsl_eq)
qed (auto simp: block_copy_apply fun_eq_iff)

lemma low_bits: "unat ((of_nat n :: u32) AND 3) = n mod 4"
proof -
  have "(of_nat n :: u32) AND 3 = take_bit 2 (of_nat n)" by (simp add: take_bit_eq_mask mask_eq_exp_minus_1)
  then have "unat ((of_nat n :: u32) AND 3) = take_bit 2 (unat (of_nat n :: u32))" by (simp add: unsigned_take_bit_eq)
  then show ?thesis by (simp add: unat_of_nat take_bit_eq_mod mod_mod_cancel)
qed

lemma memcpy_eq: "dst \<le> src \<or> src + n \<le> dst \<Longrightarrow> memcpy m dst src n = block_copy m dst src n"
proof -
  assume d: "dst \<le> src \<or> src + n \<le> dst"
  have n: "4 * (n div 4) + n mod 4 = n" by simp
  have d4: "dst \<le> src \<or> src + 4 * (n div 4) \<le> dst" "dst \<le> src \<or> src + 4 * (n div 4) + n mod 4 \<le> dst"
    "dst + 4 * (n div 4) \<le> src + 4 * (n div 4) \<or> src + 4 * (n div 4) + n mod 4 \<le> dst + 4 * (n div 4)" using d n by linarith+
  have z: "(of_nat n :: u32) AND 3 = 0 \<longleftrightarrow> n mod 4 = 0" using low_bits [of n] by (metis unat_eq_zero)
  show ?thesis
  proof (cases "n mod 4 = 0")
    case True
    then show ?thesis using movsl_rep_eq [OF d4(1), of m] n by (simp add: memcpy_def memcpy_asm_def z)
  next
    case False
    then show ?thesis using movsl_rep_eq [OF d4(1), of m] movsb_fwd_eq [OF d4(3)] block_copy_add [OF d4(2)]
      by (simp add: memcpy_def memcpy_asm_def z low_bits Let_def)
  qed
qed

lemma memmove_eq: "memmove m dst src n = block_copy m dst src n"
proof (cases "dst < src")
  case True
  then show ?thesis using memcpy_eq [of dst src n m] by (simp add: memmove_def memmove_asm_def memcpy_def)
next
  case False
  then show ?thesis using movsb_back_eq [of src dst m n] by (simp add: memmove_def memmove_asm_def)
qed

lemma memset_eq: "memset m p c n = (\<lambda>a. if p \<le> a \<and> a < p + n then c else m a)"
proof -
  have "rep_stosb m p c n = (\<lambda>a. if p \<le> a \<and> a < p + n then c else m a)"
    by (induction n arbitrary: m p) (auto simp: fun_eq_iff)
  then show ?thesis by (simp add: memset_def)
qed

lemma char_diff_eq_0 [simp]: "char_diff a b = 0 \<longleftrightarrow> a = b"
  by (simp add: char_diff_def word_uint_eq_iff)

lemma char_diff_neg [simp]: "char_diff a b < 0 \<longleftrightarrow> a < b"
  by (simp add: char_diff_def word_less_def)

lemma memcmp_eq: "(memcmp m s1 s2 n = 0) = (\<forall>i < n. m (s1 + i) = m (s2 + i))"
proof (induction n arbitrary: s1 s2)
  case (Suc n)
  have "(\<forall>i < Suc n. m (s1 + i) = m (s2 + i)) = (m s1 = m s2 \<and> (\<forall>i < n. m (s1 + 1 + i) = m (s2 + 1 + i)))"
    by (auto simp: less_Suc_eq_0_disj)
  then show ?case using Suc [of "s1 + 1" "s2 + 1"] by auto
qed simp

lemma strcpy_c_str:
  assumes "c_str m src xs" and "src + length xs < dst \<or> dst + length xs < src"
  shows "strcpy m dst src = Some (block_copy m dst src (length xs + 1))"
  using assms unfolding strcpy_def
proof (induction xs arbitrary: m dst src)
  case Nil
  then show ?case by (simp add: strcpy_asm.simps [of m dst src] block_copy_1 fun_upd_def)
next
  case (Cons c cs)
  let ?m = "m(dst := m src)"
  have "c_str ?m (src + 1) cs" using Cons.prems c_str_cong [of "src + 1" cs ?m m] by auto
  then have "strcpy_asm ?m (dst + 1) (src + 1) = Some (block_copy ?m (dst + 1) (src + 1) (length cs + 1))"
    by (rule Cons.IH) (use Cons.prems in auto)
  moreover have "block_copy ?m (dst + 1) (src + 1) (length cs + 1) = block_copy m dst src (length (c # cs) + 1)"
    using Cons.prems block_copy_add [of dst src 1 "length cs + 1" m] by (auto simp: block_copy_1)
  ultimately show ?case using Cons.prems by (simp add: strcpy_asm.simps [of m dst src])
qed

lemma c_str_block_copy:
  "c_str m src xs \<Longrightarrow> length xs < n \<Longrightarrow> c_str (block_copy m dst src n) dst xs"
proof -
  have "c_str m src xs \<Longrightarrow> (\<And>i. i \<le> length xs \<Longrightarrow> m' (dst + i) = m (src + i)) \<Longrightarrow> c_str m' dst xs" for m' dst src
  proof (induction xs arbitrary: dst src)
    case (Cons c cs)
    have "m' (dst + 1 + i) = m (src + 1 + i)" if "i \<le> length cs" for i
      using Cons.prems(2) [of "Suc i"] that by simp
    then have "c_str m' (dst + 1) cs" using Cons.IH [of "src + 1" "dst + 1"] Cons.prems(1) by simp
    then show ?case using Cons.prems(1) Cons.prems(2) [of 0] by simp
  qed force
  then show "c_str m src xs \<Longrightarrow> length xs < n \<Longrightarrow> c_str (block_copy m dst src n) dst xs"
    by (auto simp: block_copy_apply)
qed

lemma strcat_c_str:
  assumes "c_str m dst xs" and "c_str m src ys"
    and "src + length ys < dst \<or> dst + length xs + length ys < src"
  shows "strcat m dst src = Some (block_copy m (dst + length xs) src (length ys + 1))"
proof -
  have "strcpy m (dst + length xs) src = Some (block_copy m (dst + length xs) src (length ys + 1))"
    by (rule strcpy_c_str [OF assms(2)]) (use assms(3) in linarith)
  then show ?thesis using assms(1) by (simp add: strcat_def strlen_c_str)
qed

lemma c_str_append:
  "(\<And>i. i < length xs \<Longrightarrow> m (s + i) = xs ! i) \<Longrightarrow> 0 \<notin> set xs \<Longrightarrow> c_str m s (xs @ ys) = c_str m (s + length xs) ys"
proof (induction xs arbitrary: s)
  case (Cons x xs)
  have "m (s + 1 + i) = xs ! i" if "i < length xs" for i
    using Cons.prems(1) [of "Suc i"] that by simp
  then show ?case using Cons.IH [of "s + 1"] Cons.prems(2) Cons.prems(1) [of 0] by force
qed simp

lemma c_str_nth: "c_str m s xs \<Longrightarrow> i < length xs \<Longrightarrow> m (s + i) = xs ! i \<and> xs ! i \<noteq> 0"
proof (induction xs arbitrary: s i)
  case (Cons x xs)
  then show ?case by (cases i) fastforce+
qed simp

lemma c_str_end: "c_str m s xs \<Longrightarrow> m (s + length xs) = 0"
  by (induction xs arbitrary: s) fastforce+

lemma c_str_iff:
  "c_str m s xs \<longleftrightarrow> (\<forall>i < length xs. m (s + i) = xs ! i) \<and> 0 \<notin> set xs \<and> m (s + length xs) = 0"
  using c_str_append [of xs m s "[]"] c_str_nth [of m s xs] c_str_end [of m s xs]
  by (auto simp: in_set_conv_nth)

lemma strdup_c_str:
  assumes "c_str m src xs" and "src + length xs < dst \<or> dst + length xs < src"
  obtains m' where "strdup m src (Some dst) = Some (Some dst, m')" and "c_str m' dst xs"
    and "\<And>a. a < dst \<or> dst + length xs < a \<Longrightarrow> m' a = m a"
proof
  let ?m = "(memcpy m dst src (length xs))(dst + length xs := 0)"
  have *: "memcpy m dst src (length xs) = block_copy m dst src (length xs)"
    using assms(2) by (intro memcpy_eq) auto
  show "strdup m src (Some dst) = Some (Some dst, ?m)" using assms(1) by (simp add: strdup_def strlen_c_str)
  show "c_str ?m dst xs" using assms(1) unfolding * by (auto simp: c_str_iff block_copy_apply)
  show "?m a = m a" if "a < dst \<or> dst + length xs < a" for a
    using that unfolding * by (auto simp: block_copy_apply)
qed

lemma stradd_c_str:
  assumes "c_str m src1 xs" and "c_str m src2 ys"
    and "src1 + length xs < dst \<or> dst + length xs + length ys < src1"
    and "src2 + length ys < dst \<or> dst + length xs + length ys < src2"
  obtains m' where "stradd m src1 src2 (Some dst) = Some (Some dst, m')" and "c_str m' dst (xs @ ys)"
    and "\<And>a. a < dst \<or> dst + length xs + length ys < a \<Longrightarrow> m' a = m a"
proof
  let ?m1 = "memcpy m dst src1 (length xs)"
  let ?m = "(memcpy ?m1 (dst + length xs) src2 (length ys))(dst + length xs + length ys := 0)"
  have 1: "?m1 = block_copy m dst src1 (length xs)" using assms(3) by (intro memcpy_eq) auto
  have 2: "memcpy ?m1 (dst + length xs) src2 (length ys) = block_copy ?m1 (dst + length xs) src2 (length ys)"
    using assms(4) by (intro memcpy_eq) auto
  show "stradd m src1 src2 (Some dst) = Some (Some dst, ?m)"
    using assms(1,2) by (simp add: stradd_def strlen_c_str)
  have "?m (dst + i) = (xs @ ys) ! i" if i: "i < length xs + length ys" for i
  proof (cases "i < length xs")
    case False
    then obtain k where "i = length xs + k" using le_Suc_ex not_less by blast
    then show ?thesis
      using assms i unfolding 2 unfolding 1 by (auto simp: c_str_iff block_copy_apply nth_append)
  qed (use assms in \<open>auto simp: 1 2 [unfolded 1] c_str_iff block_copy_apply nth_append\<close>)
  then show "c_str ?m dst (xs @ ys)" using assms(1,2) by (auto simp: c_str_iff)
  show "?m a = m a" if "a < dst \<or> dst + length xs + length ys < a" for a
    using that unfolding 2 unfolding 1 by (auto simp: block_copy_apply)
qed

lemma strcmp_c_str:
  assumes "c_str m s1 xs" and "c_str m s2 ys"
  shows "\<exists>r. strcmp m s1 s2 = Some r \<and> (r = 0 \<longleftrightarrow> xs = ys) \<and> (r < 0 \<longleftrightarrow> (xs, ys) \<in> lexord {(a, b). a < b})"
  using assms unfolding strcmp_def
proof (induction xs arbitrary: s1 s2 ys)
  case Nil
  then show ?case by (cases ys) (auto simp: strcmp_asm.simps [of m s1 s2] word_gt_0)
next
  case (Cons x xs)
  show ?case
  proof (cases ys)
    case Nil
    then show ?thesis using Cons.prems by (auto simp: strcmp_asm.simps [of m s1 s2])
  next
    case (Cons y zs)
    then show ?thesis
      using Cons.prems Cons.IH [of "s1 + 1" "s2 + 1" zs]
      by (cases "x = y") (auto simp: strcmp_asm.simps [of m s1 s2])
  qed
qed

lemma strncmp_c_str:
  assumes "c_str m s1 xs" and "c_str m s2 ys"
  shows "strncmp m s1 s2 n = 0 \<longleftrightarrow> take n xs = take n ys"
  using assms
proof (induction n arbitrary: s1 s2 xs ys)
  case (Suc n)
  show ?case
  proof (cases xs; cases ys)
    fix x xs' y ys'
    assume "xs = x # xs'" "ys = y # ys'"
    then show ?thesis using Suc.prems Suc.IH [of "s1 + 1" xs' "s2 + 1" ys'] by auto
  qed (use Suc.prems in auto)
qed simp

lemma strfind_c_str:
  "c_str m s xs \<Longrightarrow> strfind m s c = Some (s + length (takeWhile (\<lambda>x. x \<noteq> c) xs))"
  by (induction xs arbitrary: s) (auto simp: strfind.simps)

lemma strchr_c_str:
  "c_str m s xs \<Longrightarrow> strchr m s c =
     Some (if c \<in> set xs then Some (s + length (takeWhile (\<lambda>x. x \<noteq> c) xs)) else None)"
  by (induction xs arbitrary: s) (auto simp: strchr.simps)

lemma strncpy_c_str:
  assumes "c_str m src xs" and "src + length xs < dst \<or> dst + n \<le> src"
  shows "strncpy m dst src n = (\<lambda>a. if dst \<le> a \<and> a < dst + n then m (src + min (a - dst) (length xs)) else m a)"
  using assms
proof (induction n arbitrary: m dst src xs)
  case (Suc n)
  let ?m = "m(dst := m src)"
  show ?case
  proof (cases xs)
    case Nil
    then have "c_str ?m src []" using Suc.prems by auto
    then have "strncpy ?m (dst + 1) src n =
      (\<lambda>a. if dst + 1 \<le> a \<and> a < dst + 1 + n then ?m (src + min (a - (dst + 1)) 0) else ?m a)"
      by (rule Suc.IH [of ?m src "[]" "dst + 1", unfolded list.size]) (use Suc.prems Nil in auto)
    then show ?thesis using Suc.prems Nil by (auto simp: fun_eq_iff)
  next
    case (Cons y ys)
    have c: "c_str ?m (src + 1) ys" using Suc.prems Cons c_str_cong [of "src + 1" ys ?m m] by auto
    have "strncpy ?m (dst + 1) (src + 1) n a =
      (if dst + 1 \<le> a \<and> a < dst + 1 + n then ?m (src + 1 + min (a - (dst + 1)) (length ys)) else ?m a)" for a
      by (subst Suc.IH [OF c, of "dst + 1"]) (use Suc.prems Cons in auto)
    moreover have "src + 1 + min (a - (dst + 1)) (length ys) = src + min (a - dst) (length xs)" if "dst + 1 \<le> a" for a
      using that Cons by auto
    ultimately have "strncpy ?m (dst + 1) (src + 1) n a =
      (if dst + 1 \<le> a \<and> a < dst + 1 + n then ?m (src + min (a - dst) (length xs)) else ?m a)" for a
      by metis
    then show ?thesis using Suc.prems Cons by (auto simp: fun_eq_iff)
  qed
qed (auto simp: fun_eq_iff)

subsection \<open>Numbers\<close>

lemma digit_char_value: "d < 16 \<Longrightarrow> digit_value (digit_char d) = Some (int d)"
proof -
  assume d: "d < 16"
  have "\<forall>d \<in> {..<16}. digit_value (digit_char d) = Some (int d)"
    by (simp add: lessThan_nat_numeral lessThan_Suc digit_value_def digit_char_def)
  then show ?thesis using d by blast
qed

lemma digit_char_plain: "d < 16 \<Longrightarrow> digit_char d \<notin> {0, 0x09, 0x20, 0x2B, 0x2D, 0x78}"
proof -
  assume d: "d < 16"
  have "\<forall>d \<in> {..<16}. digit_char d \<notin> {0, 0x09, 0x20, 0x2B, 0x2D, 0x78}"
    by (simp add: lessThan_nat_numeral lessThan_Suc digit_char_def)
  then show ?thesis using d by blast
qed

definition of_digits :: "nat \<Rightarrow> nat \<Rightarrow> nat list \<Rightarrow> nat" where
  "of_digits base v ds = foldl (\<lambda>v d. v * base + d) v ds"

lemma of_digits_simps [simp]:
  "of_digits base v [] = v"
  "of_digits base v (d # ds) = of_digits base (v * base + d) ds"
  "of_digits base v (ds @ [d]) = of_digits base v ds * base + d"
  by (simp_all add: of_digits_def)

lemma printnum_digits:
  assumes "2 \<le> base"
  shows "\<exists>k ds. printnum num base width padc = Some (replicate k padc @ map digit_char ds) \<and> ds \<noteq> [] \<and>
    (\<forall>d \<in> set ds. d < base) \<and> of_digits base 0 ds = num \<and> k = nat (width - int (length ds))"
proof (induction num arbitrary: width rule: less_induct)
  case (less num)
  show ?case
  proof (cases "num \<ge> base")
    case True
    then have "num div base < num" using assms by (intro div_less_dividend) auto
    from less [OF this, of "width - 1"] obtain k ds where
      "printnum (num div base) base (width - 1) padc = Some (replicate k padc @ map digit_char ds)"
      "ds \<noteq> []" "\<forall>d \<in> set ds. d < base" "of_digits base 0 ds = num div base" "k = nat (width - 1 - int (length ds))"
      by blast
    then show ?thesis using True assms
      by (intro exI [of _ k] exI [of _ "ds @ [num mod base]"]) (auto simp: printnum.simps [of num] algebra_simps)
  next
    case False
    then show ?thesis
      by (intro exI [of _ "nat (width - 1)"] exI [of _ "[num]"]) (auto simp: printnum.simps [of num])
  qed
qed

lemma strtol_digits_digits:
  assumes "c_str m s (map digit_char ds)" and "\<forall>d \<in> set ds. d < base" and "base \<le> 16"
  shows "strtol_digits m s (int base) (of_nat v) = Some (of_nat (of_digits base v ds), s + length ds)"
  using assms
proof (induction ds arbitrary: s v)
  case Nil
  then show ?case by (simp add: strtol_digits.simps [of m s] digit_value_def)
next
  case (Cons d ds)
  then have "digit_value (m s) = Some (int d)" by (auto intro!: digit_char_value)
  moreover have "(of_nat v * of_int (int base) + of_int (int d) :: u64) = of_nat (v * base + d)" by simp
  ultimately show ?case
    using Cons.IH [of "s + 1" "v * base + d"] Cons.prems
    by (simp add: strtol_digits.simps [of m s] del: of_nat_add of_nat_mult)
qed

lemma sint_of_nat_small: "n < 2 ^ 63 \<Longrightarrow> sint (of_nat n :: u64) = int n"
  by (simp add: signed_of_nat signed_take_bit_int_eq_self_iff)

text \<open>What \<^verbatim>\<open>printnum\<close> prints without padding, \<^verbatim>\<open>strtol\<close> reads back.\<close>

lemma strtol_printnum:
  assumes base: "2 \<le> base" "base \<le> 16" and num: "num < 2 ^ 63" and w: "width \<le> 1"
    and str: "printnum num base width padc = Some cs" "c_str m s cs"
  shows "strtol m s (int base) = Some (int num, s + length cs)"
proof -
  obtain ds where cs: "cs = map digit_char ds" and ds: "ds \<noteq> []" "\<forall>d \<in> set ds. d < base" "of_digits base 0 ds = num"
  proof -
    obtain k ds where *: "printnum num base width padc = Some (replicate k padc @ map digit_char ds)"
      "ds \<noteq> []" "\<forall>d \<in> set ds. d < base" "of_digits base 0 ds = num" "k = nat (width - int (length ds))"
      using printnum_digits [OF base(1), of num width padc] by blast
    moreover have "k = 0" using * w by (cases ds) auto
    ultimately show thesis using that [of ds] str(1) by simp
  qed
  have c: "c_str m s (map digit_char ds)" using str(2) cs by simp
  obtain e es where es: "ds = e # es" using ds(1) by (cases ds) auto
  have e: "m s = digit_char e" "m s \<notin> {0, 0x09, 0x20, 0x2B, 0x2D, 0x78}"
    using c es ds(2) base(2) digit_char_plain [of e] by auto
  have "m (s + 1) \<noteq> 0x78"
    using c es ds(2) base(2) digit_char_plain by (cases es) auto
  then have "strtol_base m s (int base) = (s, int base)" "strtol_sign m s = (s, False)" "skip_blanks m s = Some s"
    using e base by (auto simp: strtol_base_def strtol_sign_def skip_blanks.simps [of m s])
  moreover have "strtol_digits m s (int base) 0 = Some (of_nat num, s + length ds)"
    using strtol_digits_digits [OF c ds(2) base(2), of 0] ds(3) by simp
  ultimately show ?thesis using num cs by (simp add: strtol_def sint_of_nat_small)
qed

section \<open>Properties\<close>

text \<open>C33: \<^verbatim>\<open>memmove\<close> copies the block \<open>src .. src + n\<close> as it was before the call to \<open>dst .. dst + n\<close> and
  changes nothing else, however the two blocks overlap.\<close>

theorem memmove_is_block_copy: "memmove m dst src n = block_copy m dst src n"
  by (rule memmove_eq)

text \<open>\<^verbatim>\<open>strcmp\<close> returns on any two strings, and the sign of its result is their lexicographic
  order as unsigned bytes; in particular it is 0 for equal strings only.\<close>

theorem strcmp_lexicographic:
  assumes "c_str m s1 xs" and "c_str m s2 ys"
  shows "\<exists>r. strcmp m s1 s2 = Some r \<and> (r = 0 \<longleftrightarrow> xs = ys) \<and>
    (r < 0 \<longleftrightarrow> (xs, ys) \<in> lexord {(a, b). a < b})"
  using assms by (rule strcmp_c_str)

definition two_strings :: mem where
  "two_strings = (\<lambda>a. if a = 0 then 0x61 else if a = 1 then 0x62 else if a = 3 then 0x61 else 0)"

theorem strcmp_lexicographic_witness:
  "\<exists>r. strcmp two_strings 3 0 = Some r \<and> r < 0"
  using strcmp_lexicographic [of two_strings 3 "[0x61]" 0 "[0x61, 0x62]"]
  by (auto simp: two_strings_def)

text \<open>C34: For any base from 2 to 16 \<^verbatim>\<open>printnum\<close> terminates, and \<^verbatim>\<open>strtol\<close> in the same base reads back
  what it printed without padding, up to the terminating NUL, for every number that fits a \<^verbatim>\<open>long\<close>.\<close>

theorem strtol_reads_printnum:
  assumes "2 \<le> base" and "base \<le> 16" and "num < 2 ^ 63" and "width \<le> 1"
  shows "\<exists>cs. printnum num base width padc = Some cs \<and>
    (\<forall>m s. c_str m s cs \<longrightarrow> strtol m s (int base) = Some (int num, s + length cs))"
  using printnum_digits [OF assms(1), of num width padc] strtol_printnum [OF assms] by blast

theorem strtol_reads_printnum_witness:
  "\<exists>cs. printnum 255 16 0 0x20 = Some cs \<and> (\<forall>m s. c_str m s cs \<longrightarrow> strtol m s 16 = Some (255, s + length cs))"
  using strtol_reads_printnum [of 16 255 0 "0x20"] by simp

text \<open>\<^verbatim>\<open>stradd\<close>, given a buffer clear of its arguments, returns, the buffer holds the concatenation of the two
  strings, and no byte outside the \<open>len1 + len2 + 1\<close> bytes asked for is written; without a buffer
  it returns NULL and writes nothing.\<close>

theorem stradd_concatenates:
  assumes "c_str m src1 xs" and "c_str m src2 ys"
    and "src1 + length xs < dst \<or> dst + length xs + length ys < src1"
    and "src2 + length ys < dst \<or> dst + length xs + length ys < src2"
  shows "stradd m src1 src2 None = Some (None, m) \<and>
    (\<exists>m'. stradd m src1 src2 (Some dst) = Some (Some dst, m') \<and> c_str m' dst (xs @ ys) \<and>
      (\<forall>a. a < dst \<or> dst + length xs + length ys < a \<longrightarrow> m' a = m a))"
proof
  show "stradd m src1 src2 None = Some (None, m)"
    using assms(1,2) by (simp add: stradd_def strlen_c_str)
  obtain m' where "stradd m src1 src2 (Some dst) = Some (Some dst, m')" "c_str m' dst (xs @ ys)"
    "\<And>a. a < dst \<or> dst + length xs + length ys < a \<Longrightarrow> m' a = m a"
    using stradd_c_str [OF assms] by blast
  then show "\<exists>m'. stradd m src1 src2 (Some dst) = Some (Some dst, m') \<and> c_str m' dst (xs @ ys) \<and>
      (\<forall>a. a < dst \<or> dst + length xs + length ys < a \<longrightarrow> m' a = m a)" by blast
qed

theorem stradd_concatenates_witness:
  "\<exists>m'. stradd two_strings 0 3 (Some 10) = Some (Some 10, m') \<and> c_str m' 10 [0x61, 0x62, 0x61]"
  using stradd_concatenates [of two_strings 0 "[0x61, 0x62]" 3 "[0x61]" 10]
  by (auto simp: two_strings_def)

text \<open>The comment of \<^verbatim>\<open>strtol\<close> allows a prefix 0x or 0X; the code skips the lower-case one only, so it
  reads 0X1F as 0 and stops at the X.\<close>

definition hex_upper :: mem where
  "hex_upper = (\<lambda>a. if a = 0 then 0x30 else if a = 1 then 0x58 else if a = 2 then 0x31 else if a = 3 then 0x46 else 0)"

lemma strtol_upper_case_prefix: "strtol hex_upper 0 16 = Some (0, 1)"
  by (simp add: strtol_def hex_upper_def skip_blanks.simps strtol_sign_def strtol_base_def
      strtol_digits.simps digit_value_def)

end
