(* ===== verification/List_Heap.thy ===== *)
theory List_Heap
  imports Ucore_Prelude
begin

text \<open>
  The intrusive doubly linked lists of \<^verbatim>\<open>libs/list.h\<close>, on an explicit store of
  \<^verbatim>\<open>next\<close> and \<^verbatim>\<open>prev\<close> pointers, and their abstraction to HOL lists. Every other
  theory models an intrusive list by the HOL list of its members; this theory is what
  justifies it: each operation of \<^verbatim>\<open>list.h\<close> acts on the represented list as the
  corresponding list function does, and the traversal loop of the kernel visits exactly the
  represented members, in order, and stops.
\<close>

section \<open>The store and the operations\<close>

text \<open>\<^verbatim>\<open>struct list_entry\<close>: one \<^verbatim>\<open>prev\<close> and one \<^verbatim>\<open>next\<close> pointer per entry address.\<close>

record 'p list_entry =
  prev :: "'p \<Rightarrow> 'p"
  nxt :: "'p \<Rightarrow> 'p"

definition set_next :: "'p \<Rightarrow> 'p \<Rightarrow> 'p list_entry \<Rightarrow> 'p list_entry" where
  "set_next a v h = h\<lparr>nxt := (nxt h)(a := v)\<rparr>"

definition set_prev :: "'p \<Rightarrow> 'p \<Rightarrow> 'p list_entry \<Rightarrow> 'p list_entry" where
  "set_prev a v h = h\<lparr>prev := (prev h)(a := v)\<rparr>"

lemma set_next_prev_simps [simp]:
  "nxt (set_next a v h) = (nxt h)(a := v)" "prev (set_next a v h) = prev h"
  "prev (set_prev a v h) = (prev h)(a := v)" "nxt (set_prev a v h) = nxt h"
  by (simp_all add: set_next_def set_prev_def)

definition list_init :: "'p \<Rightarrow> 'p list_entry \<Rightarrow> 'p list_entry" where
  "list_init elm h = set_prev elm elm (set_next elm elm h)"

definition list_add_between :: "'p \<Rightarrow> 'p \<Rightarrow> 'p \<Rightarrow> 'p list_entry \<Rightarrow> 'p list_entry" where
  "list_add_between elm p n h =
     set_prev elm p (set_next elm n (set_next p elm (set_prev n elm h)))"

definition list_del_between :: "'p \<Rightarrow> 'p \<Rightarrow> 'p list_entry \<Rightarrow> 'p list_entry" where
  "list_del_between p n h = set_prev n p (set_next p n h)"

definition list_add_after :: "'p \<Rightarrow> 'p \<Rightarrow> 'p list_entry \<Rightarrow> 'p list_entry" where
  "list_add_after listelm elm h = list_add_between elm listelm (nxt h listelm) h"

definition list_add_before :: "'p \<Rightarrow> 'p \<Rightarrow> 'p list_entry \<Rightarrow> 'p list_entry" where
  "list_add_before listelm elm h = list_add_between elm (prev h listelm) listelm h"

definition list_add :: "'p \<Rightarrow> 'p \<Rightarrow> 'p list_entry \<Rightarrow> 'p list_entry" where
  "list_add listelm elm h = list_add_after listelm elm h"

definition list_del :: "'p \<Rightarrow> 'p list_entry \<Rightarrow> 'p list_entry" where
  "list_del listelm h = list_del_between (prev h listelm) (nxt h listelm) h"

definition list_del_init :: "'p \<Rightarrow> 'p list_entry \<Rightarrow> 'p list_entry" where
  "list_del_init listelm h = list_init listelm (list_del listelm h)"

definition list_empty :: "'p \<Rightarrow> 'p list_entry \<Rightarrow> bool" where
  "list_empty list h = (nxt h list = list)"

definition list_next :: "'p \<Rightarrow> 'p list_entry \<Rightarrow> 'p" where
  "list_next listelm h = nxt h listelm"

definition list_prev :: "'p \<Rightarrow> 'p list_entry \<Rightarrow> 'p" where
  "list_prev listelm h = prev h listelm"

lemmas list_op_defs = list_init_def list_add_between_def list_del_between_def
  list_add_after_def list_add_before_def list_add_def list_del_def list_del_init_def
  list_empty_def list_next_def list_prev_def

text \<open>
  The traversal \<^verbatim>\<open>while ((le = list_next(le)) != list)\<close>, used all over the kernel:
  the entries it visits, in order; not returning is \<^term>\<open>None\<close>.
\<close>

partial_function (option) list_walk :: "'p list_entry \<Rightarrow> 'p \<Rightarrow> 'p \<Rightarrow> 'p list option" where
  "list_walk h l le =
     (let le' = list_next le h
      in if le' = l then Some []
         else list_walk h l le' \<bind> (\<lambda>r. Some (le' # r)))"

section \<open>The abstraction\<close>

text \<open>
  \<open>dseg h a xs b\<close>: following \<^verbatim>\<open>next\<close> from \<open>a\<close> leads through exactly \<open>xs\<close> to \<open>b\<close>,
  and every \<^verbatim>\<open>prev\<close> pointer on the way points back.
\<close>

fun dseg :: "'p list_entry \<Rightarrow> 'p \<Rightarrow> 'p list \<Rightarrow> 'p \<Rightarrow> bool" where
  "dseg h a [] b = (nxt h a = b \<and> prev h b = a)"
| "dseg h a (x # xs) b = (nxt h a = x \<and> prev h x = a \<and> dseg h x xs b)"

text \<open>\<open>ring h l xs\<close>: the circular list with head \<open>l\<close> holds the entries \<open>xs\<close>.\<close>

definition ring :: "'p list_entry \<Rightarrow> 'p \<Rightarrow> 'p list \<Rightarrow> bool" where
  "ring h l xs = (distinct (l # xs) \<and> dseg h l xs l)"

lemma dseg_append:
  "dseg h a (xs @ y # ys) b = (dseg h a xs y \<and> dseg h y ys b)"
  by (induction xs arbitrary: a) auto

text \<open>A segment does not depend on pointers it does not go through.\<close>

lemma dseg_cong:
  assumes "\<And>x. x \<in> insert a (set xs) \<Longrightarrow> nxt h' x = nxt h x"
    and "\<And>x. x \<in> insert b (set xs) \<Longrightarrow> prev h' x = prev h x"
  shows "dseg h' a xs b = dseg h a xs b"
  using assms by (induction xs arbitrary: a) auto

lemma dseg_next: "dseg h a xs b \<Longrightarrow> nxt h a = (case xs of [] \<Rightarrow> b | x # _ \<Rightarrow> x)"
  by (cases xs) auto

lemma dseg_prev: "dseg h a xs b \<Longrightarrow> prev h b = (if xs = [] then a else last xs)"
  by (induction xs arbitrary: a) auto

lemma dseg_last_next: "dseg h a (xs @ [x]) b \<Longrightarrow> nxt h x = b"
  by (simp add: dseg_append)

lemma ring_init: "ring (list_init l h) l []"
  by (simp add: ring_def list_op_defs)

lemma ring_next: "ring h l xs \<Longrightarrow> list_next l h = (case xs of [] \<Rightarrow> l | x # _ \<Rightarrow> x)"
  by (auto simp: ring_def list_op_defs dest: dseg_next)

lemma ring_prev: "ring h l xs \<Longrightarrow> list_prev l h = (if xs = [] then l else last xs)"
  by (auto simp: ring_def list_op_defs dest: dseg_prev)

lemma ring_empty: "ring h l xs \<Longrightarrow> list_empty l h = (xs = [])"
  by (cases xs) (auto simp: ring_def list_op_defs)

text \<open>Insertion between two consecutive segments of a ring.\<close>

lemma ring_insert_between:
  assumes "ring h l (xs @ ys)" and "e \<notin> set (l # xs @ ys)"
    and p: "p = (if xs = [] then l else last xs)"
    and n: "n = (case ys of [] \<Rightarrow> l | y # _ \<Rightarrow> y)"
  shows "ring (list_add_between e p n h) l (xs @ e # ys)"
proof -
  have d: "distinct (l # xs @ ys)" and s: "dseg h l (xs @ ys) l"
    using assms(1) by (simp_all add: ring_def)
  let ?h = "list_add_between e p n h"
  have pin: "p \<in> insert l (set xs)" using p by auto
  have left: "dseg ?h l xs e"
  proof (cases xs rule: rev_cases)
    case Nil
    with assms(2) d p n show ?thesis by (auto simp: list_op_defs split: list.splits)
  next
    case (snoc zs z)
    with s have "dseg h l zs z" by (simp add: dseg_append)
    moreover have "dseg ?h l zs z = dseg h l zs z"
      using assms(2) d snoc p n
      by (intro dseg_cong) (auto simp: list_op_defs split: list.splits if_splits)
    ultimately show ?thesis
      using snoc assms(2) d p n
      by (auto simp: dseg_append list_op_defs split: list.splits)
  qed
  have right: "dseg ?h e ys l"
  proof (cases ys)
    case Nil
    with assms(2) d p n show ?thesis by (auto simp: list_op_defs)
  next
    case (Cons z zs)
    with s have "dseg h z zs l" by (simp add: dseg_append)
    moreover have "dseg ?h z zs l = dseg h z zs l"
      using assms(2) d Cons pin n by (intro dseg_cong) (auto simp: list_op_defs)
    ultimately show ?thesis
      using Cons assms(2) d pin n by (auto simp: list_op_defs)
  qed
  show ?thesis
    using left right d assms(2) by (auto simp: ring_def dseg_append)
qed

text \<open>Unlinking the entry between two segments of a ring.\<close>

lemma ring_del:
  assumes "ring h l (xs @ e # ys)"
  shows "ring (list_del e h) l (xs @ ys)"
proof -
  have d: "distinct (l # xs @ e # ys)" and s1: "dseg h l xs e" and s2: "dseg h e ys l"
    using assms by (simp_all add: ring_def dseg_append)
  have p: "prev h e = (if xs = [] then l else last xs)" using s1 by (rule dseg_prev)
  have n: "nxt h e = (case ys of [] \<Rightarrow> l | y # _ \<Rightarrow> y)" using s2 by (rule dseg_next)
  have pin: "prev h e \<in> insert l (set xs)" using p by auto
  let ?h = "list_del e h"
  have right: "dseg ?h (prev h e) ys l"
  proof (cases ys)
    case Nil
    with p n d show ?thesis by (auto simp: list_op_defs)
  next
    case (Cons z zs)
    with s2 have "dseg h z zs l" by simp
    moreover have "dseg ?h z zs l = dseg h z zs l"
      using d Cons pin n by (intro dseg_cong) (auto simp: list_op_defs)
    ultimately show ?thesis
      using Cons d pin n by (auto simp: list_op_defs)
  qed
  have "dseg ?h l (xs @ ys) l"
  proof (cases xs rule: rev_cases)
    case Nil
    with right p show ?thesis by simp
  next
    case (snoc zs z)
    with s1 have "dseg h l zs z" by (simp add: dseg_append)
    moreover have "dseg ?h l zs z = dseg h l zs z"
      using d snoc p n
      by (intro dseg_cong) (auto simp: list_op_defs split: list.splits if_splits)
    ultimately show ?thesis
      using snoc right p by (simp add: dseg_append)
  qed
  then show ?thesis using d by (auto simp: ring_def)
qed

lemma ring_add_after:
  "ring h l xs \<Longrightarrow> e \<notin> set (l # xs) \<Longrightarrow> ring (list_add_after l e h) l (e # xs)"
  using ring_insert_between [of h l "[]" xs e l "nxt h l"] ring_next [of h l xs]
  by (simp add: list_add_after_def list_next_def)

lemma ring_add_after_entry:
  assumes "ring h l (xs @ p # ys)" and "e \<notin> set (l # xs @ p # ys)"
  shows "ring (list_add_after p e h) l (xs @ p # e # ys)"
proof -
  have "nxt h p = (case ys of [] \<Rightarrow> l | y # _ \<Rightarrow> y)"
    using assms(1) by (auto simp: ring_def dseg_append dest: dseg_next)
  then show ?thesis
    using ring_insert_between [of h l "xs @ [p]" ys e p "nxt h p"] assms
    by (simp add: list_add_after_def)
qed

lemma ring_add_before:
  "ring h l xs \<Longrightarrow> e \<notin> set (l # xs) \<Longrightarrow> ring (list_add_before l e h) l (xs @ [e])"
  using ring_insert_between [of h l xs "[]" e "prev h l" l] ring_prev [of h l xs]
  by (simp add: list_add_before_def list_prev_def)

lemma ring_add_before_entry:
  assumes "ring h l (xs @ n # ys)" and "e \<notin> set (l # xs @ n # ys)"
  shows "ring (list_add_before n e h) l (xs @ e # n # ys)"
proof -
  have "prev h n = (if xs = [] then l else last xs)"
    using assms(1) by (auto simp: ring_def dseg_append dest: dseg_prev)
  then show ?thesis
    using ring_insert_between [of h l xs "n # ys" e "prev h n" n] assms
    by (simp add: list_add_before_def)
qed

lemma ring_cong:
  assumes "\<And>x. x \<in> set (l # xs) \<Longrightarrow> nxt h' x = nxt h x \<and> prev h' x = prev h x"
  shows "ring h' l xs = ring h l xs"
  using assms dseg_cong [of l xs h' h l] by (auto simp: ring_def)

lemma ring_del_init:
  assumes "ring h l (xs @ e # ys)"
  shows "ring (list_del_init e h) l (xs @ ys)" and "ring (list_del_init e h) e []"
proof -
  have "distinct (l # xs @ e # ys)" using assms by (simp add: ring_def)
  then have "ring (list_del_init e h) l (xs @ ys) = ring (list_del e h) l (xs @ ys)"
    by (intro ring_cong) (auto simp: list_del_init_def list_init_def)
  with ring_del [OF assms] show "ring (list_del_init e h) l (xs @ ys)" by simp
  show "ring (list_del_init e h) e []"
    by (simp add: list_del_init_def ring_init)
qed

text \<open>The entries next to a member of a ring belong to that ring.\<close>

lemma ring_neighbours:
  assumes "ring h l xs" and "e \<in> set xs"
  shows "nxt h e \<in> set (l # xs)" and "prev h e \<in> set (l # xs)"
proof -
  obtain ys zs where xs: "xs = ys @ e # zs" using assms(2) by (auto simp: in_set_conv_decomp)
  then have "dseg h l ys e" and "dseg h e zs l"
    using assms(1) by (simp_all add: ring_def dseg_append)
  then have "nxt h e = (case zs of [] \<Rightarrow> l | z # _ \<Rightarrow> z)"
    and "prev h e = (if ys = [] then l else last ys)"
    by (auto dest: dseg_next dseg_prev)
  then show "nxt h e \<in> set (l # xs)" and "prev h e \<in> set (l # xs)"
    using xs by (auto split: list.splits)
qed

lemma ring_head_neighbours:
  assumes "ring h l xs"
  shows "nxt h l \<in> set (l # xs)" and "prev h l \<in> set (l # xs)"
  using ring_next [OF assms] ring_prev [OF assms]
  by (auto simp: list_op_defs split: list.splits if_splits)

text \<open>Operations on one list leave every disjoint list alone.\<close>

lemma ring_add_after_frame:
  assumes "ring h l xs" and "ring h l' ys" and "set (e # l # xs) \<inter> set (l' # ys) = {}"
  shows "ring (list_add_after l e h) l' ys"
proof -
  have "ring (list_add_after l e h) l' ys = ring h l' ys"
    using assms(3) ring_head_neighbours [OF assms(1)]
    by (intro ring_cong) (auto simp: list_op_defs)
  with assms(2) show ?thesis by simp
qed

lemma ring_add_before_frame:
  assumes "ring h l xs" and "ring h l' ys" and "set (e # l # xs) \<inter> set (l' # ys) = {}"
  shows "ring (list_add_before l e h) l' ys"
proof -
  have "ring (list_add_before l e h) l' ys = ring h l' ys"
    using assms(3) ring_head_neighbours [OF assms(1)]
    by (intro ring_cong) (auto simp: list_op_defs)
  with assms(2) show ?thesis by simp
qed

lemma ring_del_frame:
  assumes "ring h l xs" and "e \<in> set xs" and "ring h l' ys"
    and "set (l # xs) \<inter> set (l' # ys) = {}"
  shows "ring (list_del e h) l' ys"
proof -
  have "x \<noteq> prev h e \<and> x \<noteq> nxt h e" if "x \<in> set (l' # ys)" for x
    using that assms(4) ring_neighbours [OF assms(1,2)] by (metis disjoint_iff)
  then have "ring (list_del e h) l' ys = ring h l' ys"
    by (intro ring_cong) (simp add: list_op_defs)
  with assms(3) show ?thesis by simp
qed

section \<open>The interface the kernel relies on\<close>

text \<open>
  The contract of \<^verbatim>\<open>list.h\<close>: \<open>repr h l xs\<close> says that the list with head \<open>l\<close> holds
  \<open>xs\<close>; the laws give the effect of each operation on \<open>xs\<close> and that disjoint lists are
  left alone. The client lemmas are the uses the kernel makes of it: FIFO queues (wait
  queues, run queues, mailbox messages), moving an entry to the front (semaphore undo lists)
  and moving an entry from one list to another (mailbox free list, page lists).
\<close>

locale dlist =
  fixes init :: "'p \<Rightarrow> 'h \<Rightarrow> 'h"
    and add_after :: "'p \<Rightarrow> 'p \<Rightarrow> 'h \<Rightarrow> 'h"
    and add_before :: "'p \<Rightarrow> 'p \<Rightarrow> 'h \<Rightarrow> 'h"
    and del :: "'p \<Rightarrow> 'h \<Rightarrow> 'h"
    and is_empty :: "'p \<Rightarrow> 'h \<Rightarrow> bool"
    and next_of :: "'p \<Rightarrow> 'h \<Rightarrow> 'p"
    and repr :: "'h \<Rightarrow> 'p \<Rightarrow> 'p list \<Rightarrow> bool"
  assumes repr_distinct: "repr h l xs \<Longrightarrow> distinct (l # xs)"
    and repr_init: "repr (init l h) l []"
    and repr_add_after: "repr h l xs \<Longrightarrow> e \<notin> set (l # xs) \<Longrightarrow> repr (add_after l e h) l (e # xs)"
    and repr_add_before: "repr h l xs \<Longrightarrow> e \<notin> set (l # xs) \<Longrightarrow> repr (add_before l e h) l (xs @ [e])"
    and repr_del: "repr h l (xs @ e # ys) \<Longrightarrow> repr (del e h) l (xs @ ys)"
    and repr_empty: "repr h l xs \<Longrightarrow> is_empty l h = (xs = [])"
    and repr_next: "repr h l (x # xs) \<Longrightarrow> next_of l h = x"
    and repr_add_before_frame: "repr h l xs \<Longrightarrow> repr h l' ys \<Longrightarrow>
      set (e # l # xs) \<inter> set (l' # ys) = {} \<Longrightarrow> repr (add_before l e h) l' ys"
    and repr_del_frame: "repr h l xs \<Longrightarrow> e \<in> set xs \<Longrightarrow> repr h l' ys \<Longrightarrow>
      set (l # xs) \<inter> set (l' # ys) = {} \<Longrightarrow> repr (del e h) l' ys"
begin

lemma enqueue_all:
  assumes "repr h l xs" and "distinct es" and "set es \<inter> set (l # xs) = {}"
  shows "repr (fold (add_before l) es h) l (xs @ es)"
  using assms
proof (induction es arbitrary: h xs)
  case Nil
  then show ?case by simp
next
  case (Cons e es)
  have "repr (add_before l e h) l (xs @ [e])"
    using Cons.prems by (intro repr_add_before) auto
  then have "repr (fold (add_before l) es (add_before l e h)) l ((xs @ [e]) @ es)"
    using Cons.prems by (intro Cons.IH) auto
  then show ?case by simp
qed

lemma dequeue:
  assumes "repr h l (x # xs)"
  shows "repr (del (next_of l h) h) l xs"
  using repr_del [of h l "[]" x xs] repr_next [OF assms] assms by simp

lemma requeue:
  assumes "repr h l (x # xs)"
  shows "repr (add_before l x (del x h)) l (rotate1 (x # xs))"
proof -
  have "repr (del x h) l xs" using repr_del [of h l "[]" x xs] assms by simp
  then show ?thesis
    using repr_distinct [OF assms] repr_add_before by fastforce
qed

lemma move_to_front:
  assumes "repr h l (xs @ e # ys)"
  shows "repr (add_after l e (del e h)) l (e # xs @ ys)"
  using repr_distinct [OF assms] by (intro repr_add_after repr_del [OF assms]) auto

lemma move_between:
  assumes "repr h l (xs @ e # ys)" and "repr h l' zs"
    and "set (l # xs @ e # ys) \<inter> set (l' # zs) = {}"
  shows "repr (add_before l' e (del e h)) l' (zs @ [e])"
    and "repr (add_before l' e (del e h)) l (xs @ ys)"
proof -
  have d: "distinct (l # xs @ e # ys)" using assms(1) by (rule repr_distinct)
  have l: "repr (del e h) l (xs @ ys)" using assms(1) by (rule repr_del)
  have l': "repr (del e h) l' zs"
    using assms by (intro repr_del_frame [OF assms(1)]) auto
  show "repr (add_before l' e (del e h)) l' (zs @ [e])"
    using assms(3) by (intro repr_add_before l') auto
  show "repr (add_before l' e (del e h)) l (xs @ ys)"
    using assms(3) d by (intro repr_add_before_frame [OF l' l]) auto
qed

end

interpretation lh: dlist list_init list_add_after list_add_before list_del list_empty list_next ring
proof (unfold_locales, goal_cases)
  case 1
  then show ?case by (simp add: ring_def)
next
  case 2
  show ?case by (rule ring_init)
next
  case 3
  then show ?case by (rule ring_add_after)
next
  case 4
  then show ?case by (rule ring_add_before)
next
  case 5
  then show ?case by (rule ring_del)
next
  case 6
  then show ?case by (rule ring_empty)
next
  case 7
  then show ?case by (simp add: ring_next)
next
  case 8
  then show ?case by (rule ring_add_before_frame)
next
  case 9
  then show ?case by (rule ring_del_frame)
qed

section \<open>Properties\<close>

lemma list_walk_seg:
  "dseg h le xs l \<Longrightarrow> l \<notin> set xs \<Longrightarrow> list_walk h l le = Some xs"
proof (induction xs arbitrary: le)
  case Nil
  then show ?case by (subst list_walk.simps) (simp add: list_next_def)
next
  case (Cons x xs)
  then have "list_walk h l x = Some xs" by simp
  then show ?case using Cons.prems
    by (subst list_walk.simps) (auto simp: list_next_def)
qed

text \<open>
  the kernel's list traversal terminates on every well-formed list and visits exactly
  its members in order, from the head entry.
\<close>

theorem list_walk_visits_members:
  "ring h l xs \<Longrightarrow> list_walk h l l = Some xs"
  by (rule list_walk_seg) (auto simp: ring_def)

definition example_heap :: "nat list_entry" where
  "example_heap = list_add_before 0 7 (list_add_before 0 5
     (list_init 0 \<lparr>prev = (\<lambda>_. 0), nxt = (\<lambda>_. 0)\<rparr>))"

lemma example_heap_ring: "ring example_heap 0 [5, 7]"
  by (simp add: example_heap_def ring_def list_op_defs)

theorem list_walk_visits_members_witness:
  "ring example_heap 0 [5, 7] \<and> list_walk example_heap 0 0 = Some [5, 7]"
  using list_walk_visits_members [OF example_heap_ring] example_heap_ring by simp

end
