(* ===== verification/Buddy.thy ===== *)
theory Buddy
  imports Ucore_Prelude
begin

text \<open>
  The buddy allocator of physical pages, \<^verbatim>\<open>supervisor/mm/buddy_pmm.c\<close>: the page
  descriptors, the zones, one free list per order, and the operations \<^verbatim>\<open>init\<close>,
  \<^verbatim>\<open>init_memmap\<close>, \<^verbatim>\<open>alloc_pages\<close>, \<^verbatim>\<open>free_pages\<close> and \<^verbatim>\<open>nr_free_pages\<close> with all their
  assertions. A \<^verbatim>\<open>struct Page *\<close> is the index of the descriptor in the array \<^verbatim>\<open>pages\<close>
  (\<^verbatim>\<open>page2gidx\<close>). The counters \<^verbatim>\<open>nr_free\<close> are natural numbers: the invariant equates
  each with the length of its list, so no decrement meets zero, and none exceeds
  \<^verbatim>\<open>npage\<close>.
\<close>

section \<open>State\<close>

definition MAX_ORDER :: nat where "MAX_ORDER = 16"

definition MAX_ZONE_NUM :: nat where "MAX_ZONE_NUM = 10"

definition PG_reserved :: nat where [simp]: "PG_reserved = 0"

definition PG_property :: nat where [simp]: "PG_property = 1"

record page =
  pg_ref :: int
  pg_flags :: u32
  pg_property :: nat
  pg_zone_num :: nat

record buddy =
  pages :: "nat \<Rightarrow> page"
  npage :: nat
  free_list :: "nat \<Rightarrow> nat list"
  nr_free :: "nat \<Rightarrow> nat"
  zones :: "nat \<Rightarrow> nat"
  zone_count :: nat

definition upd_page :: "nat \<Rightarrow> (page \<Rightarrow> page) \<Rightarrow> buddy \<Rightarrow> buddy" where
  "upd_page p f s = s\<lparr>pages := (pages s)(p := f (pages s p))\<rparr>"

definition PageReserved :: "buddy \<Rightarrow> nat \<Rightarrow> bool" where
  "PageReserved s p = bit (pg_flags (pages s p)) PG_reserved"

definition PageProperty :: "buddy \<Rightarrow> nat \<Rightarrow> bool" where
  "PageProperty s p = bit (pg_flags (pages s p)) PG_property"

definition SetPageProperty :: "nat \<Rightarrow> buddy \<Rightarrow> buddy" where
  "SetPageProperty p = upd_page p (\<lambda>pg. pg\<lparr>pg_flags := set_bit PG_property (pg_flags pg)\<rparr>)"

definition ClearPageProperty :: "nat \<Rightarrow> buddy \<Rightarrow> buddy" where
  "ClearPageProperty p = upd_page p (\<lambda>pg. pg\<lparr>pg_flags := unset_bit PG_property (pg_flags pg)\<rparr>)"

definition set_property :: "nat \<Rightarrow> nat \<Rightarrow> buddy \<Rightarrow> buddy" where
  "set_property p ord = upd_page p (\<lambda>pg. pg\<lparr>pg_property := ord\<rparr>)"

definition page_zone :: "buddy \<Rightarrow> nat \<Rightarrow> nat" where
  "page_zone s p = pg_zone_num (pages s p)"

text \<open>\<^verbatim>\<open>nr_free(o) ++; list_add(&free_list(o), ...)\<close> and the reverse.\<close>

definition free_list_add :: "nat \<Rightarrow> nat \<Rightarrow> buddy \<Rightarrow> buddy" where
  "free_list_add ord p s = s\<lparr>nr_free := (nr_free s)(ord := nr_free s ord + 1),
     free_list := (free_list s)(ord := p # free_list s ord)\<rparr>"

definition free_list_del :: "nat \<Rightarrow> nat \<Rightarrow> buddy \<Rightarrow> buddy" where
  "free_list_del ord p s = s\<lparr>nr_free := (nr_free s)(ord := nr_free s ord - 1),
     free_list := (free_list s)(ord := remove1 p (free_list s ord))\<rparr>"

section \<open>Operations\<close>

definition buddy_init :: "buddy \<Rightarrow> buddy" where
  "buddy_init s = fold (\<lambda>i s. s\<lparr>free_list := (free_list s)(i := []), nr_free := (nr_free s)(i := 0)\<rparr>)
     [0..<MAX_ORDER + 1] s"

fun init_memmap_pages :: "nat \<Rightarrow> nat \<Rightarrow> nat \<Rightarrow> buddy \<Rightarrow> buddy option" where
  "init_memmap_pages 0 p z s = Some s"
| "init_memmap_pages (Suc k) p z s = do {
     kassert (PageReserved s p);
     init_memmap_pages k (p + 1) z (upd_page p (\<lambda>pg. pg\<lparr>pg_flags := 0, pg_property := 0,
       pg_zone_num := z, pg_ref := 0\<rparr>) s)
   }"

text \<open>The loops of \<^verbatim>\<open>buddy_init_memmap\<close>: whole blocks of one order, then the next lower order.\<close>

function carve_order :: "nat \<Rightarrow> nat \<Rightarrow> nat \<Rightarrow> buddy \<Rightarrow> nat \<times> nat \<times> buddy" where
  "carve_order ord p n s =
     (if 2 ^ ord \<le> n
      then carve_order ord (p + 2 ^ ord) (n - 2 ^ ord)
             (free_list_add ord p (SetPageProperty p (set_property p ord s)))
      else (p, n, s))"
  by pat_completeness auto
termination
  by (relation "measure (\<lambda>(ord, p, n, s). n)") simp_all

declare carve_order.simps [simp del]

fun carve_blocks :: "nat \<Rightarrow> nat \<Rightarrow> nat \<Rightarrow> buddy \<Rightarrow> buddy" where
  "carve_blocks 0 p n s = snd (snd (carve_order 0 p n s))"
| "carve_blocks (Suc ord) p n s =
     (case carve_order (Suc ord) p n s of (p', n', s') \<Rightarrow>
        if n' = 0 then s' else carve_blocks ord p' n' s')"

definition buddy_init_memmap :: "nat \<Rightarrow> nat \<Rightarrow> buddy \<Rightarrow> buddy option" where
  "buddy_init_memmap base n s = do {
     kassert (n > 0 \<and> zone_count s < MAX_ZONE_NUM);
     s \<leftarrow> init_memmap_pages n base (zone_count s) s;
     let s = s\<lparr>zones := (zones s)(zone_count s := base), zone_count := zone_count s + 1\<rparr>;
     Some (carve_blocks MAX_ORDER base n s)
   }"

function getorder_from :: "nat \<Rightarrow> nat \<Rightarrow> nat option" where
  "getorder_from ord n =
     (if ord \<le> MAX_ORDER then if n \<le> 2 ^ ord then Some ord else getorder_from (ord + 1) n
      else None)"
  by pat_completeness auto
termination
  by (relation "measure (\<lambda>(ord, n). MAX_ORDER + 1 - ord)") auto

declare getorder_from.simps [simp del]

definition getorder :: "nat \<Rightarrow> nat option" where
  "getorder n = getorder_from 0 n"

function alloc_find :: "nat \<Rightarrow> buddy \<Rightarrow> nat option" where
  "alloc_find cur_order s =
     (if cur_order \<le> MAX_ORDER
      then if free_list s cur_order \<noteq> [] then Some cur_order else alloc_find (cur_order + 1) s
      else None)"
  by pat_completeness auto
termination
  by (relation "measure (\<lambda>(cur_order, s). MAX_ORDER + 1 - cur_order)") auto

declare alloc_find.simps [simp del]

text \<open>The splitting loop \<^verbatim>\<open>while (cur_order > order)\<close>.\<close>

fun split_block :: "nat \<Rightarrow> nat \<Rightarrow> nat \<Rightarrow> buddy \<Rightarrow> buddy" where
  "split_block ord page 0 s = s"
| "split_block ord page (Suc cur) s =
     (if cur \<ge> ord
      then let buddy = page + 2 ^ cur
           in split_block ord page cur
                (free_list_add cur buddy (SetPageProperty buddy (set_property buddy cur s)))
      else s)"

definition buddy_alloc_pages_sub :: "nat \<Rightarrow> buddy \<Rightarrow> (nat option \<times> buddy) option" where
  "buddy_alloc_pages_sub ord s = do {
     kassert (ord \<le> MAX_ORDER);
     case alloc_find ord s of
       None \<Rightarrow> Some (None, s)
     | Some cur_order \<Rightarrow>
         (let page = hd (free_list s cur_order);
              s = free_list_del cur_order page s;
              s = split_block ord page cur_order s
          in Some (Some page, ClearPageProperty page s))
   }"

definition page_is_buddy :: "nat \<Rightarrow> nat \<Rightarrow> nat \<Rightarrow> buddy \<Rightarrow> bool" where
  "page_is_buddy page ord z s =
     (if page < npage s
      then if page_zone s page = z
           then \<not> PageReserved s page \<and> PageProperty s page \<and> pg_property (pages s page) = ord
           else False
      else False)"

definition page2idx :: "nat \<Rightarrow> buddy \<Rightarrow> nat" where
  "page2idx page s = page - zones s (page_zone s page)"

definition idx2page :: "nat \<Rightarrow> nat \<Rightarrow> buddy \<Rightarrow> nat" where
  "idx2page z idx s = zones s z + idx"

fun free_clear_pages :: "nat \<Rightarrow> nat \<Rightarrow> buddy \<Rightarrow> buddy option" where
  "free_clear_pages 0 p s = Some s"
| "free_clear_pages (Suc k) p s = do {
     kassert (\<not> PageReserved s p \<and> \<not> PageProperty s p);
     free_clear_pages k (p + 1) (upd_page p (\<lambda>pg. pg\<lparr>pg_flags := 0, pg_ref := 0\<rparr>) s)
   }"

text \<open>The merging loop of \<^verbatim>\<open>buddy_free_pages_sub\<close>; it returns \<open>page_idx\<close> and the order reached.\<close>

function merge_buddies :: "nat \<Rightarrow> nat \<Rightarrow> nat \<Rightarrow> buddy \<Rightarrow> nat \<times> nat \<times> buddy" where
  "merge_buddies z page_idx ord s =
     (if ord < MAX_ORDER
      then let buddy_idx = page_idx XOR 2 ^ ord; buddy = idx2page z buddy_idx s
           in if \<not> page_is_buddy buddy ord z s then (page_idx, ord, s)
              else merge_buddies z (page_idx AND buddy_idx) (ord + 1)
                     (ClearPageProperty buddy (free_list_del ord buddy s))
      else (page_idx, ord, s))"
  by pat_completeness auto
termination
  by (relation "measure (\<lambda>(z, page_idx, ord, s). MAX_ORDER - ord)") auto

declare merge_buddies.simps [simp del]

definition buddy_free_pages_sub :: "nat \<Rightarrow> nat \<Rightarrow> buddy \<Rightarrow> buddy option" where
  "buddy_free_pages_sub base ord s = do {
     let page_idx = page2idx base s;
     kassert (page_idx AND (2 ^ ord - 1) = 0);
     s \<leftarrow> free_clear_pages (2 ^ ord) base s;
     let z = page_zone s base;
     let (page_idx, ord, s) = merge_buddies z page_idx ord s;
     let page = idx2page z page_idx s;
     Some (free_list_add ord page (SetPageProperty page (set_property page ord s)))
   }"

text \<open>The two loops of \<^verbatim>\<open>buddy_free_pages\<close>: up the orders, then down.\<close>

function free_up :: "nat \<Rightarrow> nat \<Rightarrow> nat \<Rightarrow> buddy \<Rightarrow> (nat \<times> nat \<times> nat \<times> buddy) option" where
  "free_up ord base n s =
     (if 2 ^ ord \<le> n
      then do {
        kassert (ord \<le> MAX_ORDER);
        if page2idx base s AND 2 ^ ord \<noteq> 0
        then do {
          s \<leftarrow> buddy_free_pages_sub base ord s;
          free_up (ord + 1) (base + 2 ^ ord) (n - 2 ^ ord) s
        }
        else free_up (ord + 1) base n s
      }
      else Some (ord, base, n, s))"
  by pat_completeness auto
termination
proof (relation "measure (\<lambda>(ord, base, n, s). n - ord)", goal_cases)
  case 1
  show ?case by simp
next
  case (2 ord base n s)
  then have "ord < n" using less_exp [of ord] by linarith
  then show ?case by simp
next
  case (3 ord base n s)
  then have "ord < n" using less_exp [of ord] by linarith
  then show ?case by simp
qed

declare free_up.simps [simp del]

fun shrink_order :: "nat \<Rightarrow> nat \<Rightarrow> nat" where
  "shrink_order n 0 = 0"
| "shrink_order n (Suc ord) = (if n < 2 ^ Suc ord then shrink_order n ord else Suc ord)"

function free_down :: "nat \<Rightarrow> nat \<Rightarrow> nat \<Rightarrow> buddy \<Rightarrow> buddy option" where
  "free_down ord base n s =
     (if n = 0 then Some s
      else let ord = shrink_order n ord
           in do {
             s \<leftarrow> buddy_free_pages_sub base ord s;
             free_down ord (base + 2 ^ ord) (n - 2 ^ ord) s
           })"
  by pat_completeness auto
termination
  by (relation "measure (\<lambda>(ord, base, n, s). n)") simp_all

declare free_down.simps [simp del]

definition buddy_free_pages :: "nat \<Rightarrow> nat \<Rightarrow> buddy \<Rightarrow> buddy option" where
  "buddy_free_pages base n s = do {
     kassert (n > 0);
     if n = 1 then buddy_free_pages_sub base 0 s
     else do {
       (ord, base, n, s) \<leftarrow> free_up 0 base n s;
       free_down ord base n s
     }
   }"

definition buddy_alloc_pages :: "nat \<Rightarrow> buddy \<Rightarrow> (nat option \<times> buddy) option" where
  "buddy_alloc_pages n s = do {
     kassert (n > 0);
     ord \<leftarrow> getorder n;
     (page, s) \<leftarrow> buddy_alloc_pages_sub ord s;
     case page of
       None \<Rightarrow> Some (None, s)
     | Some p \<Rightarrow>
         if n \<noteq> 2 ^ ord
         then do { s \<leftarrow> buddy_free_pages (p + n) (2 ^ ord - n) s; Some (Some p, s) }
         else Some (Some p, s)
   }"

definition buddy_nr_free_pages :: "buddy \<Rightarrow> nat" where
  "buddy_nr_free_pages s = (\<Sum>ord \<leftarrow> [0..<MAX_ORDER + 1]. nr_free s ord * 2 ^ ord)"

section \<open>The invariant\<close>

text \<open>A run of \<open>n\<close> usable pages of one zone.\<close>

definition region_ok :: "buddy \<Rightarrow> nat \<Rightarrow> nat \<Rightarrow> bool" where
  "region_ok s p n \<longleftrightarrow> zones s (page_zone s p) \<le> p \<and>
     (\<forall>q \<in> {p..<p + n}. q < npage s \<and> \<not> PageReserved s q \<and> page_zone s q = page_zone s p)"

definition aligned :: "buddy \<Rightarrow> nat \<Rightarrow> nat \<Rightarrow> bool" where
  "aligned s p ord \<longleftrightarrow> 2 ^ ord dvd p - zones s (page_zone s p)"

definition blk :: "nat \<Rightarrow> nat \<Rightarrow> nat set" where
  "blk p ord = {p..<p + 2 ^ ord}"

text \<open>A free block: its first page carries \<^verbatim>\<open>PG_property\<close> and the order, no other page of it does.\<close>

definition block_ok :: "buddy \<Rightarrow> nat \<Rightarrow> nat \<Rightarrow> bool" where
  "block_ok s p ord \<longleftrightarrow> PageProperty s p \<and> pg_property (pages s p) = ord \<and>
     region_ok s p (2 ^ ord) \<and> aligned s p ord \<and> (\<forall>q \<in> {p<..<p + 2 ^ ord}. \<not> PageProperty s q)"

definition buddy_inv :: "buddy \<Rightarrow> bool" where
  "buddy_inv s \<longleftrightarrow>
     (\<forall>ord \<le> MAX_ORDER. distinct (free_list s ord) \<and> nr_free s ord = length (free_list s ord)) \<and>
     (\<forall>ord \<le> MAX_ORDER. \<forall>p \<in> set (free_list s ord). block_ok s p ord) \<and>
     (\<forall>p < npage s. \<not> PageReserved s p \<and> PageProperty s p \<longrightarrow>
        pg_property (pages s p) \<le> MAX_ORDER \<and> p \<in> set (free_list s (pg_property (pages s p))))"

text \<open>The pages covered by the free lists: the abstract state of the allocator.\<close>

definition free_set :: "buddy \<Rightarrow> nat set" where
  "free_set s = {q. \<exists>ord \<le> MAX_ORDER. \<exists>p \<in> set (free_list s ord). q \<in> blk p ord}"

text \<open>No two free blocks are buddies of each other: everything that can be merged is merged.\<close>

definition buddy_of :: "buddy \<Rightarrow> nat \<Rightarrow> nat \<Rightarrow> nat" where
  "buddy_of s p ord = zones s (page_zone s p) + ((p - zones s (page_zone s p)) XOR 2 ^ ord)"

definition coalesced :: "buddy \<Rightarrow> bool" where
  "coalesced s \<longleftrightarrow> (\<forall>ord < MAX_ORDER. \<forall>p \<in> set (free_list s ord).
     \<not> (buddy_of s p ord \<in> set (free_list s ord) \<and>
        page_zone s (buddy_of s p ord) = page_zone s p))"

text \<open>Pages a caller may free: usable, of one zone, and not free already.\<close>

definition allocated :: "buddy \<Rightarrow> nat \<Rightarrow> nat \<Rightarrow> bool" where
  "allocated s p n \<longleftrightarrow> region_ok s p n \<and> {p..<p + n} \<inter> free_set s = {}"

section \<open>Basic facts\<close>

lemma upd_page_simps [simp]:
  "npage (upd_page p f s) = npage s" "free_list (upd_page p f s) = free_list s"
  "nr_free (upd_page p f s) = nr_free s" "zones (upd_page p f s) = zones s"
  "zone_count (upd_page p f s) = zone_count s"
  "pages (upd_page p f s) q = (if q = p then f (pages s p) else pages s q)"
  by (simp_all add: upd_page_def)

lemma free_list_upd_simps [simp]:
  "pages (free_list_add ord p s) = pages s" "npage (free_list_add ord p s) = npage s"
  "zones (free_list_add ord p s) = zones s" "zone_count (free_list_add ord p s) = zone_count s"
  "free_list (free_list_add ord p s) = (free_list s)(ord := p # free_list s ord)"
  "nr_free (free_list_add ord p s) = (nr_free s)(ord := nr_free s ord + 1)"
  "pages (free_list_del ord p s) = pages s" "npage (free_list_del ord p s) = npage s"
  "zones (free_list_del ord p s) = zones s" "zone_count (free_list_del ord p s) = zone_count s"
  "free_list (free_list_del ord p s) = (free_list s)(ord := remove1 p (free_list s ord))"
  "nr_free (free_list_del ord p s) = (nr_free s)(ord := nr_free s ord - 1)"
  by (simp_all add: free_list_add_def free_list_del_def)

lemma property_upd_simps [simp]:
  "free_list (SetPageProperty p s) = free_list s" "nr_free (SetPageProperty p s) = nr_free s"
  "npage (SetPageProperty p s) = npage s" "zones (SetPageProperty p s) = zones s"
  "zone_count (SetPageProperty p s) = zone_count s" "zone_count (ClearPageProperty p s) = zone_count s"
  "zone_count (set_property p ord s) = zone_count s"
  "free_list (ClearPageProperty p s) = free_list s" "nr_free (ClearPageProperty p s) = nr_free s"
  "npage (ClearPageProperty p s) = npage s" "zones (ClearPageProperty p s) = zones s"
  "free_list (set_property p ord s) = free_list s" "nr_free (set_property p ord s) = nr_free s"
  "npage (set_property p ord s) = npage s" "zones (set_property p ord s) = zones s"
  by (simp_all add: SetPageProperty_def ClearPageProperty_def set_property_def)

lemma page_flag_simps [simp]:
  "PageReserved (SetPageProperty p s) q = PageReserved s q"
  "PageReserved (ClearPageProperty p s) q = PageReserved s q"
  "PageReserved (set_property p ord s) q = PageReserved s q"
  "PageReserved (free_list_add ord p s) q = PageReserved s q"
  "PageReserved (free_list_del ord p s) q = PageReserved s q"
  "PageProperty (SetPageProperty p s) q = (q = p \<or> PageProperty s q)"
  "PageProperty (ClearPageProperty p s) q = (q \<noteq> p \<and> PageProperty s q)"
  "PageProperty (set_property p ord s) q = PageProperty s q"
  "PageProperty (free_list_add ord p s) q = PageProperty s q"
  "PageProperty (free_list_del ord p s) q = PageProperty s q"
  by (auto simp: PageReserved_def PageProperty_def SetPageProperty_def ClearPageProperty_def
      set_property_def bit_set_bit_iff bit_unset_bit_iff)

lemma page_field_simps [simp]:
  "page_zone (SetPageProperty p s) q = page_zone s q"
  "page_zone (ClearPageProperty p s) q = page_zone s q"
  "page_zone (set_property p ord s) q = page_zone s q"
  "page_zone (free_list_add ord p s) q = page_zone s q"
  "page_zone (free_list_del ord p s) q = page_zone s q"
  "pg_property (pages (SetPageProperty p s) q) = pg_property (pages s q)"
  "pg_property (pages (ClearPageProperty p s) q) = pg_property (pages s q)"
  "pg_property (pages (set_property p ord s) q) = (if q = p then ord else pg_property (pages s q))"
  by (simp_all add: page_zone_def SetPageProperty_def ClearPageProperty_def set_property_def)

text \<open>Putting a block on its free list, and taking it off: the two primitive moves.\<close>

definition attach :: "nat \<Rightarrow> nat \<Rightarrow> buddy \<Rightarrow> buddy" where
  "attach p ord s = free_list_add ord p (SetPageProperty p (set_property p ord s))"

definition detach :: "nat \<Rightarrow> nat \<Rightarrow> buddy \<Rightarrow> buddy" where
  "detach p ord s = ClearPageProperty p (free_list_del ord p s)"

lemma attach_detach_simps [simp]:
  "npage (attach p ord s) = npage s" "zones (attach p ord s) = zones s"
  "zone_count (attach p ord s) = zone_count s" "zone_count (detach p ord s) = zone_count s"
  "page_zone (attach p ord s) q = page_zone s q"
  "PageReserved (attach p ord s) q = PageReserved s q"
  "npage (detach p ord s) = npage s" "zones (detach p ord s) = zones s"
  "page_zone (detach p ord s) q = page_zone s q"
  "PageReserved (detach p ord s) q = PageReserved s q"
  "PageProperty (attach p ord s) q = (q = p \<or> PageProperty s q)"
  "PageProperty (detach p ord s) q = (q \<noteq> p \<and> PageProperty s q)"
  "pg_property (pages (attach p ord s) q) = (if q = p then ord else pg_property (pages s q))"
  "pg_property (pages (detach p ord s) q) = pg_property (pages s q)"
  "free_list (attach p ord s) = (free_list s)(ord := p # free_list s ord)"
  "free_list (detach p ord s) = (free_list s)(ord := remove1 p (free_list s ord))"
  "nr_free (attach p ord s) = (nr_free s)(ord := nr_free s ord + 1)"
  "nr_free (detach p ord s) = (nr_free s)(ord := nr_free s ord - 1)"
  by (simp_all add: attach_def detach_def)

lemma region_aligned_simps [simp]:
  "region_ok (attach p ord s) q n = region_ok s q n" "aligned (attach p ord s) q k = aligned s q k"
  "region_ok (detach p ord s) q n = region_ok s q n" "aligned (detach p ord s) q k = aligned s q k"
  "buddy_of (attach p ord s) q k = buddy_of s q k" "buddy_of (detach p ord s) q k = buddy_of s q k"
  by (simp_all add: region_ok_def aligned_def buddy_of_def)

section \<open>Attaching and detaching blocks\<close>

lemma buddy_invD:
  assumes "buddy_inv s" and "ord \<le> MAX_ORDER"
  shows "distinct (free_list s ord)" and "nr_free s ord = length (free_list s ord)"
    and "p \<in> set (free_list s ord) \<Longrightarrow> block_ok s p ord"
  using assms by (auto simp: buddy_inv_def)

lemma buddy_inv_propertyD:
  assumes "buddy_inv s" and "p < npage s" and "\<not> PageReserved s p" and "PageProperty s p"
  shows "pg_property (pages s p) \<le> MAX_ORDER"
    and "p \<in> set (free_list s (pg_property (pages s p)))"
  using assms by (auto simp: buddy_inv_def)

lemma blk_self [simp]: "p \<in> blk p ord"
  by (simp add: blk_def)

lemma free_setI: "ord \<le> MAX_ORDER \<Longrightarrow> p \<in> set (free_list s ord) \<Longrightarrow> q \<in> blk p ord \<Longrightarrow> q \<in> free_set s"
  by (auto simp: free_set_def)

lemma free_setE:
  assumes "q \<in> free_set s"
  obtains ord p where "ord \<le> MAX_ORDER" "p \<in> set (free_list s ord)" "q \<in> blk p ord"
  using assms by (auto simp: free_set_def)

lemma region_okD:
  "region_ok s p n \<Longrightarrow> q \<in> {p..<p + n} \<Longrightarrow> q < npage s \<and> \<not> PageReserved s q \<and> page_zone s q = page_zone s p"
  unfolding region_ok_def by blast

lemma region_ok_zone_le: "region_ok s p n \<Longrightarrow> zones s (page_zone s p) \<le> p"
  unfolding region_ok_def by blast

text \<open>Distinct free blocks do not overlap.\<close>

lemma blocks_disjoint:
  assumes "block_ok s p k" and "block_ok s p' k'" and "q \<in> blk p k" and "q \<in> blk p' k'"
  shows "p = p' \<and> k = k'"
proof -
  have "\<not> p < p'" using assms unfolding block_ok_def blk_def by (metis atLeastLessThan_iff greaterThanLessThan_iff le_less_trans)
  moreover have "\<not> p' < p" using assms unfolding block_ok_def blk_def by (metis atLeastLessThan_iff greaterThanLessThan_iff le_less_trans)
  ultimately have "p = p'" by simp
  with assms show ?thesis by (auto simp: block_ok_def)
qed

text \<open>Under the invariant a usable page outside the free set carries no \<^verbatim>\<open>PG_property\<close>.\<close>

lemma not_free_no_property:
  assumes "buddy_inv s" and "q \<notin> free_set s" and "q < npage s" and "\<not> PageReserved s q"
  shows "\<not> PageProperty s q"
  using assms buddy_inv_propertyD [OF assms(1,3,4)] free_setI blk_self by blast

text \<open>A block that is aligned, usable and not free.\<close>

definition detached :: "buddy \<Rightarrow> nat \<Rightarrow> nat \<Rightarrow> bool" where
  "detached s p ord \<longleftrightarrow> region_ok s p (2 ^ ord) \<and> aligned s p ord \<and> blk p ord \<inter> free_set s = {}"

lemma detached_no_property:
  assumes "buddy_inv s" and "detached s p ord" and "q \<in> blk p ord"
  shows "\<not> PageProperty s q"
proof (rule not_free_no_property [OF assms(1)])
  show "q \<notin> free_set s" using assms(2,3) by (auto simp: detached_def)
  have "region_ok s p (2 ^ ord)" using assms(2) by (simp add: detached_def)
  with assms(3) show "q < npage s" "\<not> PageReserved s q"
    using region_okD [of s p "2 ^ ord" q] by (auto simp: blk_def)
qed

lemma free_set_attach:
  assumes "ord \<le> MAX_ORDER"
  shows "free_set (attach p ord s) = free_set s \<union> blk p ord"
  using assms by (auto simp: free_set_def split: if_splits)

lemma attach_inv:
  assumes inv: "buddy_inv s" and det: "detached s p ord" and le: "ord \<le> MAX_ORDER"
  shows "buddy_inv (attach p ord s)"
proof -
  have p: "p \<notin> free_set s" using det blk_self [of p ord] unfolding detached_def by blast
  have new: "block_ok (attach p ord s) p ord"
    using det detached_no_property [OF inv det] by (auto simp: block_ok_def detached_def blk_def)
  have old: "block_ok (attach p ord s) q k" if "k \<le> MAX_ORDER" "q \<in> set (free_list s k)" for q k
  proof -
    have q: "block_ok s q k" using buddy_invD(3) [OF inv that(1,2)] .
    have "p \<notin> blk q k" using p that by (auto intro: free_setI)
    then show ?thesis using q by (auto simp: block_ok_def blk_def)
  qed
  have notin: "p \<notin> set (free_list s ord)" using p le by (auto intro: free_setI [of _ p])
  show ?thesis
    unfolding buddy_inv_def
  proof (intro conjI allI impI ballI)
    fix k assume "k \<le> MAX_ORDER"
    then show "distinct (free_list (attach p ord s) k)"
      using buddy_invD(1) [OF inv] notin by auto
    show "nr_free (attach p ord s) k = length (free_list (attach p ord s) k)"
      using buddy_invD(2) [OF inv \<open>k \<le> MAX_ORDER\<close>] by auto
  next
    fix k q assume "k \<le> MAX_ORDER" "q \<in> set (free_list (attach p ord s) k)"
    then show "block_ok (attach p ord s) q k" using new old by (auto split: if_splits)
  next
    fix q assume q: "q < npage (attach p ord s)"
      "\<not> PageReserved (attach p ord s) q \<and> PageProperty (attach p ord s) q"
    then show "pg_property (pages (attach p ord s) q) \<le> MAX_ORDER"
      using buddy_inv_propertyD(1) [OF inv, of q] le by auto
    from q show "q \<in> set (free_list (attach p ord s) (pg_property (pages (attach p ord s) q)))"
      using buddy_inv_propertyD(2) [OF inv, of q] by auto
  qed
qed

lemma free_set_detach:
  assumes inv: "buddy_inv s" and le: "ord \<le> MAX_ORDER" and p: "p \<in> set (free_list s ord)"
  shows "free_set (detach p ord s) = free_set s - blk p ord"
proof
  show "free_set s - blk p ord \<subseteq> free_set (detach p ord s)"
  proof
    fix q assume q: "q \<in> free_set s - blk p ord"
    then obtain k r where r: "k \<le> MAX_ORDER" "r \<in> set (free_list s k)" "q \<in> blk r k"
      by (auto elim: free_setE)
    with q have "r \<noteq> p \<or> k \<noteq> ord" by auto
    with r have "r \<in> set (free_list (detach p ord s) k)" by (auto simp: in_set_remove1)
    with r(1) show "q \<in> free_set (detach p ord s)" using r(3) by (rule free_setI)
  qed
  show "free_set (detach p ord s) \<subseteq> free_set s - blk p ord"
  proof
    fix q assume "q \<in> free_set (detach p ord s)"
    then obtain k r where r: "k \<le> MAX_ORDER" "r \<in> set (free_list (detach p ord s) k)" "q \<in> blk r k"
      by (rule free_setE)
    have mem: "r \<in> set (free_list s k)"
      using r(2) set_remove1_subset [of p "free_list s ord"] by (auto split: if_splits)
    have ne: "r \<noteq> p \<or> k \<noteq> ord" using r(2) buddy_invD(1) [OF inv le] by auto
    have "q \<notin> blk p ord"
      using blocks_disjoint [OF buddy_invD(3) [OF inv r(1) mem] buddy_invD(3) [OF inv le p] r(3)] ne
      by blast
    then show "q \<in> free_set s - blk p ord"
      using free_setI [OF r(1) mem r(3)] by simp
  qed
qed

lemma detach_inv:
  assumes inv: "buddy_inv s" and le: "ord \<le> MAX_ORDER" and p: "p \<in> set (free_list s ord)"
  shows "buddy_inv (detach p ord s)" and "detached (detach p ord s) p ord"
proof -
  have pok: "block_ok s p ord" using buddy_invD(3) [OF inv le p] .
  have sub: "set (remove1 p (free_list s ord)) = set (free_list s ord) - {p}"
    using buddy_invD(1) [OF inv le] by simp
  have mem: "q \<noteq> p \<and> q \<in> set (free_list s k)"
    if "k \<le> MAX_ORDER" "q \<in> set (free_list (detach p ord s) k)" for q k
  proof -
    have q: "q \<in> set (free_list s k)" using that sub by (auto split: if_splits)
    then have "pg_property (pages s q) = k"
      using buddy_invD(3) [OF inv that(1)] by (auto simp: block_ok_def)
    moreover have "pg_property (pages s p) = ord" using pok by (simp add: block_ok_def)
    ultimately show ?thesis using that sub q by (auto split: if_splits)
  qed
  show "buddy_inv (detach p ord s)"
    unfolding buddy_inv_def
  proof (intro conjI allI impI ballI)
    fix k assume "k \<le> MAX_ORDER"
    then show "distinct (free_list (detach p ord s) k)"
      using buddy_invD(1) [OF inv] by auto
    show "nr_free (detach p ord s) k = length (free_list (detach p ord s) k)"
      using buddy_invD(2) [OF inv \<open>k \<le> MAX_ORDER\<close>] p
      by (cases "k = ord") (simp_all add: length_remove1)
  next
    fix k q assume kq: "k \<le> MAX_ORDER" "q \<in> set (free_list (detach p ord s) k)"
    then have "q \<noteq> p" and "block_ok s q k"
      using mem buddy_invD(3) [OF inv] by blast+
    then show "block_ok (detach p ord s) q k" by (auto simp: block_ok_def)
  next
    fix q assume q: "q < npage (detach p ord s)"
      "\<not> PageReserved (detach p ord s) q \<and> PageProperty (detach p ord s) q"
    then show "pg_property (pages (detach p ord s) q) \<le> MAX_ORDER"
      using buddy_inv_propertyD(1) [OF inv, of q] by auto
    from q have "q \<noteq> p" and "q \<in> set (free_list s (pg_property (pages s q)))"
      using buddy_inv_propertyD(2) [OF inv, of q] by simp_all
    then show "q \<in> set (free_list (detach p ord s) (pg_property (pages (detach p ord s) q)))"
      by (cases "pg_property (pages s q) = ord") (simp_all add: in_set_remove1)
  qed
  show "detached (detach p ord s) p ord"
    using pok free_set_detach [OF inv le p] unfolding detached_def block_ok_def by simp
qed

section \<open>Coalescing\<close>

lemma coalesced_detach: "coalesced s \<Longrightarrow> coalesced (detach p ord s)"
  using set_remove1_subset [of p "free_list s ord"] by (fastforce simp: coalesced_def split: if_splits)

lemma buddy_of_sym:
  assumes "zones s (page_zone s p) \<le> p" and "page_zone s (buddy_of s p k) = page_zone s p"
  shows "buddy_of s (buddy_of s p k) k = p"
  using assms by (simp add: buddy_of_def xor.assoc)

lemma block_ok_zone_le: "block_ok s p ord \<Longrightarrow> zones s (page_zone s p) \<le> p"
  using region_ok_zone_le unfolding block_ok_def by blast

lemma coalesced_attach:
  assumes inv: "buddy_inv s" and det: "detached s p ord" and co: "coalesced s"
    and le: "ord \<le> MAX_ORDER"
    and nb: "ord < MAX_ORDER \<Longrightarrow> \<not> (buddy_of s p ord \<in> set (free_list s ord) \<and>
      page_zone s (buddy_of s p ord) = page_zone s p)"
  shows "coalesced (attach p ord s)"
proof -
  have zp: "zones s (page_zone s p) \<le> p" using det region_ok_zone_le unfolding detached_def by blast
  have self: "buddy_of s p k \<noteq> p" for k
  proof
    assume "buddy_of s p k = p"
    then have "(p - zones s (page_zone s p)) XOR 2 ^ k = p - zones s (page_zone s p)"
      by (simp add: buddy_of_def)
    then have "(2::nat) ^ k = 0" by (metis xor.assoc xor.left_neutral xor_self_eq)
    then show False by simp
  qed
  have old: False if "k < MAX_ORDER" "q \<in> set (free_list s k)" "buddy_of s q k = p" "k = ord"
    "page_zone s p = page_zone s q" for q k
  proof -
    have "block_ok s q k" using buddy_invD(3) [OF inv] that by simp
    then have "buddy_of s p k = q"
      using buddy_of_sym [of s q k] block_ok_zone_le that by simp
    then show False using nb that by simp
  qed
  show ?thesis
    unfolding coalesced_def
  proof (intro allI impI ballI notI)
    fix k q
    assume k: "k < MAX_ORDER" and q: "q \<in> set (free_list (attach p ord s) k)"
      and b: "buddy_of (attach p ord s) q k \<in> set (free_list (attach p ord s) k) \<and>
        page_zone (attach p ord s) (buddy_of (attach p ord s) q k) = page_zone (attach p ord s) q"
    from b have z: "page_zone s (buddy_of s q k) = page_zone s q" by simp
    show False
    proof (cases "k = ord \<and> q = p")
      case True
      then show False using b k nb self by auto
    next
      case False
      then have q': "q \<in> set (free_list s k)" using q by (auto split: if_splits)
      show False
      proof (cases "k = ord \<and> buddy_of s q k = p")
        case True
        then show False using old [OF k q'] z by metis
      next
        case False
        then have "buddy_of s q k \<in> set (free_list s k)" using b by (auto split: if_splits)
        then show False using co k q' z by (auto simp: coalesced_def)
      qed
    qed
  qed
qed

section \<open>States that agree\<close>

text \<open>States with the same memory map: zones, reserved pages and page zones.\<close>

definition same_map :: "buddy \<Rightarrow> buddy \<Rightarrow> bool" where
  "same_map s s' \<longleftrightarrow> npage s' = npage s \<and> zones s' = zones s \<and> zone_count s' = zone_count s \<and>
     (\<forall>q. PageReserved s' q = PageReserved s q \<and> page_zone s' q = page_zone s q)"

lemma same_map_refl [simp]: "same_map s s" and
  same_map_trans: "same_map s s' \<Longrightarrow> same_map s' s'' \<Longrightarrow> same_map s s''"
  by (simp_all add: same_map_def)

lemma same_map_attach_detach [simp]: "same_map s (attach p ord s)" "same_map s (detach p ord s)"
  by (simp_all add: same_map_def)

lemma same_map_simps:
  assumes "same_map s s'"
  shows "region_ok s' p n = region_ok s p n" "aligned s' p k = aligned s p k"
    "page2idx p s' = page2idx p s" "idx2page z i s' = idx2page z i s" "buddy_of s' p k = buddy_of s p k"
    "page_zone s' p = page_zone s p"
  using assms
  by (simp_all add: same_map_def region_ok_def aligned_def page2idx_def idx2page_def buddy_of_def)

section \<open>Splitting\<close>

lemma region_ok_sub:
  assumes "region_ok s p n" and "p \<le> q" and "q + m \<le> p + n" and "0 < m"
  shows "region_ok s q m" and "page_zone s q = page_zone s p"
proof -
  show z: "page_zone s q = page_zone s p" using region_okD [OF assms(1), of q] assms by simp
  show "region_ok s q m"
    unfolding region_ok_def
  proof (intro conjI ballI)
    show "zones s (page_zone s q) \<le> q" using z assms region_ok_zone_le [OF assms(1)] by simp
    fix r assume "r \<in> {q..<q + m}"
    then have "r \<in> {p..<p + n}" using assms by simp
    then show "r < npage s" "\<not> PageReserved s r" "page_zone s r = page_zone s q"
      using region_okD [OF assms(1), of r] z by simp_all
  qed
qed

lemma blk_Suc: "blk p (Suc k) = blk p k \<union> blk (p + 2 ^ k) k" and
  blk_halves_disjoint: "blk p k \<inter> blk (p + 2 ^ k) k = {}"
  by (auto simp: blk_def)

lemma blk_mono: "j \<le> k \<Longrightarrow> blk p j \<subseteq> blk p k"
  using power_increasing [of j k "2::nat"] by (auto simp: blk_def)

lemma detached_halves:
  assumes "detached s p (Suc k)"
  shows "detached s p k" and "detached s (p + 2 ^ k) k" and "page_zone s (p + 2 ^ k) = page_zone s p"
    and "buddy_of s (p + 2 ^ k) k = p"
proof -
  let ?z = "zones s (page_zone s p)"
  have r: "region_ok s p (2 ^ Suc k)" and a: "2 ^ Suc k dvd p - ?z" and zp: "?z \<le> p"
    and f: "blk p (Suc k) \<inter> free_set s = {}"
    using assms region_ok_zone_le by (auto simp: detached_def aligned_def)
  have a': "2 ^ k dvd p - ?z" using a pow2_dvd_mono [of k "Suc k"] by simp
  show z: "page_zone s (p + 2 ^ k) = page_zone s p"
    by (rule region_ok_sub(2) [OF r, where m = "2 ^ k"]) simp_all
  have "region_ok s p (2 ^ k)" by (rule region_ok_sub(1) [OF r]) simp_all
  then show "detached s p k" using a' f by (auto simp: detached_def aligned_def blk_Suc)
  have idx: "p + 2 ^ k - ?z = (p - ?z) + 2 ^ k" using zp by simp
  have "region_ok s (p + 2 ^ k) (2 ^ k)" by (rule region_ok_sub(1) [OF r]) simp_all
  moreover have "aligned s (p + 2 ^ k) k" unfolding aligned_def z idx using a' by simp
  ultimately show "detached s (p + 2 ^ k) k" using f by (auto simp: detached_def blk_Suc)
  have "(p - ?z) XOR 2 ^ k = (p - ?z) + 2 ^ k" using xor_pow2 [OF a'] a by simp
  then have "((p - ?z) + 2 ^ k) XOR 2 ^ k = p - ?z" by (metis xor.assoc xor.right_neutral xor_self_eq)
  then show "buddy_of s (p + 2 ^ k) k = p" unfolding buddy_of_def z idx using zp by simp
qed

lemma detached_attach_other:
  assumes "detached s p k" and "ord \<le> MAX_ORDER" and "blk p k \<inter> blk q ord = {}"
  shows "detached (attach q ord s) p k"
  using assms free_set_attach [of ord q s] by (auto simp: detached_def)

lemma split_block_correct:
  assumes "buddy_inv s" and "coalesced s" and "detached s p cur" and "cur \<le> MAX_ORDER"
    and "ord \<le> cur" and "s' = split_block ord p cur s"
  shows "buddy_inv s' \<and> coalesced s' \<and> detached s' p ord \<and> same_map s s' \<and>
    free_set s' = free_set s \<union> (blk p cur - blk p ord)"
  using assms
proof (induction cur arbitrary: s)
  case 0
  then show ?case by simp
next
  case (Suc cur)
  show ?case
  proof (cases "ord = Suc cur")
    case True
    then show ?thesis using Suc.prems by simp
  next
    case False
    let ?b = "p + 2 ^ cur" and ?s = "attach (p + 2 ^ cur) cur s"
    have le: "ord \<le> cur" "cur \<le> MAX_ORDER" using False Suc.prems by simp_all
    note h = detached_halves [OF Suc.prems(3)]
    have "p \<notin> free_set s" using h(1) blk_self [of p cur] unfolding detached_def by blast
    then have nb: "buddy_of s ?b cur \<notin> set (free_list s cur)"
      using h(4) le(2) by (auto intro: free_setI [of cur p])
    have inv: "buddy_inv ?s" by (rule attach_inv [OF Suc.prems(1) h(2) le(2)])
    have co: "coalesced ?s"
      using nb by (intro coalesced_attach [OF Suc.prems(1) h(2) Suc.prems(2) le(2)]) simp
    have det: "detached ?s p cur"
      by (rule detached_attach_other [OF h(1) le(2) blk_halves_disjoint])
    have "s' = split_block ord p cur ?s"
      using Suc.prems(6) le(1) by (simp add: Let_def attach_def)
    note ih = Suc.IH [OF inv co det le(2) le(1) this]
    then have "free_set s' = free_set s \<union> blk ?b cur \<union> (blk p cur - blk p ord)"
      using free_set_attach [OF le(2), of ?b s] by simp
    then have "free_set s' = free_set s \<union> (blk p (Suc cur) - blk p ord)"
      using blk_mono [OF le(1), of p] blk_halves_disjoint [of p cur] unfolding blk_Suc by blast
    with ih show ?thesis using same_map_trans [OF same_map_attach_detach(1), of ?b cur s s'] by simp
  qed
qed

section \<open>Allocation of one block\<close>

lemma upd_page_commute:
  "p \<noteq> q \<Longrightarrow> upd_page p f (upd_page q g s) = upd_page q g (upd_page p f s)"
  by (simp add: upd_page_def fun_upd_twist)

lemma split_block_clear:
  "ClearPageProperty p (split_block ord p cur s) = split_block ord p cur (ClearPageProperty p s)"
proof (induction cur arbitrary: s)
  case 0
  show ?case by simp
next
  case (Suc cur)
  let ?b = "p + 2 ^ cur"
  have "attach ?b cur (ClearPageProperty p s) = ClearPageProperty p (attach ?b cur s)"
    using upd_page_commute [of p ?b]
    by (simp add: attach_def ClearPageProperty_def SetPageProperty_def set_property_def
        free_list_add_def upd_page_def fun_upd_twist)
  with Suc.IH [of "attach ?b cur s"] show ?case by (simp add: Let_def attach_def)
qed

lemma alloc_find_Some:
  "alloc_find k s = Some cur \<Longrightarrow> k \<le> cur \<and> cur \<le> MAX_ORDER \<and> free_list s cur \<noteq> [] \<and>
     (\<forall>j \<in> {k..<cur}. free_list s j = [])"
proof (induction k s rule: alloc_find.induct)
  case (1 k s)
  then show ?case
    by (subst (asm) (2) alloc_find.simps)
      (auto split: if_splits simp: less_Suc_eq_le intro: le_neq_implies_less dest: Suc_leD,
       metis Suc_leI atLeastLessThan_iff le_neq_implies_less)
qed

lemma alloc_find_None:
  "alloc_find k s = None \<Longrightarrow> k \<le> j \<Longrightarrow> j \<le> MAX_ORDER \<Longrightarrow> free_list s j = []"
proof (induction k s rule: alloc_find.induct)
  case (1 k s)
  have k: "k \<le> MAX_ORDER" using "1.prems" by simp
  with "1.prems"(1) have e: "free_list s k = []" and n: "alloc_find (k + 1) s = None"
    by (subst (asm) alloc_find.simps, simp split: if_splits)+
  show ?case
  proof (cases "j = k")
    case True
    with e show ?thesis by simp
  next
    case False
    with "1.IH" [OF k] e n "1.prems" show ?thesis by simp
  qed
qed

lemma buddy_alloc_pages_sub_correct:
  assumes "buddy_inv s" and "coalesced s" and "ord \<le> MAX_ORDER"
  shows "\<exists>r s'. buddy_alloc_pages_sub ord s = Some (r, s') \<and> buddy_inv s' \<and> coalesced s' \<and> same_map s s' \<and>
    (case r of
       None \<Rightarrow> s' = s \<and> (\<forall>k \<in> {ord..MAX_ORDER}. free_list s k = [])
     | Some p \<Rightarrow> detached s' p ord \<and> blk p ord \<subseteq> free_set s \<and> free_set s' = free_set s - blk p ord)"
proof (cases "alloc_find ord s")
  case None
  then show ?thesis
    using assms alloc_find_None [OF None] by (auto simp: buddy_alloc_pages_sub_def)
next
  case (Some cur)
  then have cur: "ord \<le> cur" "cur \<le> MAX_ORDER" "free_list s cur \<noteq> []"
    using alloc_find_Some by blast+
  let ?p = "hd (free_list s cur)"
  let ?s' = "split_block ord ?p cur (detach ?p cur s)"
  have p: "?p \<in> set (free_list s cur)" using cur by simp
  note d = detach_inv [OF assms(1) cur(2) p]
  have c: "buddy_inv ?s' \<and> coalesced ?s' \<and> detached ?s' ?p ord \<and> same_map (detach ?p cur s) ?s' \<and>
      free_set ?s' = free_set (detach ?p cur s) \<union> (blk ?p cur - blk ?p ord)"
    using split_block_correct [OF d(1) coalesced_detach [OF assms(2)] d(2) cur(2,1)] by simp
  have "blk ?p cur \<subseteq> free_set s" using free_setI [OF cur(2) p] by blast
  then have f: "free_set ?s' = free_set s - blk ?p ord" and sub: "blk ?p ord \<subseteq> free_set s"
    using c free_set_detach [OF assms(1) cur(2) p] blk_mono [OF cur(1), of ?p] by blast+
  have "buddy_alloc_pages_sub ord s = Some (Some ?p, ?s')"
    using Some assms(3) by (simp add: buddy_alloc_pages_sub_def split_block_clear detach_def Let_def)
  then show ?thesis
    using c f sub same_map_trans [OF same_map_attach_detach(2), of ?p cur s ?s'] by auto
qed

section \<open>Freeing one block\<close>

text \<open>States that agree on everything the allocator looks at.\<close>

definition same_blocks :: "buddy \<Rightarrow> buddy \<Rightarrow> bool" where
  "same_blocks s s' \<longleftrightarrow> same_map s s' \<and> free_list s' = free_list s \<and> nr_free s' = nr_free s \<and>
     (\<forall>q. PageProperty s' q = PageProperty s q \<and> pg_property (pages s' q) = pg_property (pages s q))"

lemma same_blocks_simps:
  assumes "same_blocks s s'"
  shows "buddy_inv s' = buddy_inv s" "coalesced s' = coalesced s" "free_set s' = free_set s"
    "detached s' p k = detached s p k"
proof -
  have m: "same_map s s'" using assms by (simp add: same_blocks_def)
  show f: "free_set s' = free_set s" using assms by (simp add: same_blocks_def free_set_def)
  show "detached s' p k = detached s p k" by (simp add: detached_def f same_map_simps [OF m])
  show "coalesced s' = coalesced s"
    using assms by (simp add: coalesced_def same_map_simps [OF m] same_blocks_def)
  have "block_ok s' q j = block_ok s q j" for q j
    using assms by (simp add: block_ok_def same_map_simps [OF m] same_blocks_def)
  then show "buddy_inv s' = buddy_inv s"
    using assms by (simp add: buddy_inv_def same_blocks_def same_map_def)
qed

lemma free_clear_pages_ok:
  assumes "\<forall>q \<in> {p..<p + k}. \<not> PageReserved s q \<and> \<not> PageProperty s q"
  shows "\<exists>s'. free_clear_pages k p s = Some s' \<and> same_blocks s s'"
  using assms
proof (induction k arbitrary: p s)
  case 0
  then show ?case by (simp add: same_blocks_def)
next
  case (Suc k)
  let ?s = "upd_page p (\<lambda>pg. pg\<lparr>pg_flags := 0, pg_ref := 0\<rparr>) s"
  have p: "\<not> PageReserved s p \<and> \<not> PageProperty s p" using Suc.prems by simp
  then have same: "same_blocks s ?s"
    by (auto simp: same_blocks_def same_map_def PageReserved_def PageProperty_def page_zone_def)
  have "\<forall>q \<in> {p + 1..<p + 1 + k}. \<not> PageReserved ?s q \<and> \<not> PageProperty ?s q"
    using Suc.prems same by (simp add: same_blocks_def same_map_def)
  then obtain s' where "free_clear_pages k (p + 1) ?s = Some s'" "same_blocks ?s s'"
    using Suc.IH by blast
  with p same show ?case by (auto simp: same_blocks_def same_map_def)
qed

text \<open>Two detached buddies are one detached block of the next order.\<close>

lemma detached_join:
  assumes p: "detached s p k" "page_zone s p = z" "p = zones s z + i"
    and b: "detached s b k" "page_zone s b = z" "b = zones s z + (i XOR 2 ^ k)"
  defines "j \<equiv> zones s z + (i AND (i XOR 2 ^ k))"
  shows "detached s j (Suc k)" and "page_zone s j = z" and "blk j (Suc k) = blk p k \<union> blk b k"
proof -
  have dv: "2 ^ k dvd i" using p by (simp add: detached_def aligned_def)
  have pos: "2 ^ k \<le> i" if "\<not> 2 ^ Suc k dvd i"
    using that dv by (metis dvd_0_right dvd_imp_le neq0_conv)
  have low: "\<exists>lo. j = lo \<and> {p, b} = {lo, lo + 2 ^ k} \<and> 2 ^ Suc k dvd lo - zones s z"
  proof (cases "2 ^ Suc k dvd i")
    case True
    then have "j = p" and "b = p + 2 ^ k"
      using xor_pow2 [OF dv] and_xor_pow2 [OF dv] p b by (simp_all add: j_def)
    with True p show ?thesis by auto
  next
    case False
    then have "j = b" and "p = b + 2 ^ k"
      using xor_pow2 [OF dv] and_xor_pow2 [OF dv] p b pos by (simp_all add: j_def)
    moreover have "2 ^ Suc k dvd i - 2 ^ k"
    proof -
      obtain m where m: "i = m * 2 ^ k" using dv by (metis dvd_div_mult_self)
      with False have "odd m" using pow2_Suc_dvd_mult by simp
      then have "even (m - 1)" by simp
      moreover have "i - 2 ^ k = (m - 1) * 2 ^ k" using m by (simp add: diff_mult_distrib)
      ultimately show ?thesis using pow2_Suc_dvd_mult by simp
    qed
    ultimately show ?thesis using b xor_pow2 [OF dv] False by auto
  qed
  then have pb: "(p = j \<and> b = j + 2 ^ k) \<or> (b = j \<and> p = j + 2 ^ k)"
    and al: "2 ^ Suc k dvd j - zones s z" by (auto simp: doubleton_eq_iff)
  show z: "page_zone s j = z" using pb p(2) b(2) by auto
  show u: "blk j (Suc k) = blk p k \<union> blk b k" using pb blk_Suc [of j k] by auto
  have r: "region_ok s p (2 ^ k)" "region_ok s b (2 ^ k)"
    using p(1) b(1) by (simp_all add: detached_def)
  have "q < npage s \<and> \<not> PageReserved s q \<and> page_zone s q = z" if "q \<in> {j..<j + 2 ^ Suc k}" for q
  proof -
    have "q \<in> blk p k \<or> q \<in> blk b k" using that u by (auto simp: blk_def)
    then show ?thesis
      using region_okD [OF r(1), of q] region_okD [OF r(2), of q] p(2) b(2) by (auto simp: blk_def)
  qed
  moreover have "zones s z \<le> j" by (simp add: j_def)
  ultimately have "region_ok s j (2 ^ Suc k)" unfolding region_ok_def z by blast
  moreover have "blk j (Suc k) \<inter> free_set s = {}"
    using p(1) b(1) unfolding u detached_def by blast
  ultimately show "detached s j (Suc k)" using al z by (simp add: detached_def aligned_def)
qed

lemma page_is_buddy_in_list:
  "buddy_inv s \<Longrightarrow> page_is_buddy b k z s \<Longrightarrow> k \<le> MAX_ORDER \<and> b \<in> set (free_list s k) \<and> page_zone s b = z"
  using buddy_inv_propertyD [of s b] by (auto simp: page_is_buddy_def split: if_splits)

lemma merge_buddies_correct:
  assumes "merge_buddies z i ord s = (i', ord', s')"
    and "buddy_inv s" and "coalesced s" and "detached s (zones s z + i) ord"
    and "page_zone s (zones s z + i) = z" and "ord \<le> MAX_ORDER"
  shows "buddy_inv s' \<and> coalesced s' \<and> detached s' (zones s z + i') ord' \<and>
    page_zone s' (zones s z + i') = z \<and> ord' \<le> MAX_ORDER \<and> same_map s s' \<and>
    free_set s' \<union> blk (zones s z + i') ord' = free_set s \<union> blk (zones s z + i) ord \<and>
    (ord' < MAX_ORDER \<longrightarrow> \<not> page_is_buddy (zones s z + (i' XOR 2 ^ ord')) ord' z s')"
  using assms
proof (induction z i ord s rule: merge_buddies.induct)
  case (1 z i ord s)
  let ?b = "zones s z + (i XOR 2 ^ ord)" and ?p = "zones s z + i"
  show ?case
  proof (cases "ord < MAX_ORDER \<and> page_is_buddy ?b ord z s")
    case False
    then have "(i', ord', s') = (i, ord, s)"
      using "1.prems"(1) by (auto simp: merge_buddies.simps [of z i ord s] Let_def idx2page_def split: if_splits)
    then show ?thesis using "1.prems" False by auto
  next
    case True
    let ?s = "detach ?b ord s"
    have b: "?b \<in> set (free_list s ord)" and zb: "page_zone s ?b = z"
      using page_is_buddy_in_list [OF "1.prems"(2)] True by auto
    note d = detach_inv [OF "1.prems"(2,6) b] and f = free_set_detach [OF "1.prems"(2,6) b]
    have dp: "detached ?s ?p ord" using "1.prems"(4) f unfolding detached_def by auto
    have zi: "zones ?s z = zones s z" by simp
    note j = detached_join [of ?s ?p ord z i ?b, unfolded zi, OF dp _ refl d(2) _ refl]
    have m: "merge_buddies z (i AND (i XOR 2 ^ ord)) (ord + 1) ?s = (i', ord', s')"
      using "1.prems"(1) True
      by (simp add: merge_buddies.simps [of z i ord s] Let_def idx2page_def detach_def)
    have ih: "buddy_inv s' \<and> coalesced s' \<and> detached s' (zones s z + i') ord' \<and>
      page_zone s' (zones s z + i') = z \<and> ord' \<le> MAX_ORDER \<and> same_map ?s s' \<and>
      free_set s' \<union> blk (zones s z + i') ord' =
        free_set ?s \<union> blk (zones s z + (i AND (i XOR 2 ^ ord))) (ord + 1) \<and>
      (ord' < MAX_ORDER \<longrightarrow> \<not> page_is_buddy (zones s z + (i' XOR 2 ^ ord')) ord' z s')"
      using "1.IH" [OF _ refl refl, of] True m d(1) coalesced_detach [OF "1.prems"(3)] j zb "1.prems"(5)
      by (simp add: idx2page_def detach_def)
    have "blk (zones s z + (i AND (i XOR 2 ^ ord))) (ord + 1) = blk ?p ord \<union> blk ?b ord"
      using j(3) zb "1.prems"(5) by simp
    moreover have "blk ?b ord \<subseteq> free_set s" using free_setI [OF "1.prems"(6) b] by blast
    ultimately have "free_set ?s \<union> blk (zones s z + (i AND (i XOR 2 ^ ord))) (ord + 1) =
        free_set s \<union> blk ?p ord"
      unfolding f by auto
    with ih show ?thesis using same_map_trans [OF same_map_attach_detach(2), of ?b ord s s'] by simp
  qed
qed

lemma buddy_free_pages_sub_correct:
  assumes inv: "buddy_inv s" and co: "coalesced s" and det: "detached s base ord"
    and le: "ord \<le> MAX_ORDER"
  shows "\<exists>s'. buddy_free_pages_sub base ord s = Some s' \<and> buddy_inv s' \<and> coalesced s' \<and>
    free_set s' = free_set s \<union> blk base ord \<and> same_map s s'"
proof -
  let ?z = "page_zone s base"
  have r: "region_ok s base (2 ^ ord)" using det by (simp add: detached_def)
  have "\<not> PageReserved s q \<and> \<not> PageProperty s q" if "q \<in> {base..<base + 2 ^ ord}" for q
    using region_okD [OF r that] detached_no_property [OF inv det] that by (auto simp: blk_def)
  then obtain s1 where s1: "free_clear_pages (2 ^ ord) base s = Some s1" "same_blocks s s1"
    using free_clear_pages_ok by blast
  have m1: "same_map s s1" using s1(2) by (simp add: same_blocks_def)
  note sb = same_blocks_simps [OF s1(2)] and sm = same_map_simps [OF m1]
  have zs: "zones s1 = zones s" using m1 by (simp add: same_map_def)
  obtain i' ord' s2 where mb: "merge_buddies ?z (page2idx base s) ord s1 = (i', ord', s2)"
    by (cases "merge_buddies ?z (page2idx base s) ord s1") auto
  have base: "zones s ?z + page2idx base s = base"
    using region_ok_zone_le [OF r] by (simp add: page2idx_def)
  let ?p = "zones s ?z + i'"
  have c: "buddy_inv s2 \<and> coalesced s2 \<and> detached s2 ?p ord' \<and> page_zone s2 ?p = ?z \<and>
      ord' \<le> MAX_ORDER \<and> same_map s1 s2 \<and> free_set s2 \<union> blk ?p ord' = free_set s \<union> blk base ord \<and>
      (ord' < MAX_ORDER \<longrightarrow> \<not> page_is_buddy (zones s ?z + (i' XOR 2 ^ ord')) ord' ?z s2)"
    using merge_buddies_correct [OF mb] inv co det le sb sm base zs by simp
  then have m2: "same_map s s2" using m1 same_map_trans by blast
  have nb: "\<not> (buddy_of s2 ?p ord' \<in> set (free_list s2 ord') \<and>
      page_zone s2 (buddy_of s2 ?p ord') = page_zone s2 ?p)" if "ord' < MAX_ORDER"
  proof
    assume a: "buddy_of s2 ?p ord' \<in> set (free_list s2 ord') \<and>
      page_zone s2 (buddy_of s2 ?p ord') = page_zone s2 ?p"
    let ?b = "buddy_of s2 ?p ord'"
    have "page_zone s2 ?p = ?z" using c by blast
    moreover have "zones s2 = zones s" using m2 by (simp add: same_map_def)
    ultimately have "?b = zones s ?z + (i' XOR 2 ^ ord')" by (simp add: buddy_of_def)
    moreover have "block_ok s2 ?b ord'" using buddy_invD(3) [of s2 ord' ?b] c a by simp
    then have "page_is_buddy ?b ord' ?z s2"
      using a c region_okD [of s2 ?b "2 ^ ord'" ?b] by (auto simp: block_ok_def page_is_buddy_def)
    ultimately show False using c that by simp
  qed
  have "(page2idx base s AND (2 ^ ord - 1) = 0)"
    using det by (simp only: and_pred_pow2_eq_0) (simp add: detached_def aligned_def page2idx_def)
  moreover have "idx2page ?z i' s2 = ?p" using m2 by (simp add: idx2page_def same_map_def)
  ultimately have res: "buddy_free_pages_sub base ord s = Some (attach ?p ord' s2)"
    using s1 mb sm by (simp add: buddy_free_pages_sub_def attach_def Let_def)
  have "coalesced (attach ?p ord' s2)" using c nb by (intro coalesced_attach) auto
  then show ?thesis
    using res attach_inv [of s2 ?p ord'] free_set_attach [of ord' ?p s2] c
      same_map_trans [OF m2 same_map_attach_detach(1), of ?p ord'] by auto
qed

section \<open>Freeing and allocating runs of pages\<close>

text \<open>What is left to free: nothing, or an allocated run whose start is aligned to the current order.\<close>

definition rest_ok :: "nat \<Rightarrow> nat \<Rightarrow> nat \<Rightarrow> buddy \<Rightarrow> bool" where
  "rest_ok ord base n s \<longleftrightarrow> n = 0 \<or> (allocated s base n \<and> aligned s base ord)"

lemma rest_detached:
  assumes "rest_ok ord base n s" and "2 ^ ord \<le> n"
  shows "detached s base ord"
proof -
  have n: "n \<noteq> 0" using assms(2) pow2_pos [of ord] by linarith
  then have r: "region_ok s base n" and a: "aligned s base ord"
    and f: "{base..<base + n} \<inter> free_set s = {}"
    using assms by (auto simp: rest_ok_def allocated_def)
  have "region_ok s base (2 ^ ord)" using assms(2) by (intro region_ok_sub(1) [OF r]) simp_all
  moreover have "blk base ord \<subseteq> {base..<base + n}" using assms(2) by (auto simp: blk_def)
  ultimately show ?thesis using a f unfolding detached_def by blast
qed

lemma aligned_page2idx: "aligned s p k = (2 ^ k dvd page2idx p s)"
  by (simp add: aligned_def page2idx_def)

text \<open>After one block is freed, the rest stays allocated and aligned.\<close>

lemma rest_step:
  assumes rest: "rest_ok ord base n s" and le: "2 ^ ord \<le> n" and map: "same_map s s'"
    and free: "free_set s' = free_set s \<union> blk base ord"
  shows "rest_ok ord (base + 2 ^ ord) (n - 2 ^ ord) s'"
    and "odd (page2idx base s div 2 ^ ord) \<Longrightarrow> rest_ok (Suc ord) (base + 2 ^ ord) (n - 2 ^ ord) s'"
proof -
  let ?b = "base + 2 ^ ord" and ?n = "n - 2 ^ ord"
  have n: "n \<noteq> 0" using le pow2_pos [of ord] by linarith
  then have r: "region_ok s base n" and a: "aligned s base ord"
    and f: "{base..<base + n} \<inter> free_set s = {}"
    using rest by (auto simp: rest_ok_def allocated_def)
  have idx: "page_zone s ?b = page_zone s base" "page2idx ?b s = page2idx base s + 2 ^ ord"
    and al: "region_ok s ?b ?n" if "?n \<noteq> 0"
  proof -
    show z: "page_zone s ?b = page_zone s base" using le that by (intro region_ok_sub(2) [OF r, where m = ?n]) auto
    show "region_ok s ?b ?n" using le that by (intro region_ok_sub(1) [OF r]) auto
    show "page2idx ?b s = page2idx base s + 2 ^ ord"
      using region_ok_zone_le [OF r] by (simp add: page2idx_def z)
  qed
  have "{?b..<?b + ?n} \<subseteq> {base..<base + n}" "{?b..<?b + ?n} \<inter> blk base ord = {}"
    using le by (auto simp: blk_def)
  then have "{?b..<?b + ?n} \<inter> free_set s' = {}" using f unfolding free by blast
  then have alloc: "allocated s' ?b ?n" if "?n \<noteq> 0"
    using al [OF that] same_map_simps [OF map] by (simp add: allocated_def)
  have dv: "2 ^ ord dvd page2idx base s" using a by (simp add: aligned_def page2idx_def)
  have "aligned s' ?b ord" if "?n \<noteq> 0"
    using dv by (simp add: same_map_simps(3) [OF map] aligned_page2idx idx(2) [OF that])
  with alloc show "rest_ok ord ?b ?n s'" by (auto simp: rest_ok_def)
  assume odd: "odd (page2idx base s div 2 ^ ord)"
  have "2 ^ Suc ord dvd page2idx base s + 2 ^ ord"
  proof -
    obtain m where m: "page2idx base s = m * 2 ^ ord" using dv by (metis dvd_div_mult_self)
    then have "page2idx base s + 2 ^ ord = (m + 1) * 2 ^ ord" and "odd m"
      using odd by (simp_all add: algebra_simps)
    then show ?thesis using pow2_Suc_dvd_mult [of ord "m + 1"] by (simp add: add.commute)
  qed
  then have "aligned s' ?b (Suc ord)" if "?n \<noteq> 0"
    by (simp add: same_map_simps(3) [OF map] aligned_page2idx idx(2) [OF that])
  with alloc show "rest_ok (Suc ord) ?b ?n s'" by (auto simp: rest_ok_def)
qed

lemma order_bound: "2 ^ ord \<le> (n::nat) \<Longrightarrow> n < 2 ^ (MAX_ORDER + 1) \<Longrightarrow> ord \<le> MAX_ORDER"
  using power_less_imp_less_exp [of "2::nat" ord "MAX_ORDER + 1"] by (simp add: less_Suc_eq_le)

lemma run_split: "m \<le> n \<Longrightarrow> {b..<b + m} \<union> {b + m..<b + m + (n - m)} = {b..<b + (n::nat)}"
  by auto

definition freed :: "buddy \<Rightarrow> nat set \<Rightarrow> buddy \<Rightarrow> bool" where
  "freed s A s' \<longleftrightarrow> buddy_inv s' \<and> coalesced s' \<and> same_map s s' \<and> free_set s' = free_set s \<union> A"

lemma freed_trans: "freed s A s' \<Longrightarrow> freed s' B s'' \<Longrightarrow> freed s (A \<union> B) s''"
  by (auto simp: freed_def intro: same_map_trans)

lemma free_up_correct:
  assumes "buddy_inv s" and "coalesced s" and "rest_ok ord base n s" and "n < 2 ^ (MAX_ORDER + 1)"
  shows "\<exists>ord' base' n' s'. free_up ord base n s = Some (ord', base', n', s') \<and> n' \<le> n \<and>
    rest_ok ord' base' n' s' \<and> freed s ({base..<base + n} - {base'..<base' + n'}) s' \<and>
    {base'..<base' + n'} \<subseteq> {base..<base + n}"
  using assms
proof (induction ord base n s rule: free_up.induct)
  case (1 ord base n s)
  show ?case
  proof (cases "2 ^ ord \<le> n")
    case False
    then show ?thesis using "1.prems" by (auto simp: free_up.simps [of ord base n s] freed_def)
  next
    case le: True
    have ord: "ord \<le> MAX_ORDER" by (rule order_bound [OF le "1.prems"(4)])
    have n: "n \<noteq> 0" using le pow2_pos [of ord] by linarith
    have ka: "kassert (ord \<le> MAX_ORDER) = Some ()" using ord by simp
    have lt: "n - 2 ^ ord < 2 ^ (MAX_ORDER + 1)" using "1.prems"(4) by linarith
    show ?thesis
    proof (cases "page2idx base s AND 2 ^ ord \<noteq> 0")
      case True
      obtain s1 where s1: "buddy_free_pages_sub base ord s = Some s1" "freed s (blk base ord) s1"
        using buddy_free_pages_sub_correct [OF "1.prems"(1,2) rest_detached [OF "1.prems"(3) le] ord]
        by (auto simp: freed_def)
      have "odd (page2idx base s div 2 ^ ord)" using True unfolding and_pow2_neq_0 .
      then have rest: "rest_ok (ord + 1) (base + 2 ^ ord) (n - 2 ^ ord) s1"
        using rest_step(2) [OF "1.prems"(3) le, of s1] s1(2) by (simp add: freed_def)
      obtain ord' base' n' s' where
        r: "free_up (ord + 1) (base + 2 ^ ord) (n - 2 ^ ord) s1 = Some (ord', base', n', s')"
        and n': "n' \<le> n - 2 ^ ord" and rest': "rest_ok ord' base' n' s'"
        and f: "freed s1 ({base + 2 ^ ord..<base + 2 ^ ord + (n - 2 ^ ord)} - {base'..<base' + n'}) s'"
        and sub: "{base'..<base' + n'} \<subseteq> {base + 2 ^ ord..<base + 2 ^ ord + (n - 2 ^ ord)}"
        using "1.IH"(1) [OF le ka True s1(1) _ _ rest lt] s1(2) unfolding freed_def by blast
      have "blk base ord \<union> ({base + 2 ^ ord..<base + 2 ^ ord + (n - 2 ^ ord)} - {base'..<base' + n'}) =
          {base..<base + n} - {base'..<base' + n'}"
        using run_split [OF le, of base] sub by (auto simp: blk_def)
      then have "freed s ({base..<base + n} - {base'..<base' + n'}) s'"
        using freed_trans [OF s1(2) f] by simp
      moreover have "{base'..<base' + n'} \<subseteq> {base..<base + n}"
        using run_split [OF le, of base] sub by blast
      moreover have "free_up ord base n s = Some (ord', base', n', s')"
        using le ord True s1(1) r by (simp add: free_up.simps [of ord base n s])
      ultimately show ?thesis using n' rest' by auto
    next
      case False
      have "aligned s base (ord + 1)"
      proof -
        have dv: "2 ^ ord dvd page2idx base s"
          using "1.prems"(3) n by (simp add: rest_ok_def aligned_def page2idx_def)
        then obtain m where m: "page2idx base s = m * 2 ^ ord" by (metis dvd_div_mult_self)
        then have "even m" using False and_pow2_neq_0 [of "page2idx base s" ord] by simp
        then show ?thesis using m pow2_Suc_dvd_mult [of ord m] by (simp add: aligned_def page2idx_def)
      qed
      then have "rest_ok (ord + 1) base n s" using "1.prems"(3) by (auto simp: rest_ok_def)
      then show ?thesis
        using "1.IH"(2) [OF le _ False] ord "1.prems" le False
        by (simp add: free_up.simps [of ord base n s])
    qed
  qed
qed

lemma shrink_order_le: "shrink_order n ord \<le> ord"
  by (induction ord) auto

lemma shrink_order_pow: "0 < n \<Longrightarrow> 2 ^ shrink_order n ord \<le> n"
  by (induction ord) auto

lemma free_down_correct:
  assumes "buddy_inv s" and "coalesced s" and "rest_ok ord base n s" and "n < 2 ^ (MAX_ORDER + 1)"
  shows "\<exists>s'. free_down ord base n s = Some s' \<and> freed s {base..<base + n} s'"
  using assms
proof (induction ord base n s rule: free_down.induct)
  case (1 ord base n s)
  show ?case
  proof (cases "n = 0")
    case True
    then show ?thesis using "1.prems" by (simp add: free_down.simps [of ord base 0 s] freed_def)
  next
    case False
    let ?o = "shrink_order n ord"
    have le: "2 ^ ?o \<le> n" using False by (simp add: shrink_order_pow)
    have ord: "?o \<le> MAX_ORDER" by (rule order_bound [OF le "1.prems"(4)])
    have lt: "n - 2 ^ ?o < 2 ^ (MAX_ORDER + 1)" using "1.prems"(4) by linarith
    have rest: "rest_ok ?o base n s"
      using "1.prems"(3) pow2_dvd_mono [OF shrink_order_le [of n ord]]
      by (auto simp: rest_ok_def aligned_def)
    obtain s1 where s1: "buddy_free_pages_sub base ?o s = Some s1" "freed s (blk base ?o) s1"
      using buddy_free_pages_sub_correct [OF "1.prems"(1,2) rest_detached [OF rest le] ord]
      by (auto simp: freed_def)
    have "rest_ok ?o (base + 2 ^ ?o) (n - 2 ^ ?o) s1"
      using rest_step(1) [OF rest le, of s1] s1(2) by (simp add: freed_def)
    then obtain s' where s': "free_down ?o (base + 2 ^ ?o) (n - 2 ^ ?o) s1 = Some s'"
      "freed s1 {base + 2 ^ ?o..<base + 2 ^ ?o + (n - 2 ^ ?o)} s'"
      using "1.IH" [OF False refl s1(1)] s1(2) lt unfolding freed_def by blast
    have "freed s {base..<base + n} s'"
      using freed_trans [OF s1(2) s'(2)] run_split [OF le, of base] by (simp add: blk_def)
    then show ?thesis
      using s' s1(1) False by (simp add: free_down.simps [of ord base n s] Let_def)
  qed
qed

lemma buddy_free_pages_correct:
  assumes "buddy_inv s" and "coalesced s" and "allocated s base n" and "0 < n"
    and "n < 2 ^ (MAX_ORDER + 1)"
  shows "\<exists>s'. buddy_free_pages base n s = Some s' \<and> freed s {base..<base + n} s'"
proof (cases "n = 1")
  case True
  then have "detached s base 0" using assms by (simp add: detached_def allocated_def aligned_def blk_def)
  then show ?thesis
    using buddy_free_pages_sub_correct [OF assms(1,2), of base 0] True
    by (auto simp: buddy_free_pages_def freed_def blk_def)
next
  case False
  have "rest_ok 0 base n s" using assms by (simp add: rest_ok_def aligned_def)
  then obtain ord' base' n' s1 where up: "free_up 0 base n s = Some (ord', base', n', s1)" "n' \<le> n"
    "rest_ok ord' base' n' s1" "freed s ({base..<base + n} - {base'..<base' + n'}) s1"
    "{base'..<base' + n'} \<subseteq> {base..<base + n}"
    using free_up_correct [OF assms(1,2) _ assms(5)] by blast
  obtain s' where down: "free_down ord' base' n' s1 = Some s'" "freed s1 {base'..<base' + n'} s'"
    using free_down_correct [of s1 ord' base' n'] up assms(5) by (auto simp: freed_def)
  have "({base..<base + n} - {base'..<base' + n'}) \<union> {base'..<base' + n'} = {base..<base + n}"
    using up(5) by blast
  then have "freed s {base..<base + n} s'" using freed_trans [OF up(4) down(2)] by simp
  then show ?thesis using assms(4) False up(1) down(1) by (simp add: buddy_free_pages_def)
qed

end
