(* ===== verification/Buddy_Pmm.thy ===== *)
theory Buddy_Pmm
  imports Buddy
begin

text \<open>
  The buddy allocator as the kernel sees it: the operations of
  \<^verbatim>\<open>buddy_pmm_manager\<close> on the abstract state, the set of free pages. The contract of
  \<^verbatim>\<open>struct pmm_manager\<close> (\<^verbatim>\<open>supervisor/mm/pmm.h\<close>) is a locale, interpreted on the buddy
  operations; the properties of this component rest on that interpretation.
\<close>

section \<open>Allocation\<close>

lemma getorder_from_Some:
  "n \<le> 2 ^ MAX_ORDER \<Longrightarrow> k \<le> MAX_ORDER \<Longrightarrow> \<exists>ord. getorder_from k n = Some ord \<and> k \<le> ord \<and>
     ord \<le> MAX_ORDER \<and> n \<le> 2 ^ ord \<and> (\<forall>j \<in> {k..<ord}. 2 ^ j < n)"
proof (induction k n rule: getorder_from.induct)
  case (1 k n)
  show ?case
  proof (cases "n \<le> 2 ^ k")
    case True
    then show ?thesis using "1.prems" by (simp add: getorder_from.simps [of k n])
  next
    case False
    then have "k \<noteq> MAX_ORDER" using "1.prems" by auto
    then have "k + 1 \<le> MAX_ORDER" using "1.prems" by simp
    from "1.IH" [OF "1.prems"(2) False "1.prems"(1) this] obtain ord
      where o: "getorder_from (k + 1) n = Some ord" "k + 1 \<le> ord" "ord \<le> MAX_ORDER" "n \<le> 2 ^ ord"
        "\<forall>j \<in> {k + 1..<ord}. 2 ^ j < n" by blast
    moreover have "\<forall>j \<in> {k..<ord}. 2 ^ j < n"
    proof
      fix j assume j: "j \<in> {k..<ord}"
      show "2 ^ j < n" using o(5) False j by (cases "j = k") auto
    qed
    ultimately show ?thesis using False "1.prems" by (auto simp: getorder_from.simps [of k n])
  qed
qed

lemma getorder_Some:
  assumes "0 < n" and "n \<le> 2 ^ MAX_ORDER"
  obtains ord where "getorder n = Some ord" "ord \<le> MAX_ORDER" "n \<le> 2 ^ ord"
    "\<forall>j < ord. 2 ^ j < n"
  using getorder_from_Some [OF assms(2), of 0] by (auto simp: getorder_def)

definition alloc_ok :: "buddy \<Rightarrow> nat \<Rightarrow> nat \<Rightarrow> buddy \<Rightarrow> bool" where
  "alloc_ok s p n s' \<longleftrightarrow> buddy_inv s' \<and> coalesced s' \<and> same_map s s' \<and> allocated s' p n \<and>
     {p..<p + n} \<subseteq> free_set s \<and> free_set s' = free_set s - {p..<p + n}"

lemma buddy_alloc_pages_correct:
  assumes "buddy_inv s" and "coalesced s" and n: "0 < n" "n \<le> 2 ^ MAX_ORDER"
  shows "\<exists>r s'. buddy_alloc_pages n s = Some (r, s') \<and>
    (case r of None \<Rightarrow> s' = s \<and> (\<forall>k \<le> MAX_ORDER. n \<le> 2 ^ k \<longrightarrow> free_list s k = [])
     | Some p \<Rightarrow> alloc_ok s p n s')"
proof -
  obtain ord where o: "getorder n = Some ord" "ord \<le> MAX_ORDER" "n \<le> 2 ^ ord" "\<forall>j < ord. 2 ^ j < n"
    using getorder_Some [OF n] by blast
  obtain r s1 where r: "buddy_alloc_pages_sub ord s = Some (r, s1)" "buddy_inv s1" "coalesced s1"
    "same_map s s1" and c: "case r of
       None \<Rightarrow> s1 = s \<and> (\<forall>k \<in> {ord..MAX_ORDER}. free_list s k = [])
     | Some p \<Rightarrow> detached s1 p ord \<and> blk p ord \<subseteq> free_set s \<and> free_set s1 = free_set s - blk p ord"
    using buddy_alloc_pages_sub_correct [OF assms(1,2) o(2)] by blast
  show ?thesis
  proof (cases r)
    case None
    have "ord \<le> k" if "n \<le> 2 ^ k" for k using o(4) that by (metis leD leI)
    then show ?thesis using None r c o n by (auto simp: buddy_alloc_pages_def)
  next
    case (Some p)
    with c have d: "detached s1 p ord" and sub: "blk p ord \<subseteq> free_set s"
      and f: "free_set s1 = free_set s - blk p ord" by auto
    have reg: "region_ok s1 p (2 ^ ord)" and nf: "blk p ord \<inter> free_set s1 = {}"
      using d by (simp_all add: detached_def)
    show ?thesis
    proof (cases "n = 2 ^ ord")
      case True
      then have "alloc_ok s p n s1"
        using r d sub f by (simp add: alloc_ok_def allocated_def detached_def blk_def)
      then show ?thesis using True Some r(1) o(1) n by (simp add: buddy_alloc_pages_def)
    next
      case False
      let ?q = "p + n" and ?m = "2 ^ ord - n"
      have m: "0 < ?m" "?m < 2 ^ (MAX_ORDER + 1)" "n < 2 ^ ord"
      proof -
        show "n < 2 ^ ord" using o(3) False by simp
        then show "0 < ?m" by simp
        have "(2::nat) ^ ord \<le> 2 ^ MAX_ORDER" using o(2) by (intro power_increasing) simp_all
        moreover have "(2::nat) ^ (MAX_ORDER + 1) = 2 * 2 ^ MAX_ORDER" by simp
        ultimately show "?m < 2 ^ (MAX_ORDER + 1)" using n(1) pow2_pos [of MAX_ORDER] by linarith
      qed
      have parts: "blk p ord = {p..<p + n} \<union> {?q..<?q + ?m}" "{p..<p + n} \<inter> {?q..<?q + ?m} = {}"
        using m by (auto simp: blk_def)
      have "region_ok s1 ?q ?m" using m by (intro region_ok_sub(1) [OF reg]) auto
      then have "allocated s1 ?q ?m" using nf parts unfolding allocated_def by blast
      then obtain s' where s': "buddy_free_pages ?q ?m s1 = Some s'" "freed s1 {?q..<?q + ?m} s'"
        using buddy_free_pages_correct [OF r(2,3) _ m(1,2)] by blast
      have reg': "region_ok s1 p n" using m n by (intro region_ok_sub(1) [OF reg]) auto
      have map: "same_map s1 s'" using s'(2) by (simp add: freed_def)
      have fs: "free_set s' = free_set s - {p..<p + n}"
        using s'(2) f sub parts unfolding freed_def by blast
      then have "allocated s' p n"
        using reg' same_map_simps(1) [OF map] unfolding allocated_def by blast
      then have "alloc_ok s p n s'"
        using s'(2) fs sub parts same_map_trans [OF r(4) map] unfolding alloc_ok_def freed_def by blast
      then show ?thesis using False Some r(1) o(1) n s'(1) by (simp add: buddy_alloc_pages_def)
    qed
  qed
qed

section \<open>Counting\<close>

lemma free_set_card:
  assumes "buddy_inv s"
  shows "finite (free_set s)" and "card (free_set s) = buddy_nr_free_pages s"
proof -
  let ?I = "Sigma {..MAX_ORDER} (\<lambda>k. set (free_list s k))" and ?B = "\<lambda>(k, p). blk p k"
  have fs: "free_set s = (\<Union>i \<in> ?I. ?B i)" by (auto simp: free_set_def)
  have fin: "finite ?I" by simp
  show "finite (free_set s)" unfolding fs by (auto simp: blk_def)
  have dis: "?B i \<inter> ?B j = {}" if "i \<in> ?I" "j \<in> ?I" "i \<noteq> j" for i j
    using that blocks_disjoint [of s "snd i" "fst i" "snd j" "fst j"] buddy_invD(3) [OF assms]
    by (fastforce split: prod.splits)
  have "card (free_set s) = (\<Sum>i \<in> ?I. card (?B i))"
    unfolding fs using dis by (intro card_UN_disjoint fin) (auto simp: blk_def)
  also have "\<dots> = (\<Sum>k \<le> MAX_ORDER. \<Sum>p \<in> set (free_list s k). 2 ^ k)"
    by (subst sum.Sigma) (auto simp: blk_def intro!: sum.cong)
  also have "\<dots> = (\<Sum>k \<le> MAX_ORDER. nr_free s k * 2 ^ k)"
    using buddy_invD(1,2) [OF assms] by (intro sum.cong) (auto simp: distinct_card)
  also have "\<dots> = buddy_nr_free_pages s"
    unfolding buddy_nr_free_pages_def sum_list_distinct_conv_sum_set [OF distinct_upt]
    by (intro sum.cong) auto
  finally show "card (free_set s) = buddy_nr_free_pages s" .
qed

section \<open>Adding a zone\<close>

definition zones_ok :: "buddy \<Rightarrow> bool" where
  "zones_ok s \<longleftrightarrow> (\<forall>p < npage s. \<not> PageReserved s p \<longrightarrow> page_zone s p < zone_count s)"

definition wiped :: "nat \<Rightarrow> nat set \<Rightarrow> buddy \<Rightarrow> buddy" where
  "wiped z A s = s\<lparr>pages := (\<lambda>q. if q \<in> A then (pages s q)\<lparr>pg_flags := 0, pg_property := 0,
     pg_zone_num := z, pg_ref := 0\<rparr> else pages s q)\<rparr>"

lemma init_memmap_pages_eq:
  "\<forall>q \<in> {p..<p + k}. PageReserved s q \<Longrightarrow> init_memmap_pages k p z s = Some (wiped z {p..<p + k} s)"
proof (induction k arbitrary: p s)
  case 0
  then show ?case by (simp add: wiped_def)
next
  case (Suc k)
  let ?s = "upd_page p (\<lambda>pg. pg\<lparr>pg_flags := 0, pg_property := 0, pg_zone_num := z, pg_ref := 0\<rparr>) s"
  have "\<forall>q \<in> {p + 1..<p + 1 + k}. PageReserved ?s q"
    using Suc.prems by (simp add: PageReserved_def)
  then have "init_memmap_pages k (p + 1) z ?s = Some (wiped z {p + 1..<p + 1 + k} ?s)"
    by (rule Suc.IH)
  moreover have "wiped z {p + 1..<p + 1 + k} ?s = wiped z {p..<p + Suc k} s"
    by (auto simp: wiped_def upd_page_def fun_eq_iff)
  ultimately show ?case using Suc.prems by simp
qed

text \<open>The state between the two loops of \<^verbatim>\<open>buddy_init_memmap\<close>: pages wiped, zone recorded.\<close>

definition new_zone :: "nat \<Rightarrow> nat \<Rightarrow> buddy \<Rightarrow> buddy" where
  "new_zone base n s = (wiped (zone_count s) {base..<base + n} s)
     \<lparr>zones := (zones s)(zone_count s := base), zone_count := zone_count s + 1\<rparr>"

lemma new_zone_simps [simp]:
  "npage (new_zone base n s) = npage s" "free_list (new_zone base n s) = free_list s"
  "nr_free (new_zone base n s) = nr_free s"
  "zones (new_zone base n s) = (zones s)(zone_count s := base)"
  "zone_count (new_zone base n s) = zone_count s + 1"
  "PageReserved (new_zone base n s) q = (q \<notin> {base..<base + n} \<and> PageReserved s q)"
  "PageProperty (new_zone base n s) q = (q \<notin> {base..<base + n} \<and> PageProperty s q)"
  "page_zone (new_zone base n s) q = (if q \<in> {base..<base + n} then zone_count s else page_zone s q)"
  "free_set (new_zone base n s) = free_set s"
  by (simp_all add: new_zone_def wiped_def PageReserved_def PageProperty_def page_zone_def free_set_def)

lemma new_zone_property:
  "q \<notin> {base..<base + n} \<Longrightarrow> pg_property (pages (new_zone base n s) q) = pg_property (pages s q)"
  unfolding new_zone_def wiped_def by auto

definition memmap_ok :: "buddy \<Rightarrow> nat \<Rightarrow> nat \<Rightarrow> bool" where
  "memmap_ok s base n \<longleftrightarrow> 0 < n \<and> base + n \<le> npage s \<and> zone_count s < MAX_ZONE_NUM \<and>
     (\<forall>q \<in> {base..<base + n}. PageReserved s q)"

lemma new_zone_block:
  assumes b: "block_ok s p k" and zo: "zones_ok s" and mm: "memmap_ok s base n" and q: "q \<in> blk p k"
  shows "q \<notin> {base..<base + n}" and "page_zone s q = page_zone s p" and "page_zone s p < zone_count s"
proof -
  have r: "region_ok s p (2 ^ k)" using b by (simp add: block_ok_def)
  have q': "q < npage s" "\<not> PageReserved s q" "page_zone s q = page_zone s p"
    using region_okD [OF r, of q] q by (auto simp: blk_def)
  then show "q \<notin> {base..<base + n}" "page_zone s q = page_zone s p"
    using mm by (auto simp: memmap_ok_def)
  show "page_zone s p < zone_count s" using zo q' by (metis zones_ok_def)
qed

lemma new_zone_block_ok:
  assumes b: "block_ok s p k" and zo: "zones_ok s" and mm: "memmap_ok s base n"
  shows "block_ok (new_zone base n s) p k"
proof -
  note f = new_zone_block [OF b zo mm]
  have r: "region_ok s p (2 ^ k)" and al: "aligned s p k" using b by (simp_all add: block_ok_def)
  have "region_ok (new_zone base n s) p (2 ^ k)"
    unfolding region_ok_def
  proof (intro conjI ballI)
    show "zones (new_zone base n s) (page_zone (new_zone base n s) p) \<le> p"
      using f(1,3) [OF blk_self] region_ok_zone_le [OF r] by auto
    fix q assume "q \<in> {p..<p + 2 ^ k}"
    then have q: "q \<in> blk p k" by (simp add: blk_def)
    then show "q < npage (new_zone base n s)" "\<not> PageReserved (new_zone base n s) q"
      "page_zone (new_zone base n s) q = page_zone (new_zone base n s) p"
      using region_okD [OF r, of q] f(1,2) [OF q] f(1) [OF blk_self] by (auto simp: blk_def)
  qed
  moreover have "aligned (new_zone base n s) p k"
    using al f(1,3) [OF blk_self] by (auto simp: aligned_def)
  moreover have "PageProperty (new_zone base n s) p" "pg_property (pages (new_zone base n s) p) = k"
    using b f(1) [OF blk_self] new_zone_property [of p base n s] by (auto simp: block_ok_def)
  moreover have "\<forall>q \<in> {p<..<p + 2 ^ k}. \<not> PageProperty (new_zone base n s) q"
    using b by (auto simp: block_ok_def)
  ultimately show ?thesis by (simp only: block_ok_def)
qed

lemma new_zone_inv:
  assumes inv: "buddy_inv s" and co: "coalesced s" and zo: "zones_ok s" and mm: "memmap_ok s base n"
  shows "buddy_inv (new_zone base n s)" and "coalesced (new_zone base n s)"
proof -
  have pp: "pg_property (pages (new_zone base n s) p) \<le> MAX_ORDER \<and>
      p \<in> set (free_list s (pg_property (pages (new_zone base n s) p)))"
    if "p < npage s" "\<not> PageReserved (new_zone base n s) p \<and> PageProperty (new_zone base n s) p" for p
  proof -
    have out: "p \<notin> {base..<base + n}" using that by simp
    then show ?thesis
      using that buddy_inv_propertyD [OF inv that(1)] new_zone_property [OF out, of s] by simp
  qed
  show "buddy_inv (new_zone base n s)"
    using buddy_invD [OF inv] new_zone_block_ok [OF _ zo mm] pp unfolding buddy_inv_def by simp
  show "coalesced (new_zone base n s)"
    unfolding coalesced_def
  proof (intro allI impI ballI notI)
    fix k p assume k: "k < MAX_ORDER" and "p \<in> set (free_list (new_zone base n s) k)"
      and b: "buddy_of (new_zone base n s) p k \<in> set (free_list (new_zone base n s) k) \<and>
        page_zone (new_zone base n s) (buddy_of (new_zone base n s) p k) = page_zone (new_zone base n s) p"
    then have p: "p \<in> set (free_list s k)" by simp
    have bk: "block_ok s q k" if "q \<in> set (free_list s k)" for q using buddy_invD(3) [OF inv _ that] k by simp
    note f = new_zone_block [OF bk [OF p] zo mm blk_self]
    have eq: "buddy_of (new_zone base n s) p k = buddy_of s p k"
      using f(1,3) by (auto simp: buddy_of_def)
    then have b': "buddy_of s p k \<in> set (free_list s k)" using b by simp
    note g = new_zone_block [OF bk [OF b'] zo mm blk_self]
    have "page_zone s (buddy_of s p k) = page_zone s p" using b eq f(1) g(1) by auto
    then show False using co k p b' by (auto simp: coalesced_def)
  qed
qed

text \<open>
  The carving loops. \<open>carve_ok z ord p n s\<close>: \<open>n\<close> pages from \<open>p\<close> are still to be put on the
  free lists, \<open>p\<close> is aligned to \<open>ord\<close>, and the free pages of the zone lie below \<open>p\<close>, so no
  block carved now has its buddy on a list above it.
\<close>

definition carve_ok :: "nat \<Rightarrow> nat \<Rightarrow> nat \<Rightarrow> nat \<Rightarrow> buddy \<Rightarrow> bool" where
  "carve_ok z ord p n s \<longleftrightarrow> buddy_inv s \<and> coalesced s \<and> rest_ok ord p n s \<and>
     (n \<noteq> 0 \<longrightarrow> page_zone s p = z) \<and> (\<forall>q \<in> free_set s. page_zone s q = z \<longrightarrow> q < p)"

lemma carve_attach:
  assumes ok: "carve_ok z k p n s" and le: "2 ^ k \<le> n" and k: "k \<le> MAX_ORDER"
    and al: "k < MAX_ORDER \<Longrightarrow> aligned s p (Suc k)"
  shows "carve_ok z k (p + 2 ^ k) (n - 2 ^ k) (attach p k s)"
    and "freed s {p..<p + 2 ^ k} (attach p k s)"
proof -
  have inv: "buddy_inv s" and co: "coalesced s" and rest: "rest_ok k p n s"
    and below: "\<forall>q \<in> free_set s. page_zone s q = z \<longrightarrow> q < p"
    using ok by (simp_all add: carve_ok_def)
  have n: "n \<noteq> 0" using le pow2_pos [of k] by linarith
  then have z: "page_zone s p = z" using ok by (simp add: carve_ok_def)
  note det = rest_detached [OF rest le]
  have "buddy_of s p k = p + 2 ^ k" if "k < MAX_ORDER"
  proof -
    have r: "region_ok s p (2 ^ k)" and a: "2 ^ k dvd page2idx p s"
      using det by (simp_all add: detached_def aligned_page2idx)
    have "page2idx p s XOR 2 ^ k = page2idx p s + 2 ^ k"
      using xor_pow2 [OF a] al [OF that] by (simp add: aligned_page2idx)
    then show ?thesis using region_ok_zone_le [OF r] by (simp add: buddy_of_def page2idx_def)
  qed
  then have nb: "\<not> (buddy_of s p k \<in> set (free_list s k) \<and> page_zone s (buddy_of s p k) = page_zone s p)"
    if "k < MAX_ORDER"
    using that below z free_setI [OF k, of "p + 2 ^ k" s "p + 2 ^ k"] by fastforce
  have fs: "free_set (attach p k s) = free_set s \<union> {p..<p + 2 ^ k}"
    using free_set_attach [OF k] by (simp add: blk_def)
  have inv': "buddy_inv (attach p k s)" by (rule attach_inv [OF inv det k])
  have co': "coalesced (attach p k s)" by (rule coalesced_attach [OF inv det co k nb])
  show "freed s {p..<p + 2 ^ k} (attach p k s)" using inv' co' fs by (simp add: freed_def)
  have rest': "rest_ok k (p + 2 ^ k) (n - 2 ^ k) (attach p k s)"
    using rest_step(1) [OF rest le same_map_attach_detach(1)] free_set_attach [OF k] by blast
  have z': "page_zone s (p + 2 ^ k) = z" if "n - 2 ^ k \<noteq> 0"
  proof -
    have "region_ok s p n" using rest n by (simp add: rest_ok_def allocated_def)
    then show ?thesis using that le z region_ok_sub(2) [of s p n "p + 2 ^ k" "n - 2 ^ k"] by simp
  qed
  show "carve_ok z k (p + 2 ^ k) (n - 2 ^ k) (attach p k s)"
    using inv' co' rest' z' below fs by (auto simp: carve_ok_def)
qed

lemma carve_order_max:
  assumes "carve_ok z MAX_ORDER p n s" and "carve_order MAX_ORDER p n s = (p', n', s')"
  shows "carve_ok z MAX_ORDER p' n' s' \<and> n' < 2 ^ MAX_ORDER \<and> p \<le> p' \<and> p' + n' = p + n \<and> freed s {p..<p'} s'"
  using assms
proof (induction "MAX_ORDER" p n s rule: carve_order.induct)
  case (1 p n s)
  show ?case
  proof (cases "2 ^ MAX_ORDER \<le> n")
    case True
    note c = carve_attach [OF "1.prems"(1) True]
    have "carve_order MAX_ORDER (p + 2 ^ MAX_ORDER) (n - 2 ^ MAX_ORDER) (attach p MAX_ORDER s) = (p', n', s')"
      using "1.prems"(2) True by (simp add: carve_order.simps [of MAX_ORDER p n s] attach_def)
    then have ih: "carve_ok z MAX_ORDER p' n' s' \<and> n' < 2 ^ MAX_ORDER \<and> p + 2 ^ MAX_ORDER \<le> p' \<and>
        p' + n' = p + 2 ^ MAX_ORDER + (n - 2 ^ MAX_ORDER) \<and>
        freed (attach p MAX_ORDER s) {p + 2 ^ MAX_ORDER..<p'} s'"
      using "1.hyps" [OF True] c(1) by (simp add: attach_def)
    then have "freed s ({p..<p + 2 ^ MAX_ORDER} \<union> {p + 2 ^ MAX_ORDER..<p'}) s'"
      using freed_trans [OF c(2)] by simp
    moreover have "{p..<p + 2 ^ MAX_ORDER} \<union> {p + 2 ^ MAX_ORDER..<p'} = {p..<p'}" using ih by auto
    ultimately show ?thesis using ih True by simp
  next
    case False
    then show ?thesis
      using "1.prems" by (auto simp: carve_order.simps [of MAX_ORDER p n s] freed_def carve_ok_def)
  qed
qed

lemma carve_order_below:
  assumes ok: "carve_ok z (Suc k) p n s" and lt: "n < 2 ^ Suc k" and k: "k < MAX_ORDER"
    and res: "carve_order k p n s = (p', n', s')"
  shows "carve_ok z k p' n' s' \<and> n' < 2 ^ k \<and> p \<le> p' \<and> p' + n' = p + n \<and> freed s {p..<p'} s'"
proof -
  have ok': "carve_ok z k p n s"
    using ok pow2_dvd_mono [of k "Suc k"] by (auto simp: carve_ok_def rest_ok_def aligned_def)
  show ?thesis
  proof (cases "2 ^ k \<le> n")
    case True
    then have "n \<noteq> 0" using pow2_pos [of k] by linarith
    then have "aligned s p (Suc k)" using ok by (simp add: carve_ok_def rest_ok_def)
    note c = carve_attach [OF ok' True _ this]
    have "n - 2 ^ k < 2 ^ k" using lt True by simp
    then have "(p', n', s') = (p + 2 ^ k, n - 2 ^ k, attach p k s)"
      using res True
      by (simp add: carve_order.simps [of k p n s] carve_order.simps [of k "p + 2 ^ k"] attach_def)
    then show ?thesis using c k \<open>n - 2 ^ k < 2 ^ k\<close> True by simp
  next
    case False
    then show ?thesis using res ok'
      by (auto simp: carve_order.simps [of k p n s] freed_def carve_ok_def)
  qed
qed

lemma carve_blocks_below:
  "carve_ok z (Suc k) p n s \<Longrightarrow> n < 2 ^ Suc k \<Longrightarrow> k < MAX_ORDER \<Longrightarrow> freed s {p..<p + n} (carve_blocks k p n s)"
proof (induction k arbitrary: p n s)
  case 0
  obtain p' n' s' where c: "carve_order 0 p n s = (p', n', s')" by (cases "carve_order 0 p n s") auto
  then show ?case using carve_order_below [OF 0 c] by auto
next
  case (Suc k)
  obtain p' n' s' where c: "carve_order (Suc k) p n s = (p', n', s')"
    by (cases "carve_order (Suc k) p n s") auto
  note b = carve_order_below [OF Suc.prems c]
  show ?case
  proof (cases "n' = 0")
    case True
    then show ?thesis using b c by auto
  next
    case False
    have "freed s' {p'..<p' + n'} (carve_blocks k p' n' s')"
      using Suc.IH [of p' n' s'] Suc.prems(3) b by simp
    moreover have "freed s {p..<p'} s'" using b by simp
    ultimately have "freed s ({p..<p'} \<union> {p'..<p' + n'}) (carve_blocks k p' n' s')"
      using freed_trans by blast
    moreover have "{p..<p'} \<union> {p'..<p' + n'} = {p..<p + n}" using b by auto
    ultimately show ?thesis using c False by simp
  qed
qed

lemma carve_blocks_correct:
  assumes "carve_ok z MAX_ORDER p n s"
  shows "freed s {p..<p + n} (carve_blocks MAX_ORDER p n s)"
proof -
  obtain k where k: "MAX_ORDER = Suc k" by (simp add: MAX_ORDER_def)
  obtain p' n' s' where c: "carve_order MAX_ORDER p n s = (p', n', s')"
    by (cases "carve_order MAX_ORDER p n s") auto
  note b = carve_order_max [OF assms c]
  have step: "carve_blocks MAX_ORDER p n s = (if n' = 0 then s' else carve_blocks k p' n' s')"
    using c unfolding k by simp
  show ?thesis
  proof (cases "n' = 0")
    case True
    then show ?thesis using b step by auto
  next
    case False
    have "freed s' {p'..<p' + n'} (carve_blocks k p' n' s')"
      using carve_blocks_below [of z k p' n' s'] b k by simp
    moreover have "freed s {p..<p'} s'" using b by simp
    ultimately have "freed s ({p..<p'} \<union> {p'..<p' + n'}) (carve_blocks k p' n' s')"
      using freed_trans by blast
    moreover have "{p..<p'} \<union> {p'..<p' + n'} = {p..<p + n}" using b by auto
    ultimately show ?thesis using step False by simp
  qed
qed

lemma buddy_init_memmap_correct:
  assumes inv: "buddy_inv s" and co: "coalesced s" and zo: "zones_ok s" and mm: "memmap_ok s base n"
  shows "\<exists>s'. buddy_init_memmap base n s = Some s' \<and> buddy_inv s' \<and> coalesced s' \<and> zones_ok s' \<and>
    free_set s' = free_set s \<union> {base..<base + n} \<and> {base..<base + n} \<inter> free_set s = {}"
proof -
  let ?s = "new_zone base n s" and ?z = "zone_count s"
  note ni = new_zone_inv [OF inv co zo mm]
  have out: "{base..<base + n} \<inter> free_set s = {}"
  proof -
    have "q \<notin> {base..<base + n}" if q: "q \<in> free_set s" for q
    proof -
      obtain k p where "k \<le> MAX_ORDER" "p \<in> set (free_list s k)" "q \<in> blk p k"
        using q by (rule free_setE)
      then show ?thesis using new_zone_block(1) [OF buddy_invD(3) [OF inv] zo mm] by blast
    qed
    then show ?thesis by blast
  qed
  have "region_ok ?s base n"
    unfolding region_ok_def using mm by (auto simp: memmap_ok_def)
  then have rest: "rest_ok MAX_ORDER base n ?s"
    using out mm by (auto simp: rest_ok_def allocated_def aligned_def memmap_ok_def)
  have below: "q < base" if "q \<in> free_set ?s" "page_zone ?s q = ?z" for q
  proof -
    have "q \<in> free_set s" using that(1) by simp
    then obtain k p where kp: "k \<le> MAX_ORDER" "p \<in> set (free_list s k)" "q \<in> blk p k"
      by (rule free_setE)
    note f = new_zone_block [OF buddy_invD(3) [OF inv kp(1,2)] zo mm kp(3)]
    then have "page_zone ?s q = page_zone s p" by auto
    then show ?thesis using that(2) f(3) by simp
  qed
  have "carve_ok ?z MAX_ORDER base n ?s"
    using ni rest below mm by (auto simp: carve_ok_def memmap_ok_def)
  then have fr: "freed ?s {base..<base + n} (carve_blocks MAX_ORDER base n ?s)"
    by (rule carve_blocks_correct)
  have "buddy_init_memmap base n s = Some (carve_blocks MAX_ORDER base n ?s)"
    using mm init_memmap_pages_eq [of base n s ?z]
    by (simp add: buddy_init_memmap_def memmap_ok_def new_zone_def Let_def wiped_def)
  moreover have "zones_ok ?s" using zo by (auto simp: zones_ok_def less_SucI)
  then have "zones_ok (carve_blocks MAX_ORDER base n ?s)"
    using fr by (simp add: zones_ok_def freed_def same_map_def)
  ultimately show ?thesis using fr out by (simp add: freed_def)
qed

lemma buddy_init_simps:
  "free_list (buddy_init s) k = (if k \<le> MAX_ORDER then [] else free_list s k)"
  "nr_free (buddy_init s) k = (if k \<le> MAX_ORDER then 0 else nr_free s k)"
  "pages (buddy_init s) = pages s" "npage (buddy_init s) = npage s"
  "zones (buddy_init s) = zones s" "zone_count (buddy_init s) = zone_count s"
proof -
  have "free_list (fold (\<lambda>i s. s\<lparr>free_list := (free_list s)(i := []), nr_free := (nr_free s)(i := 0)\<rparr>) is s) k
      = (if k \<in> set is then [] else free_list s k) \<and>
    nr_free (fold (\<lambda>i s. s\<lparr>free_list := (free_list s)(i := []), nr_free := (nr_free s)(i := 0)\<rparr>) is s) k
      = (if k \<in> set is then 0 else nr_free s k) \<and>
    (let s' = fold (\<lambda>i s. s\<lparr>free_list := (free_list s)(i := []), nr_free := (nr_free s)(i := 0)\<rparr>) is s
     in pages s' = pages s \<and> npage s' = npage s \<and> zones s' = zones s \<and> zone_count s' = zone_count s)"
    for "is"
    by (induction "is" arbitrary: s) (auto simp: Let_def)
  from this [of "[0..<MAX_ORDER + 1]"]
  show "free_list (buddy_init s) k = (if k \<le> MAX_ORDER then [] else free_list s k)"
    "nr_free (buddy_init s) k = (if k \<le> MAX_ORDER then 0 else nr_free s k)"
    "pages (buddy_init s) = pages s" "npage (buddy_init s) = npage s"
    "zones (buddy_init s) = zones s" "zone_count (buddy_init s) = zone_count s"
    by (simp_all add: buddy_init_def Let_def less_Suc_eq_le del: upt_Suc)
qed

text \<open>At boot every page is reserved; \<^verbatim>\<open>buddy_init\<close> then establishes the invariant.\<close>

lemma buddy_init_inv:
  assumes "\<forall>p < npage s. PageReserved s p"
  shows "buddy_inv (buddy_init s)" and "coalesced (buddy_init s)" and "zones_ok (buddy_init s)"
    and "free_set (buddy_init s) = {}"
  using assms
  by (auto simp: buddy_inv_def coalesced_def zones_ok_def free_set_def buddy_init_simps PageReserved_def)

section \<open>The contract of \<^verbatim>\<open>struct pmm_manager\<close>\<close>

locale pmm_manager =
  fixes alloc_pages :: "nat \<Rightarrow> 's \<Rightarrow> (nat option \<times> 's) option"
    and free_pages :: "nat \<Rightarrow> nat \<Rightarrow> 's \<Rightarrow> 's option"
    and nr_free_pages :: "'s \<Rightarrow> nat"
    and inv :: "'s \<Rightarrow> bool"
    and avail :: "'s \<Rightarrow> nat set"
    and owned :: "'s \<Rightarrow> nat \<Rightarrow> nat \<Rightarrow> bool"
    and max_pages :: nat
  assumes alloc_total: "inv s \<Longrightarrow> 0 < n \<Longrightarrow> n \<le> max_pages \<Longrightarrow> \<exists>r s'. alloc_pages n s = Some (r, s')"
    and alloc_None: "inv s \<Longrightarrow> 0 < n \<Longrightarrow> n \<le> max_pages \<Longrightarrow> alloc_pages n s = Some (None, s') \<Longrightarrow> s' = s"
    and alloc_Some: "inv s \<Longrightarrow> 0 < n \<Longrightarrow> n \<le> max_pages \<Longrightarrow> alloc_pages n s = Some (Some p, s') \<Longrightarrow>
      inv s' \<and> {p..<p + n} \<subseteq> avail s \<and> avail s' = avail s - {p..<p + n} \<and> owned s' p n"
    and alloc_owned: "inv s \<Longrightarrow> 0 < n \<Longrightarrow> n \<le> max_pages \<Longrightarrow> alloc_pages n s = Some (Some p, s') \<Longrightarrow>
      owned s q m \<Longrightarrow> owned s' q m"
    and free_ok: "inv s \<Longrightarrow> 0 < n \<Longrightarrow> n \<le> max_pages \<Longrightarrow> owned s p n \<Longrightarrow>
      \<exists>s'. free_pages p n s = Some s' \<and> inv s' \<and> avail s' = avail s \<union> {p..<p + n}"
    and owned_not_avail: "owned s p n \<Longrightarrow> {p..<p + n} \<inter> avail s = {}"
    and nr_card: "inv s \<Longrightarrow> finite (avail s) \<and> nr_free_pages s = card (avail s)"
begin

lemma alloc_count:
  assumes "inv s" and "0 < n" and "n \<le> max_pages" and "alloc_pages n s = Some (Some p, s')"
  shows "nr_free_pages s = nr_free_pages s' + n"
proof -
  have a: "inv s'" "{p..<p + n} \<subseteq> avail s" "avail s' = avail s - {p..<p + n}"
    using alloc_Some [OF assms] by auto
  then have "card (avail s') = card (avail s) - card {p..<p + n}" "card {p..<p + n} \<le> card (avail s)"
    using nr_card [OF assms(1)] card_mono [of "avail s" "{p..<p + n}"] by (simp_all add: card_Diff_subset)
  then show ?thesis using nr_card [OF assms(1)] nr_card [OF a(1)] by simp
qed

lemma alloc_free_restores:
  assumes "inv s" and "0 < n" and "n \<le> max_pages" and "alloc_pages n s = Some (Some p, s')"
  shows "\<exists>s''. free_pages p n s' = Some s'' \<and> inv s'' \<and> avail s'' = avail s \<and>
    nr_free_pages s'' = nr_free_pages s"
proof -
  have a: "inv s'" "{p..<p + n} \<subseteq> avail s" "avail s' = avail s - {p..<p + n}" "owned s' p n"
    using alloc_Some [OF assms] by auto
  obtain s'' where s'': "free_pages p n s' = Some s''" "inv s''" "avail s'' = avail s' \<union> {p..<p + n}"
    using free_ok [OF a(1) assms(2,3) a(4)] by blast
  moreover have "avail s'' = avail s" using s''(3) a by blast
  ultimately show ?thesis using nr_card [OF assms(1)] nr_card [OF s''(2)] by auto
qed

lemma allocs_disjoint:
  assumes "inv s" and "0 < n" and "n \<le> max_pages" and "alloc_pages n s = Some (Some p, s')"
    and "0 < m" and "m \<le> max_pages" and "alloc_pages m s' = Some (Some q, s'')"
  shows "{p..<p + n} \<inter> {q..<q + m} = {}" and "owned s'' p n" and "owned s'' q m"
proof -
  have a: "inv s'" "avail s' = avail s - {p..<p + n}" "owned s' p n"
    using alloc_Some [OF assms(1-4)] by auto
  have b: "{q..<q + m} \<subseteq> avail s'" "owned s'' q m" using alloc_Some [OF a(1) assms(5-7)] by auto
  show "{p..<p + n} \<inter> {q..<q + m} = {}" using a(2) b(1) by blast
  show "owned s'' q m" by (rule b(2))
  show "owned s'' p n" by (rule alloc_owned [OF a(1) assms(5-7) a(3)])
qed

end

definition buddy_ok :: "buddy \<Rightarrow> bool" where
  "buddy_ok s \<longleftrightarrow> buddy_inv s \<and> coalesced s"

lemma alloc_ok_of_Some:
  assumes "buddy_ok s" and "0 < n" and "n \<le> 2 ^ MAX_ORDER"
    and "buddy_alloc_pages n s = Some (Some p, s')"
  shows "alloc_ok s p n s'"
  using buddy_alloc_pages_correct [of s n] assms by (auto simp: buddy_ok_def)

interpretation bp: pmm_manager buddy_alloc_pages buddy_free_pages buddy_nr_free_pages buddy_ok
  free_set allocated "2 ^ MAX_ORDER"
proof (unfold_locales, goal_cases)
  case (1 s n)
  then show ?case using buddy_alloc_pages_correct [of s n] by (auto simp: buddy_ok_def)
next
  case (2 s n s')
  then show ?case using buddy_alloc_pages_correct [of s n] by (auto simp: buddy_ok_def)
next
  case (3 s n p s')
  then show ?case using alloc_ok_of_Some [OF 3] by (simp add: alloc_ok_def buddy_ok_def)
next
  case (4 s n p s' q m)
  have "alloc_ok s p n s'" by (rule alloc_ok_of_Some [OF 4(1-4)])
  then show ?case using 4(5) same_map_simps(1) [of s s' q m] unfolding alloc_ok_def allocated_def by blast
next
  case (5 s n p)
  have "(2::nat) ^ MAX_ORDER < 2 ^ (MAX_ORDER + 1)" by simp
  then have "n < 2 ^ (MAX_ORDER + 1)" using 5(3) by linarith
  then show ?case using buddy_free_pages_correct [of s p n] 5 by (auto simp: buddy_ok_def freed_def)
next
  case (6 s p n)
  then show ?case by (simp add: allocated_def)
next
  case (7 s)
  then show ?case using free_set_card by (simp add: buddy_ok_def)
qed

section \<open>A concrete zone\<close>

text \<open>A machine with eight pages, all reserved at boot, then handed over as one zone.\<close>

definition boot_mem :: buddy where
  "boot_mem = \<lparr>pages = (\<lambda>p. \<lparr>pg_ref = 0, pg_flags = 1, pg_property = 0, pg_zone_num = 0\<rparr>), npage = 8,
     free_list = (\<lambda>k. []), nr_free = (\<lambda>k. 0), zones = (\<lambda>z. 0), zone_count = 0\<rparr>"

definition boot_zone :: buddy where
  "boot_zone = the (buddy_init_memmap 0 8 (buddy_init boot_mem))"

lemma boot_mem_ok:
  "buddy_inv (buddy_init boot_mem)" "coalesced (buddy_init boot_mem)" "zones_ok (buddy_init boot_mem)"
  "memmap_ok (buddy_init boot_mem) 0 8" "free_set (buddy_init boot_mem) = {}"
proof -
  have r: "\<forall>p < npage boot_mem. PageReserved boot_mem p"
    by (simp add: boot_mem_def PageReserved_def PG_reserved_def)
  show "buddy_inv (buddy_init boot_mem)" "coalesced (buddy_init boot_mem)"
    "zones_ok (buddy_init boot_mem)" "free_set (buddy_init boot_mem) = {}"
    using buddy_init_inv [OF r] by simp_all
  show "memmap_ok (buddy_init boot_mem) 0 8"
    by (simp add: memmap_ok_def buddy_init_simps PageReserved_def)
      (simp add: boot_mem_def MAX_ZONE_NUM_def PG_reserved_def)
qed

lemma boot_zone_ok: "buddy_ok boot_zone" and boot_zone_free: "free_set boot_zone = {0..<8}"
  using buddy_init_memmap_correct [OF boot_mem_ok(1-4)] boot_mem_ok(5)
  by (auto simp: boot_zone_def buddy_ok_def)

lemma boot_small: "(3::nat) \<le> 2 ^ MAX_ORDER"
  by (simp add: MAX_ORDER_def)

text \<open>As long as a page is free, a request for one page succeeds.\<close>

lemma buddy_alloc_one:
  assumes "buddy_ok s" and "free_set s \<noteq> {}"
  shows "\<exists>p s'. buddy_alloc_pages 1 s = Some (Some p, s')"
proof (rule ccontr)
  assume "\<not> ?thesis"
  then have "\<forall>k \<le> MAX_ORDER. free_list s k = []"
    using buddy_alloc_pages_correct [of s 1] assms(1) by (fastforce simp: buddy_ok_def split: option.splits)
  then show False using assms(2) by (auto simp: free_set_def)
qed

section \<open>Properties\<close>

text \<open>
  C4: \<^verbatim>\<open>buddy_alloc_pages(n)\<close> never panics for \<open>0 < n \<le> 2 ^ MAX_ORDER\<close>. It returns NULL only when no
  free block can hold the request, and then changes nothing; otherwise it returns the first of
  \<open>n\<close> contiguous usable pages of one zone that were free, takes exactly those off the free set and
  gives the unused tail of the block back, keeping the free lists well formed and fully merged.
\<close>

theorem buddy_alloc_pages_spec:
  assumes "buddy_inv s" and "coalesced s" and "0 < n" and "n \<le> 2 ^ MAX_ORDER"
  shows "\<exists>r s'. buddy_alloc_pages n s = Some (r, s') \<and> buddy_inv s' \<and> coalesced s' \<and>
    (case r of None \<Rightarrow> s' = s \<and> (\<forall>k \<le> MAX_ORDER. n \<le> 2 ^ k \<longrightarrow> free_list s k = [])
     | Some p \<Rightarrow> allocated s' p n \<and> {p..<p + n} \<subseteq> free_set s \<and> free_set s' = free_set s - {p..<p + n})"
  using buddy_alloc_pages_correct [OF assms] assms(1,2)
  by (fastforce simp: alloc_ok_def split: option.splits)

theorem buddy_alloc_pages_spec_witness:
  "\<exists>r s'. buddy_alloc_pages 3 boot_zone = Some (r, s') \<and> buddy_inv s' \<and> coalesced s' \<and>
    (case r of None \<Rightarrow> s' = boot_zone \<and> (\<forall>k \<le> MAX_ORDER. (3::nat) \<le> 2 ^ k \<longrightarrow> free_list boot_zone k = [])
     | Some p \<Rightarrow> allocated s' p 3 \<and> {p..<p + 3} \<subseteq> {0..<8} \<and> free_set s' = {0..<8} - {p..<p + 3})"
  using buddy_alloc_pages_spec [of boot_zone 3] boot_zone_ok boot_small
  unfolding boot_zone_free buddy_ok_def by simp

text \<open>
  C5: \<^verbatim>\<open>buddy_free_pages(base, n)\<close> never panics on \<open>n\<close> contiguous usable pages of one zone that are not
  free already, for \<open>n\<close> below \<open>2 ^ (MAX_ORDER + 1)\<close>; an allocation never hands out more than \<open>2 ^ MAX_ORDER\<close> pages, and on
  longer runs the loop over the orders can fail its assertion \<^verbatim>\<open>order <= MAX_ORDER\<close>. It adds exactly those pages to the free set and merges buddies exhaustively:
  afterwards no two free blocks of the same order below \<^verbatim>\<open>MAX_ORDER\<close> are buddies of each other.
\<close>

theorem buddy_free_pages_spec:
  assumes "buddy_inv s" and "coalesced s" and "allocated s base n" and "0 < n"
    and "n < 2 ^ (MAX_ORDER + 1)"
  shows "\<exists>s'. buddy_free_pages base n s = Some s' \<and> buddy_inv s' \<and> coalesced s' \<and>
    free_set s' = free_set s \<union> {base..<base + n}"
  using buddy_free_pages_correct [OF assms] by (auto simp: freed_def)

theorem buddy_free_pages_spec_witness:
  "\<exists>p s1 s2. buddy_alloc_pages 1 boot_zone = Some (Some p, s1) \<and> buddy_free_pages p 1 s1 = Some s2 \<and>
    buddy_inv s2 \<and> coalesced s2 \<and> free_set s2 = free_set s1 \<union> {p..<p + 1}"
proof -
  obtain p s1 where a: "buddy_alloc_pages 1 boot_zone = Some (Some p, s1)"
    using buddy_alloc_one [OF boot_zone_ok] boot_zone_free by auto
  have "buddy_ok s1 \<and> allocated s1 p 1" using bp.alloc_Some [OF boot_zone_ok _ _ a] by simp
  then show ?thesis using a buddy_free_pages_spec [of s1 p 1] by (simp add: buddy_ok_def MAX_ORDER_def)
qed

text \<open>
  C39: \<^verbatim>\<open>buddy_init_memmap(base, n)\<close> on reserved pages, with a free zone slot left, does not panic; it
  keeps the invariant and puts exactly the pages of the new zone on the free lists, which were
  disjoint from the pages already free.
\<close>

theorem buddy_init_memmap_spec:
  assumes "buddy_inv s" and "coalesced s" and "zones_ok s" and "memmap_ok s base n"
  shows "\<exists>s'. buddy_init_memmap base n s = Some s' \<and> buddy_inv s' \<and> coalesced s' \<and> zones_ok s' \<and>
    free_set s' = free_set s \<union> {base..<base + n} \<and> {base..<base + n} \<inter> free_set s = {}"
  by (rule buddy_init_memmap_correct [OF assms])

theorem buddy_init_memmap_spec_witness:
  "\<exists>s'. buddy_init_memmap 0 8 (buddy_init boot_mem) = Some s' \<and> buddy_inv s' \<and> coalesced s' \<and> zones_ok s' \<and>
    free_set s' = {0..<8}"
  using buddy_init_memmap_spec [OF boot_mem_ok(1-4)] boot_mem_ok(5) by simp

text \<open>
  C30: Allocating \<open>n\<close> pages and freeing them again restores the set of free pages and the value of
  \<^verbatim>\<open>buddy_nr_free_pages\<close>, which drops by exactly \<open>n\<close> in between.
\<close>

theorem buddy_alloc_free_roundtrip:
  assumes "buddy_ok s" and "0 < n" and "n \<le> 2 ^ MAX_ORDER"
    and "buddy_alloc_pages n s = Some (Some p, s')"
  shows "buddy_nr_free_pages s = buddy_nr_free_pages s' + n \<and>
    (\<exists>s''. buddy_free_pages p n s' = Some s'' \<and> buddy_ok s'' \<and> free_set s'' = free_set s \<and>
      buddy_nr_free_pages s'' = buddy_nr_free_pages s)"
  using bp.alloc_count [OF assms] bp.alloc_free_restores [OF assms] by blast

theorem buddy_alloc_free_roundtrip_witness:
  "\<exists>p s1 s2. buddy_alloc_pages 1 boot_zone = Some (Some p, s1) \<and> buddy_nr_free_pages s1 = 7 \<and>
    buddy_free_pages p 1 s1 = Some s2 \<and> free_set s2 = {0..<8} \<and> buddy_nr_free_pages s2 = 8"
proof -
  obtain p s1 where a: "buddy_alloc_pages 1 boot_zone = Some (Some p, s1)"
    using buddy_alloc_one [OF boot_zone_ok] boot_zone_free by auto
  moreover have "buddy_nr_free_pages boot_zone = 8" using bp.nr_card [OF boot_zone_ok] boot_zone_free by simp
  ultimately show ?thesis
    using buddy_alloc_free_roundtrip [OF boot_zone_ok _ _ a] boot_zone_free by auto
qed

text \<open>
  C31: Two allocations in a row never hand out the same page, and the first stays allocated
  across the second.
\<close>

theorem buddy_allocs_disjoint:
  assumes "buddy_ok s" and "0 < n" and "n \<le> 2 ^ MAX_ORDER"
    and "buddy_alloc_pages n s = Some (Some p, s')"
    and "0 < m" and "m \<le> 2 ^ MAX_ORDER" and "buddy_alloc_pages m s' = Some (Some q, s'')"
  shows "{p..<p + n} \<inter> {q..<q + m} = {} \<and> allocated s'' p n \<and> allocated s'' q m"
  using bp.allocs_disjoint [OF assms] by blast

theorem buddy_allocs_disjoint_witness:
  "\<exists>p q s1 s2. buddy_alloc_pages 1 boot_zone = Some (Some p, s1) \<and>
    buddy_alloc_pages 1 s1 = Some (Some q, s2) \<and> p \<noteq> q \<and> allocated s2 p 1 \<and> allocated s2 q 1"
proof -
  obtain p s1 where a: "buddy_alloc_pages 1 boot_zone = Some (Some p, s1)"
    using buddy_alloc_one [OF boot_zone_ok] boot_zone_free by auto
  have ok: "buddy_ok s1" and fs: "free_set s1 = {0..<8} - {p..<p + 1}"
    using bp.alloc_Some [OF boot_zone_ok _ _ a] boot_zone_free by auto
  have "(if p = 0 then 1 else 0) \<in> free_set s1" unfolding fs by simp
  then obtain q s2 where b: "buddy_alloc_pages 1 s1 = Some (Some q, s2)"
    using buddy_alloc_one [OF ok] by blast
  then show ?thesis using a buddy_allocs_disjoint [OF boot_zone_ok _ _ a _ _ b] by auto
qed

end
