(* ===== verification/Bitmap.thy ===== *)
theory Bitmap
  imports Ucore_Prelude
begin

text \<open>
  The bitmap of \<^verbatim>\<open>kern-ucore/fs/sfs/bitmap.c\<close>, at the width of the source: an array of 32-bit
  words in which a set bit is a free index. The abstract state is the set of free indices; the
  contract of the four operations is the locale \<open>index_pool\<close>, interpreted here. The outcome of
  the two \<^verbatim>\<open>kmalloc\<close> calls of \<^verbatim>\<open>bitmap_create\<close> is a pair of arguments.
\<close>

section \<open>The code\<close>

definition WORD_BITS :: nat where [simp]: "WORD_BITS = 32"

record bitmap =
  nbits :: u32
  nwords :: u32
  bm_map :: "u32 list"

text \<open>\<^verbatim>\<open>WORD_BITS\<close> is a \<^verbatim>\<open>size_t\<close>: arithmetic with it is done in 64 bits.\<close>

abbreviation u32_64 :: "u32 \<Rightarrow> u64" where "u32_64 \<equiv> ucast"

text \<open>\<^verbatim>\<open>ROUNDUP_DIV\<close> on a \<^verbatim>\<open>uint32_t\<close>: the sum is taken in 32 bits.\<close>

definition ROUNDUP_DIV32 :: "u32 \<Rightarrow> u32 \<Rightarrow> u32" where
  "ROUNDUP_DIV32 a n = (a + n - 1) div n"

fun clear_overbits :: "nat \<Rightarrow> nat \<Rightarrow> u32 \<Rightarrow> u32" where
  "clear_overbits 0 overbits w = w"
| "clear_overbits (Suc k) overbits w = clear_overbits k (overbits + 1) (w XOR push_bit overbits 1)"

definition bitmap_create :: "u32 \<Rightarrow> bool \<Rightarrow> bool \<Rightarrow> bitmap option option" where
  "bitmap_create n ok_bitmap ok_map = do {
     kassert (n \<noteq> 0 \<and> u32_64 n + 32 > u32_64 n);
     if \<not> ok_bitmap then Some None
     else let nw = ROUNDUP_DIV32 n 32 in
     if \<not> ok_map then Some None
     else let map = replicate (unat nw) (- 1) in
     if u32_64 n \<noteq> u32_64 nw * 32
     then let ix = nw - 1; overbits = n - ix * 32 in do {
       kassert (u32_64 n div 32 = u32_64 ix);
       kassert (overbits > 0 \<and> overbits < 32);
       Some (Some \<lparr>nbits = n, nwords = nw,
         bm_map = map[unat ix := clear_overbits (WORD_BITS - unat overbits) (unat overbits) (map ! unat ix)]\<rparr>)
     }
     else Some (Some \<lparr>nbits = n, nwords = nw, bm_map = map\<rparr>)
   }"

text \<open>The two loops of \<^verbatim>\<open>bitmap_alloc\<close>: over the bits of a word, over the words.\<close>

function alloc_offset :: "u32 \<Rightarrow> nat \<Rightarrow> nat option" where
  "alloc_offset w offset =
     (if offset < WORD_BITS
      then if w AND push_bit offset 1 \<noteq> 0 then Some offset else alloc_offset w (offset + 1)
      else None)"
  by pat_completeness auto
termination
  by (relation "measure (\<lambda>(w, offset). WORD_BITS - offset)") auto

declare alloc_offset.simps [simp del]

function bitmap_alloc_from :: "nat \<Rightarrow> bitmap \<Rightarrow> (int \<times> u32 option \<times> bitmap) option" where
  "bitmap_alloc_from ix bm =
     (if ix < unat (nwords bm)
      then if bm_map bm ! ix \<noteq> 0
        then case alloc_offset (bm_map bm ! ix) 0 of
            Some offset \<Rightarrow>
              Some (0, Some (of_nat (ix * WORD_BITS + offset)),
                bm\<lparr>bm_map := (bm_map bm)[ix := bm_map bm ! ix XOR push_bit offset 1]\<rparr>)
          | None \<Rightarrow> None
        else bitmap_alloc_from (ix + 1) bm
      else Some (- E_NO_MEM, None, bm))"
  by pat_completeness auto
termination
  by (relation "measure (\<lambda>(ix, bm). unat (nwords bm) - ix)") auto

declare bitmap_alloc_from.simps [simp del]

definition bitmap_alloc :: "bitmap \<Rightarrow> (int \<times> u32 option \<times> bitmap) option" where
  "bitmap_alloc bm = bitmap_alloc_from 0 bm"

definition bitmap_translate :: "bitmap \<Rightarrow> u32 \<Rightarrow> (nat \<times> u32) option" where
  "bitmap_translate bm index = do {
     kassert (index < nbits bm);
     let ix = unat index div WORD_BITS; offset = unat index mod WORD_BITS in
     Some (ix, push_bit offset 1)
   }"

definition bitmap_test :: "bitmap \<Rightarrow> u32 \<Rightarrow> bool option" where
  "bitmap_test bm index = do {
     (ix, mask) \<leftarrow> bitmap_translate bm index;
     Some (bm_map bm ! ix AND mask \<noteq> 0)
   }"

definition bitmap_free :: "bitmap \<Rightarrow> u32 \<Rightarrow> bitmap option" where
  "bitmap_free bm index = do {
     (ix, mask) \<leftarrow> bitmap_translate bm index;
     kassert (bm_map bm ! ix AND mask = 0);
     Some (bm\<lparr>bm_map := (bm_map bm)[ix := bm_map bm ! ix OR mask]\<rparr>)
   }"

definition bitmap_getdata :: "bitmap \<Rightarrow> u32 list \<times> nat" where
  "bitmap_getdata bm = (bm_map bm, 4 * unat (nwords bm))"

section \<open>The invariant\<close>

definition bm_bit :: "bitmap \<Rightarrow> nat \<Rightarrow> bool" where
  "bm_bit bm i \<longleftrightarrow> bit (bm_map bm ! (i div 32)) (i mod 32)"

definition bitmap_inv :: "bitmap \<Rightarrow> bool" where
  "bitmap_inv bm \<longleftrightarrow> length (bm_map bm) = unat (nwords bm) \<and>
     unat (nbits bm) \<le> 32 * unat (nwords bm) \<and> unat (nwords bm) * 32 < 2 ^ 32 \<and>
     (\<forall>i < 32 * unat (nwords bm). bm_bit bm i \<longrightarrow> i < unat (nbits bm))"

definition free_bits :: "bitmap \<Rightarrow> nat set" where
  "free_bits bm = {i. i < unat (nbits bm) \<and> bm_bit bm i}"

lemma and_mask_bit: "(w AND 2 ^ k = 0) = (\<not> bit (w :: u32) k)"
  by (rule and_exp_eq_0_iff_not_bit)

lemma alloc_offset_Some:
  assumes "alloc_offset w k = Some j"
  shows "k \<le> j" and "j < 32" and "bit w j" and "\<forall>i \<in> {k..<j}. \<not> bit w i"
proof -
  have "k \<le> j \<and> j < 32 \<and> bit w j \<and> (\<forall>i \<in> {k..<j}. \<not> bit w i)"
    using assms
  proof (induction w k rule: alloc_offset.induct)
    case (1 w k)
    show ?case
    proof (cases "k < 32 \<and> \<not> bit w k")
      case True
      then have "alloc_offset w (k + 1) = Some j"
        using "1.prems" by (simp add: alloc_offset.simps [of w k] and_mask_bit)
      then have ih: "k + 1 \<le> j \<and> j < 32 \<and> bit w j \<and> (\<forall>i \<in> {k + 1..<j}. \<not> bit w i)"
        using "1.IH" True by (simp add: and_mask_bit)
      moreover have "\<not> bit w i" if "i \<in> {k..<j}" for i
        using that True ih by (cases "i = k") auto
      ultimately show ?thesis by auto
    next
      case False
      then show ?thesis
        using "1.prems" by (auto simp: alloc_offset.simps [of w k] and_mask_bit split: if_splits)
    qed
  qed
  then show "k \<le> j" "j < 32" "bit w j" "\<forall>i \<in> {k..<j}. \<not> bit w i" by auto
qed

lemma alloc_offset_None: "alloc_offset w k = None \<Longrightarrow> i \<in> {k..<32} \<Longrightarrow> \<not> bit w i"
proof (induction w k rule: alloc_offset.induct)
  case (1 w k)
  show ?case
    using "1.prems" "1.IH"
    by (cases "i = k") (auto simp: alloc_offset.simps [of w k] and_mask_bit split: if_splits)
qed

lemma alloc_offset_word:
  assumes "(w :: u32) \<noteq> 0"
  obtains j where "alloc_offset w 0 = Some j"
proof (cases "alloc_offset w 0")
  case None
  have "w = 0"
  proof (rule bit_word_eqI)
    fix i assume "i < LENGTH(32)"
    then show "bit w i = bit 0 i" using alloc_offset_None [OF None, of i] by simp
  qed
  with assms show ?thesis by simp
qed (use that in blast)

text \<open>Setting or clearing one bit of the map.\<close>

definition put_bit :: "bitmap \<Rightarrow> nat \<Rightarrow> u32 \<Rightarrow> bitmap" where
  "put_bit bm ix w = bm\<lparr>bm_map := (bm_map bm)[ix := w]\<rparr>"

lemma put_bit_simps [simp]: "nbits (put_bit bm ix w) = nbits bm" "nwords (put_bit bm ix w) = nwords bm"
  by (simp_all add: put_bit_def)

lemma bm_bit_put:
  assumes "i < 32 * length (bm_map bm)" and j: "j < 32"
    and w: "\<forall>k < 32. bit w k = (if k = j then b else bit (bm_map bm ! ix) k)"
    and ix: "ix < length (bm_map bm)"
  shows "bm_bit (put_bit bm ix w) i = (if i = ix * 32 + j then b else bm_bit bm i)"
proof (cases "i div 32 = ix")
  case True
  then have i: "i = ix * 32 + i mod 32" by (metis div_mult_mod_eq)
  have "bm_bit (put_bit bm ix w) i = bit w (i mod 32)"
    using True ix by (simp add: bm_bit_def put_bit_def)
  also have "\<dots> = (if i mod 32 = j then b else bm_bit bm i)"
    using w True by (simp add: bm_bit_def)
  finally show ?thesis using i by (metis add_left_cancel)
next
  case False
  moreover have "i \<noteq> ix * 32 + j" using False j by auto
  ultimately show ?thesis by (simp add: bm_bit_def put_bit_def)
qed

lemma put_bit_clear:
  assumes inv: "bitmap_inv bm" and ix: "ix < unat (nwords bm)" and j: "j < 32"
    and w: "\<forall>k < 32. bit w k = (if k = j then False else bit (bm_map bm ! ix) k)"
  shows "bitmap_inv (put_bit bm ix w)" and "free_bits (put_bit bm ix w) = free_bits bm - {ix * 32 + j}"
proof -
  have len: "length (bm_map bm) = unat (nwords bm)" using inv by (simp add: bitmap_inv_def)
  have b: "bm_bit (put_bit bm ix w) i = (i \<noteq> ix * 32 + j \<and> bm_bit bm i)" if "i < 32 * unat (nwords bm)" for i
    using bm_bit_put [of i bm j w False ix] that w j ix len by simp
  show "bitmap_inv (put_bit bm ix w)" using inv b by (auto simp: bitmap_inv_def) (simp add: put_bit_def)
  show "free_bits (put_bit bm ix w) = free_bits bm - {ix * 32 + j}"
    using inv b by (auto simp: free_bits_def bitmap_inv_def)
qed

lemma put_bit_set:
  assumes inv: "bitmap_inv bm" and ix: "ix < unat (nwords bm)" and j: "j < 32"
    and lt: "ix * 32 + j < unat (nbits bm)"
    and w: "\<forall>k < 32. bit w k = (if k = j then True else bit (bm_map bm ! ix) k)"
  shows "bitmap_inv (put_bit bm ix w)" and "free_bits (put_bit bm ix w) = insert (ix * 32 + j) (free_bits bm)"
proof -
  have len: "length (bm_map bm) = unat (nwords bm)" using inv by (simp add: bitmap_inv_def)
  have b: "bm_bit (put_bit bm ix w) i = (i = ix * 32 + j \<or> bm_bit bm i)" if "i < 32 * unat (nwords bm)" for i
    using bm_bit_put [of i bm j w True ix] that w j ix len by simp
  show "bitmap_inv (put_bit bm ix w)" using inv b lt by (auto simp: bitmap_inv_def) (simp add: put_bit_def)
  show "free_bits (put_bit bm ix w) = insert (ix * 32 + j) (free_bits bm)"
    using inv b lt by (auto simp: free_bits_def bitmap_inv_def)
qed

section \<open>The operations on the set of free indices\<close>

lemma bm_bit_word: "j < 32 \<Longrightarrow> bm_bit bm (ix * 32 + j) = bit (bm_map bm ! ix) j"
  by (simp add: bm_bit_def)

lemma bitmap_alloc_from_correct:
  assumes "bitmap_inv bm" and "\<forall>i < 32 * ix. \<not> bm_bit bm i"
  shows "if free_bits bm = {} then bitmap_alloc_from ix bm = Some (- E_NO_MEM, None, bm)
    else \<exists>bm'. bitmap_alloc_from ix bm = Some (0, Some (of_nat (Min (free_bits bm))), bm') \<and>
      bitmap_inv bm' \<and> nbits bm' = nbits bm \<and> free_bits bm' = free_bits bm - {Min (free_bits bm)}"
  using assms
proof (induction ix bm rule: bitmap_alloc_from.induct)
  case (1 ix bm)
  have bd: "32 * ix \<le> i" if "i \<in> free_bits bm" for i
    using "1.prems"(2) that by (auto simp: free_bits_def not_less [symmetric])
  show ?case
  proof (cases "ix < unat (nwords bm)")
    case False
    then have "free_bits bm = {}"
      using bd "1.prems"(1) by (fastforce simp: free_bits_def bitmap_inv_def)
    then show ?thesis using False by (simp add: bitmap_alloc_from.simps [of ix bm])
  next
    case lt: True
    show ?thesis
    proof (cases "bm_map bm ! ix = 0")
      case True
      have "\<not> bm_bit bm i" if "i < 32 * (ix + 1)" for i
      proof (cases "i < 32 * ix")
        case False
        then have "i div 32 = ix" using that by (intro div_nat_eqI) auto
        then show ?thesis using True by (simp add: bm_bit_def)
      qed (use "1.prems" in auto)
      moreover have "bitmap_alloc_from ix bm = bitmap_alloc_from (ix + 1) bm"
        using True lt by (simp add: bitmap_alloc_from.simps [of ix bm])
      ultimately show ?thesis using "1.IH" [OF lt] "1.prems"(1) True by metis
    next
      case False
      then obtain j where j: "alloc_offset (bm_map bm ! ix) 0 = Some j" by (rule alloc_offset_word)
      note aj = alloc_offset_Some [OF j]
      let ?i = "ix * 32 + j" and ?w = "bm_map bm ! ix XOR push_bit j 1"
      have bi: "bm_bit bm ?i" using aj by (simp add: bm_bit_word)
      have "?i < 32 * unat (nwords bm)" using lt aj(2) by simp
      then have free: "?i \<in> free_bits bm" using bi "1.prems"(1) by (auto simp: free_bits_def bitmap_inv_def)
      have least: "?i \<le> i" if "i \<in> free_bits bm" for i
      proof (rule ccontr)
        assume l: "\<not> ?i \<le> i"
        have "i div 32 = ix" using bd [OF that] l aj(2) by (intro div_nat_eqI) auto
        moreover from this have "i mod 32 < j" using l div_mult_mod_eq [of i 32] by simp
        ultimately have "bit (bm_map bm ! ix) (i mod 32)" "i mod 32 < j"
          using that by (auto simp: free_bits_def bm_bit_def)
        then show False using aj(4) by simp
      qed
      have "finite (free_bits bm)" by (simp add: free_bits_def)
      then have min: "Min (free_bits bm) = ?i" using free least by (intro Min_eqI) auto
      have w: "\<forall>k < 32. bit ?w k = (if k = j then False else bit (bm_map bm ! ix) k)"
        using aj(2,3) by (auto simp: bit_xor_iff bit_exp_iff)
      have "bitmap_alloc_from ix bm = Some (0, Some (of_nat ?i), put_bit bm ix ?w)"
        using lt False j by (simp add: bitmap_alloc_from.simps [of ix bm] put_bit_def)
      then show ?thesis
        using put_bit_clear [OF "1.prems"(1) lt aj(2) w] free min by auto
    qed
  qed
qed

lemma bitmap_alloc_correct:
  assumes "bitmap_inv bm"
  shows "if free_bits bm = {} then bitmap_alloc bm = Some (- E_NO_MEM, None, bm)
    else \<exists>bm'. bitmap_alloc bm = Some (0, Some (of_nat (Min (free_bits bm))), bm') \<and>
      bitmap_inv bm' \<and> nbits bm' = nbits bm \<and> free_bits bm' = free_bits bm - {Min (free_bits bm)}"
  using bitmap_alloc_from_correct [OF assms, of 0] by (simp add: bitmap_alloc_def)

lemma index_parts:
  assumes "bitmap_inv bm" and "i < nbits bm"
  shows "unat i div 32 < unat (nwords bm)" and "unat i mod 32 < 32" and "unat i div 32 * 32 + unat i mod 32 < unat (nbits bm)"
  using assms by (auto simp: bitmap_inv_def word_less_nat_alt)

lemma bitmap_test_correct:
  "bitmap_test bm i = (if i < nbits bm then Some (unat i \<in> free_bits bm) else None)"
  by (auto simp: bitmap_test_def bitmap_translate_def free_bits_def bm_bit_def and_mask_bit word_less_nat_alt)

lemma bitmap_free_correct:
  assumes inv: "bitmap_inv bm" and i: "i < nbits bm" "unat i \<notin> free_bits bm"
  shows "\<exists>bm'. bitmap_free bm i = Some bm' \<and> bitmap_inv bm' \<and> nbits bm' = nbits bm \<and>
    free_bits bm' = insert (unat i) (free_bits bm)"
proof -
  let ?ix = "unat i div 32" and ?j = "unat i mod 32"
  let ?w = "bm_map bm ! ?ix OR push_bit ?j 1"
  have "\<not> bit (bm_map bm ! ?ix) ?j"
    using i by (simp add: free_bits_def bm_bit_def word_less_nat_alt)
  then have "bitmap_free bm i = Some (put_bit bm ?ix ?w)"
    using i(1) by (simp add: bitmap_free_def bitmap_translate_def put_bit_def and_mask_bit)
  moreover have "\<forall>k < 32. bit ?w k = (if k = ?j then True else bit (bm_map bm ! ?ix) k)"
    by (auto simp: bit_or_iff bit_exp_iff)
  note put_bit_set [OF inv index_parts [OF inv i(1)] this]
  ultimately show ?thesis by auto
qed

lemma bitmap_free_panics: "unat i \<in> free_bits bm \<or> \<not> i < nbits bm \<Longrightarrow> bitmap_free bm i = None"
  by (auto simp: bitmap_free_def bitmap_translate_def free_bits_def bm_bit_def and_mask_bit kassert_def)

section \<open>Creation\<close>

lemma clear_overbits_bit:
  "i < 32 \<Longrightarrow> bit (clear_overbits k ob w) i = (if ob \<le> i \<and> i < ob + k then \<not> bit w i else bit w i)"
proof (induction k ob w rule: clear_overbits.induct)
  case (2 k ob w)
  then show ?case by (auto simp: bit_xor_iff bit_exp_iff)
qed auto

lemma unat_ROUNDUP_DIV32:
  assumes "unat n + 31 < 2 ^ 32"
  shows "unat (ROUNDUP_DIV32 n 32) = (unat n + 31) div 32"
proof -
  have eq: "n + 32 - 1 = n + (31 :: u32)" by simp
  have "unat (n + (31 :: u32)) = unat n + 31" using assms by (subst unat_add_lem [THEN iffD1]) auto
  then show ?thesis unfolding ROUNDUP_DIV32_def eq unat_div by simp
qed

lemma unat_u32_64 [simp]: "unat (u32_64 a) = unat a"
  using unat_lt2p [of a] by (simp add: unsigned_ucast_eq take_bit_nat_eq_self)

lemma u32_64_eq_iff:
  "(u32_64 a = u32_64 b * 32) = (unat a = unat b * 32)"
proof -
  have "unat b * 32 < 2 ^ LENGTH(64)" using unat_lt2p [of b] by simp
  then have "unat (u32_64 b * 32) = unat b * 32"
    using unat_of_nat_less [of "unat b * 32", where 'a = 64] by simp
  then show ?thesis by (simp add: word_unat_eq_iff)
qed

lemma words_exact: "n mod 32 = 0 \<Longrightarrow> (n + 31) div 32 = n div (32 :: nat)"
  using div_mult_mod_eq [of n 32] by (intro div_nat_eqI) auto

lemma words_rest: "n mod 32 \<noteq> 0 \<Longrightarrow> (n + 31) div 32 = Suc (n div (32 :: nat))"
proof -
  define q r where "q = n div 32" and "r = n mod 32"
  then have n: "n = q * 32 + r" and "r < 32" by simp_all
  assume "n mod 32 \<noteq> 0"
  then have "r \<noteq> 0" by (simp add: r_def)
  then have "(q * 32 + r + 31) div 32 = Suc q" using \<open>r < 32\<close> by (intro div_nat_eqI) auto
  then show ?thesis unfolding n [symmetric] by (simp add: q_def)
qed

definition full_map :: "nat \<Rightarrow> u32 list \<Rightarrow> bool" where
  "full_map n ws \<longleftrightarrow> length ws = (n + 31) div 32 \<and>
     (\<forall>i < 32 * length ws. bit (ws ! (i div 32)) (i mod 32) = (i < n))"

lemma full_map_inv:
  assumes "full_map (unat n) ws" and "unat nw = (unat n + 31) div 32" and "unat n + 31 < 2 ^ 32"
  shows "bitmap_inv \<lparr>nbits = n, nwords = nw, bm_map = ws\<rparr>"
    and "free_bits \<lparr>nbits = n, nwords = nw, bm_map = ws\<rparr> = {0..<unat n}"
proof -
  have len: "length ws = unat nw" and b: "\<forall>i < 32 * unat nw. bit (ws ! (i div 32)) (i mod 32) = (i < unat n)"
    using assms(1) unfolding full_map_def assms(2) by auto
  have up: "unat n \<le> 32 * unat nw" unfolding assms(2) by linarith
  have "unat nw * 32 \<le> unat n + 31" unfolding assms(2) by (rule div_times_less_eq_dividend)
  then show "bitmap_inv \<lparr>nbits = n, nwords = nw, bm_map = ws\<rparr>"
    unfolding bitmap_inv_def bm_bit_def using len up b assms(3) by simp
  show "free_bits \<lparr>nbits = n, nwords = nw, bm_map = ws\<rparr> = {0..<unat n}"
    unfolding free_bits_def bm_bit_def using b up by auto
qed

lemma full_map_clear:
  assumes n: "n mod 32 \<noteq> 0"
  shows "full_map n ((replicate ((n + 31) div 32) (- 1))
    [n div 32 := clear_overbits (32 - n mod 32) (n mod 32) (- 1)])"
proof -
  note len = words_rest [OF n]
  have "bit ((replicate (Suc (n div 32)) (- 1 :: u32))
      [n div 32 := clear_overbits (32 - n mod 32) (n mod 32) (- 1)] ! (i div 32)) (i mod 32) = (i < n)"
    if "i < 32 * Suc (n div 32)" for i
  proof (cases "i div 32 = n div 32")
    case True
    then have "(i < n) = (i mod 32 < n mod 32)"
      by (metis add_less_cancel_left div_mult_mod_eq)
    then show ?thesis using True by (simp add: clear_overbits_bit del: replicate_Suc)
  next
    case False
    then have "i div 32 < n div 32" using that by (simp add: less_mult_imp_div_less)
    moreover from this have "i < n" by (metis div_le_mono leD leI)
    ultimately show ?thesis by (simp add: nth_list_update del: replicate_Suc)
  qed
  then show ?thesis unfolding full_map_def len by (simp del: replicate_Suc)
qed

lemma full_map_exact:
  assumes "n mod 32 = 0"
  shows "full_map n (replicate ((n + 31) div 32) (- 1))"
proof -
  have "(n + 31) div 32 = n div 32" "32 * (n div 32) = n" using words_exact [OF assms] assms by auto
  then show ?thesis unfolding full_map_def by (auto simp: less_mult_imp_div_less mult.commute)
qed

lemma bitmap_create_correct:
  assumes n: "0 < unat n" "unat n + 31 < 2 ^ 32"
  shows "\<exists>bm. bitmap_create n True True = Some (Some bm) \<and> nbits bm = n \<and> bitmap_inv bm \<and>
    free_bits bm = {0..<unat n}"
proof -
  let ?nw = "ROUNDUP_DIV32 n 32" and ?N = "unat n"
  note nw = unat_ROUNDUP_DIV32 [OF n(2)]
  have guard: "n \<noteq> 0" "u32_64 n + 32 > u32_64 n"
  proof -
    show "n \<noteq> 0" using n(1) by auto
    have "unat (u32_64 n) + unat (32 :: u64) < 2 ^ LENGTH(64)" using n(2) by simp
    then show "u32_64 n + 32 > u32_64 n"
      unfolding word_less_nat_alt by (subst unat_add_lem [THEN iffD1]) auto
  qed
  show ?thesis
  proof (cases "?N mod 32 = 0")
    case True
    then have "?N = unat ?nw * 32" using nw words_exact [OF True] by auto
    then have "bitmap_create n True True = Some (Some \<lparr>nbits = n, nwords = ?nw, bm_map = replicate (unat ?nw) (- 1)\<rparr>)"
      using guard by (simp add: bitmap_create_def u32_64_eq_iff Let_def)
    then show ?thesis using full_map_inv [OF _ nw n(2)] full_map_exact [OF True] nw by simp
  next
    case False
    let ?ix = "?nw - 1"
    have ix: "unat ?ix = ?N div 32"
    proof -
      have "?nw \<noteq> 0" using nw n(1) by auto
      then show ?thesis using nw words_rest [OF False] unfolding unat_minus_one [OF \<open>?nw \<noteq> 0\<close>] by simp
    qed
    have ne: "?N \<noteq> unat ?nw * 32" using False by (metis mod_mult_self2_is_0)
    have over: "n - ?ix * 32 = of_nat (?N mod 32)"
    proof -
      have "n - ?ix * 32 = of_nat ?N - of_nat (?N div 32) * 32" by (simp flip: ix)
      also have "\<dots> = of_nat (?N - ?N div 32 * 32)" by (simp add: of_nat_diff)
      finally show ?thesis by (simp add: modulo_nat_def)
    qed
    then have uo: "unat (n - ?ix * 32) = ?N mod 32"
      by (simp add: unat_of_nat take_bit_nat_eq_self)
    have "u32_64 n div 32 = u32_64 ?ix"
      by (simp add: word_unat_eq_iff unat_div ix)
    moreover have "0 < n - ?ix * 32" "n - ?ix * 32 < 32" unfolding word_less_nat_alt uo using False by auto
    ultimately have "bitmap_create n True True = Some (Some \<lparr>nbits = n, nwords = ?nw,
        bm_map = (replicate (unat ?nw) (- 1))[?N div 32 := clear_overbits (32 - ?N mod 32) (?N mod 32) (- 1)]\<rparr>)"
      using guard ne ix uo nw False by (simp add: bitmap_create_def u32_64_eq_iff Let_def)
    then show ?thesis using full_map_inv [OF _ nw n(2)] full_map_clear [OF False] nw by simp
  qed
qed

section \<open>The contract of a pool of indices\<close>

locale index_pool =
  fixes alloc :: "'s \<Rightarrow> (int \<times> u32 option \<times> 's) option"
    and free :: "'s \<Rightarrow> u32 \<Rightarrow> 's option"
    and test :: "'s \<Rightarrow> u32 \<Rightarrow> bool option"
    and inv :: "'s \<Rightarrow> bool"
    and avail :: "'s \<Rightarrow> u32 set"
    and limit :: "'s \<Rightarrow> u32"
  assumes alloc_empty: "inv s \<Longrightarrow> avail s = {} \<Longrightarrow> alloc s = Some (- E_NO_MEM, None, s)"
    and alloc_some: "inv s \<Longrightarrow> avail s \<noteq> {} \<Longrightarrow>
      \<exists>i s'. alloc s = Some (0, Some i, s') \<and> inv s' \<and> limit s' = limit s \<and>
        i \<in> avail s \<and> avail s' = avail s - {i} \<and> (\<forall>j \<in> avail s. i \<le> j)"
    and free_used: "inv s \<Longrightarrow> i < limit s \<Longrightarrow> i \<notin> avail s \<Longrightarrow>
      \<exists>s'. free s i = Some s' \<and> inv s' \<and> limit s' = limit s \<and> avail s' = insert i (avail s)"
    and free_unused: "i \<in> avail s \<or> \<not> i < limit s \<Longrightarrow> free s i = None"
    and test_iff: "i < limit s \<Longrightarrow> test s i = Some (i \<in> avail s)"
    and avail_limit: "i \<in> avail s \<Longrightarrow> i < limit s"
begin

lemma alloc_total: "inv s \<Longrightarrow> \<exists>r i s'. alloc s = Some (r, i, s') \<and> inv s' \<and> limit s' = limit s"
  using alloc_empty alloc_some by blast

lemma alloc_cases:
  assumes "inv s" and "alloc s = Some (r, i, s')"
  obtains "r = - E_NO_MEM" "i = None" "s' = s" "avail s = {}"
  | j where "r = 0" "i = Some j" "j \<in> avail s" "avail s' = avail s - {j}" "inv s'" "limit s' = limit s"
      "\<forall>k \<in> avail s. j \<le> k"
  using assms alloc_empty [of s] alloc_some [of s] by (cases "avail s = {}") force+

lemma alloc_free_restores:
  assumes "inv s" and "alloc s = Some (0, Some i, s')"
  shows "test s' i = Some False \<and> (\<exists>s''. free s' i = Some s'' \<and> inv s'' \<and> avail s'' = avail s)"
  using assms
proof (cases rule: alloc_cases)
  case (2 j)
  then have i: "i \<in> avail s" "avail s' = avail s - {i}" by auto
  then have lt: "i < limit s'" and ni: "i \<notin> avail s'" using 2(6) avail_limit by auto
  have "insert i (avail s') = avail s" using i by auto
  then show ?thesis using free_used [OF 2(5) lt ni] test_iff [OF lt] ni by auto
qed simp

lemma double_free_panics:
  assumes "inv s" and "free s i = Some s'"
  shows "free s' i = None"
proof -
  have "i < limit s \<and> i \<notin> avail s" using assms free_unused by (metis option.distinct(1))
  then have "i \<in> avail s'" using free_used [OF assms(1), of i] assms(2) by auto
  then show ?thesis using free_unused by simp
qed

end

text \<open>The free indices as the C code names them: 32-bit words.\<close>

definition free_indices :: "bitmap \<Rightarrow> u32 set" where
  "free_indices bm = {i. unat i \<in> free_bits bm}"

lemma free_bits_less: "i \<in> free_bits bm \<Longrightarrow> i < unat (nbits bm)"
  by (simp add: free_bits_def)

lemma free_bits_word: "i \<in> free_bits bm \<Longrightarrow> unat (of_nat i :: u32) = i"
  using free_bits_less [of i bm] unat_lt2p [of "nbits bm"] by (intro unat_of_nat_less) simp

lemma free_indices_empty: "(free_indices bm = {}) = (free_bits bm = {})"
proof -
  have "of_nat i \<in> free_indices bm" if "i \<in> free_bits bm" for i
    using free_bits_word [OF that] that by (simp add: free_indices_def)
  then show ?thesis by (auto simp: free_indices_def)
qed

interpretation bmp: index_pool bitmap_alloc bitmap_free bitmap_test bitmap_inv free_indices nbits
proof (unfold_locales, goal_cases)
  case (1 s)
  then show ?case using bitmap_alloc_correct [of s] by (simp add: free_indices_empty)
next
  case (2 s)
  let ?m = "Min (free_bits s)"
  have ne: "free_bits s \<noteq> {}" using 2 by (simp add: free_indices_empty)
  have fin: "finite (free_bits s)" by (simp add: free_bits_def)
  have m: "?m \<in> free_bits s" using fin ne by simp
  note um = free_bits_word [OF m]
  obtain bm' where "bitmap_alloc s = Some (0, Some (of_nat ?m), bm')" "bitmap_inv bm'"
    "nbits bm' = nbits s" "free_bits bm' = free_bits s - {?m}"
    using bitmap_alloc_correct [OF 2(1)] ne by auto
  moreover have "(unat i = ?m) = (i = of_nat ?m)" for i :: u32 using um by (metis word_unat_eq_iff)
  then have "free_indices bm' = free_indices s - {of_nat ?m}"
    unfolding free_indices_def calculation(4) by blast
  moreover have "\<forall>j \<in> free_indices s. of_nat ?m \<le> j"
    using um fin by (simp add: free_indices_def word_le_nat_alt)
  ultimately show ?case using m um by (auto simp: free_indices_def)
next
  case (3 s i)
  then obtain bm' where "bitmap_free s i = Some bm'" "bitmap_inv bm'" "nbits bm' = nbits s"
    "free_bits bm' = insert (unat i) (free_bits s)"
    using bitmap_free_correct [of s i] by (auto simp: free_indices_def)
  then show ?case by (auto simp: free_indices_def word_unat_eq_iff)
next
  case (4 i s)
  then show ?case using bitmap_free_panics by (auto simp: free_indices_def)
next
  case (5 i s)
  then show ?case by (simp add: bitmap_test_correct free_indices_def)
next
  case (6 i s)
  then show ?case by (simp add: free_indices_def free_bits_def word_less_nat_alt)
qed

section \<open>Properties\<close>

definition fresh_map :: bitmap where
  "fresh_map = the (the (bitmap_create 40 True True))"

lemma fresh_map_inv: "bitmap_inv fresh_map" and fresh_map_free: "free_bits fresh_map = {0..<40}"
proof -
  have "0 < unat (40 :: u32)" "unat (40 :: u32) + 31 < 2 ^ 32" by simp_all
  then obtain bm where bm: "bitmap_create 40 True True = Some (Some bm)" "bitmap_inv bm"
    "free_bits bm = {0..<unat (40 :: u32)}" using bitmap_create_correct by blast
  then have "fresh_map = bm" by (simp only: fresh_map_def option.sel)
  moreover have "unat (40 :: u32) = 40" by simp
  ultimately show "bitmap_inv fresh_map" "free_bits fresh_map = {0..<40}" using bm by simp_all
qed

lemma fresh_map_alloc: "\<exists>bm'. bitmap_alloc fresh_map = Some (0, Some 0, bm')"
proof -
  have "Min (free_bits fresh_map) = 0" unfolding fresh_map_free by (intro Min_eqI) auto
  then show ?thesis using bitmap_alloc_correct [OF fresh_map_inv] by (auto simp: fresh_map_free)
qed

text \<open>
  \<^verbatim>\<open>bitmap_create(nbits)\<close>, when its two allocations succeed, returns a bitmap in which exactly
  the indices below \<^verbatim>\<open>nbits\<close> are free, the leftover bits of the last word being marked in use; this
  for every size up to \<open>2 ^ 32 - 32\<close>, above which the 32-bit \<^verbatim>\<open>ROUNDUP_DIV\<close> would wrap.
\<close>

theorem bitmap_create_all_free:
  assumes "0 < unat n" and "unat n + 31 < 2 ^ 32"
  shows "\<exists>bm. bitmap_create n True True = Some (Some bm) \<and> nbits bm = n \<and> bitmap_inv bm \<and>
    free_bits bm = {0..<unat n}"
  by (rule bitmap_create_correct [OF assms])

theorem bitmap_create_all_free_witness:
  "\<exists>bm. bitmap_create 40 True True = Some (Some bm) \<and> nbits bm = 40 \<and> bitmap_inv bm \<and>
    free_bits bm = {0..<40}"
  using bitmap_create_all_free [of 40] by simp

text \<open>
  C27: \<^verbatim>\<open>bitmap_alloc\<close> never reaches its \<^verbatim>\<open>assert(0)\<close>. It fails with \<^verbatim>\<open>-E_NO_MEM\<close>, changing nothing,
  exactly when no index is free, and otherwise returns the smallest free index and marks only it.
\<close>

theorem bitmap_alloc_first_fit:
  assumes "bitmap_inv bm"
  shows "if free_indices bm = {} then bitmap_alloc bm = Some (- E_NO_MEM, None, bm)
    else \<exists>i bm'. bitmap_alloc bm = Some (0, Some i, bm') \<and> bitmap_inv bm' \<and> i \<in> free_indices bm \<and>
      (\<forall>j \<in> free_indices bm. i \<le> j) \<and> free_indices bm' = free_indices bm - {i}"
  using bmp.alloc_empty [OF assms] bmp.alloc_some [OF assms] by auto

theorem bitmap_alloc_first_fit_witness:
  "\<exists>i bm'. bitmap_alloc fresh_map = Some (0, Some i, bm') \<and> bitmap_inv bm' \<and>
    (\<forall>j \<in> free_indices fresh_map. i \<le> j) \<and> free_indices bm' = free_indices fresh_map - {i}"
  using bitmap_alloc_first_fit [OF fresh_map_inv] by (auto simp: free_indices_empty fresh_map_free)

text \<open>
  C29: An index handed out by \<^verbatim>\<open>bitmap_alloc\<close> tests as in use; freeing it succeeds and restores the
  set of free indices, and freeing it a second time fails the assertion of \<^verbatim>\<open>bitmap_free\<close>.
\<close>

theorem bitmap_alloc_free:
  assumes "bitmap_inv bm" and "bitmap_alloc bm = Some (0, Some i, bm')"
  shows "bitmap_test bm' i = Some False \<and>
    (\<exists>bm''. bitmap_free bm' i = Some bm'' \<and> bitmap_inv bm'' \<and> free_indices bm'' = free_indices bm \<and>
      bitmap_free bm'' i = None)"
proof -
  have "bitmap_inv bm'" using bmp.alloc_total [OF assms(1)] assms(2) by auto
  then show ?thesis using bmp.alloc_free_restores [OF assms] bmp.double_free_panics by blast
qed

theorem bitmap_alloc_free_witness:
  "\<exists>bm' bm''. bitmap_alloc fresh_map = Some (0, Some 0, bm') \<and> bitmap_test bm' 0 = Some False \<and>
    bitmap_free bm' 0 = Some bm'' \<and> free_indices bm'' = free_indices fresh_map \<and> bitmap_free bm'' 0 = None"
  using fresh_map_alloc bitmap_alloc_free [OF fresh_map_inv] by blast

end
