(* ===== verification/Proc_State.thy ===== *)
theory Proc_State
  imports Ucore_Prelude
begin

text \<open>
  The process and scheduling data of \<^verbatim>\<open>kern-ucore\<close>: \<^verbatim>\<open>struct proc_struct\<close>, run queues, timers,
  wait queues and the global variables the scheduler works on. Pointers to these structures are
  natural numbers, and the state maps them to records. An embedded \<^verbatim>\<open>list_entry_t\<close> becomes a flag
  telling whether it is linked (\<^verbatim>\<open>!list_empty(&x->link)\<close>), the list it is linked in a list of
  the containing structures in order; \<^verbatim>\<open>List_Heap\<close> shows that the pointer operations of
  \<^verbatim>\<open>list.h\<close> implement these lists.
\<close>

datatype proc_state = PROC_UNINIT | PROC_SLEEPING | PROC_RUNNABLE | PROC_ZOMBIE

section \<open>Wait states\<close>

definition WT_INTERRUPTED :: u32 where "WT_INTERRUPTED = 0x80000000"
definition WT_CHILD :: u32 where "WT_CHILD = 0x1 OR WT_INTERRUPTED"
definition WT_TIMER :: u32 where "WT_TIMER = 0x2 OR WT_INTERRUPTED"
definition WT_KSWAPD :: u32 where "WT_KSWAPD = 0x3"
definition WT_KBD :: u32 where "WT_KBD = 0x4 OR WT_INTERRUPTED"
definition WT_KSEM :: u32 where "WT_KSEM = 0x100"
definition WT_USEM :: u32 where "WT_USEM = 0x101 OR WT_INTERRUPTED"
definition WT_EVENT_SEND :: u32 where "WT_EVENT_SEND = 0x110 OR WT_INTERRUPTED"
definition WT_EVENT_RECV :: u32 where "WT_EVENT_RECV = 0x111 OR WT_INTERRUPTED"
definition WT_MBOX_SEND :: u32 where "WT_MBOX_SEND = 0x120 OR WT_INTERRUPTED"
definition WT_MBOX_RECV :: u32 where "WT_MBOX_RECV = 0x121 OR WT_INTERRUPTED"
definition WT_PIPE :: u32 where "WT_PIPE = 0x200 OR WT_INTERRUPTED"

definition PF_EXITING :: u32 where "PF_EXITING = 1"

lemmas WT_defs = WT_INTERRUPTED_def WT_CHILD_def WT_TIMER_def WT_KSWAPD_def WT_KBD_def WT_KSEM_def
  WT_USEM_def WT_EVENT_SEND_def WT_EVENT_RECV_def WT_MBOX_SEND_def WT_MBOX_RECV_def WT_PIPE_def

section \<open>The state\<close>

type_synonym proc_id = nat
type_synonym wait_id = nat
type_synonym queue_id = nat
type_synonym timer_id = nat

record proc_struct =
  state :: proc_state
  pid :: int
  runs :: int
  need_resched :: bool
  mm :: "nat option"
  flags :: u32
  wait_state :: u32
  rq :: "nat option"
  run_linked :: bool
  time_slice :: int

record run_queue =
  run_list :: "proc_id list"
  proc_num :: nat
  max_time_slice :: int

record timer =
  expires :: nat
  timer_proc :: proc_id
  timer_linked :: bool

record wait =
  wait_proc :: proc_id
  wakeup_flags :: u32
  wait_queue :: queue_id
  wait_linked :: bool

record kern =
  procs :: "proc_id \<Rightarrow> proc_struct"
  current :: proc_id
  idleproc :: proc_id
  lcpu_count :: int
  lapic_id :: int
  mm_lapic :: "nat \<Rightarrow> int"
  run_queues :: "run_queue list"
  timers :: "timer_id \<Rightarrow> timer"
  timer_list :: "timer_id list"
  waits :: "wait_id \<Rightarrow> wait"
  queues :: "queue_id \<Rightarrow> wait_id list"

definition upd_proc :: "proc_id \<Rightarrow> (proc_struct \<Rightarrow> proc_struct) \<Rightarrow> kern \<Rightarrow> kern" where
  "upd_proc p f s = s\<lparr>procs := (procs s)(p := f (procs s p))\<rparr>"

definition upd_rq :: "nat \<Rightarrow> (run_queue \<Rightarrow> run_queue) \<Rightarrow> kern \<Rightarrow> kern" where
  "upd_rq i f s = s\<lparr>run_queues := (run_queues s)[i := f (run_queues s ! i)]\<rparr>"

definition upd_timer :: "timer_id \<Rightarrow> (timer \<Rightarrow> timer) \<Rightarrow> kern \<Rightarrow> kern" where
  "upd_timer t f s = s\<lparr>timers := (timers s)(t := f (timers s t))\<rparr>"

definition upd_wait :: "wait_id \<Rightarrow> (wait \<Rightarrow> wait) \<Rightarrow> kern \<Rightarrow> kern" where
  "upd_wait w f s = s\<lparr>waits := (waits s)(w := f (waits s w))\<rparr>"

definition set_queue :: "queue_id \<Rightarrow> wait_id list \<Rightarrow> kern \<Rightarrow> kern" where
  "set_queue q ws s = s\<lparr>queues := (queues s)(q := ws)\<rparr>"

lemma upd_proc_simps [simp]:
  "procs (upd_proc p f s) q = (if q = p then f (procs s p) else procs s q)"
  "current (upd_proc p f s) = current s" "idleproc (upd_proc p f s) = idleproc s"
  "lcpu_count (upd_proc p f s) = lcpu_count s" "lapic_id (upd_proc p f s) = lapic_id s"
  "mm_lapic (upd_proc p f s) = mm_lapic s" "run_queues (upd_proc p f s) = run_queues s"
  "timers (upd_proc p f s) = timers s" "timer_list (upd_proc p f s) = timer_list s"
  "waits (upd_proc p f s) = waits s" "queues (upd_proc p f s) = queues s"
  by (simp_all add: upd_proc_def)

lemma upd_rq_simps [simp]:
  "procs (upd_rq i g s) = procs s"
  "current (upd_rq i g s) = current s" "idleproc (upd_rq i g s) = idleproc s"
  "lcpu_count (upd_rq i g s) = lcpu_count s" "lapic_id (upd_rq i g s) = lapic_id s"
  "mm_lapic (upd_rq i g s) = mm_lapic s"
  "run_queues (upd_rq i g s) = (run_queues s)[i := g (run_queues s ! i)]"
  "timers (upd_rq i g s) = timers s" "timer_list (upd_rq i g s) = timer_list s"
  "waits (upd_rq i g s) = waits s" "queues (upd_rq i g s) = queues s"
  by (simp_all add: upd_rq_def)

lemma upd_timer_simps [simp]:
  "timers (upd_timer t h s) q = (if q = t then h (timers s t) else timers s q)"
  "procs (upd_timer t h s) = procs s"
  "current (upd_timer t h s) = current s" "idleproc (upd_timer t h s) = idleproc s"
  "lcpu_count (upd_timer t h s) = lcpu_count s" "lapic_id (upd_timer t h s) = lapic_id s"
  "mm_lapic (upd_timer t h s) = mm_lapic s" "run_queues (upd_timer t h s) = run_queues s"
  "timer_list (upd_timer t h s) = timer_list s"
  "waits (upd_timer t h s) = waits s" "queues (upd_timer t h s) = queues s"
  by (simp_all add: upd_timer_def)

lemma upd_wait_simps [simp]:
  "waits (upd_wait w k s) q = (if q = w then k (waits s w) else waits s q)"
  "procs (upd_wait w k s) = procs s"
  "current (upd_wait w k s) = current s" "idleproc (upd_wait w k s) = idleproc s"
  "lcpu_count (upd_wait w k s) = lcpu_count s" "lapic_id (upd_wait w k s) = lapic_id s"
  "mm_lapic (upd_wait w k s) = mm_lapic s" "run_queues (upd_wait w k s) = run_queues s"
  "timers (upd_wait w k s) = timers s" "timer_list (upd_wait w k s) = timer_list s"
  "queues (upd_wait w k s) = queues s"
  by (simp_all add: upd_wait_def)

lemma set_queue_simps [simp]:
  "queues (set_queue q ws s) r = (if r = q then ws else queues s r)"
  "procs (set_queue q ws s) = procs s"
  "current (set_queue q ws s) = current s" "idleproc (set_queue q ws s) = idleproc s"
  "lcpu_count (set_queue q ws s) = lcpu_count s" "lapic_id (set_queue q ws s) = lapic_id s"
  "mm_lapic (set_queue q ws s) = mm_lapic s" "run_queues (set_queue q ws s) = run_queues s"
  "timers (set_queue q ws s) = timers s" "timer_list (set_queue q ws s) = timer_list s"
  "waits (set_queue q ws s) = waits s"
  by (simp_all add: set_queue_def)

end
