(* ===== verification/Sched.thy ===== *)
theory Sched
  imports Proc_State
begin

text \<open>
  The scheduler: the round-robin class of \<^verbatim>\<open>schedule/sched_RR.c\<close>, the multi-level feedback queue
  of \<^verbatim>\<open>schedule/sched_MLFQ.c\<close> built on it, and the core of \<^verbatim>\<open>schedule/sched.c\<close>
  (\<^verbatim>\<open>wakeup_proc\<close>, \<^verbatim>\<open>schedule\<close>). The code between \<^verbatim>\<open>local_intr_save\<close> and
  \<^verbatim>\<open>local_intr_restore\<close> is one atomic operation. The ring of run queues is the list
  \<^verbatim>\<open>run_queues\<close>, entry \<open>0\<close> being the global \<^verbatim>\<open>rq\<close>. \<^verbatim>\<open>schedule\<close> ends where \<^verbatim>\<open>proc_run\<close> has made
  the chosen process current; the code after a call of \<^verbatim>\<open>schedule()\<close> is a step of its own.
\<close>

section \<open>The code\<close>

subsection \<open>\<^verbatim>\<open>RR_sched_class\<close>\<close>

definition RR_init :: "run_queue \<Rightarrow> run_queue" where
  "RR_init r = r\<lparr>run_list := [], proc_num := 0\<rparr>"

definition RR_enqueue :: "nat \<Rightarrow> proc_id \<Rightarrow> kern \<Rightarrow> kern option" where
  "RR_enqueue i p s = do {
     kassert (\<not> run_linked (procs s p));
     let max = max_time_slice (run_queues s ! i); ts = time_slice (procs s p) in
     Some (upd_rq i (\<lambda>r. r\<lparr>run_list := run_list r @ [p], proc_num := proc_num r + 1\<rparr>)
       (upd_proc p (\<lambda>pr. pr\<lparr>run_linked := True, rq := Some i,
          time_slice := (if ts = 0 \<or> ts > max then max else ts)\<rparr>) s))
   }"

definition RR_dequeue :: "nat \<Rightarrow> proc_id \<Rightarrow> kern \<Rightarrow> kern option" where
  "RR_dequeue i p s = do {
     kassert (run_linked (procs s p) \<and> rq (procs s p) = Some i);
     Some (upd_rq i (\<lambda>r. r\<lparr>run_list := remove1 p (run_list r), proc_num := proc_num r - 1\<rparr>)
       (upd_proc p (\<lambda>pr. pr\<lparr>run_linked := False\<rparr>) s))
   }"

definition RR_pick_next :: "run_queue \<Rightarrow> proc_id option" where
  "RR_pick_next r = (case run_list r of [] \<Rightarrow> None | p # _ \<Rightarrow> Some p)"

definition RR_proc_tick :: "proc_id \<Rightarrow> kern \<Rightarrow> kern" where
  "RR_proc_tick p s =
     (let ts = time_slice (procs s p); ts = (if ts > 0 then ts - 1 else ts)
      in upd_proc p (\<lambda>pr. pr\<lparr>time_slice := ts, need_resched := (need_resched pr \<or> ts = 0)\<rparr>) s)"

subsection \<open>\<^verbatim>\<open>MLFQ_sched_class\<close>\<close>

definition MLFQ_init :: "run_queue list \<Rightarrow> run_queue list" where
  "MLFQ_init rs = map RR_init rs"

text \<open>The next run queue of the ring.\<close>

definition rq_next :: "nat \<Rightarrow> kern \<Rightarrow> nat" where
  "rq_next i s = (if i + 1 < length (run_queues s) then i + 1 else 0)"

definition MLFQ_enqueue :: "proc_id \<Rightarrow> kern \<Rightarrow> kern option" where
  "MLFQ_enqueue p s = do {
     kassert (\<not> run_linked (procs s p));
     let nrq = (case rq (procs s p) of
         Some i \<Rightarrow> if time_slice (procs s p) = 0 then if rq_next i s = 0 then i else rq_next i s else 0
       | None \<Rightarrow> 0)
     in RR_enqueue nrq p s
   }"

definition MLFQ_dequeue :: "proc_id \<Rightarrow> kern \<Rightarrow> kern option" where
  "MLFQ_dequeue p s = do {
     kassert (run_linked (procs s p));
     i \<leftarrow> rq (procs s p);
     RR_dequeue i p s
   }"

fun pick_first :: "run_queue list \<Rightarrow> proc_id option" where
  "pick_first [] = None"
| "pick_first (r # rs) = (case RR_pick_next r of Some p \<Rightarrow> Some p | None \<Rightarrow> pick_first rs)"

definition MLFQ_pick_next :: "kern \<Rightarrow> proc_id option" where
  "MLFQ_pick_next s = pick_first (run_queues s)"

definition MLFQ_proc_tick :: "proc_id \<Rightarrow> kern \<Rightarrow> kern" where
  "MLFQ_proc_tick p s = RR_proc_tick p s"

subsection \<open>\<^verbatim>\<open>sched.c\<close>\<close>

definition sched_class_enqueue :: "proc_id \<Rightarrow> kern \<Rightarrow> kern option" where
  "sched_class_enqueue p s = (if p \<noteq> idleproc s then MLFQ_enqueue p s else Some s)"

definition sched_class_dequeue :: "proc_id \<Rightarrow> kern \<Rightarrow> kern option" where
  "sched_class_dequeue p s = MLFQ_dequeue p s"

definition sched_class_pick_next :: "kern \<Rightarrow> proc_id option" where
  "sched_class_pick_next s = MLFQ_pick_next s"

definition sched_class_proc_tick :: "proc_id \<Rightarrow> kern \<Rightarrow> kern" where
  "sched_class_proc_tick p s =
     (if p \<noteq> idleproc s then MLFQ_proc_tick p s
      else upd_proc p (\<lambda>pr. pr\<lparr>need_resched := True\<rparr>) s)"

text \<open>Four queues with time slices 8, 16, 32 and 64, and an empty timer list.\<close>

definition sched_init :: "kern \<Rightarrow> kern" where
  "sched_init s = s\<lparr>timer_list := [], run_queues := MLFQ_init
     (map (\<lambda>i. \<lparr>run_list = [], proc_num = 0, max_time_slice = 8 * push_bit i 1\<rparr>) [0..<4])\<rparr>"

definition wakeup_proc :: "proc_id \<Rightarrow> kern \<Rightarrow> kern option" where
  "wakeup_proc p s = do {
     kassert (state (procs s p) \<noteq> PROC_ZOMBIE);
     if state (procs s p) \<noteq> PROC_RUNNABLE
     then let s = upd_proc p (\<lambda>pr. pr\<lparr>state := PROC_RUNNABLE, wait_state := 0\<rparr>) s in
       if p \<noteq> current s
       then do { kassert (pid (procs s p) \<ge> lcpu_count s); sched_class_enqueue p s }
       else Some s
     else Some s
   }"

text \<open>\<^verbatim>\<open>next->mm && next->mm->lapic != -1\<close>: the address space is in use on a processor.\<close>

definition mm_busy :: "kern \<Rightarrow> proc_id \<Rightarrow> bool" where
  "mm_busy s p = (case mm (procs s p) of None \<Rightarrow> False | Some m \<Rightarrow> mm_lapic s m \<noteq> - 1)"

text \<open>The loop of \<^verbatim>\<open>schedule\<close> that sets busy processes aside on the local list \<^verbatim>\<open>head\<close>.\<close>

partial_function (option) schedule_skip ::
    "proc_id list \<Rightarrow> kern \<Rightarrow> (proc_id option \<times> proc_id list \<times> kern) option" where
  "schedule_skip head s =
     (case sched_class_pick_next s of
        None \<Rightarrow> Some (None, head, s)
      | Some nxt \<Rightarrow> do {
          s \<leftarrow> sched_class_dequeue nxt s;
          if mm_busy s nxt
          then schedule_skip (nxt # head) (upd_proc nxt (\<lambda>pr. pr\<lparr>run_linked := True\<rparr>) s)
          else Some (Some nxt, head, s)
        })"

text \<open>Putting the processes set aside back: first of \<^verbatim>\<open>head\<close> first.\<close>

fun schedule_requeue :: "proc_id list \<Rightarrow> kern \<Rightarrow> kern option" where
  "schedule_requeue [] s = Some s"
| "schedule_requeue (cur # head) s = do {
     s \<leftarrow> sched_class_enqueue cur (upd_proc cur (\<lambda>pr. pr\<lparr>run_linked := False\<rparr>) s);
     schedule_requeue head s
   }"

definition set_lapic :: "nat option \<Rightarrow> int \<Rightarrow> kern \<Rightarrow> kern" where
  "set_lapic m v s = (case m of None \<Rightarrow> s | Some a \<Rightarrow> s\<lparr>mm_lapic := (mm_lapic s)(a := v)\<rparr>)"

definition lapic_is :: "nat option \<Rightarrow> int \<Rightarrow> kern \<Rightarrow> bool" where
  "lapic_is m v s = (case m of None \<Rightarrow> True | Some a \<Rightarrow> mm_lapic s a = v)"

definition schedule_leave :: "kern \<Rightarrow> kern option" where
  "schedule_leave s = do {
     let cur = current s; s = upd_proc cur (\<lambda>pr. pr\<lparr>need_resched := False\<rparr>) s; m = mm (procs s cur) in do {
       kassert (lapic_is m (lapic_id s) s);
       let s = set_lapic m (- 1) s in
       if state (procs s cur) = PROC_RUNNABLE \<and> pid (procs s cur) \<ge> lcpu_count s
       then sched_class_enqueue cur s else Some s
     }
   }"

definition schedule_enter :: "proc_id \<Rightarrow> kern \<Rightarrow> kern option" where
  "schedule_enter nxt s = do {
     let s = upd_proc nxt (\<lambda>pr. pr\<lparr>runs := runs pr + 1\<rparr>) s in do {
       kassert (lapic_is (mm (procs s nxt)) (- 1) s);
       let s = set_lapic (mm (procs s nxt)) (lapic_id s) s in
       Some (if nxt \<noteq> current s then s\<lparr>current := nxt\<rparr> else s)
     }
   }"

definition schedule :: "kern \<Rightarrow> kern option" where
  "schedule s = do {
     s \<leftarrow> schedule_leave s;
     (nxt, head, s) \<leftarrow> schedule_skip [] s;
     s \<leftarrow> schedule_requeue head s;
     schedule_enter (case nxt of None \<Rightarrow> idleproc s | Some p \<Rightarrow> p) s
   }"

section \<open>The ready list\<close>

text \<open>The processes on the run queues, highest priority first.\<close>

definition ready :: "kern \<Rightarrow> proc_id list" where
  "ready s = concat (map run_list (run_queues s))"

definition rq_inv :: "kern \<Rightarrow> bool" where
  "rq_inv s \<longleftrightarrow> run_queues s \<noteq> [] \<and>
     (\<forall>i < length (run_queues s). let r = run_queues s ! i in
        0 < max_time_slice r \<and> distinct (run_list r) \<and> proc_num r = length (run_list r) \<and>
        (\<forall>p \<in> set (run_list r). run_linked (procs s p) \<and> rq (procs s p) = Some i \<and>
           0 < time_slice (procs s p) \<and> time_slice (procs s p) \<le> max_time_slice r)) \<and>
     (\<forall>p i. rq (procs s p) = Some i \<longrightarrow> i < length (run_queues s)) \<and>
     (\<forall>p. 0 \<le> time_slice (procs s p))"

text \<open>What queue operations leave alone.\<close>

definition sched_frame :: "kern \<Rightarrow> kern \<Rightarrow> bool" where
  "sched_frame s s' \<longleftrightarrow> current s' = current s \<and> idleproc s' = idleproc s \<and> lcpu_count s' = lcpu_count s \<and>
     lapic_id s' = lapic_id s \<and> mm_lapic s' = mm_lapic s \<and> timers s' = timers s \<and>
     timer_list s' = timer_list s \<and> waits s' = waits s \<and> queues s' = queues s \<and>
     map max_time_slice (run_queues s') = map max_time_slice (run_queues s) \<and>
     (\<forall>p. state (procs s' p) = state (procs s p) \<and> pid (procs s' p) = pid (procs s p) \<and>
        mm (procs s' p) = mm (procs s p) \<and> flags (procs s' p) = flags (procs s p) \<and>
        wait_state (procs s' p) = wait_state (procs s p))"

lemma sched_frame_refl [simp]: "sched_frame s s"
  by (simp add: sched_frame_def)

lemma sched_frame_trans: "sched_frame s s' \<Longrightarrow> sched_frame s' s'' \<Longrightarrow> sched_frame s s''"
  by (simp add: sched_frame_def)

lemma sched_frame_busy: "sched_frame s s' \<Longrightarrow> mm_busy s' p = mm_busy s p"
  by (simp add: sched_frame_def mm_busy_def split: option.split)

lemma in_ready: "p \<in> set (ready s) \<longleftrightarrow> (\<exists>i < length (run_queues s). p \<in> set (run_list (run_queues s ! i)))"
  by (auto simp: ready_def in_set_conv_nth) (metis in_set_conv_nth nth_mem)+

lemma rq_invD:
  assumes "rq_inv s" and "i < length (run_queues s)"
  shows "0 < max_time_slice (run_queues s ! i)" and "distinct (run_list (run_queues s ! i))"
    and "proc_num (run_queues s ! i) = length (run_list (run_queues s ! i))"
    and "p \<in> set (run_list (run_queues s ! i)) \<Longrightarrow> run_linked (procs s p) \<and> rq (procs s p) = Some i \<and>
       0 < time_slice (procs s p) \<and> time_slice (procs s p) \<le> max_time_slice (run_queues s ! i)"
  using assms unfolding rq_inv_def Let_def by blast+

lemma ready_linked: "rq_inv s \<Longrightarrow> p \<in> set (ready s) \<Longrightarrow> run_linked (procs s p)"
  using rq_invD(4) by (auto simp: in_ready)

lemma pick_first_ready: "pick_first rs = (case concat (map run_list rs) of [] \<Rightarrow> None | p # _ \<Rightarrow> Some p)"
proof (induction rs)
  case (Cons r rs)
  then show ?case by (cases "run_list r") (simp_all add: RR_pick_next_def)
qed simp

lemma pick_next_ready: "sched_class_pick_next s = (case ready s of [] \<Rightarrow> None | p # _ \<Rightarrow> Some p)"
  by (simp add: sched_class_pick_next_def MLFQ_pick_next_def pick_first_ready ready_def)

lemma concat_front:
  "concat (map run_list rs) = p # ps \<Longrightarrow> \<exists>i < length rs. \<exists>xs. run_list (rs ! i) = p # xs \<and>
     (\<forall>r. run_list r = xs \<longrightarrow> concat (map run_list (rs[i := r])) = ps)"
proof (induction rs)
  case (Cons r rs)
  show ?case
  proof (cases "run_list r")
    case Nil
    then obtain i xs where "i < length rs" "run_list (rs ! i) = p # xs"
      "\<forall>r. run_list r = xs \<longrightarrow> concat (map run_list (rs[i := r])) = ps"
      using Cons by auto
    then show ?thesis using Nil by (intro exI [of _ "Suc i"]) auto
  next
    case (Cons a as)
    then show ?thesis using Cons.prems by (intro exI [of _ 0]) auto
  qed
qed simp

subsection \<open>Queue operations\<close>

lemma RR_enqueue_ok:
  assumes inv: "rq_inv s" and p: "\<not> run_linked (procs s p)" and i: "i < length (run_queues s)"
  shows "\<exists>s'. RR_enqueue i p s = Some s' \<and> rq_inv s' \<and> sched_frame s s' \<and>
    set (ready s') = insert p (set (ready s)) \<and> rq (procs s' p) = Some i \<and>
    run_list (run_queues s' ! i) = run_list (run_queues s ! i) @ [p] \<and>
    (\<forall>q. run_linked (procs s' q) = (q = p \<or> run_linked (procs s q)))"
proof -
  define f where "f = (\<lambda>r :: run_queue. r\<lparr>run_list := run_list r @ [p], proc_num := proc_num r + 1\<rparr>)"
  define g where "g = (\<lambda>pr :: proc_struct. pr\<lparr>run_linked := True, rq := Some i, time_slice :=
    (if time_slice (procs s p) = 0 \<or> time_slice (procs s p) > max_time_slice (run_queues s ! i)
     then max_time_slice (run_queues s ! i) else time_slice (procs s p))\<rparr>)"
  let ?s' = "upd_rq i f (upd_proc p g s)"
  have notin: "p \<notin> set (run_list (run_queues s ! j))" if "j < length (run_queues s)" for j
    using p rq_invD(4) [OF inv that] by blast
  have eq: "RR_enqueue i p s = Some ?s'" using p by (simp add: RR_enqueue_def Let_def f_def g_def)
  have ts: "0 \<le> time_slice (procs s q)" and mx: "0 < max_time_slice (run_queues s ! i)" for q
    using inv rq_invD(1) [OF inv i] by (simp_all add: rq_inv_def)
  have "rq_inv ?s'"
    unfolding rq_inv_def
  proof (intro conjI allI impI)
    show "run_queues ?s' \<noteq> []" using i by auto
    fix q j assume "rq (procs ?s' q) = Some j"
    then show "j < length (run_queues ?s')"
      using i inv by (auto simp: g_def rq_inv_def split: if_splits)
  next
    fix q show "0 \<le> time_slice (procs ?s' q)" using ts [of q] ts [of p] mx by (simp add: g_def)
  next
    fix j assume j: "j < length (run_queues ?s')"
    then have j': "j < length (run_queues s)" by simp
    then show "let r = run_queues ?s' ! j in
        0 < max_time_slice r \<and> distinct (run_list r) \<and> proc_num r = length (run_list r) \<and>
        (\<forall>q \<in> set (run_list r). run_linked (procs ?s' q) \<and> rq (procs ?s' q) = Some j \<and>
           0 < time_slice (procs ?s' q) \<and> time_slice (procs ?s' q) \<le> max_time_slice r)"
      using rq_invD [OF inv j'] notin [OF j'] ts [of p] mx
      by (cases "j = i") (auto simp: Let_def f_def g_def)
  qed
  moreover have "sched_frame s ?s'"
    by (simp add: sched_frame_def f_def g_def map_update_same)
  moreover have "set (ready ?s') = insert p (set (ready s))"
    using i by (auto simp: in_ready f_def nth_list_update split: if_splits)
  ultimately show ?thesis using eq i by (auto simp: f_def g_def)
qed

lemma sched_class_enqueue_ok:
  assumes inv: "rq_inv s" and p: "\<not> run_linked (procs s p)" "p \<noteq> idleproc s"
  shows "\<exists>s'. sched_class_enqueue p s = Some s' \<and> rq_inv s' \<and> sched_frame s s' \<and>
    set (ready s') = insert p (set (ready s)) \<and>
    (\<forall>q. run_linked (procs s' q) = (q = p \<or> run_linked (procs s q)))"
proof -
  let ?n = "case rq (procs s p) of
      Some i \<Rightarrow> if time_slice (procs s p) = 0 then if rq_next i s = 0 then i else rq_next i s else 0
    | None \<Rightarrow> 0"
  have "?n < length (run_queues s)"
    using inv by (auto simp: rq_inv_def rq_next_def split: option.split)
  from RR_enqueue_ok [OF inv p(1) this] show ?thesis
    using p by (auto simp: sched_class_enqueue_def MLFQ_enqueue_def)
qed

lemma RR_dequeue_ok:
  assumes inv: "rq_inv s" and i: "i < length (run_queues s)" and xs: "run_list (run_queues s ! i) = p # xs"
  shows "\<exists>s' r. RR_dequeue i p s = Some s' \<and> rq_inv s' \<and> sched_frame s s' \<and> run_list r = xs \<and>
    run_queues s' = (run_queues s)[i := r] \<and>
    (\<forall>q. run_linked (procs s' q) = (q \<noteq> p \<and> run_linked (procs s q)))"
proof -
  define f where "f = (\<lambda>r :: run_queue. r\<lparr>run_list := remove1 p (run_list r), proc_num := proc_num r - 1\<rparr>)"
  define g where "g = (\<lambda>pr :: proc_struct. pr\<lparr>run_linked := False\<rparr>)"
  let ?s' = "upd_rq i f (upd_proc p g s)"
  have p: "run_linked (procs s p)" "rq (procs s p) = Some i" using rq_invD(4) [OF inv i, of p] xs by auto
  have eq: "RR_dequeue i p s = Some ?s'"
    using p by (simp add: RR_dequeue_def f_def g_def)
  have other: "p \<notin> set (run_list (run_queues s ! j))" if "j < length (run_queues s)" "j \<noteq> i" for j
    using rq_invD(4) [OF inv that(1), of p] p(2) that(2) by auto
  have "rq_inv ?s'"
    unfolding rq_inv_def
  proof (intro conjI allI impI)
    show "run_queues ?s' \<noteq> []" using i by auto
    fix q j assume "rq (procs ?s' q) = Some j"
    then show "j < length (run_queues ?s')"
      using i inv by (auto simp: g_def rq_inv_def split: if_splits)
  next
    fix q show "0 \<le> time_slice (procs ?s' q)" using inv by (simp add: g_def rq_inv_def)
  next
    fix j assume "j < length (run_queues ?s')"
    then have j: "j < length (run_queues s)" by simp
    then show "let r = run_queues ?s' ! j in
        0 < max_time_slice r \<and> distinct (run_list r) \<and> proc_num r = length (run_list r) \<and>
        (\<forall>q \<in> set (run_list r). run_linked (procs ?s' q) \<and> rq (procs ?s' q) = Some j \<and>
           0 < time_slice (procs ?s' q) \<and> time_slice (procs ?s' q) \<le> max_time_slice r)"
      using rq_invD [OF inv j] other [OF j] xs
      by (cases "j = i") (auto simp: Let_def f_def g_def)
  qed
  moreover have "sched_frame s ?s'"
    by (simp add: sched_frame_def f_def g_def map_update_same)
  moreover have "run_list (f (run_queues s ! i)) = xs" using xs by (simp add: f_def)
  ultimately show ?thesis using eq by (auto simp: g_def)
qed

lemma sched_class_dequeue_ok:
  assumes inv: "rq_inv s" and rd: "ready s = p # ps"
  shows "\<exists>s'. sched_class_dequeue p s = Some s' \<and> rq_inv s' \<and> sched_frame s s' \<and> ready s' = ps \<and>
    (\<forall>q. run_linked (procs s' q) = (q \<noteq> p \<and> run_linked (procs s q)))"
proof -
  obtain i xs where i: "i < length (run_queues s)" and xs: "run_list (run_queues s ! i) = p # xs"
    and upd: "\<And>r. run_list r = xs \<Longrightarrow> concat (map run_list ((run_queues s)[i := r])) = ps"
    using concat_front [of "run_queues s" p ps] rd by (auto simp: ready_def)
  have "run_linked (procs s p)" "rq (procs s p) = Some i" using rq_invD(4) [OF inv i, of p] xs by auto
  then have "sched_class_dequeue p s = RR_dequeue i p s"
    by (simp add: sched_class_dequeue_def MLFQ_dequeue_def)
  then show ?thesis using RR_dequeue_ok [OF inv i xs] upd by (auto simp: ready_def)
qed

subsection \<open>The contract of \<^verbatim>\<open>struct sched_class\<close>\<close>

locale sched_class =
  fixes enqueue dequeue :: "proc_id \<Rightarrow> 's \<Rightarrow> 's option"
    and pick_next :: "'s \<Rightarrow> proc_id option"
    and inv :: "'s \<Rightarrow> bool"
    and linked :: "'s \<Rightarrow> proc_id \<Rightarrow> bool"
    and runq :: "'s \<Rightarrow> proc_id list"
    and eligible :: "'s \<Rightarrow> proc_id \<Rightarrow> bool"
  assumes pick_head: "pick_next s = (case runq s of [] \<Rightarrow> None | p # _ \<Rightarrow> Some p)"
    and enqueue_ok: "inv s \<Longrightarrow> \<not> linked s p \<Longrightarrow> eligible s p \<Longrightarrow>
      \<exists>s'. enqueue p s = Some s' \<and> inv s' \<and> set (runq s') = insert p (set (runq s)) \<and>
        (\<forall>q. linked s' q = (q = p \<or> linked s q))"
    and dequeue_ok: "inv s \<Longrightarrow> runq s = p # ps \<Longrightarrow>
      \<exists>s'. dequeue p s = Some s' \<and> inv s' \<and> runq s' = ps \<and> (\<forall>q. linked s' q = (q \<noteq> p \<and> linked s q))"
    and runq_linked: "inv s \<Longrightarrow> p \<in> set (runq s) \<Longrightarrow> linked s p"
begin

lemma pick_dequeue:
  assumes "inv s" and "pick_next s = Some p"
  shows "\<exists>s'. dequeue p s = Some s' \<and> inv s' \<and> runq s = p # runq s' \<and> p \<notin> set (runq s')"
proof -
  obtain ps where r: "runq s = p # ps" using assms(2) by (auto simp: pick_head split: list.splits)
  obtain s' where "dequeue p s = Some s'" "inv s'" "runq s' = ps" "\<forall>q. linked s' q = (q \<noteq> p \<and> linked s q)"
    using dequeue_ok [OF assms(1) r] by blast
  then show ?thesis using r runq_linked by blast
qed

lemma runq_distinct: "inv s \<Longrightarrow> distinct (runq s)"
proof (induction "runq s" arbitrary: s)
  case (Cons p ps)
  then obtain s' where "inv s'" "runq s = p # runq s'" "p \<notin> set (runq s')"
    using pick_dequeue [OF Cons.prems, of p] by (metis list.simps(5) pick_head)
  then show ?case using Cons.hyps by simp
qed simp

lemma enqueue_never_idle:
  assumes "inv s" and "\<not> linked s p" and "eligible s p" and "enqueue p s = Some s'"
  shows "pick_next s' \<noteq> None"
  using enqueue_ok [OF assms(1-3)] assms(4) by (auto simp: pick_head split: list.splits)

end

interpretation rr: sched_class "RR_enqueue 0" "RR_dequeue 0" "\<lambda>s. RR_pick_next (run_queues s ! 0)" rq_inv
  "\<lambda>s p. run_linked (procs s p)" "\<lambda>s. run_list (run_queues s ! 0)" "\<lambda>s p. True"
proof (unfold_locales, goal_cases)
  case (1 s)
  then show ?case by (simp add: RR_pick_next_def)
next
  case (2 s p)
  then have "0 < length (run_queues s)" by (simp add: rq_inv_def)
  then show ?case using RR_enqueue_ok [OF 2(1,2)] by fastforce
next
  case (3 s p ps)
  then have "0 < length (run_queues s)" by (simp add: rq_inv_def)
  then show ?case using RR_dequeue_ok [OF 3(1) _ 3(2)] by fastforce
next
  case (4 s p)
  then have "0 < length (run_queues s)" by (simp add: rq_inv_def)
  then show ?case using rq_invD(4) [OF 4(1) _ 4(2)] by blast
qed

interpretation mlfq: sched_class sched_class_enqueue sched_class_dequeue sched_class_pick_next rq_inv
  "\<lambda>s p. run_linked (procs s p)" ready "\<lambda>s p. p \<noteq> idleproc s"
proof (unfold_locales, goal_cases)
  case (1 s)
  then show ?case by (rule pick_next_ready)
next
  case (2 s p)
  then show ?case using sched_class_enqueue_ok by blast
next
  case (3 s p ps)
  then show ?case using sched_class_dequeue_ok by blast
next
  case (4 s p)
  then show ?case by (rule ready_linked)
qed

subsection \<open>The loops of \<^verbatim>\<open>schedule\<close>\<close>

text \<open>Marking a process linked on, or unlinked from, the local list of \<^verbatim>\<open>schedule\<close>.\<close>

lemma rq_inv_link:
  assumes "rq_inv s" and "p \<notin> set (ready s)"
  shows "rq_inv (upd_proc p (\<lambda>pr. pr\<lparr>run_linked := b\<rparr>) s)"
  unfolding rq_inv_def
proof (intro conjI allI impI)
  let ?s' = "upd_proc p (\<lambda>pr. pr\<lparr>run_linked := b\<rparr>) s"
  show "run_queues ?s' \<noteq> []" using assms(1) by (simp add: rq_inv_def)
  fix q j show "rq (procs ?s' q) = Some j \<Longrightarrow> j < length (run_queues ?s')"
    using assms(1) by (auto simp: rq_inv_def split: if_splits)
  show "0 \<le> time_slice (procs ?s' q)" using assms(1) by (simp add: rq_inv_def)
next
  let ?s' = "upd_proc p (\<lambda>pr. pr\<lparr>run_linked := b\<rparr>) s"
  fix j assume "j < length (run_queues ?s')"
  then have j: "j < length (run_queues s)" by simp
  then have "p \<notin> set (run_list (run_queues s ! j))" using assms(2) by (auto simp: in_ready)
  then show "let r = run_queues ?s' ! j in
      0 < max_time_slice r \<and> distinct (run_list r) \<and> proc_num r = length (run_list r) \<and>
      (\<forall>q \<in> set (run_list r). run_linked (procs ?s' q) \<and> rq (procs ?s' q) = Some j \<and>
         0 < time_slice (procs ?s' q) \<and> time_slice (procs ?s' q) \<le> max_time_slice r)"
    using rq_invD [OF assms(1) j] by (auto simp: Let_def)
qed

lemma sched_frame_link: "sched_frame s (upd_proc p (\<lambda>pr. pr\<lparr>run_linked := b\<rparr>) s)"
  by (simp add: sched_frame_def)

lemma ready_upd_proc [simp]: "ready (upd_proc p f s) = ready s"
  by (simp add: ready_def)

definition links_ok :: "proc_id list \<Rightarrow> kern \<Rightarrow> bool" where
  "links_ok head s \<longleftrightarrow> rq_inv s \<and> distinct head \<and> set head \<inter> set (ready s) = {} \<and>
     (\<forall>p. run_linked (procs s p) = (p \<in> set (ready s) \<union> set head))"

lemma schedule_skip_correct:
  assumes "links_ok head s"
  shows "\<exists>s'. schedule_skip head s =
      Some (case dropWhile (mm_busy s) (ready s) of [] \<Rightarrow> None | p # _ \<Rightarrow> Some p,
        rev (takeWhile (mm_busy s) (ready s)) @ head, s') \<and>
    links_ok (rev (takeWhile (mm_busy s) (ready s)) @ head) s' \<and> sched_frame s s' \<and>
    ready s' = tl (dropWhile (mm_busy s) (ready s))"
  using assms
proof (induction "ready s" arbitrary: head s)
  case Nil
  from Nil(1)[symmetric] show ?case
    using Nil(2) by (simp add: schedule_skip.simps [of head s] pick_next_ready)
next
  case (Cons p ps)
  have rd: "ready s = p # ps" using Cons.hyps(2) by simp
  have inv: "rq_inv s" and lk: "\<forall>q. run_linked (procs s q) = (q \<in> set (ready s) \<union> set head)"
    and hd: "distinct head" "set head \<inter> set (ready s) = {}"
    using Cons.prems by (simp_all add: links_ok_def)
  obtain s1 where s1: "sched_class_dequeue p s = Some s1" "rq_inv s1" "sched_frame s s1" "ready s1 = ps"
    "\<forall>q. run_linked (procs s1 q) = (q \<noteq> p \<and> run_linked (procs s q))"
    using sched_class_dequeue_ok [OF inv rd] by blast
  have pn: "p \<notin> set ps" using ready_linked [OF s1(2)] s1(4,5) by blast
  have step: "schedule_skip head s = (if mm_busy s p
      then schedule_skip (p # head) (upd_proc p (\<lambda>pr. pr\<lparr>run_linked := True\<rparr>) s1)
      else Some (Some p, head, s1))"
    using rd s1(1) sched_frame_busy [OF s1(3)]
    by (simp add: schedule_skip.simps [of head s] pick_next_ready)
  show ?case
  proof (cases "mm_busy s p")
    case False
    have "links_ok head s1" using s1 lk hd rd pn by (auto simp: links_ok_def)
    then show ?thesis using False step rd s1 by simp
  next
    case True
    let ?s2 = "upd_proc p (\<lambda>pr. pr\<lparr>run_linked := True\<rparr>) s1"
    have rd2: "ready ?s2 = ps" using s1(4) by simp
    have inv2: "rq_inv ?s2" using rq_inv_link [OF s1(2)] pn s1(4) by simp
    have fr: "sched_frame s ?s2" using sched_frame_trans [OF s1(3) sched_frame_link] .
    have bs: "mm_busy ?s2 = mm_busy s" using sched_frame_busy [OF fr] by blast
    have "links_ok (p # head) ?s2"
      using inv2 rd2 hd lk s1(5) rd pn by (auto simp: links_ok_def)
    from Cons.hyps(1) [OF rd2[symmetric] this] obtain s' where
      "schedule_skip (p # head) ?s2 = Some (case dropWhile (mm_busy s) ps of [] \<Rightarrow> None | p # _ \<Rightarrow> Some p,
        rev (takeWhile (mm_busy s) ps) @ p # head, s')"
      "links_ok (rev (takeWhile (mm_busy s) ps) @ p # head) s'" "sched_frame ?s2 s'"
      "ready s' = tl (dropWhile (mm_busy s) ps)"
      unfolding rd2 bs by blast
    then show ?thesis using True step rd sched_frame_trans [OF fr] by simp
  qed
qed

lemma schedule_requeue_correct:
  assumes "links_ok head s" and "idleproc s \<notin> set head"
  shows "\<exists>s'. schedule_requeue head s = Some s' \<and> links_ok [] s' \<and> sched_frame s s' \<and>
    set (ready s') = set (ready s) \<union> set head"
  using assms
proof (induction head arbitrary: s)
  case (Cons p head)
  let ?s1 = "upd_proc p (\<lambda>pr. pr\<lparr>run_linked := False\<rparr>) s"
  have lk: "\<forall>q. run_linked (procs s q) = (q \<in> set (ready s) \<union> set (p # head))"
    and hd: "distinct (p # head)" "set (p # head) \<inter> set (ready s) = {}" and inv: "rq_inv s"
    using Cons.prems(1) unfolding links_ok_def by blast+
  have inv1: "rq_inv ?s1" using rq_inv_link [OF inv] hd(2) by simp
  obtain s2 where s2: "sched_class_enqueue p ?s1 = Some s2" "rq_inv s2" "sched_frame ?s1 s2"
    "set (ready s2) = insert p (set (ready s))"
    "\<forall>q. run_linked (procs s2 q) = (q = p \<or> run_linked (procs ?s1 q))"
    using sched_class_enqueue_ok [OF inv1, of p] Cons.prems(2) by auto
  have fr: "sched_frame s s2" using sched_frame_trans [OF sched_frame_link s2(3)] .
  have "links_ok head s2" using s2 lk hd by (auto simp: links_ok_def)
  moreover have "idleproc s2 \<notin> set head" using fr Cons.prems(2) by (simp add: sched_frame_def)
  ultimately obtain s' where "schedule_requeue head s2 = Some s'" "links_ok [] s'" "sched_frame s2 s'"
    "set (ready s') = set (ready s2) \<union> set head"
    using Cons.IH by blast
  then show ?case using s2(1,4) sched_frame_trans [OF fr] by auto
qed simp

section \<open>\<^verbatim>\<open>wakeup_proc\<close> and \<^verbatim>\<open>schedule\<close>\<close>

definition sched_inv :: "kern \<Rightarrow> bool" where
  "sched_inv s \<longleftrightarrow> links_ok [] s \<and> current s \<notin> set (ready s) \<and> idleproc s \<notin> set (ready s) \<and>
     (\<forall>p \<in> set (ready s). state (procs s p) = PROC_RUNNABLE) \<and> mm (procs s (idleproc s)) = None \<and>
     (\<forall>m. mm (procs s (current s)) = Some m \<longrightarrow> mm_lapic s m = lapic_id s)"

lemma rq_inv_cong:
  assumes "run_queues s' = run_queues s"
    and "\<And>p. run_linked (procs s' p) = run_linked (procs s p) \<and> rq (procs s' p) = rq (procs s p) \<and>
      time_slice (procs s' p) = time_slice (procs s p)"
  shows "rq_inv s' = rq_inv s"
  using assms by (simp add: rq_inv_def)

lemma links_ok_cong:
  assumes "run_queues s' = run_queues s"
    and "\<And>p. run_linked (procs s' p) = run_linked (procs s p) \<and> rq (procs s' p) = rq (procs s p) \<and>
      time_slice (procs s' p) = time_slice (procs s p)"
  shows "links_ok head s' = links_ok head s"
  using assms rq_inv_cong [OF assms] by (simp add: links_ok_def ready_def)

lemma set_lapic_simps [simp]:
  "procs (set_lapic m v s) = procs s" "current (set_lapic m v s) = current s"
  "idleproc (set_lapic m v s) = idleproc s" "lcpu_count (set_lapic m v s) = lcpu_count s"
  "lapic_id (set_lapic m v s) = lapic_id s" "run_queues (set_lapic m v s) = run_queues s"
  "timers (set_lapic m v s) = timers s" "timer_list (set_lapic m v s) = timer_list s"
  "waits (set_lapic m v s) = waits s" "queues (set_lapic m v s) = queues s"
  "mm_lapic (set_lapic m v s) a = (if m = Some a then v else mm_lapic s a)"
  "ready (set_lapic m v s) = ready s"
  by (auto simp: set_lapic_def ready_def split: option.split)

lemma lapic_is_simps [simp]: "lapic_is m v (upd_proc p f s) = lapic_is m v s"
  by (simp add: lapic_is_def split: option.split)

lemma enqueue_links:
  assumes "links_ok [] s" and "p \<notin> set (ready s)" and "p \<noteq> idleproc s"
  shows "\<exists>s'. sched_class_enqueue p s = Some s' \<and> links_ok [] s' \<and> sched_frame s s' \<and>
    set (ready s') = insert p (set (ready s))"
proof -
  have inv: "rq_inv s" and nl: "\<not> run_linked (procs s p)" using assms by (simp_all add: links_ok_def)
  from sched_class_enqueue_ok [OF inv nl assms(3)] show ?thesis
    using assms(1) by (fastforce simp: links_ok_def)
qed

lemma wakeup_proc_correct:
  assumes inv: "sched_inv s" and z: "state (procs s p) \<noteq> PROC_ZOMBIE"
    and pid: "state (procs s p) \<noteq> PROC_RUNNABLE \<and> p \<noteq> current s \<longrightarrow> pid (procs s p) \<ge> lcpu_count s"
  shows "\<exists>s'. wakeup_proc p s = Some s' \<and> sched_inv s' \<and> current s' = current s \<and>
    set (ready s') = set (ready s) \<union>
      (if state (procs s p) \<noteq> PROC_RUNNABLE \<and> p \<noteq> current s \<and> p \<noteq> idleproc s then {p} else {}) \<and>
    (\<forall>q. state (procs s' q) = (if q = p then PROC_RUNNABLE else state (procs s q))) \<and>
    (\<forall>q. wait_state (procs s' q) =
       (if q = p \<and> state (procs s p) \<noteq> PROC_RUNNABLE then 0 else wait_state (procs s q))) \<and>
    (\<forall>q. pid (procs s' q) = pid (procs s q) \<and> flags (procs s' q) = flags (procs s q) \<and> mm (procs s' q) = mm (procs s q)) \<and>
    idleproc s' = idleproc s \<and> lcpu_count s' = lcpu_count s \<and> timers s' = timers s \<and>
    timer_list s' = timer_list s \<and> waits s' = waits s \<and> queues s' = queues s"
proof (cases "state (procs s p) = PROC_RUNNABLE")
  case True
  then show ?thesis using inv by (auto simp: wakeup_proc_def)
next
  case False
  let ?s = "upd_proc p (\<lambda>pr. pr\<lparr>state := PROC_RUNNABLE, wait_state := 0\<rparr>) s"
  have lk: "links_ok [] ?s" using inv links_ok_cong [of ?s s] by (simp add: sched_inv_def)
  have np: "p \<notin> set (ready s)" using inv False by (auto simp: sched_inv_def)
  show ?thesis
  proof (cases "p = current s \<or> p = idleproc s")
    case True
    then have "wakeup_proc p s = Some ?s"
      using False z pid by (auto simp: wakeup_proc_def Let_def sched_class_enqueue_def)
    then show ?thesis using True inv lk False by (auto simp: sched_inv_def)
  next
    case ne: False
    obtain s' where s': "sched_class_enqueue p ?s = Some s'" "links_ok [] s'" "sched_frame ?s s'"
      "set (ready s') = insert p (set (ready s))"
      using enqueue_links [OF lk, of p] np ne by auto
    have "wakeup_proc p s = Some s'"
      using False z pid ne s'(1) by (simp add: wakeup_proc_def)
    moreover have "sched_inv s'"
      using s' inv ne by (simp add: sched_inv_def sched_frame_def)
    ultimately show ?thesis using s'(3,4) ne False by (simp add: sched_frame_def)
  qed
qed

definition requeued :: "kern \<Rightarrow> proc_id set" where
  "requeued s = (if state (procs s (current s)) = PROC_RUNNABLE \<and>
     pid (procs s (current s)) \<ge> lcpu_count s \<and> current s \<noteq> idleproc s then {current s} else {})"

lemma schedule_leave_correct:
  assumes inv: "sched_inv s"
  shows "\<exists>s1. schedule_leave s = Some s1 \<and> links_ok [] s1 \<and> set (ready s1) = set (ready s) \<union> requeued s \<and>
    sched_frame (set_lapic (mm (procs s (current s))) (- 1) s) s1"
proof -
  let ?c = "current s" and ?m = "mm (procs s (current s))"
  let ?s = "set_lapic ?m (- 1) (upd_proc ?c (\<lambda>pr. pr\<lparr>need_resched := False\<rparr>) s)"
  have as: "lapic_is ?m (lapic_id s) s"
    using inv by (auto simp: sched_inv_def lapic_is_def split: option.split)
  have lk: "links_ok [] ?s" using inv links_ok_cong [of ?s s] by (simp add: sched_inv_def)
  have fr: "sched_frame (set_lapic ?m (- 1) s) ?s" by (auto simp: sched_frame_def fun_eq_iff)
  show ?thesis
  proof (cases "requeued s = {}")
    case True
    then have "\<not> (state (procs s ?c) = PROC_RUNNABLE \<and> pid (procs s ?c) \<ge> lcpu_count s \<and> ?c \<noteq> idleproc s)"
      by (simp add: requeued_def split: if_splits)
    then have "schedule_leave s = Some ?s"
      using as by (cases "?c = idleproc s") (auto simp: schedule_leave_def Let_def sched_class_enqueue_def)
    then show ?thesis using True lk fr by simp
  next
    case False
    then have R: "state (procs s ?c) = PROC_RUNNABLE" "pid (procs s ?c) \<ge> lcpu_count s" "?c \<noteq> idleproc s"
      by (auto simp: requeued_def split: if_splits)
    obtain s1 where s1: "sched_class_enqueue ?c ?s = Some s1" "links_ok [] s1" "sched_frame ?s s1"
      "set (ready s1) = insert ?c (set (ready s))"
      using enqueue_links [OF lk, of ?c] R(3) inv by (auto simp: sched_inv_def)
    have "schedule_leave s = Some s1" using as s1(1) R by (simp add: schedule_leave_def Let_def)
    then show ?thesis using s1 sched_frame_trans [OF fr s1(3)] R by (simp add: requeued_def)
  qed
qed

text \<open>What a context switch leaves alone: everything but queues, slices and the current process.\<close>

definition proc_frame :: "kern \<Rightarrow> kern \<Rightarrow> bool" where
  "proc_frame s s' \<longleftrightarrow> idleproc s' = idleproc s \<and> lcpu_count s' = lcpu_count s \<and> lapic_id s' = lapic_id s \<and>
     timers s' = timers s \<and> timer_list s' = timer_list s \<and> waits s' = waits s \<and> queues s' = queues s \<and>
     (\<forall>p. state (procs s' p) = state (procs s p) \<and> pid (procs s' p) = pid (procs s p) \<and>
        mm (procs s' p) = mm (procs s p) \<and> flags (procs s' p) = flags (procs s p) \<and>
        wait_state (procs s' p) = wait_state (procs s p))"

lemma proc_frame_trans: "proc_frame s s' \<Longrightarrow> proc_frame s' s'' \<Longrightarrow> proc_frame s s''"
  by (simp add: proc_frame_def)

lemma sched_frame_proc_frame: "sched_frame s s' \<Longrightarrow> proc_frame s s'"
  by (simp add: sched_frame_def proc_frame_def)

lemma schedule_enter_correct:
  assumes lk: "links_ok [] s" and np: "p \<notin> set (ready s)" and nb: "\<not> mm_busy s p"
    and id: "idleproc s \<notin> set (ready s)" "mm (procs s (idleproc s)) = None"
    and ru: "\<forall>q \<in> set (ready s). state (procs s q) = PROC_RUNNABLE"
  shows "\<exists>s'. schedule_enter p s = Some s' \<and> sched_inv s' \<and> current s' = p \<and> ready s' = ready s \<and>
    runs (procs s' p) = runs (procs s p) + 1 \<and> proc_frame s s'"
proof -
  let ?s = "set_lapic (mm (procs s p)) (lapic_id s) (upd_proc p (\<lambda>pr. pr\<lparr>runs := runs pr + 1\<rparr>) s)"
  let ?s' = "if p \<noteq> current s then ?s\<lparr>current := p\<rparr> else ?s"
  have "lapic_is (mm (procs s p)) (- 1) s"
    using nb by (auto simp: mm_busy_def lapic_is_def split: option.splits)
  then have "schedule_enter p s = Some ?s'" by (simp add: schedule_enter_def Let_def)
  moreover have rd: "ready ?s' = ready s" by (simp add: ready_def)
  moreover have "links_ok [] ?s'" using lk links_ok_cong [of ?s' s] by simp
  then have "sched_inv ?s'" using np id ru rd by (auto simp: sched_inv_def)
  moreover have "proc_frame s ?s'" by (simp add: proc_frame_def)
  ultimately show ?thesis by (auto simp: ready_def)
qed

lemma schedule_correct:
  assumes inv: "sched_inv s"
  shows "\<exists>s1 s'. schedule_leave s = Some s1 \<and> schedule s = Some s' \<and> sched_inv s' \<and>
    set (ready s1) = set (ready s) \<union> requeued s \<and>
    current s' = (case dropWhile (mm_busy s1) (ready s1) of [] \<Rightarrow> idleproc s | p # _ \<Rightarrow> p) \<and>
    set (ready s') = set (ready s1) - {current s'} \<and> proc_frame s s'"
proof -
  let ?s0 = "set_lapic (mm (procs s (current s))) (- 1) s"
  obtain s1 where s1: "schedule_leave s = Some s1" "links_ok [] s1"
    "set (ready s1) = set (ready s) \<union> requeued s" "sched_frame ?s0 s1"
    using schedule_leave_correct [OF inv] by blast
  define bs rest where "bs = takeWhile (mm_busy s1) (ready s1)" and "rest = dropWhile (mm_busy s1) (ready s1)"
  let ?r = "case rest of [] \<Rightarrow> None | p # _ \<Rightarrow> Some p"
  obtain s2 where s2: "schedule_skip [] s1 = Some (?r, rev bs, s2)" "links_ok (rev bs) s2"
    "sched_frame s1 s2" "ready s2 = tl rest"
    using schedule_skip_correct [OF s1(2)] unfolding bs_def rest_def by auto
  have ids: "idleproc s1 = idleproc s" "idleproc s2 = idleproc s" "mm (procs s2 (idleproc s)) = None"
    using s1(4) s2(3) inv by (simp_all add: sched_frame_def sched_inv_def)
  have id1: "idleproc s \<notin> set (ready s1)" using s1(3) inv by (auto simp: sched_inv_def requeued_def)
  have set1: "set (ready s1) = set bs \<union> set rest"
    using set_append [of bs rest] by (simp add: bs_def rest_def)
  obtain s3 where s3: "schedule_requeue (rev bs) s2 = Some s3" "links_ok [] s3" "sched_frame s2 s3"
    "set (ready s3) = set (tl rest) \<union> set bs"
    using schedule_requeue_correct [OF s2(2)] ids(2) id1 set1 s2(4) by auto
  define p where "p = (case ?r of None \<Rightarrow> idleproc s3 | Some q \<Rightarrow> q)"
  have fr: "sched_frame s1 s3" using sched_frame_trans [OF s2(3) s3(3)] .
  have id3: "idleproc s3 = idleproc s" using fr ids(1) by (simp add: sched_frame_def)
  have peq: "p = (case rest of [] \<Rightarrow> idleproc s | q # _ \<Rightarrow> q)"
    using id3 by (simp add: p_def split: list.split)
  have dist: "distinct bs" "distinct rest" "set bs \<inter> set rest = {}"
    using mlfq.runq_distinct [of s1] s1(2) distinct_append [of bs rest] by (simp_all add: links_ok_def bs_def rest_def)
  have rd3: "set (ready s3) = set (ready s1) - {p}"
  proof (cases rest)
    case Nil
    then show ?thesis using s3(4) set1 peq id1 by auto
  next
    case (Cons q qs)
    then have "p = q" using peq by simp
    then show ?thesis using s3(4) set1 dist Cons by auto
  qed
  have nb: "\<not> mm_busy s3 p"
  proof (cases rest)
    case Nil
    then show ?thesis using peq ids(3) id3 s3(3) by (simp add: mm_busy_def sched_frame_def)
  next
    case (Cons q qs)
    then have "\<not> mm_busy s1 q" unfolding rest_def by (metis dropWhile_eq_Cons_conv)
    then show ?thesis using peq Cons sched_frame_busy [OF fr] by simp
  qed
  have "idleproc s3 \<notin> set (ready s3)" "mm (procs s3 (idleproc s3)) = None" "p \<notin> set (ready s3)"
    using rd3 id1 id3 ids(3) s3(3) by (simp_all add: sched_frame_def)
  moreover have "\<forall>q \<in> set (ready s3). state (procs s3 q) = PROC_RUNNABLE"
    using rd3 s1(3,4) fr inv by (auto simp: sched_frame_def sched_inv_def requeued_def split: if_splits)
  ultimately obtain s' where s': "schedule_enter p s3 = Some s'" "sched_inv s'" "current s' = p" "ready s' = ready s3"
    "proc_frame s3 s'"
    using schedule_enter_correct [OF s3(2) _ nb] by blast
  have "schedule s = Some s'" using s1(1) s2(1) s3(1) s'(1) by (simp add: schedule_def p_def)
  moreover have "proc_frame s ?s0" by (simp add: proc_frame_def)
  then have "proc_frame s s'"
    using proc_frame_trans sched_frame_proc_frame [OF s1(4)] sched_frame_proc_frame [OF fr] s'(5) by blast
  ultimately show ?thesis using s1(1,3) s' peq rd3 unfolding rest_def by auto
qed

lemma schedule_frame:
  assumes "sched_inv s" and "schedule s = Some s'"
  shows "sched_inv s'" and "proc_frame s s'"
    and "current s' = idleproc s \<or> state (procs s (current s')) = PROC_RUNNABLE"
proof -
  obtain s1 where s1: "sched_inv s'" "proc_frame s s'" "set (ready s1) = set (ready s) \<union> requeued s"
    and c: "current s' = (case dropWhile (mm_busy s1) (ready s1) of [] \<Rightarrow> idleproc s | p # _ \<Rightarrow> p)"
    using schedule_correct [OF assms(1)] assms(2) by auto
  show "sched_inv s'" "proc_frame s s'" by (rule s1)+
  have "state (procs s p) = PROC_RUNNABLE" if "p \<in> set (ready s1)" for p
    using that s1(3) assms(1) by (auto simp: sched_inv_def requeued_def split: if_splits)
  moreover have "current s' = idleproc s \<or> current s' \<in> set (ready s1)"
  proof (cases "dropWhile (mm_busy s1) (ready s1)")
    case (Cons q qs)
    then have "q \<in> set (dropWhile (mm_busy s1) (ready s1))" by simp
    then have "q \<in> set (ready s1)" by (rule set_dropWhileD)
    then show ?thesis using c unfolding Cons by simp
  next
    case Nil
    show ?thesis using c unfolding Nil by simp
  qed
  ultimately show "current s' = idleproc s \<or> state (procs s (current s')) = PROC_RUNNABLE" by blast
qed

section \<open>Feedback\<close>

text \<open>The level a process is queued on.\<close>

definition feedback_level :: "kern \<Rightarrow> proc_id \<Rightarrow> nat" where
  "feedback_level s p = (case rq (procs s p) of
       Some i \<Rightarrow> if time_slice (procs s p) = 0 then min (i + 1) (length (run_queues s) - 1) else 0
     | None \<Rightarrow> 0)"

lemma MLFQ_enqueue_level:
  assumes inv: "rq_inv s" and p: "\<not> run_linked (procs s p)"
  shows "feedback_level s p < length (run_queues s)"
    and "MLFQ_enqueue p s = RR_enqueue (feedback_level s p) p s"
proof -
  have len: "0 < length (run_queues s)" and lt: "\<And>i. rq (procs s p) = Some i \<Longrightarrow> i < length (run_queues s)"
    using inv by (auto simp: rq_inv_def)
  show "feedback_level s p < length (run_queues s)"
    using len by (auto simp: feedback_level_def min_less_iff_disj split: option.split)
  show "MLFQ_enqueue p s = RR_enqueue (feedback_level s p) p s"
  proof (cases "rq (procs s p)")
    case (Some i)
    have "(if rq_next i s = 0 then i else rq_next i s) = min (i + 1) (length (run_queues s) - 1)"
      using lt [OF Some] by (cases "i + 1 < length (run_queues s)") (auto simp: rq_next_def)
    then show ?thesis using p Some by (simp add: MLFQ_enqueue_def feedback_level_def)
  qed (simp add: MLFQ_enqueue_def feedback_level_def p)
qed

lemma tick_slice:
  "0 \<le> time_slice (procs s p) \<Longrightarrow> int n \<le> time_slice (procs s p) \<Longrightarrow>
   time_slice (procs ((RR_proc_tick p ^^ n) s) p) = time_slice (procs s p) - int n \<and>
   run_queues ((RR_proc_tick p ^^ n) s) = run_queues s \<and>
   rq (procs ((RR_proc_tick p ^^ n) s) p) = rq (procs s p) \<and>
   run_linked (procs ((RR_proc_tick p ^^ n) s) p) = run_linked (procs s p) \<and>
   (0 < n \<and> int n = time_slice (procs s p) \<longrightarrow> need_resched (procs ((RR_proc_tick p ^^ n) s) p)) \<and>
   (\<forall>q. q \<noteq> p \<longrightarrow> procs ((RR_proc_tick p ^^ n) s) q = procs s q)"
  by (induction n) (auto simp: RR_proc_tick_def Let_def)

lemma tick_rq_inv:
  assumes "rq_inv s" and "\<not> run_linked (procs s p)" and "int n \<le> time_slice (procs s p)"
  shows "rq_inv ((RR_proc_tick p ^^ n) s)"
proof -
  let ?s' = "(RR_proc_tick p ^^ n) s"
  have ts: "0 \<le> time_slice (procs s p)" using assms(1) by (simp add: rq_inv_def)
  note t = tick_slice [OF ts assms(3)]
  have np: "p \<notin> set (run_list (run_queues s ! i))" if "i < length (run_queues s)" for i
    using assms(2) rq_invD(4) [OF assms(1) that] by blast
  show ?thesis
    unfolding rq_inv_def
  proof (intro conjI allI impI)
    show "run_queues ?s' \<noteq> []" using t assms(1) by (simp add: rq_inv_def)
    fix q i show "rq (procs ?s' q) = Some i \<Longrightarrow> i < length (run_queues ?s')"
      using t assms(1) by (cases "q = p") (auto simp: rq_inv_def)
    show "0 \<le> time_slice (procs ?s' q)" using t assms(1,3) by (cases "q = p") (auto simp: rq_inv_def)
  next
    fix i assume "i < length (run_queues ?s')"
    then have i: "i < length (run_queues s)" using t by simp
    have "procs ?s' q = procs s q" if "q \<in> set (run_list (run_queues s ! i))" for q
      using t np [OF i] that by metis
    then show "let r = run_queues ?s' ! i in
        0 < max_time_slice r \<and> distinct (run_list r) \<and> proc_num r = length (run_list r) \<and>
        (\<forall>q \<in> set (run_list r). run_linked (procs ?s' q) \<and> rq (procs ?s' q) = Some i \<and>
           0 < time_slice (procs ?s' q) \<and> time_slice (procs ?s' q) \<le> max_time_slice r)"
      using t rq_invD [OF assms(1) i] by (simp add: Let_def)
  qed
qed

section \<open>Properties\<close>

definition fresh_proc :: "proc_state \<Rightarrow> int \<Rightarrow> proc_struct" where
  "fresh_proc st n = \<lparr>state = st, pid = n, runs = 0, need_resched = False, mm = None, flags = 0,
     wait_state = 0, rq = None, run_linked = False, time_slice = 0\<rparr>"

text \<open>One processor: process 0 idles, process 1 runs, the others sleep.\<close>

definition boot_kern :: kern where
  "boot_kern = sched_init \<lparr>procs = (\<lambda>p. fresh_proc (if p \<le> 1 then PROC_RUNNABLE else PROC_SLEEPING) (int p)),
     current = 1, idleproc = 0, lcpu_count = 1, lapic_id = 0, mm_lapic = (\<lambda>m. - 1), run_queues = [],
     timers = (\<lambda>t. \<lparr>expires = 0, timer_proc = 0, timer_linked = False\<rparr>), timer_list = [],
     waits = (\<lambda>w. \<lparr>wait_proc = 0, wakeup_flags = 0, wait_queue = 0, wait_linked = False\<rparr>), queues = (\<lambda>q. [])\<rparr>"

lemma boot_kern_ready: "ready boot_kern = []"
  by (simp add: boot_kern_def sched_init_def MLFQ_init_def RR_init_def ready_def upt_rec)

lemma boot_kern_rq: "rq_inv boot_kern"
  by (auto simp: boot_kern_def sched_init_def MLFQ_init_def RR_init_def rq_inv_def fresh_proc_def)

lemma boot_kern_inv: "sched_inv boot_kern"
proof -
  have "links_ok [] boot_kern"
    using boot_kern_rq boot_kern_ready
    by (simp add: links_ok_def boot_kern_def sched_init_def fresh_proc_def)
  then show ?thesis
    using boot_kern_ready by (simp add: sched_inv_def boot_kern_def sched_init_def fresh_proc_def)
qed

text \<open>
  C9: \<^verbatim>\<open>schedule\<close> never panics from a consistent state and restores consistency. It puts the running
  process back on a queue if it is still runnable, then dispatches the first process in priority
  order whose address space is not in use on another processor, or the idle process if there is
  none; every other ready process stays on the queues, those passed over included.
\<close>

theorem schedule_picks_first_eligible:
  assumes "sched_inv s"
  shows "\<exists>s1 s'. schedule_leave s = Some s1 \<and> schedule s = Some s' \<and> sched_inv s' \<and>
    set (ready s1) = set (ready s) \<union> requeued s \<and>
    current s' = (case dropWhile (mm_busy s1) (ready s1) of [] \<Rightarrow> idleproc s | p # _ \<Rightarrow> p) \<and>
    set (ready s') = set (ready s1) - {current s'}"
  using schedule_correct [OF assms] by blast

theorem schedule_picks_first_eligible_witness:
  "\<exists>s1 s'. schedule_leave boot_kern = Some s1 \<and> schedule boot_kern = Some s' \<and> sched_inv s' \<and>
    set (ready s1) = {1} \<and>
    current s' = (case dropWhile (mm_busy s1) (ready s1) of [] \<Rightarrow> idleproc boot_kern | p # _ \<Rightarrow> p) \<and>
    set (ready s') = {1} - {current s'}"
proof -
  have "requeued boot_kern = {1}"
    by (simp add: requeued_def boot_kern_def sched_init_def fresh_proc_def)
  then show ?thesis using schedule_picks_first_eligible [OF boot_kern_inv] boot_kern_ready by auto
qed

text \<open>
  \<^verbatim>\<open>wakeup_proc\<close> on a process that is not a zombie makes it runnable with \<^verbatim>\<open>wait_state\<close> zero, puts
  it on a run queue exactly when it was not runnable and is neither the running nor the idle
  process, and changes the state of no other process; the scheduler stays consistent.
\<close>

theorem wakeup_proc_spec:
  assumes "sched_inv s" and "state (procs s p) \<noteq> PROC_ZOMBIE" and "pid (procs s p) \<ge> lcpu_count s"
  shows "\<exists>s'. wakeup_proc p s = Some s' \<and> sched_inv s' \<and>
    set (ready s') = set (ready s) \<union>
      (if state (procs s p) \<noteq> PROC_RUNNABLE \<and> p \<noteq> current s \<and> p \<noteq> idleproc s then {p} else {}) \<and>
    (\<forall>q. state (procs s' q) = (if q = p then PROC_RUNNABLE else state (procs s q))) \<and>
    (state (procs s p) \<noteq> PROC_RUNNABLE \<longrightarrow> wait_state (procs s' p) = 0)"
  using wakeup_proc_correct [OF assms(1,2)] assms(3) by fastforce

theorem wakeup_proc_spec_witness:
  "\<exists>s'. wakeup_proc 2 boot_kern = Some s' \<and> sched_inv s' \<and> set (ready s') = {2} \<and>
    state (procs s' 2) = PROC_RUNNABLE \<and> state (procs s' 3) = PROC_SLEEPING"
proof -
  have "state (procs boot_kern 2) = PROC_SLEEPING" "state (procs boot_kern 3) = PROC_SLEEPING"
    "pid (procs boot_kern 2) \<ge> lcpu_count boot_kern" "current boot_kern = 1" "idleproc boot_kern = 0"
    by (simp_all add: boot_kern_def sched_init_def fresh_proc_def)
  then show ?thesis using wakeup_proc_spec [OF boot_kern_inv, of 2] boot_kern_ready by auto
qed

text \<open>
  C32: The feedback of the multi-level queue: a running process of level \<open>i\<close> that is ticked until
  its time slice is used up asks to be rescheduled and is queued last on level \<open>i + 1\<close>, the
  lowest level keeping its processes; it gets a positive slice of at most that level's length.
\<close>

theorem mlfq_demotion:
  assumes "rq_inv s" and "\<not> run_linked (procs s p)" and "rq (procs s p) = Some i"
    and "0 < time_slice (procs s p)"
  shows "\<exists>s1 s'. s1 = (RR_proc_tick p ^^ nat (time_slice (procs s p))) s \<and> need_resched (procs s1 p) \<and>
    MLFQ_enqueue p s1 = Some s' \<and> rq_inv s' \<and>
    rq (procs s' p) = Some (min (i + 1) (length (run_queues s) - 1)) \<and>
    run_list (run_queues s' ! min (i + 1) (length (run_queues s) - 1)) =
      run_list (run_queues s ! min (i + 1) (length (run_queues s) - 1)) @ [p]"
proof -
  let ?n = "nat (time_slice (procs s p))"
  let ?s1 = "(RR_proc_tick p ^^ ?n) s"
  have le: "int ?n \<le> time_slice (procs s p)" "0 \<le> time_slice (procs s p)" using assms(4) by simp_all
  note t = tick_slice [OF le(2,1)]
  have inv: "rq_inv ?s1" by (rule tick_rq_inv [OF assms(1,2) le(1)])
  have nl: "\<not> run_linked (procs ?s1 p)" using t assms(2) by simp
  have lv: "feedback_level ?s1 p = min (i + 1) (length (run_queues s) - 1)"
    using t assms(3,4) by (simp add: feedback_level_def)
  have rqs: "run_queues ?s1 = run_queues s" and nr: "need_resched (procs ?s1 p)" using t assms(4) by auto
  obtain s' where "MLFQ_enqueue p ?s1 = Some s'" "rq_inv s'" "rq (procs s' p) = Some (feedback_level ?s1 p)"
    "run_list (run_queues s' ! feedback_level ?s1 p) = run_list (run_queues ?s1 ! feedback_level ?s1 p) @ [p]"
    using MLFQ_enqueue_level(2) [OF inv nl] RR_enqueue_ok [OF inv nl MLFQ_enqueue_level(1) [OF inv nl]]
    by auto
  then show ?thesis using nr unfolding lv rqs by blast
qed

theorem mlfq_demotion_witness:
  "\<exists>s0 s1 s'. MLFQ_enqueue 2 boot_kern = Some s0 \<and> MLFQ_dequeue 2 s0 = Some s1 \<and>
    time_slice (procs s1 2) = 8 \<and>
    MLFQ_enqueue 2 ((RR_proc_tick 2 ^^ 8) s1) = Some s' \<and> rq (procs s' 2) = Some 1"
proof -
  have nl: "\<not> run_linked (procs boot_kern 2)" by (simp add: boot_kern_def sched_init_def fresh_proc_def)
  have id: "2 \<noteq> idleproc boot_kern" by (simp add: boot_kern_def sched_init_def)
  obtain s0 where s0: "sched_class_enqueue 2 boot_kern = Some s0" "rq_inv s0" "set (ready s0) = {2}"
    using sched_class_enqueue_ok [OF boot_kern_rq nl id] boot_kern_ready by auto
  then have "ready s0 = [2]" using mlfq.runq_distinct [OF s0(2)] by (cases "ready s0"; cases "tl (ready s0)") auto
  then obtain s1 where s1: "sched_class_dequeue 2 s0 = Some s1" "rq_inv s1" "\<not> run_linked (procs s1 2)"
    using sched_class_dequeue_ok [OF s0(2)] by auto
  have e0: "s0 = the (MLFQ_enqueue 2 boot_kern)" "MLFQ_enqueue 2 boot_kern = Some s0"
    using s0(1) id by (simp_all add: sched_class_enqueue_def)
  have r0: "rq (procs s0 2) = Some 0" "time_slice (procs s0 2) = 8" "length (run_queues s0) = 4"
    unfolding e0(1) by (simp_all add: MLFQ_enqueue_def RR_enqueue_def boot_kern_def sched_init_def
        fresh_proc_def MLFQ_init_def RR_init_def upt_rec)
  have "rq (procs s1 2) = Some 0 \<and> time_slice (procs s1 2) = 8 \<and> length (run_queues s1) = 4"
    using s1(1) r0 by (auto simp: sched_class_dequeue_def MLFQ_dequeue_def RR_dequeue_def kassert_def split: if_splits)
  then show ?thesis
    using mlfq_demotion [OF s1(2,3), of 0] e0(2) s1(1) by (auto simp: sched_class_dequeue_def)
qed

end
