(* ===== verification/Timer.thy ===== *)
theory Timer
  imports Sched
begin

text \<open>
  The kernel timers of \<^verbatim>\<open>schedule/sched.c\<close>. The list keeps in \<^verbatim>\<open>expires\<close> the distance of a timer to
  its predecessor; the abstract state is the list of timers with their deadlines, counted in ticks
  from now. \<^verbatim>\<open>expires\<close> is an \<^verbatim>\<open>unsigned int\<close>: the only addition, in \<^verbatim>\<open>del_timer\<close>, wraps at \<open>2 ^ 32\<close>.
\<close>

section \<open>The code\<close>

definition timer_init :: "timer_id \<Rightarrow> proc_id \<Rightarrow> nat \<Rightarrow> kern \<Rightarrow> kern" where
  "timer_init t p e s = upd_timer t (\<lambda>_. \<lparr>expires = e mod 2 ^ 32, timer_proc = p, timer_linked = False\<rparr>) s"

text \<open>The walk of \<^verbatim>\<open>add_timer\<close> along the list, with the updates of both \<^verbatim>\<open>expires\<close> fields.\<close>

fun add_timer_walk :: "timer_id \<Rightarrow> timer_id list \<Rightarrow> kern \<Rightarrow> timer_id list \<times> kern" where
  "add_timer_walk t [] s = ([t], s)"
| "add_timer_walk t (n # ns) s =
     (if expires (timers s t) < expires (timers s n)
      then (t # n # ns, upd_timer n (\<lambda>tm. tm\<lparr>expires := expires tm - expires (timers s t)\<rparr>) s)
      else case add_timer_walk t ns
             (upd_timer t (\<lambda>tm. tm\<lparr>expires := expires tm - expires (timers s n)\<rparr>) s) of
          (l, s) \<Rightarrow> (n # l, s))"

definition add_timer :: "timer_id \<Rightarrow> kern \<Rightarrow> kern option" where
  "add_timer t s = do {
     kassert (expires (timers s t) > 0);
     kassert (\<not> timer_linked (timers s t));
     case add_timer_walk t (timer_list s) s of
       (l, s) \<Rightarrow> Some (upd_timer t (\<lambda>tm. tm\<lparr>timer_linked := True\<rparr>) (s\<lparr>timer_list := l\<rparr>))
   }"

fun timer_after :: "timer_id \<Rightarrow> timer_id list \<Rightarrow> timer_id option" where
  "timer_after t (u # v # ts) = (if u = t then Some v else timer_after t (v # ts))"
| "timer_after t ts = None"

definition del_timer :: "timer_id \<Rightarrow> kern \<Rightarrow> kern" where
  "del_timer t s =
     (if timer_linked (timers s t)
      then let s = (if expires (timers s t) \<noteq> 0
                    then case timer_after t (timer_list s) of
                        None \<Rightarrow> s
                      | Some n \<Rightarrow> upd_timer n
                          (\<lambda>tm. tm\<lparr>expires := (expires tm + expires (timers s t)) mod 2 ^ 32\<rparr>) s
                    else s)
           in upd_timer t (\<lambda>tm. tm\<lparr>timer_linked := False\<rparr>) (s\<lparr>timer_list := remove1 t (timer_list s)\<rparr>)
      else s)"

text \<open>The loop over the timers that have reached zero; its argument is the list from \<^verbatim>\<open>le\<close> on.\<close>

fun run_expired :: "timer_id list \<Rightarrow> kern \<Rightarrow> kern option" where
  "run_expired [] s = Some s"
| "run_expired (t # ts) s =
     (if expires (timers s t) = 0
      then let p = timer_proc (timers s t) in do {
        kassert (wait_state (procs s p) \<noteq> 0 \<longrightarrow> wait_state (procs s p) AND WT_INTERRUPTED \<noteq> 0);
        s \<leftarrow> wakeup_proc p s;
        run_expired ts (del_timer t s)
      }
      else Some s)"

definition run_timer_list :: "kern \<Rightarrow> kern option" where
  "run_timer_list s = do {
     s \<leftarrow> (case timer_list s of
         [] \<Rightarrow> Some s
       | t # ts \<Rightarrow> do {
           kassert (expires (timers s t) \<noteq> 0);
           run_expired (t # ts) (upd_timer t (\<lambda>tm. tm\<lparr>expires := expires tm - 1\<rparr>) s)
         });
     Some (sched_class_proc_tick (current s) s)
   }"

section \<open>Deadlines\<close>

fun deadlines_from :: "nat \<Rightarrow> (timer_id \<Rightarrow> nat) \<Rightarrow> timer_id list \<Rightarrow> (timer_id \<times> nat) list" where
  "deadlines_from a e [] = []"
| "deadlines_from a e (t # ts) = (t, a + e t) # deadlines_from (a + e t) e ts"

definition deadlines :: "kern \<Rightarrow> (timer_id \<times> nat) list" where
  "deadlines s = deadlines_from 0 (\<lambda>t. expires (timers s t)) (timer_list s)"

definition timer_inv :: "kern \<Rightarrow> bool" where
  "timer_inv s \<longleftrightarrow> distinct (timer_list s) \<and> (\<forall>t. timer_linked (timers s t) = (t \<in> set (timer_list s))) \<and>
     (\<forall>(t, d) \<in> set (deadlines s). 0 < d \<and> d < 2 ^ 32)"

lemma deadlines_from_cong: "(\<And>t. t \<in> set ts \<Longrightarrow> e t = e' t) \<Longrightarrow> deadlines_from a e ts = deadlines_from a e' ts"
  by (induction ts arbitrary: a) auto

lemma deadlines_from_ge: "(t, d) \<in> set (deadlines_from a e ts) \<Longrightarrow> a \<le> d"
  by (induction ts arbitrary: a) fastforce+

lemma deadlines_from_fst [simp]: "map fst (deadlines_from a e ts) = ts"
  by (induction ts arbitrary: a) auto

lemma deadlines_from_sorted: "sorted (map snd (deadlines_from a e ts))"
  by (induction ts arbitrary: a) (auto dest: deadlines_from_ge)

text \<open>Moving the origin, and moving a distance between neighbours.\<close>

lemma deadlines_from_shift:
  "k \<le> a \<Longrightarrow> deadlines_from (a - k) e ts = map (\<lambda>(t, d). (t, d - k)) (deadlines_from a e ts)"
  by (induction ts arbitrary: a) auto

lemma deadlines_from_first:
  assumes "t \<notin> set ts" and "a + e t = a' + x"
  shows "deadlines_from a' (e(t := x)) (t # ts) = deadlines_from a e (t # ts)"
proof -
  have "deadlines_from b (e(t := x)) ts = deadlines_from b e ts" for b
    using assms(1) by (intro deadlines_from_cong) auto
  then show ?thesis using assms(2) by simp
qed

subsection \<open>\<^verbatim>\<open>add_timer\<close>\<close>

lemma add_timer_walk_frame:
  assumes "add_timer_walk t ts s = (l, s')"
  shows "procs s' = procs s \<and> current s' = current s \<and> idleproc s' = idleproc s \<and> lcpu_count s' = lcpu_count s \<and>
    lapic_id s' = lapic_id s \<and> mm_lapic s' = mm_lapic s \<and> run_queues s' = run_queues s \<and>
    waits s' = waits s \<and> queues s' = queues s \<and> timer_list s' = timer_list s \<and>
    (\<forall>u. timer_linked (timers s' u) = timer_linked (timers s u) \<and> timer_proc (timers s' u) = timer_proc (timers s u))"
  using assms
proof (induction ts arbitrary: s l)
  case (Cons n ns)
  then show ?case by (fastforce split: if_splits prod.splits)
qed simp

lemma add_timer_walk_correct:
  assumes "t \<notin> set ts" and "distinct ts" and "add_timer_walk t ts s = (l, s')"
  shows "\<exists>xs ys. deadlines_from a (\<lambda>u. expires (timers s u)) ts = xs @ ys \<and>
    deadlines_from a (\<lambda>u. expires (timers s' u)) l = xs @ (t, a + expires (timers s t)) # ys \<and>
    (\<forall>(u, d) \<in> set xs. d \<le> a + expires (timers s t)) \<and>
    (\<forall>(u, d) \<in> set ys. a + expires (timers s t) < d) \<and>
    (\<forall>u. u \<notin> insert t (set ts) \<longrightarrow> timers s' u = timers s u)"
  using assms
proof (induction ts arbitrary: a s l s')
  case Nil
  then show ?case by (intro exI [of _ "[]"]) auto
next
  case (Cons n ns)
  let ?e = "\<lambda>s u. expires (timers s u)"
  have nt: "n \<noteq> t" "t \<notin> set ns" "n \<notin> set ns" "distinct ns" using Cons.prems by auto
  show ?case
  proof (cases "?e s t < ?e s n")
    case True
    then have l: "l = t # n # ns" and s': "s' = upd_timer n (\<lambda>tm. tm\<lparr>expires := expires tm - ?e s t\<rparr>) s"
      using Cons.prems(3) by auto
    have e: "?e s' = (?e s)(n := ?e s n - ?e s t)" by (auto simp: s' fun_eq_iff)
    have D: "deadlines_from (a + ?e s t) (?e s') (n # ns) = deadlines_from a (?e s) (n # ns)"
      unfolding e using nt True by (intro deadlines_from_first) auto
    have et: "?e s' t = ?e s t" using nt by (simp add: s')
    define ys where "ys = deadlines_from a (?e s) (n # ns)"
    have "deadlines_from a (?e s') l = [] @ (t, a + ?e s t) # ys"
      unfolding l deadlines_from.simps(2) [of a "?e s'" t] et D ys_def by simp
    moreover have "\<forall>(u, d) \<in> set ys. a + ?e s t < d"
      using True unfolding ys_def by (auto dest!: deadlines_from_ge)
    moreover have "\<forall>u. u \<notin> insert t (set (n # ns)) \<longrightarrow> timers s' u = timers s u" by (simp add: s')
    ultimately show ?thesis unfolding ys_def [symmetric] by (intro exI [of _ "[]"] exI [of _ ys]) simp
  next
    case False
    let ?s1 = "upd_timer t (\<lambda>tm. tm\<lparr>expires := expires tm - ?e s n\<rparr>) s"
    obtain l1 where l1: "add_timer_walk t ns ?s1 = (l1, s')" "l = n # l1"
      using Cons.prems(3) False by (auto split: prod.splits)
    have e1: "?e ?s1 = (?e s)(t := ?e s t - ?e s n)" by (auto simp: fun_eq_iff)
    have eq: "deadlines_from b (?e ?s1) ns = deadlines_from b (?e s) ns" for b
      using nt(2) by (intro deadlines_from_cong) auto
    have sum: "a + ?e s n + ?e ?s1 t = a + ?e s t" using False by simp
    obtain xs ys where xy: "deadlines_from (a + ?e s n) (?e s) ns = xs @ ys"
      "deadlines_from (a + ?e s n) (?e s') l1 = xs @ (t, a + ?e s t) # ys"
      "\<forall>(u, d) \<in> set xs. d \<le> a + ?e s t" "\<forall>(u, d) \<in> set ys. a + ?e s t < d"
      "\<forall>u. u \<notin> insert t (set ns) \<longrightarrow> timers s' u = timers ?s1 u"
      using Cons.IH [OF nt(2,4) l1(1), of "a + ?e s n"] unfolding eq sum by blast
    have "?e s' n = ?e s n" using xy(5) nt by simp
    then have "deadlines_from a (?e s') l = ((n, a + ?e s n) # xs) @ (t, a + ?e s t) # ys"
      using l1(2) xy(2) by simp
    moreover have "deadlines_from a (?e s) (n # ns) = ((n, a + ?e s n) # xs) @ ys" using xy(1) by simp
    moreover have "\<forall>(u, d) \<in> set ((n, a + ?e s n) # xs). d \<le> a + ?e s t" using xy(3) False by auto
    ultimately show ?thesis using xy(4,5) by (intro exI [of _ "(n, a + ?e s n) # xs"] exI [of _ ys]) auto
  qed
qed

lemma add_timer_correct:
  assumes inv: "timer_inv s" and t: "\<not> timer_linked (timers s t)"
    and e: "0 < expires (timers s t)" "expires (timers s t) < 2 ^ 32"
  shows "\<exists>s' xs ys. add_timer t s = Some s' \<and> timer_inv s' \<and> deadlines s = xs @ ys \<and>
    deadlines s' = xs @ (t, expires (timers s t)) # ys \<and>
    (\<forall>(u, d) \<in> set xs. d \<le> expires (timers s t)) \<and> (\<forall>(u, d) \<in> set ys. expires (timers s t) < d) \<and>
    procs s' = procs s \<and> run_queues s' = run_queues s \<and> current s' = current s"
proof -
  obtain l s1 where w: "add_timer_walk t (timer_list s) s = (l, s1)" by fastforce
  have nt: "t \<notin> set (timer_list s)" "distinct (timer_list s)"
    and lk: "\<forall>u. timer_linked (timers s u) = (u \<in> set (timer_list s))"
    using inv t by (simp_all add: timer_inv_def)
  obtain xs ys where xy: "deadlines s = xs @ ys"
    "deadlines_from 0 (\<lambda>u. expires (timers s1 u)) l = xs @ (t, expires (timers s t)) # ys"
    "\<forall>(u, d) \<in> set xs. d \<le> expires (timers s t)" "\<forall>(u, d) \<in> set ys. expires (timers s t) < d"
    using add_timer_walk_correct [OF nt w, of 0] by (auto simp: deadlines_def)
  let ?s' = "upd_timer t (\<lambda>tm. tm\<lparr>timer_linked := True\<rparr>) (s1\<lparr>timer_list := l\<rparr>)"
  note fr = add_timer_walk_frame [OF w]
  have "(\<lambda>u. expires (timers ?s' u)) = (\<lambda>u. expires (timers s1 u))" by (auto simp: fun_eq_iff)
  then have d': "deadlines ?s' = xs @ (t, expires (timers s t)) # ys"
    unfolding deadlines_def using xy(2) by simp
  have tl: "timer_list s = map fst xs @ map fst ys" using arg_cong [OF xy(1), of "map fst"] by (simp add: deadlines_def)
  have l: "l = map fst xs @ t # map fst ys" using arg_cong [OF xy(2), of "map fst"] by simp
  have "distinct l" using l tl nt by auto
  moreover have "\<forall>u. timer_linked (timers ?s' u) = (u \<in> set l)" using fr lk l tl by auto
  moreover have "\<forall>(u, d) \<in> set (deadlines ?s'). 0 < d \<and> d < 2 ^ 32"
    using inv e xy(1) unfolding d' by (auto simp: timer_inv_def)
  ultimately have "timer_inv ?s'" by (simp add: timer_inv_def)
  moreover have "add_timer t s = Some ?s'" using t e w by (simp add: add_timer_def)
  ultimately show ?thesis using xy d' fr by (intro exI [of _ ?s'] exI [of _ xs] exI [of _ ys]) simp
qed

subsection \<open>\<^verbatim>\<open>del_timer\<close>\<close>

lemma deadlines_from_append:
  "deadlines_from a e (xs @ ys) = deadlines_from a e xs @ deadlines_from (a + sum_list (map e xs)) e ys"
  by (induction xs arbitrary: a) (auto simp: add.assoc)

lemma timer_after_split: "t \<notin> set xs \<Longrightarrow> timer_after t (xs @ t # ys) = (case ys of [] \<Rightarrow> None | n # _ \<Rightarrow> Some n)"
proof (induction xs)
  case Nil
  then show ?case by (cases ys) auto
next
  case (Cons x xs)
  then show ?case by (cases xs) auto
qed

lemma deadlines_from_filter:
  "t \<notin> set ts \<Longrightarrow> filter (\<lambda>(u, d). u \<noteq> t) (deadlines_from a e ts) = deadlines_from a e ts"
  by (induction ts arbitrary: a) auto

lemma deadlines_from_delete:
  assumes t: "t \<notin> set xs" "t \<notin> set ys" and d: "distinct ys"
    and n: "\<And>n ns. ys = n # ns \<Longrightarrow> e' n = e n + e t" and o: "\<And>u. u \<in> set (xs @ tl ys) \<Longrightarrow> e' u = e u"
  shows "deadlines_from a e' (xs @ ys) = filter (\<lambda>(u, d). u \<noteq> t) (deadlines_from a e (xs @ t # ys))"
proof -
  have xs: "deadlines_from b e' xs = deadlines_from b e xs" for b
    using o by (intro deadlines_from_cong) auto
  have sm: "sum_list (map e' xs) = sum_list (map e xs)"
    using o by (metis (mono_tags, lifting) Un_iff map_eq_conv set_append)
  have ys: "deadlines_from b e' ys = deadlines_from (b + e t) e ys" for b
  proof (cases ys)
    case (Cons m ns)
    have "deadlines_from c e' ns = deadlines_from c e ns" for c
      using o Cons by (intro deadlines_from_cong) auto
    then show ?thesis using n [OF Cons] Cons by (simp add: algebra_simps)
  qed simp
  show ?thesis
    unfolding deadlines_from_append filter_append using t
    by (simp add: xs sm ys deadlines_from_filter)
qed

lemma deadline_in: "deadlines_from a e (xs @ t # n # ns) = us \<Longrightarrow> (n, a + sum_list (map e xs) + e t + e n) \<in> set us"
  by (auto simp: deadlines_from_append)

lemma del_timer_correct:
  assumes inv: "timer_inv s"
  shows "timer_inv (del_timer t s)" and "deadlines (del_timer t s) = filter (\<lambda>(u, d). u \<noteq> t) (deadlines s)"
    and "\<not> timer_linked (timers (del_timer t s) t)"
proof -
  have "timer_inv (del_timer t s) \<and> deadlines (del_timer t s) = filter (\<lambda>(u, d). u \<noteq> t) (deadlines s) \<and>
    \<not> timer_linked (timers (del_timer t s) t)"
  proof (cases "timer_linked (timers s t)")
    case False
    then have "t \<notin> set (timer_list s)" using inv by (simp add: timer_inv_def)
    then show ?thesis using inv False by (simp add: del_timer_def deadlines_def deadlines_from_filter)
  next
    case True
    then have "t \<in> set (timer_list s)" and dist: "distinct (timer_list s)" using inv by (simp_all add: timer_inv_def)
    then obtain xs ys where l: "timer_list s = xs @ t # ys" by (metis split_list)
    let ?e = "\<lambda>u. expires (timers s u)" and ?s' = "del_timer t s"
    have nt: "t \<notin> set xs" "t \<notin> set ys" "distinct ys" "set xs \<inter> set ys = {}" using dist l by auto
    have tl': "timer_list ?s' = xs @ ys"
      using True l nt by (auto simp: del_timer_def Let_def remove1_append split: option.split)
    have lk: "timer_linked (timers ?s' u) = (u \<noteq> t \<and> timer_linked (timers s u))" for u
      using True by (auto simp: del_timer_def Let_def split: option.split)
    have next_sum: "expires (timers ?s' n) = ?e n + ?e t" if "ys = n # ns" for n ns
    proof -
      have "(n, sum_list (map ?e xs) + ?e t + ?e n) \<in> set (deadlines s)"
        using deadline_in [of 0 ?e xs t n ns] l that by (simp add: deadlines_def)
      then have "?e n + ?e t < 2 ^ 32" using inv by (auto simp: timer_inv_def)
      moreover have "timer_after t (timer_list s) = Some n" using timer_after_split [OF nt(1), of ys] l that by simp
      ultimately show ?thesis using True nt(2) that by (auto simp: del_timer_def Let_def)
    qed
    have other: "expires (timers ?s' u) = ?e u" if "u \<in> set (xs @ tl ys)" for u
    proof (cases ys)
      case Nil
      then have "timer_after t (timer_list s) = None" using timer_after_split [OF nt(1), of ys] l by simp
      then show ?thesis using True by (auto simp: del_timer_def Let_def)
    next
      case (Cons n ns)
      then have "timer_after t (timer_list s) = Some n" using timer_after_split [OF nt(1), of ys] l by simp
      moreover have "u \<noteq> n" using that Cons nt(3,4) by auto
      ultimately show ?thesis using True by (auto simp: del_timer_def Let_def)
    qed
    have d': "deadlines ?s' = filter (\<lambda>(u, d). u \<noteq> t) (deadlines s)"
      unfolding deadlines_def tl' l
      using nt(1-3) next_sum other by (intro deadlines_from_delete) blast+
    have "timer_inv ?s'"
      using inv lk tl' l nt dist unfolding timer_inv_def d' by auto
    then show ?thesis using d' lk by simp
  qed
  then show "timer_inv (del_timer t s)" "deadlines (del_timer t s) = filter (\<lambda>(u, d). u \<noteq> t) (deadlines s)"
    "\<not> timer_linked (timers (del_timer t s) t)" by auto
qed

subsection \<open>\<^verbatim>\<open>run_timer_list\<close>\<close>

definition wake_ok :: "kern \<Rightarrow> proc_id \<Rightarrow> bool" where
  "wake_ok s p \<longleftrightarrow> state (procs s p) \<noteq> PROC_ZOMBIE \<and> pid (procs s p) \<ge> lcpu_count s \<and>
     (wait_state (procs s p) \<noteq> 0 \<longrightarrow> wait_state (procs s p) AND WT_INTERRUPTED \<noteq> 0)"

lemma del_timer_zero:
  assumes "timer_linked (timers s t)" and "expires (timers s t) = 0"
  shows "del_timer t s = upd_timer t (\<lambda>tm. tm\<lparr>timer_linked := False\<rparr>) (s\<lparr>timer_list := remove1 t (timer_list s)\<rparr>)"
  using assms by (simp add: del_timer_def)

lemma sched_inv_cong:
  assumes "procs s' = procs s" "current s' = current s" "idleproc s' = idleproc s"
    "lapic_id s' = lapic_id s" "mm_lapic s' = mm_lapic s" "run_queues s' = run_queues s"
  shows "sched_inv s' = sched_inv s"
  using assms links_ok_cong [of s' s "[]"] by (simp add: sched_inv_def ready_def)

lemma run_expired_correct:
  assumes "sched_inv s" and "timer_list s = l" and "distinct l" and "\<forall>t \<in> set l. timer_linked (timers s t)"
    and "\<forall>t \<in> set (takeWhile (\<lambda>t. expires (timers s t) = 0) l). wake_ok s (timer_proc (timers s t))"
  shows "\<exists>s'. run_expired l s = Some s' \<and> sched_inv s' \<and> current s' = current s \<and>
    timer_list s' = dropWhile (\<lambda>t. expires (timers s t) = 0) l \<and>
    (\<forall>u. expires (timers s' u) = expires (timers s u) \<and> timer_linked (timers s' u) =
       (timer_linked (timers s u) \<and> u \<notin> set (takeWhile (\<lambda>t. expires (timers s t) = 0) l))) \<and>
    (\<forall>p. state (procs s' p) =
       (if p \<in> (\<lambda>t. timer_proc (timers s t)) ` set (takeWhile (\<lambda>t. expires (timers s t) = 0) l)
        then PROC_RUNNABLE else state (procs s p)))"
  using assms
proof (induction l arbitrary: s)
  case (Cons t ts)
  let ?z = "\<lambda>t. expires (timers s t) = 0" and ?p = "timer_proc (timers s t)"
  show ?case
  proof (cases "?z t")
    case False
    then show ?thesis using Cons.prems by simp
  next
    case True
    then have ok: "wake_ok s ?p" using Cons.prems(5) by simp
    then obtain s1 where s1: "wakeup_proc ?p s = Some s1" "sched_inv s1" "current s1 = current s"
      "\<forall>q. state (procs s1 q) = (if q = ?p then PROC_RUNNABLE else state (procs s q))"
      "\<forall>q. wait_state (procs s1 q) =
         (if q = ?p \<and> state (procs s ?p) \<noteq> PROC_RUNNABLE then 0 else wait_state (procs s q))"
      "\<forall>q. pid (procs s1 q) = pid (procs s q)" "lcpu_count s1 = lcpu_count s"
      "timers s1 = timers s" "timer_list s1 = timer_list s"
      using wakeup_proc_correct [OF Cons.prems(1), of ?p] by (auto simp: wake_ok_def)
    let ?s2 = "del_timer t s1"
    have s2: "?s2 = upd_timer t (\<lambda>tm. tm\<lparr>timer_linked := False\<rparr>) (s1\<lparr>timer_list := ts\<rparr>)"
      using del_timer_zero [of s1 t] True Cons.prems(2,4) s1(8,9) by simp
    have e2: "expires (timers ?s2 u) = expires (timers s u)"
      and p2: "timer_proc (timers ?s2 u) = timer_proc (timers s u)" for u
      using s1(8) by (simp_all add: s2)
    have "sched_inv ?s2" using s1(2) sched_inv_cong [of ?s2 s1] by (simp add: s2)
    moreover have "\<forall>u \<in> set ts. timer_linked (timers ?s2 u)"
      using Cons.prems(3,4) s1(8) by (auto simp: s2)
    moreover have "\<forall>u \<in> set (takeWhile (\<lambda>t. expires (timers ?s2 t) = 0) ts). wake_ok ?s2 (timer_proc (timers ?s2 u))"
      unfolding e2 p2 using Cons.prems(5) True s1(4-7) by (auto simp: wake_ok_def s2)
    ultimately obtain s' where s': "run_expired ts ?s2 = Some s'" "sched_inv s'" "current s' = current ?s2"
      "timer_list s' = dropWhile (\<lambda>t. expires (timers ?s2 t) = 0) ts"
      "\<forall>u. expires (timers s' u) = expires (timers ?s2 u) \<and> timer_linked (timers s' u) =
         (timer_linked (timers ?s2 u) \<and> u \<notin> set (takeWhile (\<lambda>t. expires (timers ?s2 t) = 0) ts))"
      "\<forall>p. state (procs s' p) =
         (if p \<in> (\<lambda>t. timer_proc (timers ?s2 t)) ` set (takeWhile (\<lambda>t. expires (timers ?s2 t) = 0) ts)
          then PROC_RUNNABLE else state (procs ?s2 p))"
      using Cons.IH [of ?s2] Cons.prems(3) by (auto simp: s2)
    have "run_expired (t # ts) s = Some s'"
      using True ok s1(1) s'(1) by (simp add: wake_ok_def Let_def)
    then show ?thesis
      using s' s1(3,4,8) True Cons.prems(4) unfolding e2 p2 by (auto simp: s2)
  qed
qed simp

lemma deadlines_from_nonzero:
  "deadlines_from 0 e (dropWhile (\<lambda>t. e t = 0) ts) = filter (\<lambda>(t, d). d \<noteq> 0) (deadlines_from 0 e ts)"
proof (induction ts)
  case (Cons t ts)
  have "filter (\<lambda>(t, d). d \<noteq> 0) (deadlines_from (e t) e ts) = deadlines_from (e t) e ts" if "e t \<noteq> 0"
    using that deadlines_from_ge by (fastforce simp: filter_id_conv)
  then show ?case using Cons by auto
qed simp

lemma deadlines_zero_prefix:
  "set (takeWhile (\<lambda>t. e t = 0) ts) = fst ` {x \<in> set (deadlines_from 0 e ts). snd x = 0}"
proof (induction ts)
  case (Cons t ts)
  show ?case
  proof (cases "e t = 0")
    case True
    then have "{x \<in> set (deadlines_from 0 e (t # ts)). snd x = 0} =
        insert (t, 0) {x \<in> set (deadlines_from 0 e ts). snd x = 0}" by auto
    then show ?thesis using Cons True by simp
  next
    case False
    then have "{x \<in> set (deadlines_from 0 e (t # ts)). snd x = 0} = {}"
      using deadlines_from_ge by fastforce
    then show ?thesis using False by simp
  qed
qed simp

lemma proc_tick_inv:
  assumes "sched_inv s"
  shows "sched_inv (sched_class_proc_tick (current s) s)"
proof -
  let ?c = "current s"
  have nl: "\<not> run_linked (procs s ?c)" and lk: "links_ok [] s"
    using assms by (simp_all add: sched_inv_def links_ok_def)
  show ?thesis
  proof (cases "?c = idleproc s \<or> time_slice (procs s ?c) = 0")
    case True
    let ?s' = "sched_class_proc_tick ?c s"
    have "links_ok [] ?s' = links_ok [] s"
      using True by (intro links_ok_cong)
        (auto simp: sched_class_proc_tick_def MLFQ_proc_tick_def RR_proc_tick_def Let_def)
    then show ?thesis using assms True
      by (auto simp: sched_inv_def sched_class_proc_tick_def MLFQ_proc_tick_def RR_proc_tick_def Let_def)
  next
    case False
    have "0 \<le> time_slice (procs s ?c)" using lk by (simp add: links_ok_def rq_inv_def)
    then have "int 1 \<le> time_slice (procs s ?c)" using False by simp
    from tick_rq_inv [OF _ nl this] have "rq_inv (RR_proc_tick ?c s)" using lk by (simp add: links_ok_def)
    then show ?thesis using assms False
      by (auto simp: sched_inv_def links_ok_def sched_class_proc_tick_def MLFQ_proc_tick_def RR_proc_tick_def Let_def)
  qed
qed

lemma proc_tick_frame [simp]:
  "timers (sched_class_proc_tick p s) = timers s" "timer_list (sched_class_proc_tick p s) = timer_list s"
  "state (procs (sched_class_proc_tick p s) q) = state (procs s q)"
  by (simp_all add: sched_class_proc_tick_def MLFQ_proc_tick_def RR_proc_tick_def Let_def)

definition due_now :: "kern \<Rightarrow> timer_id set" where
  "due_now s = {t. (t, 1) \<in> set (deadlines s)}"

lemma due_now_first:
  assumes "timer_list s = t # ts" and "distinct (t # ts)" and "expires (timers s t) \<noteq> 0"
    and "s1 = upd_timer t (\<lambda>tm. tm\<lparr>expires := expires tm - 1\<rparr>) s"
  shows "deadlines_from 0 (\<lambda>u. expires (timers s1 u)) (t # ts) = map (\<lambda>(u, d). (u, d - 1)) (deadlines s)"
proof -
  let ?e = "\<lambda>u. expires (timers s u)" and ?e1 = "\<lambda>u. expires (timers s1 u)"
  have "deadlines_from b ?e1 ts = deadlines_from b ?e ts" for b
    using assms(2,4) by (intro deadlines_from_cong) auto
  moreover have "deadlines_from (?e t - 1) ?e ts = map (\<lambda>(u, d). (u, d - 1)) (deadlines_from (?e t) ?e ts)"
    using assms(3) by (intro deadlines_from_shift) simp
  ultimately show ?thesis using assms(1,4) by (simp add: deadlines_def)
qed

lemma run_timer_list_correct:
  assumes si: "sched_inv s" and ti: "timer_inv s"
    and ok: "\<forall>t \<in> due_now s. wake_ok s (timer_proc (timers s t))"
  shows "\<exists>s'. run_timer_list s = Some s' \<and> sched_inv s' \<and> timer_inv s' \<and>
    deadlines s' = map (\<lambda>(t, d). (t, d - 1)) (filter (\<lambda>(t, d). d \<noteq> 1) (deadlines s)) \<and>
    (\<forall>p. state (procs s' p) =
       (if p \<in> (\<lambda>t. timer_proc (timers s t)) ` due_now s then PROC_RUNNABLE else state (procs s p)))"
proof (cases "timer_list s")
  case Nil
  have "timer_inv (sched_class_proc_tick (current s) s)" using ti by (simp add: timer_inv_def deadlines_def)
  then show ?thesis
    using Nil proc_tick_inv [OF si] by (simp add: run_timer_list_def deadlines_def due_now_def)
next
  case (Cons t ts)
  let ?s1 = "upd_timer t (\<lambda>tm. tm\<lparr>expires := expires tm - 1\<rparr>) s"
  let ?e = "\<lambda>u. expires (timers ?s1 u)"
  have dist: "distinct (t # ts)" and lk: "\<forall>u. timer_linked (timers s u) = (u \<in> set (t # ts))"
    and pos: "\<forall>(u, d) \<in> set (deadlines s). 0 < d \<and> d < 2 ^ 32"
    using ti Cons by (simp_all add: timer_inv_def)
  have nz: "expires (timers s t) \<noteq> 0" using pos Cons by (simp add: deadlines_def)
  note D = due_now_first [OF Cons dist nz refl]
  have zero: "set (takeWhile (\<lambda>u. ?e u = 0) (t # ts)) = due_now s"
  proof -
    have mem: "(d - 1 = 0) = (d = 1)" if "(u, d) \<in> set (deadlines s)" for u d using pos that by fastforce
    have "fst ` {x \<in> set (map (\<lambda>(u, d). (u, d - 1)) (deadlines s)). snd x = 0} =
        {u. \<exists>d. (u, d) \<in> set (deadlines s) \<and> d - 1 = 0}" by force
    also have "\<dots> = due_now s" using mem by (auto simp: due_now_def)
    finally show ?thesis unfolding deadlines_zero_prefix D .
  qed
  have tp: "timer_proc (timers ?s1 u) = timer_proc (timers s u)" for u by simp
  have "sched_inv ?s1" using si sched_inv_cong [of ?s1 s] by simp
  moreover have "\<forall>u \<in> set (t # ts). timer_linked (timers ?s1 u)" using lk by simp
  moreover have "\<forall>u \<in> set (takeWhile (\<lambda>u. ?e u = 0) (t # ts)). wake_ok ?s1 (timer_proc (timers ?s1 u))"
    unfolding zero tp using ok by (simp add: wake_ok_def)
  ultimately obtain s2 where s2: "run_expired (t # ts) ?s1 = Some s2" "sched_inv s2" "current s2 = current s"
    "timer_list s2 = dropWhile (\<lambda>u. ?e u = 0) (t # ts)"
    "\<forall>u. expires (timers s2 u) = ?e u \<and>
       timer_linked (timers s2 u) = (timer_linked (timers s u) \<and> u \<notin> due_now s)"
    "\<forall>p. state (procs s2 p) =
       (if p \<in> (\<lambda>u. timer_proc (timers s u)) ` due_now s then PROC_RUNNABLE else state (procs s p))"
    using run_expired_correct [of ?s1 "t # ts"] Cons dist unfolding zero tp by auto
  let ?s' = "sched_class_proc_tick (current s2) s2"
  have run: "run_timer_list s = Some ?s'" using Cons nz s2(1) by (simp add: run_timer_list_def)
  have e2: "(\<lambda>u. expires (timers s2 u)) = ?e" using s2(5) by blast
  have "deadlines ?s' = filter (\<lambda>(u, d). d \<noteq> 0) (map (\<lambda>(u, d). (u, d - 1)) (deadlines s))"
    unfolding deadlines_def proc_tick_frame s2(4) e2 deadlines_from_nonzero D by (simp add: deadlines_def)
  also have "\<dots> = map (\<lambda>(u, d). (u, d - 1)) (filter (\<lambda>(u, d). d \<noteq> 1) (deadlines s))"
    using pos by (induction "deadlines s") (auto simp: filter_map o_def intro!: arg_cong [of _ _ "map _"] filter_cong)
  finally have d': "deadlines ?s' = \<dots>" .
  have "set (t # ts) = due_now s \<union> set (timer_list s2)" "due_now s \<inter> set (timer_list s2) = {}"
    using set_append [of "takeWhile (\<lambda>u. ?e u = 0) (t # ts)" "timer_list s2"] dist
      distinct_append [of "takeWhile (\<lambda>u. ?e u = 0) (t # ts)" "timer_list s2"]
    unfolding zero s2(4) takeWhile_dropWhile_id by blast+
  then have "timer_linked (timers s2 u) = (u \<in> set (timer_list s2))" for u
    using s2(5) lk by blast
  moreover have "distinct (timer_list s2)" unfolding s2(4) using dist by (rule distinct_dropWhile)
  moreover have "\<forall>(u, d) \<in> set (deadlines ?s'). 0 < d \<and> d < 2 ^ 32"
    unfolding d' using pos by fastforce
  ultimately have "timer_inv ?s'" by (simp add: timer_inv_def)
  then show ?thesis using run d' s2(6) proc_tick_inv [OF s2(2)] by auto
qed

section \<open>Properties\<close>

text \<open>Process 2 asleep with a one-tick timer, number 5, initialised.\<close>

definition timer_kern :: kern where
  "timer_kern = timer_init 5 2 1 boot_kern"

lemma timer_kern_inv: "sched_inv timer_kern" "timer_inv timer_kern"
proof -
  show "sched_inv timer_kern"
    using boot_kern_inv sched_inv_cong [of timer_kern boot_kern] by (simp add: timer_kern_def timer_init_def)
  show "timer_inv timer_kern"
    by (simp add: timer_kern_def timer_init_def timer_inv_def deadlines_def boot_kern_def sched_init_def)
qed

lemma timer_kern_simps:
  "expires (timers timer_kern 5) = 1" "\<not> timer_linked (timers timer_kern 5)"
  "deadlines timer_kern = []" "procs timer_kern = procs boot_kern"
  by (simp_all add: timer_kern_def timer_init_def deadlines_def boot_kern_def sched_init_def)

text \<open>
  C23: \<^verbatim>\<open>add_timer\<close> arms an unlinked timer for \<^verbatim>\<open>expires\<close> ticks from now: its deadline on the list is
  exactly \<^verbatim>\<open>expires\<close>, it stands behind every timer with an earlier or the same deadline, and the
  deadlines of all other timers are unchanged although their stored distances are not.
\<close>

theorem add_timer_deadlines:
  assumes "timer_inv s" and "\<not> timer_linked (timers s t)"
    and "0 < expires (timers s t)" and "expires (timers s t) < 2 ^ 32"
  shows "\<exists>s' xs ys. add_timer t s = Some s' \<and> timer_inv s' \<and> deadlines s = xs @ ys \<and>
    deadlines s' = xs @ (t, expires (timers s t)) # ys \<and>
    (\<forall>(u, d) \<in> set xs. d \<le> expires (timers s t)) \<and> (\<forall>(u, d) \<in> set ys. expires (timers s t) < d)"
  using add_timer_correct [OF assms] by blast

theorem add_timer_deadlines_witness:
  "\<exists>s'. add_timer 5 timer_kern = Some s' \<and> timer_inv s' \<and> deadlines s' = [(5, 1)]"
  using add_timer_deadlines [OF timer_kern_inv(2) timer_kern_simps(2)] timer_kern_simps by auto

text \<open>
  \<^verbatim>\<open>del_timer\<close> takes the timer off the list and keeps the deadline of every other timer; the
  addition to its successor's distance does not wrap around.
\<close>

theorem del_timer_deadlines:
  assumes "timer_inv s"
  shows "timer_inv (del_timer t s) \<and> deadlines (del_timer t s) = filter (\<lambda>(u, d). u \<noteq> t) (deadlines s)"
  using del_timer_correct [OF assms] by blast

theorem del_timer_deadlines_witness:
  "timer_inv (del_timer 5 timer_kern) \<and> deadlines (del_timer 5 timer_kern) = []"
  using del_timer_deadlines [OF timer_kern_inv(2), of 5] timer_kern_simps by simp

text \<open>
  C24: A tick (\<^verbatim>\<open>run_timer_list\<close>) makes runnable exactly the processes whose timers are due at this
  tick, takes those timers off the list and brings every other deadline one tick closer. Neither
  its assertion that the first distance is positive nor \<^verbatim>\<open>wakeup_proc\<close> fails.
\<close>

theorem run_timer_list_fires_due:
  assumes "sched_inv s" and "timer_inv s"
    and "\<forall>t \<in> due_now s. wake_ok s (timer_proc (timers s t))"
  shows "\<exists>s'. run_timer_list s = Some s' \<and> sched_inv s' \<and> timer_inv s' \<and>
    deadlines s' = map (\<lambda>(t, d). (t, d - 1)) (filter (\<lambda>(t, d). d \<noteq> 1) (deadlines s)) \<and>
    (\<forall>p. state (procs s' p) =
       (if p \<in> (\<lambda>t. timer_proc (timers s t)) ` due_now s then PROC_RUNNABLE else state (procs s p)))"
  by (rule run_timer_list_correct [OF assms])

theorem run_timer_list_fires_due_witness:
  "\<exists>s1 s'. add_timer 5 timer_kern = Some s1 \<and> run_timer_list s1 = Some s' \<and> deadlines s' = [] \<and>
    state (procs s1 2) = PROC_SLEEPING \<and> state (procs s' 2) = PROC_RUNNABLE"
proof -
  obtain s1 where s1: "add_timer 5 timer_kern = Some s1" "timer_inv s1" "deadlines s1 = [(5, 1)]"
    "procs s1 = procs boot_kern" "run_queues s1 = run_queues timer_kern" "current s1 = current timer_kern"
    using add_timer_correct [OF timer_kern_inv(2) timer_kern_simps(2)] timer_kern_simps by auto
  obtain l s0 where w: "add_timer_walk 5 (timer_list timer_kern) timer_kern = (l, s0)" by fastforce
  then have e1: "s1 = upd_timer 5 (\<lambda>tm. tm\<lparr>timer_linked := True\<rparr>) (s0\<lparr>timer_list := l\<rparr>)"
    using s1(1) timer_kern_simps by (simp add: add_timer_def)
  note fr = add_timer_walk_frame [OF w]
  have si: "sched_inv s1" using timer_kern_inv(1) sched_inv_cong [of s1 timer_kern] fr by (simp add: e1)
  have dn: "due_now s1 = {5}" using s1(3) by (simp add: due_now_def)
  have tp: "timer_proc (timers s1 5) = 2" using fr by (simp add: e1 timer_kern_def timer_init_def)
  have pr: "procs s1 2 = fresh_proc PROC_SLEEPING 2" using s1(4) by (simp add: boot_kern_def sched_init_def)
  have "wake_ok s1 2" using pr fr by (simp add: wake_ok_def fresh_proc_def e1 timer_kern_def timer_init_def boot_kern_def sched_init_def)
  then show ?thesis
    using s1(1,3) run_timer_list_fires_due [OF si s1(2)] dn tp pr by (auto simp: fresh_proc_def)
qed

end
