(* ===== verification/Wait.thy ===== *)
theory Wait
  imports Timer
begin

text \<open>
  Wait queues (\<^verbatim>\<open>sync/wait.c\<close>). A blocking kernel operation is split where it calls
  \<^verbatim>\<open>schedule()\<close>: \<^verbatim>\<open>wait_current_set\<close> ends the first part, \<^verbatim>\<open>wait_current_del\<close> begins the second.
\<close>

section \<open>The code\<close>

definition wait_init :: "wait_id \<Rightarrow> proc_id \<Rightarrow> kern \<Rightarrow> kern" where
  "wait_init w p s = upd_wait w (\<lambda>x. x\<lparr>wait_proc := p, wakeup_flags := WT_INTERRUPTED, wait_linked := False\<rparr>) s"

definition wait_queue_init :: "queue_id \<Rightarrow> kern \<Rightarrow> kern" where
  "wait_queue_init q s = set_queue q [] s"

definition wait_queue_add :: "queue_id \<Rightarrow> wait_id \<Rightarrow> kern \<Rightarrow> kern option" where
  "wait_queue_add q w s = do {
     kassert (\<not> wait_linked (waits s w));
     Some (set_queue q (queues s q @ [w]) (upd_wait w (\<lambda>x. x\<lparr>wait_queue := q, wait_linked := True\<rparr>) s))
   }"

definition wait_queue_del :: "queue_id \<Rightarrow> wait_id \<Rightarrow> kern \<Rightarrow> kern option" where
  "wait_queue_del q w s = do {
     kassert (wait_linked (waits s w) \<and> wait_queue (waits s w) = q);
     Some (set_queue q (remove1 w (queues s q)) (upd_wait w (\<lambda>x. x\<lparr>wait_linked := False\<rparr>) s))
   }"

text \<open>The entry after, or before, \<open>w\<close> on a list; \<open>None\<close> when that is the list head.\<close>

fun entry_after :: "nat \<Rightarrow> nat list \<Rightarrow> nat option" where
  "entry_after w (u # v # us) = (if u = w then Some v else entry_after w (v # us))"
| "entry_after w us = None"

definition wait_queue_next :: "queue_id \<Rightarrow> wait_id \<Rightarrow> kern \<Rightarrow> wait_id option option" where
  "wait_queue_next q w s = do {
     kassert (wait_linked (waits s w) \<and> wait_queue (waits s w) = q);
     Some (entry_after w (queues s q))
   }"

definition wait_queue_prev :: "queue_id \<Rightarrow> wait_id \<Rightarrow> kern \<Rightarrow> wait_id option option" where
  "wait_queue_prev q w s = do {
     kassert (wait_linked (waits s w) \<and> wait_queue (waits s w) = q);
     Some (entry_after w (rev (queues s q)))
   }"

definition wait_queue_first :: "queue_id \<Rightarrow> kern \<Rightarrow> wait_id option" where
  "wait_queue_first q s = (case queues s q of [] \<Rightarrow> None | w # _ \<Rightarrow> Some w)"

definition wait_queue_last :: "queue_id \<Rightarrow> kern \<Rightarrow> wait_id option" where
  "wait_queue_last q s = (case rev (queues s q) of [] \<Rightarrow> None | w # _ \<Rightarrow> Some w)"

definition wait_queue_empty :: "queue_id \<Rightarrow> kern \<Rightarrow> bool" where
  "wait_queue_empty q s = (queues s q = [])"

definition wait_in_queue :: "wait_id \<Rightarrow> kern \<Rightarrow> bool" where
  "wait_in_queue w s = wait_linked (waits s w)"

definition wakeup_wait :: "queue_id \<Rightarrow> wait_id \<Rightarrow> u32 \<Rightarrow> bool \<Rightarrow> kern \<Rightarrow> kern option" where
  "wakeup_wait q w fl del s = do {
     s \<leftarrow> (if del then wait_queue_del q w s else Some s);
     let s = upd_wait w (\<lambda>x. x\<lparr>wakeup_flags := fl\<rparr>) s in
     wakeup_proc (wait_proc (waits s w)) s
   }"

definition wakeup_first :: "queue_id \<Rightarrow> u32 \<Rightarrow> bool \<Rightarrow> kern \<Rightarrow> kern option" where
  "wakeup_first q fl del s = (case wait_queue_first q s of
       None \<Rightarrow> Some s
     | Some w \<Rightarrow> wakeup_wait q w fl del s)"

text \<open>The two loops of \<^verbatim>\<open>wakeup_queue\<close>: removing the first entry each time, or following the links.\<close>

partial_function (option) wakeup_queue_del :: "queue_id \<Rightarrow> u32 \<Rightarrow> kern \<Rightarrow> kern option" where
  "wakeup_queue_del q fl s = (case wait_queue_first q s of
       None \<Rightarrow> Some s
     | Some w \<Rightarrow> do { s \<leftarrow> wakeup_wait q w fl True s; wakeup_queue_del q fl s })"

partial_function (option) wakeup_queue_walk :: "queue_id \<Rightarrow> wait_id \<Rightarrow> u32 \<Rightarrow> kern \<Rightarrow> kern option" where
  "wakeup_queue_walk q w fl s = do {
     s \<leftarrow> wakeup_wait q w fl False s;
     n \<leftarrow> wait_queue_next q w s;
     (case n of None \<Rightarrow> Some s | Some w \<Rightarrow> wakeup_queue_walk q w fl s)
   }"

definition wakeup_queue :: "queue_id \<Rightarrow> u32 \<Rightarrow> bool \<Rightarrow> kern \<Rightarrow> kern option" where
  "wakeup_queue q fl del s = (case wait_queue_first q s of
       None \<Rightarrow> Some s
     | Some w \<Rightarrow> if del then wakeup_queue_del q fl s else wakeup_queue_walk q w fl s)"

definition wait_current_set :: "queue_id \<Rightarrow> wait_id \<Rightarrow> u32 \<Rightarrow> kern \<Rightarrow> kern option" where
  "wait_current_set q w ws s =
     wait_queue_add q w
       (upd_proc (current s) (\<lambda>pr. pr\<lparr>state := PROC_SLEEPING, wait_state := ws\<rparr>)
         (wait_init w (current s) s))"

definition wait_current_del :: "queue_id \<Rightarrow> wait_id \<Rightarrow> kern \<Rightarrow> kern option" where
  "wait_current_del q w s = (if wait_in_queue w s then wait_queue_del q w s else Some s)"

section \<open>The invariant\<close>

text \<open>
  Every entry of a queue is linked there and nowhere else; the process of a linked entry is
  asleep, or has been made runnable by a timer or a signal and not yet left the queue.
\<close>

definition wait_inv :: "kern \<Rightarrow> bool" where
  "wait_inv s \<longleftrightarrow> (\<forall>q. distinct (queues s q)) \<and>
     (\<forall>q w. (w \<in> set (queues s q)) = (wait_linked (waits s w) \<and> wait_queue (waits s w) = q)) \<and>
     (\<forall>w. wait_linked (waits s w) \<longrightarrow>
        state (procs s (wait_proc (waits s w))) \<in> {PROC_SLEEPING, PROC_RUNNABLE} \<and>
        pid (procs s (wait_proc (waits s w))) \<ge> lcpu_count s)"

lemma wait_invD:
  assumes "wait_inv s" and "w \<in> set (queues s q)"
  shows "wait_linked (waits s w)" and "wait_queue (waits s w) = q"
    and "state (procs s (wait_proc (waits s w))) \<noteq> PROC_ZOMBIE"
    and "pid (procs s (wait_proc (waits s w))) \<ge> lcpu_count s"
  using assms by (fastforce simp: wait_inv_def)+

lemma wakeup_wait_correct:
  assumes si: "sched_inv s" and wi: "wait_inv s" and q: "queues s q = w # ws"
  shows "\<exists>s'. wakeup_wait q w fl True s = Some s' \<and> sched_inv s' \<and> wait_inv s' \<and> current s' = current s \<and>
    queues s' = (queues s)(q := ws) \<and>
    waits s' = (waits s)(w := (waits s w)\<lparr>wakeup_flags := fl, wait_linked := False\<rparr>) \<and>
    set (ready s') = set (ready s) \<union>
      (let p = wait_proc (waits s w) in
       if state (procs s p) \<noteq> PROC_RUNNABLE \<and> p \<noteq> current s \<and> p \<noteq> idleproc s then {p} else {}) \<and>
    (\<forall>p. state (procs s' p) = (if p = wait_proc (waits s w) then PROC_RUNNABLE else state (procs s p))) \<and>
    (\<forall>p. wait_state (procs s' p) = (if p = wait_proc (waits s w) \<and> state (procs s p) \<noteq> PROC_RUNNABLE
       then 0 else wait_state (procs s p))) \<and>
    (\<forall>p. pid (procs s' p) = pid (procs s p) \<and> mm (procs s' p) = mm (procs s p)) \<and>
    idleproc s' = idleproc s \<and> lcpu_count s' = lcpu_count s \<and> timers s' = timers s \<and> timer_list s' = timer_list s"
proof -
  let ?p = "wait_proc (waits s w)"
  have w: "w \<in> set (queues s q)" using q by simp
  note d = wait_invD [OF wi w]
  let ?s1 = "upd_wait w (\<lambda>x. x\<lparr>wakeup_flags := fl\<rparr>)
    (set_queue q (remove1 w (queues s q)) (upd_wait w (\<lambda>x. x\<lparr>wait_linked := False\<rparr>) s))"
  have "sched_inv ?s1" using si sched_inv_cong [of ?s1 s] by simp
  then obtain s' where s': "wakeup_proc ?p ?s1 = Some s'" "sched_inv s'" "current s' = current s"
    "set (ready s') = set (ready s) \<union>
      (if state (procs s ?p) \<noteq> PROC_RUNNABLE \<and> ?p \<noteq> current s \<and> ?p \<noteq> idleproc s then {?p} else {})"
    "\<forall>q. state (procs s' q) = (if q = ?p then PROC_RUNNABLE else state (procs s q))"
    "\<forall>q. wait_state (procs s' q) = (if q = ?p \<and> state (procs s ?p) \<noteq> PROC_RUNNABLE then 0 else wait_state (procs s q))"
    "\<forall>q. pid (procs s' q) = pid (procs s q) \<and> mm (procs s' q) = mm (procs s q)"
    "idleproc s' = idleproc s" "lcpu_count s' = lcpu_count s" "timers s' = timers s"
    "timer_list s' = timer_list s" "waits s' = waits ?s1" "queues s' = queues ?s1"
    using wakeup_proc_correct [of ?s1 ?p] d by (auto simp: ready_def)
  have ww: "waits s' = (waits s)(w := (waits s w)\<lparr>wakeup_flags := fl, wait_linked := False\<rparr>)"
    unfolding s'(12) by (auto simp: fun_eq_iff)
  have qq: "queues s' = (queues s)(q := ws)" unfolding s'(13) using q by (auto simp: fun_eq_iff)
  have dq: "distinct (queues s r)" and mem: "(v \<in> set (queues s r)) = (wait_linked (waits s v) \<and> wait_queue (waits s v) = r)" for r v
    using wi by (simp_all add: wait_inv_def)
  have "w \<notin> set ws" "distinct ws" using dq [of q] q by simp_all
  moreover have "(v \<in> set ws) = (v \<noteq> w \<and> wait_linked (waits s v) \<and> wait_queue (waits s v) = q)" for v
    using mem [of v q] q calculation by auto
  ultimately have "wait_inv s'"
    using dq mem d(2) wi s'(5,7,9) unfolding wait_inv_def ww qq by (auto simp: d(2))
  moreover have "wakeup_wait q w fl True s = Some s'"
    using s'(1) d by (simp add: wakeup_wait_def wait_queue_del_def)
  ultimately show ?thesis using s' ww qq by auto
qed

lemma wakeup_queue_del_correct:
  assumes "sched_inv s" and "wait_inv s"
  shows "\<exists>s'. wakeup_queue_del q fl s = Some s' \<and> sched_inv s' \<and> wait_inv s' \<and> current s' = current s \<and>
    queues s' = (queues s)(q := []) \<and>
    (\<forall>w. waits s' w = (if w \<in> set (queues s q) then (waits s w)\<lparr>wakeup_flags := fl, wait_linked := False\<rparr> else waits s w)) \<and>
    (\<forall>p. state (procs s' p) = (if p \<in> (\<lambda>w. wait_proc (waits s w)) ` set (queues s q) then PROC_RUNNABLE else state (procs s p))) \<and>
    (\<forall>p. p \<notin> (\<lambda>w. wait_proc (waits s w)) ` set (queues s q) \<longrightarrow> wait_state (procs s' p) = wait_state (procs s p)) \<and>
    (\<forall>p. wait_state (procs s' p) \<in> {wait_state (procs s p), 0}) \<and>
    (\<forall>p. pid (procs s' p) = pid (procs s p)) \<and> idleproc s' = idleproc s \<and> lcpu_count s' = lcpu_count s \<and> timers s' = timers s \<and> timer_list s' = timer_list s"
  using assms
proof (induction "queues s q" arbitrary: s)
  case Nil
  from Nil(1) [symmetric] have "wakeup_queue_del q fl s = Some s"
    by (simp add: wakeup_queue_del.simps [of q fl s] wait_queue_first_def)
  moreover have "queues s = (queues s)(q := [])" using Nil(1) by auto
  ultimately show ?case using Nil by auto
next
  case (Cons w ws)
  have q: "queues s q = w # ws" using Cons.hyps(2) by simp
  obtain s1 where s1: "wakeup_wait q w fl True s = Some s1" "sched_inv s1" "wait_inv s1" "current s1 = current s"
    "queues s1 = (queues s)(q := ws)"
    "waits s1 = (waits s)(w := (waits s w)\<lparr>wakeup_flags := fl, wait_linked := False\<rparr>)"
    "\<forall>p. state (procs s1 p) = (if p = wait_proc (waits s w) then PROC_RUNNABLE else state (procs s p))"
    "\<forall>p. p \<noteq> wait_proc (waits s w) \<longrightarrow> wait_state (procs s1 p) = wait_state (procs s p)"
    "\<forall>p. wait_state (procs s1 p) \<in> {wait_state (procs s p), 0}"
    "\<forall>p. pid (procs s1 p) = pid (procs s p)" "idleproc s1 = idleproc s" "lcpu_count s1 = lcpu_count s" "timers s1 = timers s" "timer_list s1 = timer_list s"
    using wakeup_wait_correct [OF Cons.prems q, of fl] by auto
  have ws: "w \<notin> set ws" using Cons.prems(2) q by (metis distinct.simps(2) wait_inv_def)
  have wp: "wait_proc (waits s1 v) = wait_proc (waits s v)" for v by (simp add: s1(6))
  have "ws = queues s1 q" by (simp add: s1(5))
  from Cons.hyps(1) [OF this s1(2,3)] obtain s' where s': "wakeup_queue_del q fl s1 = Some s'" "sched_inv s'"
    "wait_inv s'" "current s' = current s1" "queues s' = (queues s1)(q := [])"
    "\<forall>w. waits s' w = (if w \<in> set ws then (waits s1 w)\<lparr>wakeup_flags := fl, wait_linked := False\<rparr> else waits s1 w)"
    "\<forall>p. state (procs s' p) = (if p \<in> (\<lambda>w. wait_proc (waits s w)) ` set ws then PROC_RUNNABLE else state (procs s1 p))"
    "\<forall>p. p \<notin> (\<lambda>w. wait_proc (waits s w)) ` set ws \<longrightarrow> wait_state (procs s' p) = wait_state (procs s1 p)"
    "\<forall>p. wait_state (procs s' p) \<in> {wait_state (procs s1 p), 0}"
    "\<forall>p. pid (procs s' p) = pid (procs s1 p)" "idleproc s' = idleproc s1" "lcpu_count s' = lcpu_count s1" "timers s' = timers s1" "timer_list s' = timer_list s1"
    unfolding s1(5) wp by auto
  have "wakeup_queue_del q fl s = Some s'"
    using s1(1) s'(1) q by (simp add: wakeup_queue_del.simps [of q fl s] wait_queue_first_def)
  moreover have "\<forall>p. wait_state (procs s' p) \<in> {wait_state (procs s p), 0}"
    using s1(9) s'(9) by (metis insertE insertI1 insertI2 singletonD)
  ultimately show ?case using s'(1-8,10-14) s1(1-8,10-14) q ws by (auto simp: fun_eq_iff)
qed

lemma wakeup_queue_correct:
  assumes "sched_inv s" and "wait_inv s"
  shows "\<exists>s'. wakeup_queue q fl True s = Some s' \<and> sched_inv s' \<and> wait_inv s' \<and> current s' = current s \<and>
    queues s' = (queues s)(q := []) \<and>
    (\<forall>w. waits s' w = (if w \<in> set (queues s q) then (waits s w)\<lparr>wakeup_flags := fl, wait_linked := False\<rparr> else waits s w)) \<and>
    (\<forall>p. state (procs s' p) = (if p \<in> (\<lambda>w. wait_proc (waits s w)) ` set (queues s q) then PROC_RUNNABLE else state (procs s p))) \<and>
    (\<forall>p. p \<notin> (\<lambda>w. wait_proc (waits s w)) ` set (queues s q) \<longrightarrow> wait_state (procs s' p) = wait_state (procs s p)) \<and>
    (\<forall>p. wait_state (procs s' p) \<in> {wait_state (procs s p), 0}) \<and>
    (\<forall>p. pid (procs s' p) = pid (procs s p)) \<and> idleproc s' = idleproc s \<and> lcpu_count s' = lcpu_count s \<and> timers s' = timers s \<and> timer_list s' = timer_list s"
proof -
  have "wakeup_queue q fl True s = wakeup_queue_del q fl s"
    by (simp add: wakeup_queue_def wakeup_queue_del.simps [of q fl s] split: option.split)
  then show ?thesis using wakeup_queue_del_correct [OF assms] by simp
qed

text \<open>Going to sleep: the entry of the running process is appended to the queue.\<close>

lemma wait_current_set_correct:
  assumes si: "sched_inv s" and wi: "wait_inv s" and w: "\<not> wait_linked (waits s w)"
    and c: "pid (procs s (current s)) \<ge> lcpu_count s"
  shows "\<exists>s'. wait_current_set q w ws s = Some s' \<and> sched_inv s' \<and> wait_inv s' \<and> current s' = current s \<and>
    queues s' = (queues s)(q := queues s q @ [w]) \<and>
    waits s' = (waits s)(w := \<lparr>wait_proc = current s, wakeup_flags = WT_INTERRUPTED, wait_queue = q, wait_linked = True\<rparr>) \<and>
    state (procs s' (current s)) = PROC_SLEEPING \<and> wait_state (procs s' (current s)) = ws \<and>
    (\<forall>p. p \<noteq> current s \<longrightarrow> procs s' p = procs s p) \<and> (\<forall>p. pid (procs s' p) = pid (procs s p)) \<and> run_queues s' = run_queues s \<and>
    idleproc s' = idleproc s \<and> lcpu_count s' = lcpu_count s \<and> timers s' = timers s \<and> timer_list s' = timer_list s"
proof -
  let ?s1 = "upd_proc (current s) (\<lambda>pr. pr\<lparr>state := PROC_SLEEPING, wait_state := ws\<rparr>) (wait_init w (current s) s)"
  let ?s' = "set_queue q (queues s q @ [w]) (upd_wait w (\<lambda>x. x\<lparr>wait_queue := q, wait_linked := True\<rparr>) ?s1)"
  have "wait_current_set q w ws s = Some ?s'"
    by (simp add: wait_current_set_def wait_queue_add_def wait_init_def)
  moreover have ww: "waits ?s' = (waits s)(w := \<lparr>wait_proc = current s, wakeup_flags = WT_INTERRUPTED,
      wait_queue = q, wait_linked = True\<rparr>)"
    by (auto simp: fun_eq_iff wait_init_def)
  moreover have qq: "queues ?s' = (queues s)(q := queues s q @ [w])" by (auto simp: fun_eq_iff wait_init_def)
  moreover have "links_ok [] ?s'"
    using si links_ok_cong [of ?s' s] by (simp add: sched_inv_def wait_init_def)
  then have "sched_inv ?s'" using si by (auto simp: sched_inv_def wait_init_def ready_def)
  moreover have "w \<notin> set (queues s r)" for r using wi w by (auto simp: wait_inv_def)
  then have "wait_inv ?s'"
    using wi c unfolding wait_inv_def ww qq by (auto simp: wait_init_def)
  ultimately show ?thesis by (auto simp: wait_init_def)
qed

text \<open>Waking up: the entry leaves the queue if nobody took it off before.\<close>

lemma wait_current_del_correct:
  assumes si: "sched_inv s" and wi: "wait_inv s" and w: "wait_linked (waits s w) \<longrightarrow> wait_queue (waits s w) = q"
  shows "\<exists>s'. wait_current_del q w s = Some s' \<and> sched_inv s' \<and> wait_inv s' \<and> current s' = current s \<and>
    queues s' = (queues s)(q := remove1 w (queues s q)) \<and>
    waits s' = (waits s)(w := (waits s w)\<lparr>wait_linked := False\<rparr>) \<and> procs s' = procs s \<and>
    run_queues s' = run_queues s \<and> idleproc s' = idleproc s \<and> lcpu_count s' = lcpu_count s \<and>
    timers s' = timers s \<and> timer_list s' = timer_list s"
proof (cases "wait_linked (waits s w)")
  case False
  then have "w \<notin> set (queues s q)" using wi by (auto simp: wait_inv_def)
  moreover have "(waits s)(w := (waits s w)\<lparr>wait_linked := False\<rparr>) = waits s" using False by (auto simp: fun_eq_iff)
  moreover have "(queues s)(q := remove1 w (queues s q)) = queues s"
    using calculation(1) by (auto simp: remove1_idem)
  ultimately show ?thesis using False si wi by (simp add: wait_current_del_def wait_in_queue_def)
next
  case True
  let ?s' = "set_queue q (remove1 w (queues s q)) (upd_wait w (\<lambda>x. x\<lparr>wait_linked := False\<rparr>) s)"
  have "wait_current_del q w s = Some ?s'"
    using True w by (simp add: wait_current_del_def wait_in_queue_def wait_queue_del_def)
  moreover have ww: "waits ?s' = (waits s)(w := (waits s w)\<lparr>wait_linked := False\<rparr>)" by (auto simp: fun_eq_iff)
  moreover have qq: "queues ?s' = (queues s)(q := remove1 w (queues s q))" by (auto simp: fun_eq_iff)
  moreover have "sched_inv ?s'" using si sched_inv_cong [of ?s' s] by simp
  moreover have "w \<notin> set (queues s r)" if "r \<noteq> q" for r using wi w True that by (auto simp: wait_inv_def)
  then have "wait_inv ?s'" using wi unfolding wait_inv_def ww qq by auto
  ultimately show ?thesis by simp
qed

lemma schedule_wait:
  assumes "sched_inv s" and "wait_inv s" and "schedule s = Some s'"
  shows "wait_inv s'"
  using assms schedule_frame [OF assms(1,3)] by (simp add: wait_inv_def proc_frame_def)

end
