(* ===== verification/Sem.thy ===== *)
theory Sem
  imports Wait
begin

text \<open>
  Semaphores (\<^verbatim>\<open>sync/sem.c\<close>, \<^verbatim>\<open>sync/ipc.h\<close>). \<^verbatim>\<open>__down\<close> is two operations: \<^verbatim>\<open>down_start\<close> up to the call
  of \<^verbatim>\<open>schedule()\<close>, \<^verbatim>\<open>down_finish\<close> after it. The protocol of the processes that use one kernel
  semaphore is the step relation \<^verbatim>\<open>sem_step\<close>, whose steps are these operations and the scheduler;
  its invariant gives mutual exclusion and that no wake-up is lost.
\<close>

section \<open>The code\<close>

record semaphore =
  sem_value :: int
  sem_valid :: bool
  sem_count :: int
  sem_queue :: queue_id

definition sem_init :: "int \<Rightarrow> queue_id \<Rightarrow> kern \<Rightarrow> semaphore \<times> kern" where
  "sem_init v q s = (\<lparr>sem_value = v, sem_valid = True, sem_count = 0, sem_queue = q\<rparr>, wait_queue_init q s)"

definition ipc_add_timer :: "timer_id option \<Rightarrow> kern \<Rightarrow> kern option" where
  "ipc_add_timer t s = (case t of None \<Rightarrow> Some s | Some t \<Rightarrow> add_timer t s)"

definition ipc_del_timer :: "timer_id option \<Rightarrow> kern \<Rightarrow> kern" where
  "ipc_del_timer t s = (case t of None \<Rightarrow> s | Some t \<Rightarrow> del_timer t s)"

definition ipc_timer_init :: "nat \<Rightarrow> timer_id \<Rightarrow> kern \<Rightarrow> timer_id option \<times> kern" where
  "ipc_timer_init timeout t s =
     (if timeout \<noteq> 0 then (Some t, timer_init t (current s) timeout s) else (None, s))"

definition ipc_check_timeout :: "nat \<Rightarrow> u64 \<Rightarrow> u64 \<Rightarrow> int" where
  "ipc_check_timeout timeout saved_ticks ticks =
     (if timeout \<noteq> 0 \<and> unat (ticks - saved_ticks) \<ge> timeout then - E_TIMEOUT else - 1)"

definition up_on :: "u32 \<Rightarrow> semaphore \<Rightarrow> kern \<Rightarrow> (semaphore \<times> kern) option" where
  "up_on ws sem s = do {
     kassert (sem_valid sem);
     (case wait_queue_first (sem_queue sem) s of
        None \<Rightarrow> Some (sem\<lparr>sem_value := sem_value sem + 1\<rparr>, s)
      | Some w \<Rightarrow> do {
          kassert (wait_state (procs s (wait_proc (waits s w))) = ws);
          s \<leftarrow> wakeup_wait (sem_queue sem) w ws True s;
          Some (sem, s)
        })
   }"

text \<open>\<open>True\<close>: the value was taken. \<open>False\<close>: the running process is on the queue and must call \<^verbatim>\<open>schedule\<close>.\<close>

definition down_start :: "u32 \<Rightarrow> timer_id option \<Rightarrow> wait_id \<Rightarrow> semaphore \<Rightarrow> kern \<Rightarrow>
    (bool \<times> semaphore \<times> kern) option" where
  "down_start ws timer w sem s = do {
     kassert (sem_valid sem);
     if sem_value sem > 0 then Some (True, sem\<lparr>sem_value := sem_value sem - 1\<rparr>, s)
     else do {
       s \<leftarrow> wait_current_set (sem_queue sem) w ws s;
       s \<leftarrow> ipc_add_timer timer s;
       Some (False, sem, s)
     }
   }"

definition down_finish :: "u32 \<Rightarrow> timer_id option \<Rightarrow> wait_id \<Rightarrow> semaphore \<Rightarrow> kern \<Rightarrow> (u32 \<times> kern) option" where
  "down_finish ws timer w sem s = do {
     let s = ipc_del_timer timer s in do {
     s \<leftarrow> wait_current_del (sem_queue sem) w s;
     Some (if wakeup_flags (waits s w) \<noteq> ws then wakeup_flags (waits s w) else 0, s)
   }}"

definition up :: "semaphore \<Rightarrow> kern \<Rightarrow> (semaphore \<times> kern) option" where
  "up sem s = up_on WT_KSEM sem s"

text \<open>\<^verbatim>\<open>down\<close>: both parts, the second with its assertion that the wait was not interrupted.\<close>

definition ksem_down :: "wait_id \<Rightarrow> semaphore \<Rightarrow> kern \<Rightarrow> (bool \<times> semaphore \<times> kern) option" where
  "ksem_down w sem s = down_start WT_KSEM None w sem s"

definition ksem_resume :: "wait_id \<Rightarrow> semaphore \<Rightarrow> kern \<Rightarrow> kern option" where
  "ksem_resume w sem s = do {
     (fl, s) \<leftarrow> down_finish WT_KSEM None w sem s;
     kassert (fl = 0);
     Some s
   }"

definition try_down :: "semaphore \<Rightarrow> bool \<times> semaphore" where
  "try_down sem =
     (if sem_value sem > 0 then (True, sem\<lparr>sem_value := sem_value sem - 1\<rparr>) else (False, sem))"

definition usem_up :: "semaphore \<Rightarrow> kern \<Rightarrow> (int \<times> semaphore \<times> kern) option" where
  "usem_up sem s = do { (sem, s) \<leftarrow> up_on WT_USEM sem s; Some (0, sem, s) }"

definition usem_down :: "nat \<Rightarrow> timer_id \<Rightarrow> wait_id \<Rightarrow> semaphore \<Rightarrow> kern \<Rightarrow>
    (bool \<times> timer_id option \<times> semaphore \<times> kern) option" where
  "usem_down timeout t w sem s =
     (case ipc_timer_init timeout t s of
        (timer, s) \<Rightarrow> do { (done, sem, s) \<leftarrow> down_start WT_USEM timer w sem s; Some (done, timer, sem, s) })"

definition usem_resume :: "nat \<Rightarrow> u64 \<Rightarrow> u64 \<Rightarrow> timer_id option \<Rightarrow> wait_id \<Rightarrow> semaphore \<Rightarrow> kern \<Rightarrow> (int \<times> kern) option" where
  "usem_resume timeout saved_ticks ticks timer w sem s = do {
     (fl, s) \<leftarrow> down_finish WT_USEM timer w sem s;
     if fl = 0 then Some (0, s)
     else do { kassert (fl = WT_INTERRUPTED); Some (ipc_check_timeout timeout saved_ticks ticks, s) }
   }"

section \<open>The protocol of a kernel semaphore\<close>

text \<open>
  Where a process stands: outside, waiting with its wait entry (it has called \<^verbatim>\<open>down\<close> and not
  returned), or inside (it has returned from \<^verbatim>\<open>down\<close> and will call \<^verbatim>\<open>up\<close>).
\<close>

datatype pc = Outside | Waiting wait_id | Inside

record sem_sys =
  sem :: semaphore
  sk :: kern
  pcs :: "proc_id \<Rightarrow> pc"

inductive sem_step :: "sem_sys \<Rightarrow> sem_sys \<Rightarrow> bool" where
  enter: "pcs c (current (sk c)) = Outside \<Longrightarrow> ksem_down w (sem c) (sk c) = Some (True, m, s) \<Longrightarrow>
    sem_step c \<lparr>sem = m, sk = s, pcs = (pcs c)(current (sk c) := Inside)\<rparr>"
| block: "pcs c (current (sk c)) = Outside \<Longrightarrow> current (sk c) \<noteq> idleproc (sk c) \<Longrightarrow>
    \<not> wait_linked (waits (sk c) w) \<Longrightarrow> (\<forall>p. pcs c p \<noteq> Waiting w) \<Longrightarrow>
    pid (procs (sk c) (current (sk c))) \<ge> lcpu_count (sk c) \<Longrightarrow>
    ksem_down w (sem c) (sk c) = Some (False, m, s) \<Longrightarrow> schedule s = Some s' \<Longrightarrow>
    sem_step c \<lparr>sem = m, sk = s', pcs = (pcs c)(current (sk c) := Waiting w)\<rparr>"
| resume: "pcs c (current (sk c)) = Waiting w \<Longrightarrow> ksem_resume w (sem c) (sk c) = Some s \<Longrightarrow>
    sem_step c \<lparr>sem = sem c, sk = s, pcs = (pcs c)(current (sk c) := Inside)\<rparr>"
| leave: "pcs c (current (sk c)) = Inside \<Longrightarrow> up (sem c) (sk c) = Some (m, s) \<Longrightarrow>
    sem_step c \<lparr>sem = m, sk = s, pcs = (pcs c)(current (sk c) := Outside)\<rparr>"
| switch: "schedule (sk c) = Some s \<Longrightarrow> sem_step c (c\<lparr>sk := s\<rparr>)"

inductive_cases sem_stepE: "sem_step c c'"

section \<open>The invariant of the protocol\<close>

text \<open>The processes inside, and those already handed the semaphore by \<^verbatim>\<open>up\<close> but not yet running.\<close>

definition holders :: "sem_sys \<Rightarrow> proc_id set" where
  "holders c = {p. pcs c p = Inside \<or> (\<exists>w. pcs c p = Waiting w \<and> \<not> wait_linked (waits (sk c) w))}"

definition waiter_ok :: "sem_sys \<Rightarrow> proc_id \<Rightarrow> wait_id \<Rightarrow> bool" where
  "waiter_ok c p w \<longleftrightarrow> wait_proc (waits (sk c) w) = p \<and> p \<noteq> idleproc (sk c) \<and>
     (if wait_linked (waits (sk c) w)
      then wait_queue (waits (sk c) w) = sem_queue (sem c) \<and> state (procs (sk c) p) = PROC_SLEEPING \<and>
        wait_state (procs (sk c) p) = WT_KSEM
      else wakeup_flags (waits (sk c) w) = WT_KSEM)"

definition sem_inv :: "nat \<Rightarrow> sem_sys \<Rightarrow> bool" where
  "sem_inv n c \<longleftrightarrow> sched_inv (sk c) \<and> wait_inv (sk c) \<and> sem_valid (sem c) \<and> finite (holders c) \<and>
     0 \<le> sem_value (sem c) \<and> sem_value (sem c) + int (card (holders c)) = int n \<and>
     (0 < sem_value (sem c) \<longrightarrow> queues (sk c) (sem_queue (sem c)) = []) \<and>
     (\<forall>p w. pcs c p = Waiting w \<longrightarrow> waiter_ok c p w) \<and>
     (\<forall>w \<in> set (queues (sk c) (sem_queue (sem c))). pcs c (wait_proc (waits (sk c) w)) = Waiting w) \<and>
     (current (sk c) = idleproc (sk c) \<or> state (procs (sk c) (current (sk c))) = PROC_RUNNABLE)"

lemma sem_invD:
  assumes "sem_inv n c"
  shows "sched_inv (sk c)" "wait_inv (sk c)" "sem_valid (sem c)" "finite (holders c)" "0 \<le> sem_value (sem c)"
    "sem_value (sem c) + int (card (holders c)) = int n"
    "0 < sem_value (sem c) \<Longrightarrow> queues (sk c) (sem_queue (sem c)) = []"
    "pcs c p = Waiting w \<Longrightarrow> waiter_ok c p w"
    "v \<in> set (queues (sk c) (sem_queue (sem c))) \<Longrightarrow> pcs c (wait_proc (waits (sk c) v)) = Waiting v"
    "current (sk c) = idleproc (sk c) \<or> state (procs (sk c) (current (sk c))) = PROC_RUNNABLE"
  using assms by (auto simp: sem_inv_def)

text \<open>A context switch touches nothing the invariant speaks of.\<close>

lemma sem_inv_switch:
  assumes "sem_inv n c" and "schedule (sk c) = Some s"
  shows "sem_inv n (c\<lparr>sk := s\<rparr>)"
proof -
  note d = sem_invD [OF assms(1)]
  note f = schedule_frame [OF d(1) assms(2)]
  have "holders (c\<lparr>sk := s\<rparr>) = holders c" using f(2) by (simp add: holders_def proc_frame_def)
  moreover have "waiter_ok (c\<lparr>sk := s\<rparr>) p w = waiter_ok c p w" for p w
    using f(2) by (simp add: waiter_ok_def proc_frame_def)
  moreover have "wait_inv s" by (rule schedule_wait [OF d(1,2) assms(2)])
  ultimately show ?thesis
    using assms(1) f by (simp add: sem_inv_def proc_frame_def)
qed

lemma enter_facts:
  assumes "sem_inv n c" and "ksem_down w (sem c) (sk c) = Some (True, m, s)"
  shows "0 < sem_value (sem c)" "m = (sem c)\<lparr>sem_value := sem_value (sem c) - 1\<rparr>" "s = sk c"
  using assms(2) sem_invD(3) [OF assms(1)] by (auto simp: ksem_down_def down_start_def elim!: bind_SomeE split: if_splits)

lemma sem_inv_enter:
  assumes inv: "sem_inv n c" and pc: "pcs c (current (sk c)) = Outside"
    and down: "ksem_down w (sem c) (sk c) = Some (True, m, s)"
  shows "sem_inv n \<lparr>sem = m, sk = s, pcs = (pcs c)(current (sk c) := Inside)\<rparr>" (is "sem_inv n ?c")
proof -
  note d = sem_invD [OF inv]
  note v = enter_facts [OF inv down]
  have h: "holders ?c = insert (current (sk c)) (holders c)" "current (sk c) \<notin> holders c"
    using v(3) pc by (auto simp: holders_def)
  have "waiter_ok ?c p w = waiter_ok c p w" for p w using v by (simp add: waiter_ok_def)
  then show ?thesis
    using inv v h d(7) [OF v(1)] by (auto simp: sem_inv_def)
qed

lemma block_facts:
  assumes inv: "sem_inv n c" and w: "\<not> wait_linked (waits (sk c) w)" and pid: "pid (procs (sk c) (current (sk c))) \<ge> lcpu_count (sk c)"
    and down: "ksem_down w (sem c) (sk c) = Some (False, m, s)"
  shows "sem_value (sem c) = 0 \<and> m = sem c \<and> sched_inv s \<and> wait_inv s \<and>
    queues s = (queues (sk c))(sem_queue (sem c) := queues (sk c) (sem_queue (sem c)) @ [w]) \<and>
    waits s = (waits (sk c))(w := \<lparr>wait_proc = current (sk c), wakeup_flags = WT_INTERRUPTED, wait_queue = sem_queue (sem c), wait_linked = True\<rparr>) \<and>
    state (procs s (current (sk c))) = PROC_SLEEPING \<and> wait_state (procs s (current (sk c))) = WT_KSEM \<and>
    (\<forall>p. p \<noteq> current (sk c) \<longrightarrow> procs s p = procs (sk c) p) \<and> idleproc s = idleproc (sk c)"
proof -
  note d = sem_invD [OF inv]
  have "sem_value (sem c) = 0" "m = sem c" "wait_current_set (sem_queue (sem c)) w WT_KSEM (sk c) = Some s"
    using down d(3,5) by (auto simp: ksem_down_def down_start_def ipc_add_timer_def elim!: bind_SomeE split: if_splits)
  then show ?thesis using wait_current_set_correct [OF d(1,2) w pid, of "sem_queue (sem c)" WT_KSEM] by auto
qed

lemma sem_inv_block:
  assumes inv: "sem_inv n c" and pc: "pcs c (current (sk c)) = Outside" and idle: "current (sk c) \<noteq> idleproc (sk c)"
    and w: "\<not> wait_linked (waits (sk c) w)" "\<forall>p. pcs c p \<noteq> Waiting w"
    and pid: "pid (procs (sk c) (current (sk c))) \<ge> lcpu_count (sk c)"
    and down: "ksem_down w (sem c) (sk c) = Some (False, m, s)" and sch: "schedule s = Some s'"
  shows "sem_inv n \<lparr>sem = m, sk = s', pcs = (pcs c)(current (sk c) := Waiting w)\<rparr>" (is "sem_inv n ?c")
proof -
  note d = sem_invD [OF inv]
  let ?q = "sem_queue (sem c)" and ?cur = "current (sk c)"
  have v: "sem_value (sem c) = 0" "m = sem c" and s1: "sched_inv s" "wait_inv s" "queues s = (queues (sk c))(?q := queues (sk c) ?q @ [w])"
    "waits s = (waits (sk c))(w := \<lparr>wait_proc = ?cur, wakeup_flags = WT_INTERRUPTED, wait_queue = ?q, wait_linked = True\<rparr>)"
    "state (procs s ?cur) = PROC_SLEEPING" "wait_state (procs s ?cur) = WT_KSEM"
    "\<forall>p. p \<noteq> ?cur \<longrightarrow> procs s p = procs (sk c) p" "idleproc s = idleproc (sk c)"
    using block_facts [OF inv w(1) pid down] by blast+
  note f = schedule_frame [OF s1(1) sch]
  have wi': "wait_inv s'" by (rule schedule_wait [OF s1(1,2) sch])
  have fr: "waits s' = waits s" "queues s' = queues s" "idleproc s' = idleproc s"
    "\<And>p. state (procs s' p) = state (procs s p) \<and> wait_state (procs s' p) = wait_state (procs s p)"
    using f(2) by (simp_all add: proc_frame_def)
  have h: "holders ?c = holders c"
    using w pc unfolding holders_def by (auto simp: fr s1(4))
  have old: "waiter_ok ?c p u" if "pcs c p = Waiting u" for p u
  proof -
    have "u \<noteq> w" "p \<noteq> ?cur" using that w(2) pc by auto
    then show ?thesis
      using d(8) [OF that] s1(7) by (simp add: waiter_ok_def fr s1(4,8) v)
  qed
  have new: "waiter_ok ?c ?cur w" using s1(5,6,8) idle by (simp add: waiter_ok_def fr s1(4) v)
  have q: "pcs ?c (wait_proc (waits s' u)) = Waiting u" if "u \<in> set (queues s' ?q)" for u
  proof (cases "u = w")
    case False
    then have "u \<in> set (queues (sk c) ?q)" using that by (simp add: fr s1(3))
    then have "pcs c (wait_proc (waits (sk c) u)) = Waiting u" by (rule d(9))
    then show ?thesis using False pc by (auto simp: fr s1(4))
  qed (simp add: fr s1(4))
  show ?thesis
    unfolding sem_inv_def
    using f(1,3) wi' d(3,4,6) h old new q v fr by (auto split: if_splits)
qed

lemma resume_facts:
  assumes inv: "sem_inv n c" and pc: "pcs c (current (sk c)) = Waiting w" and res: "ksem_resume w (sem c) (sk c) = Some s"
  shows "\<not> wait_linked (waits (sk c) w)" "s = sk c"
proof -
  note d = sem_invD [OF inv]
  show nl: "\<not> wait_linked (waits (sk c) w)" using d(8) [OF pc] d(10) by (auto simp: waiter_ok_def split: if_splits)
  then show "s = sk c"
    using res by (auto simp: ksem_resume_def down_finish_def ipc_del_timer_def wait_current_del_def wait_in_queue_def Let_def
        elim!: bind_SomeE split: if_splits)
qed

lemma sem_inv_resume:
  assumes inv: "sem_inv n c" and pc: "pcs c (current (sk c)) = Waiting w"
    and res: "ksem_resume w (sem c) (sk c) = Some s"
  shows "sem_inv n \<lparr>sem = sem c, sk = s, pcs = (pcs c)(current (sk c) := Inside)\<rparr>" (is "sem_inv n ?c")
proof -
  note d = sem_invD [OF inv]
  note nl = resume_facts(1) [OF inv pc res] and s = resume_facts(2) [OF inv pc res]
  have h: "holders ?c = holders c" using pc nl s by (auto simp: holders_def)
  have wo: "waiter_ok ?c p u = waiter_ok c p u" for p u using s by (simp add: waiter_ok_def)
  have "w \<notin> set (queues (sk c) (sem_queue (sem c)))" using nl d(2) by (auto simp: wait_inv_def)
  then have "pcs ?c (wait_proc (waits (sk c) u)) = Waiting u" if "u \<in> set (queues (sk c) (sem_queue (sem c)))" for u
    using d(9) [OF that] that pc by fastforce
  then show ?thesis
    unfolding sem_inv_def using d h wo s by (auto split: if_splits)
qed

text \<open>Handing the semaphore to the first waiter.\<close>

lemma up_waiter:
  assumes inv: "sem_inv n c" and q: "queues (sk c) (sem_queue (sem c)) = w # ws"
  shows "\<exists>p s. pcs c p = Waiting w \<and> wait_linked (waits (sk c) w) \<and> p \<notin> holders c \<and>
    up (sem c) (sk c) = Some (sem c, s) \<and> sched_inv s \<and> wait_inv s \<and> current s = current (sk c) \<and>
    idleproc s = idleproc (sk c) \<and> queues s = (queues (sk c))(sem_queue (sem c) := ws) \<and>
    waits s = (waits (sk c))(w := (waits (sk c) w)\<lparr>wakeup_flags := WT_KSEM, wait_linked := False\<rparr>) \<and>
    (\<forall>r. r \<noteq> p \<longrightarrow> state (procs s r) = state (procs (sk c) r) \<and> wait_state (procs s r) = wait_state (procs (sk c) r)) \<and>
    state (procs s p) = PROC_RUNNABLE"
proof -
  note d = sem_invD [OF inv]
  let ?p = "wait_proc (waits (sk c) w)"
  have w: "w \<in> set (queues (sk c) (sem_queue (sem c)))" using q by simp
  have pw: "pcs c ?p = Waiting w" by (rule d(9) [OF w])
  have lk: "wait_linked (waits (sk c) w)" by (rule wait_invD(1) [OF d(2) w])
  have ws: "wait_state (procs (sk c) ?p) = WT_KSEM" using d(8) [OF pw] lk by (simp add: waiter_ok_def)
  obtain s where s: "wakeup_wait (sem_queue (sem c)) w WT_KSEM True (sk c) = Some s" "sched_inv s" "wait_inv s"
    "current s = current (sk c)" "queues s = (queues (sk c))(sem_queue (sem c) := ws)"
    "waits s = (waits (sk c))(w := (waits (sk c) w)\<lparr>wakeup_flags := WT_KSEM, wait_linked := False\<rparr>)"
    "\<forall>r. state (procs s r) = (if r = ?p then PROC_RUNNABLE else state (procs (sk c) r))"
    "\<forall>r. wait_state (procs s r) = (if r = ?p \<and> state (procs (sk c) r) \<noteq> PROC_RUNNABLE then 0 else wait_state (procs (sk c) r))"
    "idleproc s = idleproc (sk c)"
    using wakeup_wait_correct [OF d(1,2) q, of WT_KSEM] by blast
  have "up (sem c) (sk c) = Some (sem c, s)"
    using d(3) q ws s(1) by (simp add: up_def up_on_def wait_queue_first_def)
  moreover have "?p \<notin> holders c" using pw lk by (auto simp: holders_def)
  ultimately show ?thesis using pw lk s by (intro exI [of _ ?p] exI [of _ s]) simp
qed

text \<open>
  \<^verbatim>\<open>up\<close> on a semaphore used as a lock, seen from another component: its waiters are all in
  \<^verbatim>\<open>WT_KSEM\<close>, so it returns.
\<close>

definition lock_ok :: "semaphore \<Rightarrow> kern \<Rightarrow> bool" where
  "lock_ok m s \<longleftrightarrow> sem_valid m \<and>
     (\<forall>w \<in> set (queues s (sem_queue m)). wait_state (procs s (wait_proc (waits s w))) = WT_KSEM)"

lemma up_ok:
  assumes si: "sched_inv s" and wi: "wait_inv s" and lk: "lock_ok m s"
  shows "\<exists>m' s'. up m s = Some (m', s') \<and> sched_inv s' \<and> wait_inv s' \<and> current s' = current s \<and>
    (\<forall>q. q \<noteq> sem_queue m \<longrightarrow> queues s' q = queues s q) \<and>
    (\<forall>w. wait_linked (waits s' w) \<longrightarrow> wait_linked (waits s w)) \<and>
    (\<forall>p. pid (procs s' p) = pid (procs s p)) \<and> idleproc s' = idleproc s \<and> lcpu_count s' = lcpu_count s"
proof (cases "queues s (sem_queue m)")
  case Nil
  then show ?thesis using assms by (simp add: up_def up_on_def wait_queue_first_def lock_ok_def)
next
  case (Cons w ws)
  have "wait_state (procs s (wait_proc (waits s w))) = WT_KSEM" "sem_valid m"
    using lk Cons by (simp_all add: lock_ok_def)
  moreover obtain s' where "wakeup_wait (sem_queue m) w WT_KSEM True s = Some s'" "sched_inv s'" "wait_inv s'"
    "current s' = current s" "queues s' = (queues s)(sem_queue m := ws)"
    "waits s' = (waits s)(w := (waits s w)\<lparr>wakeup_flags := WT_KSEM, wait_linked := False\<rparr>)"
    "\<forall>p. pid (procs s' p) = pid (procs s p)" "idleproc s' = idleproc s" "lcpu_count s' = lcpu_count s"
    using wakeup_wait_correct [OF si wi Cons, of WT_KSEM] by auto
  ultimately show ?thesis using Cons
    by (intro exI [of _ m] exI [of _ s']) (simp add: up_def up_on_def wait_queue_first_def)
qed

lemma sem_inv_leave:
  assumes inv: "sem_inv n c" and pc: "pcs c (current (sk c)) = Inside" and up: "up (sem c) (sk c) = Some (m, s)"
  shows "sem_inv n \<lparr>sem = m, sk = s, pcs = (pcs c)(current (sk c) := Outside)\<rparr>" (is "sem_inv n ?c")
proof (cases "queues (sk c) (sem_queue (sem c))")
  case Nil
  note d = sem_invD [OF inv]
  have v: "m = (sem c)\<lparr>sem_value := sem_value (sem c) + 1\<rparr>" "s = sk c"
    using up d(3) Nil by (auto simp: up_def up_on_def wait_queue_first_def)
  have h: "holders ?c = holders c - {current (sk c)}" "current (sk c) \<in> holders c"
    using v pc by (auto simp: holders_def)
  have "waiter_ok ?c p w = waiter_ok c p w" for p w using v by (simp add: waiter_ok_def)
  then show ?thesis
    using inv v h Nil card_Suc_Diff1 [OF d(4) h(2)] by (auto simp: sem_inv_def)
next
  case (Cons w ws)
  note d = sem_invD [OF inv]
  obtain p where p: "pcs c p = Waiting w" "wait_linked (waits (sk c) w)" "p \<notin> holders c" and m: "m = sem c"
    and s: "sched_inv s" "wait_inv s" "current s = current (sk c)" "idleproc s = idleproc (sk c)"
      "queues s = (queues (sk c))(sem_queue (sem c) := ws)"
      "waits s = (waits (sk c))(w := (waits (sk c) w)\<lparr>wakeup_flags := WT_KSEM, wait_linked := False\<rparr>)"
      "\<forall>r. r \<noteq> p \<longrightarrow> state (procs s r) = state (procs (sk c) r) \<and> wait_state (procs s r) = wait_state (procs (sk c) r)"
      "state (procs s p) = PROC_RUNNABLE"
    using up_waiter [OF inv Cons] up by auto
  have cp: "current (sk c) \<noteq> p" using pc p(1) by auto
  have uniq: "r = p" if "pcs c r = Waiting w" for r
    using d(8) [OF that] d(8) [OF p(1)] by (simp add: waiter_ok_def)
  have v0: "sem_value (sem c) = 0" using d(5,7) Cons by force
  have h: "holders ?c = insert p (holders c - {current (sk c)})"
  proof (intro set_eqI)
    fix r
    consider "r = current (sk c)" | "r = p" | "r \<noteq> current (sk c)" "r \<noteq> p" by blast
    then show "(r \<in> holders ?c) = (r \<in> insert p (holders c - {current (sk c)}))"
    proof cases
      case 1
      then show ?thesis using cp by (simp add: holders_def)
    next
      case 2
      then show ?thesis using cp p(1) by (simp add: holders_def s(6))
    next
      case 3
      then have "pcs c r \<noteq> Waiting w" using uniq by blast
      then show ?thesis using 3 by (auto simp: holders_def s(6))
    qed
  qed
  have cin: "current (sk c) \<in> holders c" using pc by (simp add: holders_def)
  have card: "card (holders ?c) = card (holders c)" "finite (holders ?c)"
    using h p(3) d(4) card_Suc_Diff1 [OF d(4) cin] by auto
  have wo: "waiter_ok ?c r u" if "pcs ?c r = Waiting u" for r u
  proof (cases "u = w")
    case True
    have "pcs c r = Waiting w" using that True by (auto split: if_splits)
    then show ?thesis
      using True uniq d(8) [OF p(1)] by (simp add: waiter_ok_def s(4,6))
  next
    case False
    have pr: "pcs c r = Waiting u" using that by (auto split: if_splits)
    then have "r \<noteq> p" using p(1) False by auto
    then show ?thesis using d(8) [OF pr] False s(7) m by (simp add: waiter_ok_def s(4,6))
  qed
  have q: "pcs ?c (wait_proc (waits s u)) = Waiting u" if "u \<in> set ws" for u
  proof -
    have "pcs c (wait_proc (waits (sk c) u)) = Waiting u" using d(9) Cons that by simp
    moreover have "wait_proc (waits s u) = wait_proc (waits (sk c) u)" by (simp add: s(6))
    ultimately show ?thesis using pc by auto
  qed
  have "current s = idleproc s \<or> state (procs s (current s)) = PROC_RUNNABLE"
    using d(10) s(3,4,7) cp by auto
  then show ?thesis
    unfolding sem_inv_def using s(1,2,3,5) m d(3,6) v0 card wo q by simp
qed

lemma sem_inv_step:
  assumes "sem_inv n c" and "sem_step c c'"
  shows "sem_inv n c'"
  using assms(2)
proof cases
  case (enter w m s)
  then show ?thesis using sem_inv_enter [OF assms(1)] by simp
next
  case (block w m s s')
  then show ?thesis using sem_inv_block [OF assms(1)] by simp
next
  case (resume w s)
  then show ?thesis using sem_inv_resume [OF assms(1)] by simp
next
  case (leave m s)
  then show ?thesis using sem_inv_leave [OF assms(1)] by simp
next
  case (switch s)
  then show ?thesis using sem_inv_switch [OF assms(1)] by simp
qed

lemma sem_inv_reachable:
  assumes "sem_step\<^sup>*\<^sup>* c c'" and "sem_inv n c"
  shows "sem_inv n c'"
  using assms by (induction rule: rtranclp_induct) (auto intro: sem_inv_step)

text \<open>The start: a fresh semaphore and every process outside.\<close>

definition sem_start :: "nat \<Rightarrow> queue_id \<Rightarrow> kern \<Rightarrow> sem_sys" where
  "sem_start n q s = (case sem_init (int n) q s of (m, s) \<Rightarrow> \<lparr>sem = m, sk = s, pcs = (\<lambda>p. Outside)\<rparr>)"

lemma sem_inv_start:
  assumes "sched_inv s" and "wait_inv s" and "queues s q = []"
    and "current s = idleproc s \<or> state (procs s (current s)) = PROC_RUNNABLE"
  shows "sem_inv n (sem_start n q s)"
proof -
  have "wait_queue_init q s = s" using assms(3) by (simp add: wait_queue_init_def set_queue_def fun_upd_idem)
  then show ?thesis
    using assms by (simp add: sem_start_def sem_init_def sem_inv_def holders_def)
qed

lemma inside_holders: "{p. pcs c p = Inside} \<subseteq> holders c"
  by (auto simp: holders_def)

section \<open>The order of service\<close>

definition waiting :: "sem_sys \<Rightarrow> wait_id list" where
  "waiting c = queues (sk c) (sem_queue (sem c))"

text \<open>A step in which a process begins to wait, and one in which a waiting process is handed the semaphore.\<close>

definition arrives :: "sem_sys \<Rightarrow> sem_sys \<Rightarrow> wait_id \<Rightarrow> bool" where
  "arrives c c' w \<longleftrightarrow> (\<exists>p. pcs c p \<noteq> Waiting w \<and> pcs c' p = Waiting w)"

definition granted :: "sem_sys \<Rightarrow> sem_sys \<Rightarrow> wait_id \<Rightarrow> bool" where
  "granted c c' w \<longleftrightarrow> (\<exists>p. pcs c p = Waiting w \<and> p \<notin> holders c \<and> p \<in> holders c')"

text \<open>An execution with its history: the waits that began and the waits that were granted, oldest first.\<close>

inductive sem_run :: "sem_sys \<Rightarrow> wait_id list \<Rightarrow> wait_id list \<Rightarrow> sem_sys \<Rightarrow> bool" for c0 where
  start: "sem_run c0 [] [] c0"
| arrive: "sem_run c0 as gs c \<Longrightarrow> sem_step c c' \<Longrightarrow> arrives c c' w \<Longrightarrow> sem_run c0 (as @ [w]) gs c'"
| grant: "sem_run c0 as gs c \<Longrightarrow> sem_step c c' \<Longrightarrow> granted c c' w \<Longrightarrow> sem_run c0 as (gs @ [w]) c'"
| quiet: "sem_run c0 as gs c \<Longrightarrow> sem_step c c' \<Longrightarrow> (\<forall>w. \<not> arrives c c' w \<and> \<not> granted c c' w) \<Longrightarrow> sem_run c0 as gs c'"

lemma quiet_step:
  assumes "\<And>p w. pcs c' p = Waiting w \<Longrightarrow> pcs c p = Waiting w"
    and "\<And>p w. pcs c p = Waiting w \<Longrightarrow> wait_linked (waits (sk c) w) \<Longrightarrow> pcs c' p = Waiting w \<and> wait_linked (waits (sk c') w)"
  shows "\<not> arrives c c' w" "\<not> granted c c' w"
proof -
  show "\<not> arrives c c' w" using assms(1) unfolding arrives_def by blast
  have "p \<notin> holders c'" if "pcs c p = Waiting w" "p \<notin> holders c" for p
    using assms(2) [OF that(1)] that by (simp add: holders_def)
  then show "\<not> granted c c' w" unfolding granted_def by blast
qed

lemma step_order:
  assumes inv: "sem_inv n c" and st: "sem_step c c'"
  shows "(arrives c c' w \<longrightarrow> waiting c' = waiting c @ [w]) \<and> (granted c c' w \<longrightarrow> waiting c = w # waiting c') \<and>
    ((\<forall>w. \<not> arrives c c' w \<and> \<not> granted c c' w) \<longrightarrow> waiting c' = waiting c)"
  using st
proof cases
  case (enter v m s)
  have "\<not> arrives c c' w" "\<not> granted c c' w" for w
    by (rule quiet_step; use enter enter_facts [OF inv enter(3)] in \<open>auto split: if_splits\<close>)+
  then show ?thesis using enter enter_facts [OF inv enter(3)] by (simp add: waiting_def)
next
  case (block v m s s')
  have b: "m = sem c" "sched_inv s" "queues s = (queues (sk c))(sem_queue (sem c) := queues (sk c) (sem_queue (sem c)) @ [v])"
    "waits s = (waits (sk c))(v := \<lparr>wait_proc = current (sk c), wakeup_flags = WT_INTERRUPTED, wait_queue = sem_queue (sem c), wait_linked = True\<rparr>)"
    using block_facts [OF inv block(4,6,7)] by blast+
  have f: "queues s' = queues s" "waits s' = waits s" using schedule_frame [OF b(2) block(8)] by (simp_all add: proc_frame_def)
  have a: "arrives c c' w \<longleftrightarrow> w = v" for w using block(1,2) by (auto simp: arrives_def split: if_splits)
  have "\<not> granted c c' w" for w using block(1,2,5) by (auto simp: granted_def holders_def f b(4) split: if_splits)
  then show ?thesis using a block(1) b(1,3) f(1) by (simp add: waiting_def)
next
  case (resume v s)
  note r = resume_facts [OF inv resume(2,3)]
  have "\<not> arrives c c' w" "\<not> granted c c' w" for w by (rule quiet_step; use resume r in \<open>auto split: if_splits\<close>)+
  then show ?thesis using resume(1) r by (simp add: waiting_def)
next
  case (leave m s)
  show ?thesis
  proof (cases "queues (sk c) (sem_queue (sem c))")
    case Nil
    have v: "m = (sem c)\<lparr>sem_value := sem_value (sem c) + 1\<rparr>" "s = sk c"
      using leave(3) sem_invD(3) [OF inv] Nil by (auto simp: up_def up_on_def wait_queue_first_def)
    have "\<not> arrives c c' w" "\<not> granted c c' w" for w by (rule quiet_step; use leave v in \<open>auto split: if_splits\<close>)+
    then show ?thesis using leave(1) v by (simp add: waiting_def)
  next
    case (Cons v ws)
    obtain p where p: "pcs c p = Waiting v" "wait_linked (waits (sk c) v)" "m = sem c" "queues s = (queues (sk c))(sem_queue (sem c) := ws)"
      "waits s = (waits (sk c))(v := (waits (sk c) v)\<lparr>wakeup_flags := WT_KSEM, wait_linked := False\<rparr>)"
      using up_waiter [OF inv Cons] leave(3) by auto
    have na: "\<not> arrives c c' w" for w using leave(1,2) by (auto simp: arrives_def split: if_splits)
    have "granted c c' v" unfolding granted_def by (rule exI [of _ p]) (use leave(1,2) p(1,2,5) in \<open>auto simp: holders_def\<close>)
    moreover have "w = v" if "granted c c' w" for w using that leave(1,2) p(5) by (auto simp: granted_def holders_def split: if_splits)
    ultimately have "granted c c' w \<longleftrightarrow> w = v" for w by blast
    then show ?thesis using leave(1) p(3,4) Cons na by (simp add: waiting_def)
  qed
next
  case (switch s)
  have f: "queues s = queues (sk c)" "waits s = waits (sk c)" using schedule_frame [OF sem_invD(1) [OF inv] switch(2)] by (simp_all add: proc_frame_def)
  have "\<not> arrives c c' w" "\<not> granted c c' w" for w by (rule quiet_step; use switch f in auto)+
  then show ?thesis using switch(1) f by (simp add: waiting_def)
qed

lemma sem_run_steps: "sem_run c0 as gs c \<Longrightarrow> sem_step\<^sup>*\<^sup>* c0 c"
  by (induction rule: sem_run.induct) auto

lemma sem_run_fifo:
  assumes "sem_run c0 as gs c" and "sem_inv n c0"
  shows "waiting c0 @ as = gs @ waiting c"
  using assms(1)
proof induction
  case (arrive as gs c c' w)
  then show ?case using step_order [OF sem_inv_reachable [OF sem_run_steps assms(2)]] by fastforce
next
  case (grant as gs c c' w)
  then show ?case using step_order [OF sem_inv_reachable [OF sem_run_steps assms(2)]] by fastforce
next
  case (quiet as gs c c')
  then show ?case using step_order [OF sem_inv_reachable [OF sem_run_steps assms(2)]] by metis
qed simp

lemma sem_run_exists: "sem_step\<^sup>*\<^sup>* c0 c \<Longrightarrow> \<exists>as gs. sem_run c0 as gs c"
proof (induction rule: rtranclp_induct)
  case base
  then show ?case using sem_run.start by blast
next
  case (step c c')
  then show ?case using sem_run.arrive sem_run.grant sem_run.quiet by meson
qed

section \<open>Properties\<close>

lemma boot_kern_wait: "wait_inv boot_kern" and boot_kern_current: "state (procs boot_kern (current boot_kern)) = PROC_RUNNABLE"
  by (simp_all add: boot_kern_def sched_init_def wait_inv_def fresh_proc_def)

lemma boot_kern_simps:
  "queues boot_kern q = []" "current boot_kern = 1" "idleproc boot_kern = 0" "lcpu_count boot_kern = 1"
  "pid (procs boot_kern p) = int p" "\<not> wait_linked (waits boot_kern w)"
  by (simp_all add: boot_kern_def sched_init_def fresh_proc_def)

definition boot_sem :: sem_sys where
  "boot_sem = sem_start 1 7 boot_kern"

lemma boot_sem_inv: "sem_inv 1 boot_sem"
  unfolding boot_sem_def
  using sem_inv_start [OF boot_kern_inv boot_kern_wait] boot_kern_current boot_kern_simps by simp

text \<open>The running process takes the semaphore.\<close>

lemma boot_sem_enter: "\<exists>c. sem_step boot_sem c \<and> pcs c 1 = Inside"
proof -
  have "ksem_down 9 (sem boot_sem) (sk boot_sem) =
      Some (True, (sem boot_sem)\<lparr>sem_value := sem_value (sem boot_sem) - 1\<rparr>, sk boot_sem)"
    "pcs boot_sem (current (sk boot_sem)) = Outside" "current (sk boot_sem) = 1"
    by (simp_all add: ksem_down_def down_start_def boot_sem_def sem_start_def sem_init_def wait_queue_init_def boot_kern_simps)
  from sem_step.enter [OF this(2,1)] this(3) show ?thesis by fastforce
qed

text \<open>
  C6: Mutual exclusion: however the processes using a kernel semaphore of initial value \<open>n\<close> and
  the scheduler interleave, at most \<open>n\<close> processes are between their \<^verbatim>\<open>down\<close> and their \<^verbatim>\<open>up\<close>.
\<close>

theorem ksem_mutual_exclusion:
  assumes "sched_inv s" and "wait_inv s" and "queues s q = []"
    and "state (procs s (current s)) = PROC_RUNNABLE" and "sem_step\<^sup>*\<^sup>* (sem_start n q s) c"
  shows "finite {p. pcs c p = Inside} \<and> card {p. pcs c p = Inside} \<le> n"
proof -
  note d = sem_invD [OF sem_inv_reachable [OF assms(5) sem_inv_start [OF assms(1-3)]]]
  have "card {p. pcs c p = Inside} \<le> card (holders c)"
    using inside_holders d(4) assms(4) by (intro card_mono) auto
  moreover have "card (holders c) \<le> n" using d(5,6) assms(4) by simp
  moreover have "finite {p. pcs c p = Inside}" using inside_holders d(4) assms(4) finite_subset by blast
  ultimately show ?thesis by simp
qed

theorem ksem_mutual_exclusion_witness:
  "\<exists>c. sem_step\<^sup>*\<^sup>* (sem_start 1 7 boot_kern) c \<and> {p. pcs c p = Inside} = {1}"
proof -
  obtain c where c: "sem_step\<^sup>*\<^sup>* (sem_start 1 7 boot_kern) c" "pcs c 1 = Inside"
    using boot_sem_enter by (auto simp: boot_sem_def)
  have "finite {p. pcs c p = Inside}" "card {p. pcs c p = Inside} \<le> 1"
    using ksem_mutual_exclusion [OF boot_kern_inv boot_kern_wait _ boot_kern_current c(1)] boot_kern_simps by simp_all
  then have "{p. pcs c p = Inside} = {1}"
    using c(2) by (auto simp: card_le_Suc0_iff_eq)
  then show ?thesis using c(1) by blast
qed

text \<open>
  C7: No operation of the protocol panics in a reachable state: \<^verbatim>\<open>down\<close> and its continuation
  return (so the wait was never interrupted, \<^verbatim>\<open>flags == 0\<close>), \<^verbatim>\<open>up\<close> finds every waiter in
  \<^verbatim>\<open>WT_KSEM\<close>, and the scheduler dispatches some process.
\<close>

theorem ksem_never_panics:
  assumes "sem_inv n c0" and "sem_step\<^sup>*\<^sup>* c0 c"
  shows "(\<exists>s. schedule (sk c) = Some s) \<and> (\<exists>m s. up (sem c) (sk c) = Some (m, s)) \<and>
    (\<forall>w. pcs c (current (sk c)) = Waiting w \<longrightarrow> (\<exists>s. ksem_resume w (sem c) (sk c) = Some s)) \<and>
    (\<forall>w. \<exists>b m s. ksem_down w (sem c) (sk c) = Some (b, m, s))"
proof (intro conjI allI impI)
  have inv: "sem_inv n c" by (rule sem_inv_reachable [OF assms(2,1)])
  note d = sem_invD [OF inv]
  show "\<exists>s. schedule (sk c) = Some s" using schedule_correct [OF d(1)] by blast
  show "\<exists>m s. up (sem c) (sk c) = Some (m, s)"
  proof (cases "queues (sk c) (sem_queue (sem c))")
    case Nil
    then show ?thesis using d(3) by (simp add: up_def up_on_def wait_queue_first_def)
  next
    case (Cons w ws)
    then show ?thesis using up_waiter [OF inv Cons] by blast
  qed
  show "\<exists>b m s. ksem_down w (sem c) (sk c) = Some (b, m, s)" for w
    using d(3) by (auto simp: ksem_down_def down_start_def wait_current_set_def wait_queue_add_def wait_init_def ipc_add_timer_def)
  fix w assume pc: "pcs c (current (sk c)) = Waiting w"
  have "waiter_ok c (current (sk c)) w" by (rule d(8) [OF pc])
  then have "\<not> wait_linked (waits (sk c) w)" "wakeup_flags (waits (sk c) w) = WT_KSEM"
    using d(10) by (auto simp: waiter_ok_def split: if_splits)
  then show "\<exists>s. ksem_resume w (sem c) (sk c) = Some s"
    by (simp add: ksem_resume_def down_finish_def ipc_del_timer_def wait_current_del_def wait_in_queue_def)
qed

theorem ksem_never_panics_witness:
  "\<exists>c. sem_step\<^sup>*\<^sup>* boot_sem c \<and> pcs c 1 = Inside \<and> (\<exists>s. schedule (sk c) = Some s) \<and>
    (\<exists>m s. up (sem c) (sk c) = Some (m, s))"
  using boot_sem_enter ksem_never_panics [OF boot_sem_inv] by (meson r_into_rtranclp)

text \<open>
  C25: The queue is served in the order of arrival and no wake-up is lost. Every execution from a fresh semaphore has a history of the
  waits that began and of the waits that were granted; the granted ones are a prefix of the ones that began, in the same order, and
  the rest is the queue. While a process waits, all \<open>n\<close> units are held or already handed over; \<^verbatim>\<open>up\<close> makes the first of the queue
  runnable and a holder, whose pending \<^verbatim>\<open>down\<close> will then return.
\<close>

theorem ksem_no_lost_wakeup:
  assumes "sched_inv s" and "wait_inv s" and "queues s q = []"
    and "state (procs s (current s)) = PROC_RUNNABLE" and "sem_step\<^sup>*\<^sup>* (sem_start n q s) c"
  shows "(\<exists>as gs. sem_run (sem_start n q s) as gs c) \<and>
    (\<forall>as gs. sem_run (sem_start n q s) as gs c \<longrightarrow> as = gs @ waiting c) \<and>
    (\<forall>w ws. waiting c = w # ws \<longrightarrow> sem_value (sem c) = 0 \<and> card (holders c) = n \<and>
      (\<exists>p s'. pcs c p = Waiting w \<and> p \<notin> holders c \<and> up (sem c) (sk c) = Some (sem c, s') \<and>
        queues s' (sem_queue (sem c)) = ws \<and> state (procs s' p) = PROC_RUNNABLE \<and> p \<in> holders (c\<lparr>sk := s'\<rparr>)))"
proof (intro conjI allI impI)
  have i0: "sem_inv n (sem_start n q s)" using sem_inv_start [OF assms(1-3)] assms(4) by simp
  have inv: "sem_inv n c" by (rule sem_inv_reachable [OF assms(5) i0])
  note d = sem_invD [OF inv]
  show "\<exists>as gs. sem_run (sem_start n q s) as gs c" by (rule sem_run_exists [OF assms(5)])
  have "waiting (sem_start n q s) = []" by (simp add: waiting_def sem_start_def sem_init_def wait_queue_init_def set_queue_def)
  then show "as = gs @ waiting c" if "sem_run (sem_start n q s) as gs c" for as gs using sem_run_fifo [OF that i0] by simp
  fix w ws assume q: "waiting c = w # ws"
  note q = this [unfolded waiting_def]
  show v: "sem_value (sem c) = 0" using d(5,7) q by force
  then show "card (holders c) = n" using d(6) by simp
  obtain p s' where "pcs c p = Waiting w" "p \<notin> holders c" "up (sem c) (sk c) = Some (sem c, s')" "queues s' = (queues (sk c))(sem_queue (sem c) := ws)"
    "waits s' = (waits (sk c))(w := (waits (sk c) w)\<lparr>wakeup_flags := WT_KSEM, wait_linked := False\<rparr>)" "state (procs s' p) = PROC_RUNNABLE"
    using up_waiter [OF inv q] by blast
  then show "\<exists>p s'. pcs c p = Waiting w \<and> p \<notin> holders c \<and> up (sem c) (sk c) = Some (sem c, s') \<and>
        queues s' (sem_queue (sem c)) = ws \<and> state (procs s' p) = PROC_RUNNABLE \<and> p \<in> holders (c\<lparr>sk := s'\<rparr>)"
    by (auto simp: holders_def)
qed

text \<open>A semaphore of value 0 on which the running process blocks.\<close>

lemma boot_block: "\<exists>c. sem_step (sem_start 0 7 boot_kern) c \<and> waiting c = [9]"
proof -
  let ?c = "sem_start 0 7 boot_kern"
  have inv: "sem_inv 0 ?c"
    using sem_inv_start [OF boot_kern_inv boot_kern_wait] boot_kern_current boot_kern_simps by simp
  have st: "sk ?c = boot_kern" "sem_queue (sem ?c) = 7" "sem_value (sem ?c) = 0" "sem_valid (sem ?c)" "pcs ?c = (\<lambda>p. Outside)"
    by (simp_all add: sem_start_def sem_init_def wait_queue_init_def set_queue_def boot_kern_simps fun_upd_idem)
  obtain s where s: "wait_current_set 7 9 WT_KSEM boot_kern = Some s" "sched_inv s" "queues s = (queues boot_kern)(7 := [9])"
    using wait_current_set_correct [OF boot_kern_inv boot_kern_wait, of 9 7 WT_KSEM] boot_kern_simps by auto
  have down: "ksem_down 9 (sem ?c) (sk ?c) = Some (False, sem ?c, s)"
    using s(1) st by (simp add: ksem_down_def down_start_def ipc_add_timer_def)
  obtain s' where s': "schedule s = Some s'" "proc_frame s s'" using schedule_correct [OF s(2)] by blast
  have "sem_step ?c \<lparr>sem = sem ?c, sk = s', pcs = (pcs ?c)(current (sk ?c) := Waiting 9)\<rparr>"
    by (rule sem_step.block [OF _ _ _ _ _ down s'(1)]) (simp_all add: st boot_kern_simps)
  moreover have "queues s' 7 = [9]" using s'(2) s(3) by (simp add: proc_frame_def)
  ultimately show ?thesis using st by (intro exI conjI) (auto simp: waiting_def)
qed

theorem ksem_no_lost_wakeup_witness:
  "\<exists>c p s as gs. waiting c = [9] \<and> sem_run (sem_start 0 7 boot_kern) as gs c \<and> as = gs @ [9] \<and> pcs c p = Waiting 9 \<and>
    up (sem c) (sk c) = Some (sem c, s) \<and> queues s (sem_queue (sem c)) = [] \<and> state (procs s p) = PROC_RUNNABLE \<and> p \<in> holders (c\<lparr>sk := s\<rparr>)"
proof -
  obtain c where c: "sem_step (sem_start 0 7 boot_kern) c" "waiting c = [9]" using boot_block by blast
  have "sem_step\<^sup>*\<^sup>* (sem_start 0 7 boot_kern) c" using c(1) by blast
  note f = ksem_no_lost_wakeup [OF boot_kern_inv boot_kern_wait boot_kern_simps(1) boot_kern_current this]
  obtain as gs where "sem_run (sem_start 0 7 boot_kern) as gs c" using f by blast
  moreover from this have "as = gs @ [9]" using f c(2) by simp
  moreover have "\<exists>p s'. pcs c p = Waiting 9 \<and> p \<notin> holders c \<and> up (sem c) (sk c) = Some (sem c, s') \<and>
        queues s' (sem_queue (sem c)) = [] \<and> state (procs s' p) = PROC_RUNNABLE \<and> p \<in> holders (c\<lparr>sk := s'\<rparr>)" using f c(2) by blast
  ultimately show ?thesis using c(2) by blast
qed

text \<open>
  User semaphores have no such guarantee. A process waiting on one in \<^verbatim>\<open>WT_USEM\<close> may be woken by its
  timer or by a signal; until it runs and leaves the queue, its \<^verbatim>\<open>wait_state\<close> is 0, and if it is the
  first waiter then the next \<^verbatim>\<open>usem_up\<close> fails the assertion of \<^verbatim>\<open>__up\<close>: the kernel panics.
\<close>

theorem usem_up_panics_on_woken_waiter:
  assumes "sched_inv s" and "wait_inv s" and "queues s (sem_queue m) = w # ws"
    and "state (procs s (wait_proc (waits s w))) = PROC_SLEEPING"
    and "wakeup_proc (wait_proc (waits s w)) s = Some s'"
  shows "queues s' (sem_queue m) = w # ws \<and> usem_up m s' = None"
proof -
  let ?p = "wait_proc (waits s w)"
  have w: "w \<in> set (queues s (sem_queue m))" using assms(3) by simp
  note d = wait_invD [OF assms(2) w]
  have "queues s' = queues s" "waits s' = waits s" "wait_state (procs s' ?p) = 0"
    using wakeup_proc_correct [OF assms(1) d(3)] d(4) assms(4,5) by auto
  moreover have "WT_USEM \<noteq> 0" by (simp add: WT_defs)
  ultimately show ?thesis
    using assms(3) by (auto simp: usem_up_def up_on_def wait_queue_first_def kassert_def)
qed

theorem usem_up_panics_on_woken_waiter_witness:
  "\<exists>m s1 s2 s3. usem_down 0 5 9 m boot_kern = Some (False, None, m, s1) \<and> schedule s1 = Some s2 \<and>
    wakeup_proc 1 s2 = Some s3 \<and> usem_up m s3 = None"
proof -
  let ?m = "\<lparr>sem_value = 0, sem_valid = True, sem_count = 1, sem_queue = 7\<rparr>"
  obtain s1 where s1: "wait_current_set 7 9 WT_USEM boot_kern = Some s1" "sched_inv s1" "wait_inv s1"
    "queues s1 = (queues boot_kern)(7 := [9])"
    "waits s1 = (waits boot_kern)(9 := \<lparr>wait_proc = 1, wakeup_flags = WT_INTERRUPTED, wait_queue = 7, wait_linked = True\<rparr>)"
    "state (procs s1 1) = PROC_SLEEPING"
    using wait_current_set_correct [OF boot_kern_inv boot_kern_wait, of 9 7 WT_USEM] boot_kern_simps by auto
  obtain s2 where s2: "schedule s1 = Some s2" "sched_inv s2" "proc_frame s1 s2"
    using schedule_correct [OF s1(2)] by blast
  have wi: "wait_inv s2" by (rule schedule_wait [OF s1(2,3) s2(1)])
  have f: "queues s2 (sem_queue ?m) = 9 # []" "wait_proc (waits s2 9) = 1" "state (procs s2 1) = PROC_SLEEPING"
    using s2(3) s1(4-6) by (simp_all add: proc_frame_def)
  have "9 \<in> set (queues s2 7)" using f(1) by simp
  note d = wait_invD [OF wi this]
  obtain s3 where s3: "wakeup_proc 1 s2 = Some s3"
    using wakeup_proc_correct [OF s2(2), of 1] d(3,4) f(2) by auto
  have "usem_down 0 5 9 ?m boot_kern = Some (False, None, ?m, s1)"
    using s1(1) by (simp add: usem_down_def ipc_timer_init_def down_start_def ipc_add_timer_def)
  then show ?thesis
    using usem_up_panics_on_woken_waiter [OF s2(2) wi f(1)] f(2,3) s2(1) s3 by auto
qed

end
