(* ===== verification/Pipe.thy ===== *)
theory Pipe
  imports Sem
begin

text \<open>
  The pipe (\<^verbatim>\<open>fs/pipe/pipe_state.c\<close>): a ring buffer with two positions that only grow, a semaphore
  as its lock and two wait queues. \<^verbatim>\<open>pipe_state_read\<close> and \<^verbatim>\<open>pipe_state_write\<close> can call \<^verbatim>\<open>schedule()\<close>
  while they wait for the lock and while they wait for data or room; they are step functions over
  the points where they resume. The contract of the buffer is a byte queue, the locale \<open>byte_fifo\<close>.
\<close>

section \<open>The code\<close>

record pipe_state =
  p_rpos :: u64
  p_wpos :: u64
  pbuf :: "nat \<Rightarrow> u8"
  isclosed :: bool
  ref_count :: int
  psem :: semaphore
  reader_queue :: queue_id
  writer_queue :: queue_id

text \<open>\<^verbatim>\<open>PGSIZE - sizeof(struct pipe_state)\<close>: 8 + 8 + 8 + 4 + 4 + 32 + 16 + 16 bytes of 4096.\<close>

definition PIPE_BUFSIZE :: nat where [simp]: "PIPE_BUFSIZE = 4000"

text \<open>\<open>ok\<close> tells whether \<^verbatim>\<open>kmalloc\<close> succeeds; its memory holds \<open>garbage\<close>.\<close>

definition pipe_state_create :: "bool \<Rightarrow> (nat \<Rightarrow> u8) \<Rightarrow> queue_id \<Rightarrow> queue_id \<Rightarrow> queue_id \<Rightarrow> kern \<Rightarrow> pipe_state option \<times> kern" where
  "pipe_state_create ok garbage qs qr qw s =
     (if ok then
        (case sem_init 1 qs s of (m, s) \<Rightarrow>
          (Some \<lparr>p_rpos = 0, p_wpos = 0, pbuf = garbage, isclosed = False, ref_count = 1, psem = m,
             reader_queue = qr, writer_queue = qw\<rparr>,
           wait_queue_init qw (wait_queue_init qr s)))
      else (None, s))"

definition lock_state :: "wait_id \<Rightarrow> pipe_state \<Rightarrow> kern \<Rightarrow> (bool \<times> pipe_state \<times> kern) option" where
  "lock_state w p s = do { (taken, m, s) \<leftarrow> ksem_down w (psem p) s; Some (taken, p\<lparr>psem := m\<rparr>, s) }"

definition unlock_state :: "pipe_state \<Rightarrow> kern \<Rightarrow> (pipe_state \<times> kern) option" where
  "unlock_state p s = do { (m, s) \<leftarrow> up (psem p) s; Some (p\<lparr>psem := m\<rparr>, s) }"

definition is_empty :: "pipe_state \<Rightarrow> bool" where
  "is_empty p \<longleftrightarrow> p_rpos p = p_wpos p"

definition is_full :: "pipe_state \<Rightarrow> bool" where
  "is_full p \<longleftrightarrow> p_wpos p - p_rpos p \<ge> of_nat PIPE_BUFSIZE"

text \<open>\<^verbatim>\<open>pipe_state_wait\<close>, before and after its call of \<^verbatim>\<open>schedule()\<close>.\<close>

definition pipe_state_wait_start :: "queue_id \<Rightarrow> wait_id \<Rightarrow> kern \<Rightarrow> kern option" where
  "pipe_state_wait_start q w s = wait_current_set q w WT_PIPE s"

definition pipe_state_wait_finish :: "queue_id \<Rightarrow> wait_id \<Rightarrow> kern \<Rightarrow> (bool \<times> kern) option" where
  "pipe_state_wait_finish q w s = do {
     s \<leftarrow> wait_current_del q w s;
     Some (wakeup_flags (waits s w) = WT_PIPE, s)
   }"

definition pipe_state_wakeup :: "queue_id \<Rightarrow> kern \<Rightarrow> kern option" where
  "pipe_state_wakeup q s = (if \<not> wait_queue_empty q s then wakeup_queue q WT_PIPE True s else Some s)"

definition pipe_state_acquire :: "pipe_state \<Rightarrow> pipe_state option" where
  "pipe_state_acquire p = do { kassert (ref_count p > 0); Some (p\<lparr>ref_count := ref_count p + 1\<rparr>) }"

text \<open>The result is \<open>None\<close> inside when the state is freed.\<close>

definition pipe_state_release :: "pipe_state \<Rightarrow> kern \<Rightarrow> pipe_state option option" where
  "pipe_state_release p s = do {
     kassert (ref_count p > 0);
     let p = p\<lparr>ref_count := ref_count p - 1\<rparr> in
       if ref_count p = 0 then do {
         kassert (wait_queue_empty (reader_queue p) s);
         kassert (wait_queue_empty (writer_queue p) s);
         Some None
       } else Some (Some p)
   }"

definition pipe_state_close :: "pipe_state \<Rightarrow> kern \<Rightarrow> (pipe_state \<times> kern) option" where
  "pipe_state_close p s = do {
     kassert (ref_count p > 0);
     let p = p\<lparr>isclosed := True\<rparr> in do {
       s \<leftarrow> pipe_state_wakeup (reader_queue p) s;
       s \<leftarrow> pipe_state_wakeup (writer_queue p) s;
       Some (p, s)
     }
   }"

definition pipe_state_size :: "pipe_state \<Rightarrow> bool \<Rightarrow> u64" where
  "pipe_state_size p wr =
     (let size = p_wpos p - p_rpos p in
      if wr then if isclosed p then 0 else of_nat PIPE_BUFSIZE - size else size)"

text \<open>The copy loops. The reader's yields the bytes read, the writer's the bytes it has not written.\<close>

fun read_loop :: "nat \<Rightarrow> pipe_state \<Rightarrow> u8 list \<times> pipe_state" where
  "read_loop 0 p = ([], p)"
| "read_loop (Suc n) p =
     (if is_empty p then ([], p)
      else case read_loop n (p\<lparr>p_rpos := p_rpos p + 1\<rparr>) of
          (bs, p') \<Rightarrow> (pbuf p (unat (p_rpos p mod of_nat PIPE_BUFSIZE)) # bs, p'))"

fun write_loop :: "u8 list \<Rightarrow> pipe_state \<Rightarrow> u8 list \<times> pipe_state" where
  "write_loop [] p = ([], p)"
| "write_loop (b # bs) p =
     (if is_full p then (b # bs, p)
      else write_loop bs (p\<lparr>pbuf := (pbuf p)(unat (p_wpos p mod of_nat PIPE_BUFSIZE) := b),
        p_wpos := p_wpos p + 1\<rparr>))"

text \<open>
  Where a call stands: at \<^verbatim>\<open>try_again\<close>, asleep in \<^verbatim>\<open>lock_state\<close>, asleep in \<^verbatim>\<open>pipe_state_wait\<close>, or
  returned. A reader carries the bytes it has read, a writer those it still has to write.
\<close>

datatype call = Try "u8 list" | Locking "u8 list" | Sleeping "u8 list" | Done "u8 list"

definition pipe_read_locked :: "wait_id \<Rightarrow> nat \<Rightarrow> pipe_state \<Rightarrow> kern \<Rightarrow> (call \<times> pipe_state \<times> kern) option" where
  "pipe_read_locked w n p s =
     (if is_empty p then
        if isclosed p then do { (p, s) \<leftarrow> unlock_state p s; Some (Done [], p, s) }
        else do {
          (p, s) \<leftarrow> unlock_state p s;
          s \<leftarrow> pipe_state_wait_start (reader_queue p) w s;
          Some (Sleeping [], p, s)
        }
      else
        (case read_loop n p of (bs, p) \<Rightarrow> do {
           s \<leftarrow> (if bs \<noteq> [] then pipe_state_wakeup (writer_queue p) s else Some s);
           (p, s) \<leftarrow> unlock_state p s;
           Some (Done bs, p, s)
         }))"

definition pipe_read_try :: "wait_id \<Rightarrow> nat \<Rightarrow> pipe_state \<Rightarrow> kern \<Rightarrow> (call \<times> pipe_state \<times> kern) option" where
  "pipe_read_try w n p s = do {
     (taken, p, s) \<leftarrow> lock_state w p s;
     if taken then pipe_read_locked w n p s else Some (Locking [], p, s)
   }"

text \<open>\<^verbatim>\<open>pipe_state_read\<close>, from one point where it resumes to the next call of \<^verbatim>\<open>schedule()\<close>.\<close>

definition pipe_state_read :: "wait_id \<Rightarrow> nat \<Rightarrow> call \<Rightarrow> pipe_state \<Rightarrow> kern \<Rightarrow> (call \<times> pipe_state \<times> kern) option" where
  "pipe_state_read w n c p s = (case c of
       Try _ \<Rightarrow> pipe_read_try w n p s
     | Locking _ \<Rightarrow> do { s \<leftarrow> ksem_resume w (psem p) s; pipe_read_locked w n p s }
     | Sleeping _ \<Rightarrow> do {
         (woken, s) \<leftarrow> pipe_state_wait_finish (reader_queue p) w s;
         if woken then pipe_read_try w n p s else Some (Done [], p, s)
       }
     | Done bs \<Rightarrow> Some (Done bs, p, s))"

definition pipe_write_locked :: "wait_id \<Rightarrow> u8 list \<Rightarrow> pipe_state \<Rightarrow> kern \<Rightarrow> (call \<times> pipe_state \<times> kern) option" where
  "pipe_write_locked w bs p s =
     (if isclosed p then do { (p, s) \<leftarrow> unlock_state p s; Some (Done bs, p, s) }
      else
        (case write_loop bs p of (rest, p) \<Rightarrow>
           if rest \<noteq> [] then do {
             s \<leftarrow> pipe_state_wakeup (reader_queue p) s;
             (p, s) \<leftarrow> unlock_state p s;
             s \<leftarrow> pipe_state_wait_start (writer_queue p) w s;
             Some (Sleeping rest, p, s)
           } else do {
             s \<leftarrow> (if bs \<noteq> [] then pipe_state_wakeup (reader_queue p) s else Some s);
             (p, s) \<leftarrow> unlock_state p s;
             Some (Done [], p, s)
           }))"

definition pipe_write_try :: "wait_id \<Rightarrow> u8 list \<Rightarrow> pipe_state \<Rightarrow> kern \<Rightarrow> (call \<times> pipe_state \<times> kern) option" where
  "pipe_write_try w bs p s = do {
     (taken, p, s) \<leftarrow> lock_state w p s;
     if taken then pipe_write_locked w bs p s else Some (Locking bs, p, s)
   }"

definition pipe_state_write :: "wait_id \<Rightarrow> call \<Rightarrow> pipe_state \<Rightarrow> kern \<Rightarrow> (call \<times> pipe_state \<times> kern) option" where
  "pipe_state_write w c p s = (case c of
       Try bs \<Rightarrow> pipe_write_try w bs p s
     | Locking bs \<Rightarrow> do { s \<leftarrow> ksem_resume w (psem p) s; pipe_write_locked w bs p s }
     | Sleeping bs \<Rightarrow> do {
         (woken, s) \<leftarrow> pipe_state_wait_finish (writer_queue p) w s;
         if woken then pipe_write_try w bs p s else Some (Done bs, p, s)
       }
     | Done bs \<Rightarrow> Some (Done bs, p, s))"

section \<open>The buffer is a byte queue\<close>

definition pipe_inv :: "pipe_state \<Rightarrow> bool" where
  "pipe_inv p \<longleftrightarrow> unat (p_rpos p) \<le> unat (p_wpos p) \<and> unat (p_wpos p) - unat (p_rpos p) \<le> PIPE_BUFSIZE"

text \<open>\<open>k\<close> more bytes can be written before the position leaves 64 bits.\<close>

definition pipe_fits :: "pipe_state \<Rightarrow> nat \<Rightarrow> bool" where
  "pipe_fits p k \<longleftrightarrow> pipe_inv p \<and> unat (p_wpos p) + k < 2 ^ 64"

definition contents :: "pipe_state \<Rightarrow> u8 list" where
  "contents p = map (\<lambda>i. pbuf p (i mod PIPE_BUFSIZE)) [unat (p_rpos p)..<unat (p_wpos p)]"

lemma length_contents [simp]: "length (contents p) = unat (p_wpos p) - unat (p_rpos p)"
  by (simp add: contents_def)

lemma unat_pos_diff:
  "pipe_inv p \<Longrightarrow> unat (p_wpos p - p_rpos p) = unat (p_wpos p) - unat (p_rpos p)"
  by (simp add: pipe_inv_def unat_sub word_le_nat_alt)

lemma is_empty_iff: "pipe_inv p \<Longrightarrow> is_empty p \<longleftrightarrow> contents p = []"
  by (auto simp: is_empty_def contents_def pipe_inv_def word_unat_eq_iff)

lemma is_full_iff: "pipe_inv p \<Longrightarrow> is_full p \<longleftrightarrow> length (contents p) = PIPE_BUFSIZE"
  using unat_pos_diff [of p] by (auto simp: is_full_def word_le_nat_alt pipe_inv_def)

lemma unat_pos_mod: "unat ((x :: u64) mod 4000) = unat x mod 4000"
  by (simp add: unat_mod_distrib)

lemma unat_Suc64: "unat (x :: u64) + 1 < 2 ^ 64 \<Longrightarrow> unat (x + 1) = unat x + 1"
  using unat_add_lem [of x 1] by simp

lemma read_loop_correct:
  assumes "pipe_inv p"
  shows "fst (read_loop n p) = take n (contents p) \<and> contents (snd (read_loop n p)) = drop n (contents p) \<and>
    pipe_inv (snd (read_loop n p)) \<and> snd (read_loop n p) = p\<lparr>p_rpos := p_rpos (snd (read_loop n p))\<rparr>"
  using assms
proof (induction n arbitrary: p)
  case (Suc n)
  show ?case
  proof (cases "is_empty p")
    case True
    then show ?thesis using Suc.prems is_empty_iff [of p] by simp
  next
    case False
    let ?p = "p\<lparr>p_rpos := p_rpos p + 1\<rparr>"
    have lt: "unat (p_rpos p) < unat (p_wpos p)"
      using False Suc.prems by (auto simp: is_empty_def pipe_inv_def word_unat_eq_iff)
    then have r1: "unat (p_rpos p + 1) = unat (p_rpos p) + 1"
      using unat_lt2p [of "p_wpos p"] by (intro unat_Suc64) simp
    have inv: "pipe_inv ?p" using Suc.prems lt by (auto simp: pipe_inv_def r1)
    have c: "contents p = pbuf p (unat (p_rpos p) mod 4000) # contents ?p"
      using lt by (simp add: contents_def r1 upt_conv_Cons)
    obtain bs p' where e: "read_loop n ?p = (bs, p')" by fastforce
    show ?thesis using Suc.IH [OF inv] False c by (simp add: e unat_pos_mod)
  qed
qed simp

lemma contents_write:
  assumes "pipe_inv p" and "\<not> is_full p" and "unat (p_wpos p) + 1 < 2 ^ 64"
  shows "contents (p\<lparr>pbuf := (pbuf p)(unat (p_wpos p) mod 4000 := b), p_wpos := p_wpos p + 1\<rparr>) = contents p @ [b]"
proof -
  let ?w = "unat (p_wpos p)" and ?r = "unat (p_rpos p)"
  have b: "?r \<le> ?w" "?w - ?r < 4000"
    using assms(1,2) is_full_iff [of p] by (auto simp: pipe_inv_def)
  have "i mod 4000 \<noteq> ?w mod 4000" if "?r \<le> i" "i < ?w" for i
  proof
    assume "i mod 4000 = ?w mod 4000"
    then have "4000 dvd ?w - i" using that by (metis mod_eq_dvd_iff_nat less_imp_le)
    then show False using that b by (auto dest: dvd_imp_le)
  qed
  then show ?thesis using b by (simp add: contents_def unat_Suc64 [OF assms(3)])
qed

lemma write_loop_correct:
  assumes "pipe_fits p (length bs + k)"
  shows "fst (write_loop bs p) = drop (PIPE_BUFSIZE - length (contents p)) bs \<and>
    contents (snd (write_loop bs p)) = contents p @ take (PIPE_BUFSIZE - length (contents p)) bs \<and>
    pipe_fits (snd (write_loop bs p)) k \<and>
    snd (write_loop bs p) = p\<lparr>pbuf := pbuf (snd (write_loop bs p)), p_wpos := p_wpos (snd (write_loop bs p))\<rparr>"
  using assms
proof (induction bs arbitrary: p)
  case (Cons b bs)
  have inv: "pipe_inv p" using Cons.prems by (simp add: pipe_fits_def)
  show ?case
  proof (cases "is_full p")
    case True
    then have "length (contents p) = PIPE_BUFSIZE" using is_full_iff [OF inv] by simp
    then show ?thesis using True Cons.prems by (simp add: pipe_fits_def)
  next
    case False
    let ?p = "p\<lparr>pbuf := (pbuf p)(unat (p_wpos p) mod 4000 := b), p_wpos := p_wpos p + 1\<rparr>"
    have w: "unat (p_wpos p) + 1 < 2 ^ 64" using Cons.prems by (simp add: pipe_fits_def)
    note c = contents_write [OF inv False w, of b]
    have room: "length (contents p) < PIPE_BUFSIZE"
      using inv False is_full_iff [OF inv] by (auto simp: pipe_inv_def)
    have fits: "pipe_fits ?p (length bs + k)"
      using Cons.prems room unat_Suc64 [OF w] by (auto simp: pipe_fits_def pipe_inv_def)
    have d: "PIPE_BUFSIZE - length (contents p) = Suc (PIPE_BUFSIZE - length (contents ?p))"
      using room unfolding c by simp
    have "write_loop (b # bs) p = write_loop bs ?p" using False by (simp add: unat_pos_mod)
    then show ?thesis using Cons.IH [OF fits] unfolding d c by simp
  qed
qed (simp add: pipe_fits_def)

subsection \<open>The contract\<close>

datatype 'b fifo_op = Push "'b list" | Pop nat

text \<open>Runs pushes and pops; what has been accepted and what has come out, in order.\<close>

fun fifo_run :: "('b list \<Rightarrow> 'q \<Rightarrow> 'b list \<times> 'q) \<Rightarrow> (nat \<Rightarrow> 'q \<Rightarrow> 'b list \<times> 'q) \<Rightarrow> 'b fifo_op list \<Rightarrow> 'q \<Rightarrow>
    'b list \<times> 'b list \<times> 'q" where
  "fifo_run push pop [] q = ([], [], q)"
| "fifo_run push pop (Push bs # ops) q =
     (case push bs q of (rest, q') \<Rightarrow>
      case fifo_run push pop ops q' of (i, out, q'') \<Rightarrow> (take (length bs - length rest) bs @ i, out, q''))"
| "fifo_run push pop (Pop n # ops) q =
     (case pop n q of (bs, q') \<Rightarrow>
      case fifo_run push pop ops q' of (i, out, q'') \<Rightarrow> (i, bs @ out, q''))"

fun op_size :: "'b fifo_op \<Rightarrow> nat" where
  "op_size (Push bs) = length bs"
| "op_size (Pop n) = 0"

locale byte_fifo =
  fixes cap :: nat
    and fits :: "'q \<Rightarrow> nat \<Rightarrow> bool"
    and content :: "'q \<Rightarrow> 'b list"
    and push :: "'b list \<Rightarrow> 'q \<Rightarrow> 'b list \<times> 'q"
    and pop :: "nat \<Rightarrow> 'q \<Rightarrow> 'b list \<times> 'q"
  assumes push_law: "fits q (length bs + k) \<Longrightarrow>
      fst (push bs q) = drop (cap - length (content q)) bs \<and>
      content (snd (push bs q)) = content q @ take (cap - length (content q)) bs \<and> fits (snd (push bs q)) k"
    and pop_law: "fits q k \<Longrightarrow>
      fst (pop n q) = take n (content q) \<and> content (snd (pop n q)) = drop n (content q) \<and> fits (snd (pop n q)) k"
    and cap_law: "fits q k \<Longrightarrow> length (content q) \<le> cap"
begin

lemma run_stream:
  assumes "fits q (sum_list (map op_size ops) + k)" and "fifo_run push pop ops q = (i, out, q')"
  shows "content q @ i = out @ content q' \<and> fits q' k \<and> length (content q') \<le> cap"
  using assms
proof (induction ops arbitrary: q i out)
  case Nil
  then show ?case using cap_law by auto
next
  case (Cons op ops)
  show ?case
  proof (cases op)
    case (Push bs)
    obtain rest q1 i1 where e: "push bs q = (rest, q1)" "fifo_run push pop ops q1 = (i1, out, q')"
      "i = take (length bs - length rest) bs @ i1"
      using Cons.prems(2) Push by (auto split: prod.splits)
    have p: "rest = drop (cap - length (content q)) bs" "content q1 = content q @ take (cap - length (content q)) bs"
      "fits q1 (sum_list (map op_size ops) + k)"
      using push_law [of q bs "sum_list (map op_size ops) + k"] Cons.prems(1) Push e(1) by (simp_all add: add.assoc)
    have "take (length bs - length rest) bs = take (cap - length (content q)) bs"
      by (cases "cap - length (content q) \<le> length bs") (simp_all add: p(1))
    then show ?thesis using Cons.IH [OF p(3) e(2)] e(3) p(2) by simp
  next
    case (Pop n)
    obtain bs q1 out1 where e: "pop n q = (bs, q1)" "fifo_run push pop ops q1 = (i, out1, q')" "out = bs @ out1"
      using Cons.prems(2) Pop by (auto split: prod.splits)
    have p: "bs = take n (content q)" "content q1 = drop n (content q)" "fits q1 (sum_list (map op_size ops) + k)"
      using pop_law [of q "sum_list (map op_size ops) + k" n] Cons.prems(1) Pop e(1) by simp_all
    then show ?thesis using Cons.IH [OF p(3) e(2)] e(3) by (metis append.assoc append_take_drop_id)
  qed
qed

end

interpretation pipe_buffer: byte_fifo PIPE_BUFSIZE pipe_fits contents write_loop read_loop
proof
  show "fst (write_loop bs q) = drop (PIPE_BUFSIZE - length (contents q)) bs \<and>
      contents (snd (write_loop bs q)) = contents q @ take (PIPE_BUFSIZE - length (contents q)) bs \<and>
      pipe_fits (snd (write_loop bs q)) k" if "pipe_fits q (length bs + k)" for q bs k
    using write_loop_correct [OF that] by blast
  show "fst (read_loop n q) = take n (contents q) \<and> contents (snd (read_loop n q)) = drop n (contents q) \<and>
      pipe_fits (snd (read_loop n q)) k" if "pipe_fits q k" for q k n
    using read_loop_correct [of q n] that by (metis pipe_fits_def pipe_state.select_convs(2) pipe_state.surjective pipe_state.update_convs(1))
  show "length (contents q) \<le> PIPE_BUFSIZE" if "pipe_fits q k" for q k
    using that by (simp add: pipe_fits_def pipe_inv_def)
qed

section \<open>The operations with the lock and the wait queues\<close>

text \<open>
  What a process finds that holds the lock: nobody waits for the lock, the two queues are not the queue of the
  lock, its own wait entry is in no queue.
\<close>

definition pipe_ready :: "wait_id \<Rightarrow> pipe_state \<Rightarrow> kern \<Rightarrow> bool" where
  "pipe_ready w p s \<longleftrightarrow> sched_inv s \<and> wait_inv s \<and> pipe_inv p \<and> sem_valid (psem p) \<and>
     queues s (sem_queue (psem p)) = [] \<and> distinct [sem_queue (psem p), reader_queue p, writer_queue p] \<and>
     \<not> wait_linked (waits s w) \<and> pid (procs s (current s)) \<ge> lcpu_count s"

text \<open>The processes that sleep on a queue.\<close>

definition sleepers :: "queue_id \<Rightarrow> kern \<Rightarrow> proc_id set" where
  "sleepers q s = (\<lambda>v. wait_proc (waits s v)) ` set (queues s q)"

text \<open>The sleepers of \<open>q\<close> are made runnable and find the reason in their wait entries, nothing else changes; \<open>b\<close> tells whether this happens at all.\<close>

definition woken :: "bool \<Rightarrow> queue_id \<Rightarrow> kern \<Rightarrow> kern \<Rightarrow> bool" where
  "woken b q s s' \<longleftrightarrow> sched_inv s' \<and> wait_inv s' \<and> current s' = current s \<and> queues s' = (if b then (queues s)(q := []) else queues s) \<and>
     (\<forall>r. state (procs s' r) = (if b \<and> r \<in> sleepers q s then PROC_RUNNABLE else state (procs s r))) \<and>
     (\<forall>v. wakeup_flags (waits s' v) = (if b \<and> v \<in> set (queues s q) then WT_PIPE else wakeup_flags (waits s v)))"

lemma pipe_wakeup_ready:
  assumes r: "pipe_ready w p s" and q: "q \<in> {reader_queue p, writer_queue p}"
  shows "\<exists>s'. (if b then pipe_state_wakeup q s else Some s) = Some s' \<and> pipe_ready w p s' \<and> woken b q s s'"
proof (cases "b \<and> \<not> wait_queue_empty q s")
  case False
  then have "b \<longrightarrow> queues s q = []" by (auto simp: wait_queue_empty_def)
  then have "woken b q s s" using r by (auto simp: woken_def pipe_ready_def sleepers_def fun_upd_idem)
  then show ?thesis using False r by (auto simp: pipe_state_wakeup_def)
next
  case True
  note r = r [unfolded pipe_ready_def]
  obtain s' where s': "wakeup_queue q WT_PIPE True s = Some s'" "sched_inv s'" "wait_inv s'" "current s' = current s"
    "queues s' = (queues s)(q := [])"
    "\<forall>w. waits s' w = (if w \<in> set (queues s q) then (waits s w)\<lparr>wakeup_flags := WT_PIPE, wait_linked := False\<rparr> else waits s w)"
    "\<forall>r. state (procs s' r) = (if r \<in> sleepers q s then PROC_RUNNABLE else state (procs s r))"
    "\<forall>p. pid (procs s' p) = pid (procs s p)" "lcpu_count s' = lcpu_count s"
    using wakeup_queue_correct [of s q WT_PIPE] r unfolding sleepers_def by blast
  have "woken b q s s'" using True s' by (simp add: woken_def)
  moreover have "pipe_ready w p s'" using r q s' by (auto simp: pipe_ready_def)
  ultimately show ?thesis using True s'(1) by (simp add: pipe_state_wakeup_def)
qed

text \<open>Then it unlocks, and sleeps if it has to.\<close>

lemma pipe_unlock:
  assumes "pipe_ready w p s"
  shows "unlock_state p s = Some (p\<lparr>psem := (psem p)\<lparr>sem_value := sem_value (psem p) + 1\<rparr>\<rparr>, s)"
  using assms by (simp add: pipe_ready_def unlock_state_def up_def up_on_def wait_queue_first_def)

text \<open>The running process is asleep at the end of \<open>q\<close>.\<close>

definition asleep :: "queue_id \<Rightarrow> wait_id \<Rightarrow> kern \<Rightarrow> kern \<Rightarrow> bool" where
  "asleep q w s s' \<longleftrightarrow> sched_inv s' \<and> wait_inv s' \<and> current s' = current s \<and> queues s' = (queues s)(q := queues s q @ [w]) \<and>
     (\<forall>r. state (procs s' r) = (if r = current s then PROC_SLEEPING else state (procs s r))) \<and>
     (\<forall>v. v \<noteq> w \<longrightarrow> wakeup_flags (waits s' v) = wakeup_flags (waits s v)) \<and> wait_proc (waits s' w) = current s"

lemma pipe_sleep:
  assumes "pipe_ready w p s"
  shows "\<exists>s'. pipe_state_wait_start q w s = Some s' \<and> asleep q w s s'"
proof -
  have r: "sched_inv s" "wait_inv s" "\<not> wait_linked (waits s w)" "pid (procs s (current s)) \<ge> lcpu_count s" using assms by (simp_all add: pipe_ready_def)
  obtain s' where s': "wait_current_set q w WT_PIPE s = Some s'" "sched_inv s'" "wait_inv s'" "current s' = current s"
    "queues s' = (queues s)(q := queues s q @ [w])"
    "waits s' = (waits s)(w := \<lparr>wait_proc = current s, wakeup_flags = WT_INTERRUPTED, wait_queue = q, wait_linked = True\<rparr>)"
    "state (procs s' (current s)) = PROC_SLEEPING" "\<forall>p. p \<noteq> current s \<longrightarrow> procs s' p = procs s p"
    using wait_current_set_correct [OF r, of q WT_PIPE] by blast
  then have "asleep q w s s'" by (simp add: asleep_def)
  then show ?thesis using s'(1) by (simp add: pipe_state_wait_start_def)
qed

text \<open>
  The outcome of a call for the rest of the kernel: the sleepers of the other side's queue are woken if bytes were moved, and then, if
  the call has to wait, the running process sleeps at the end of its own queue.
\<close>

definition pipe_post :: "kern \<Rightarrow> call \<Rightarrow> bool \<Rightarrow> queue_id \<Rightarrow> queue_id \<Rightarrow> wait_id \<Rightarrow> kern \<Rightarrow> bool" where
  "pipe_post s c b wake q w s' \<longleftrightarrow>
     (\<exists>t. woken b wake s t \<and> (case c of Sleeping _ \<Rightarrow> asleep q w t s' | _ \<Rightarrow> s' = t))"

lemma pipe_ready_frame:
  assumes "pipe_ready w p s" "pipe_inv p'" "psem p' = psem p" "reader_queue p' = reader_queue p" "writer_queue p' = writer_queue p"
  shows "pipe_ready w p' s"
  using assms by (simp add: pipe_ready_def)

lemma contents_psem [simp]: "contents (p\<lparr>psem := m\<rparr>) = contents p"
  by (simp add: contents_def)

lemma psem_frame: "isclosed (p\<lparr>psem := m\<rparr>) = isclosed p" "reader_queue (p\<lparr>psem := m\<rparr>) = reader_queue p"
  "writer_queue (p\<lparr>psem := m\<rparr>) = writer_queue p" "contents (p\<lparr>psem := m\<rparr>) = contents p"
  by simp_all

text \<open>Taking the lock and giving it back leaves the semaphore as it was.\<close>

lemma lock_unlock:
  fixes p :: pipe_state
  defines "q \<equiv> p\<lparr>psem := (psem p)\<lparr>sem_value := sem_value (psem p) - 1\<rparr>\<rparr>"
  shows "q\<lparr>p_rpos := x, psem := (psem q)\<lparr>sem_value := sem_value (psem q) + 1\<rparr>\<rparr> = p\<lparr>p_rpos := x\<rparr>"
    "q\<lparr>pbuf := y, p_wpos := z, psem := (psem q)\<lparr>sem_value := sem_value (psem q) + 1\<rparr>\<rparr> = p\<lparr>pbuf := y, p_wpos := z\<rparr>"
  by (simp_all add: q_def)

lemma pipe_read_locked_correct:
  assumes r: "pipe_ready w p s"
  shows "\<exists>c p' s'. pipe_read_locked w n p s = Some (c, p', s') \<and>
    c = (if contents p \<noteq> [] then Done (take n (contents p)) else if isclosed p then Done [] else Sleeping []) \<and>
    contents p' = drop n (contents p) \<and> p' = p\<lparr>p_rpos := p_rpos p', psem := (psem p)\<lparr>sem_value := sem_value (psem p) + 1\<rparr>\<rparr> \<and>
    pipe_post s c (take n (contents p) \<noteq> []) (writer_queue p) (reader_queue p) w s'"
proof (cases "is_empty p")
  case True
  have e: "contents p = []" using True r is_empty_iff by (simp add: pipe_ready_def)
  have w: "woken False q s s" for q using r by (simp add: woken_def pipe_ready_def)
  obtain s1 where sl: "pipe_state_wait_start (reader_queue p) w s = Some s1" "asleep (reader_queue p) w s s1" using pipe_sleep [OF r] by blast
  show ?thesis using True e w sl pipe_unlock [OF r] by (cases "isclosed p") (auto simp: pipe_read_locked_def pipe_post_def)
next
  case False
  have inv: "pipe_inv p" using r by (simp add: pipe_ready_def)
  have e: "contents p \<noteq> []" using False is_empty_iff [OF inv] by simp
  obtain bs p1 where l: "read_loop n p = (bs, p1)" by fastforce
  have p1: "bs = take n (contents p)" "contents p1 = drop n (contents p)" "pipe_inv p1" "p1 = p\<lparr>p_rpos := p_rpos p1\<rparr>"
    using read_loop_correct [OF inv, of n] l by simp_all
  have same: "psem p1 = psem p" "reader_queue p1 = reader_queue p" "writer_queue p1 = writer_queue p"
    by (subst p1(4), simp)+
  have r1: "pipe_ready w p1 s" by (rule pipe_ready_frame [OF r p1(3) same])
  obtain s1 where w: "(if bs \<noteq> [] then pipe_state_wakeup (writer_queue p1) s else Some s) = Some s1" "pipe_ready w p1 s1" "woken (bs \<noteq> []) (writer_queue p1) s s1"
    using pipe_wakeup_ready [OF r1, of "writer_queue p1" "bs \<noteq> []"] by auto
  let ?p = "p1\<lparr>psem := (psem p)\<lparr>sem_value := sem_value (psem p) + 1\<rparr>\<rparr>"
  have eq: "pipe_read_locked w n p s = Some (Done bs, ?p, s1)"
    using False l w(1) pipe_unlock [OF w(2)] same(1) by (simp add: pipe_read_locked_def)
  show ?thesis
  proof (intro exI conjI)
    show "pipe_read_locked w n p s = Some (Done bs, ?p, s1)" by (rule eq)
    show "?p = p\<lparr>p_rpos := p_rpos ?p, psem := (psem p)\<lparr>sem_value := sem_value (psem p) + 1\<rparr>\<rparr>"
    proof -
      obtain x where "p1 = p\<lparr>p_rpos := x\<rparr>" using p1(4) by blast
      then show ?thesis by simp
    qed
    show "pipe_post s (Done bs) (take n (contents p) \<noteq> []) (writer_queue p) (reader_queue p) w s1" using w(3) p1(1) same by (simp add: pipe_post_def)
  qed (use e p1(1,2) in simp_all)
qed

lemma pipe_write_locked_correct:
  assumes r: "pipe_ready w p s" and fits: "pipe_fits p (length bs)" and room: "room = PIPE_BUFSIZE - length (contents p)"
  shows "\<exists>c p' s'. pipe_write_locked w bs p s = Some (c, p', s') \<and>
    p' = p\<lparr>pbuf := pbuf p', p_wpos := p_wpos p', psem := (psem p)\<lparr>sem_value := sem_value (psem p) + 1\<rparr>\<rparr> \<and>
    pipe_post s c (\<not> isclosed p \<and> bs \<noteq> []) (reader_queue p) (writer_queue p) w s' \<and>
    (if isclosed p then c = Done bs \<and> contents p' = contents p
     else c = (if length bs \<le> room then Done [] else Sleeping (drop room bs)) \<and> contents p' = contents p @ take room bs)"
proof (cases "isclosed p")
  case True
  have w: "woken False q s s" for q using r by (simp add: woken_def pipe_ready_def)
  then show ?thesis using True pipe_unlock [OF r] by (simp add: pipe_write_locked_def pipe_post_def)
next
  case False
  obtain rest p1 where l: "write_loop bs p = (rest, p1)" by fastforce
  have p1: "rest = drop room bs" "contents p1 = contents p @ take room bs" "pipe_inv p1"
    "p1 = p\<lparr>pbuf := pbuf p1, p_wpos := p_wpos p1\<rparr>"
    using write_loop_correct [of p bs 0] fits l room by (simp_all add: pipe_fits_def)
  have same: "psem p1 = psem p" "reader_queue p1 = reader_queue p" "writer_queue p1 = writer_queue p"
    by (subst p1(4), simp)+
  have r1: "pipe_ready w p1 s" by (rule pipe_ready_frame [OF r p1(3) same])
  have ne: "rest \<noteq> [] \<Longrightarrow> bs \<noteq> []" using p1(1) by auto
  obtain s1 where w: "(if bs \<noteq> [] then pipe_state_wakeup (reader_queue p1) s else Some s) = Some s1" "pipe_ready w p1 s1" "woken (bs \<noteq> []) (reader_queue p1) s s1"
    using pipe_wakeup_ready [OF r1, of "reader_queue p1" "bs \<noteq> []"] by auto
  obtain s2 where sl: "pipe_state_wait_start (writer_queue p1) w s1 = Some s2" "asleep (writer_queue p1) w s1 s2" using pipe_sleep [OF w(2)] by blast
  let ?p = "p1\<lparr>psem := (psem p)\<lparr>sem_value := sem_value (psem p) + 1\<rparr>\<rparr>"
  have eq: "pipe_write_locked w bs p s = (if rest = [] then Some (Done [], ?p, s1) else Some (Sleeping rest, ?p, s2))"
    using False l w(1) pipe_unlock [OF w(2)] sl(1) same(1) ne by (cases "rest = []") (simp_all add: pipe_write_locked_def)
  have pe: "?p = p\<lparr>pbuf := pbuf ?p, p_wpos := p_wpos ?p, psem := (psem p)\<lparr>sem_value := sem_value (psem p) + 1\<rparr>\<rparr>"
  proof -
    obtain x y where "p1 = p\<lparr>pbuf := x, p_wpos := y\<rparr>" using p1(4) by blast
    then show ?thesis by simp
  qed
  define c where "c = (if rest = [] then Done [] else Sleeping rest)"
  show ?thesis
  proof (intro exI conjI)
    show "pipe_write_locked w bs p s = Some (c, ?p, if rest = [] then s1 else s2)" using eq by (simp add: c_def)
    show "pipe_post s c (\<not> isclosed p \<and> bs \<noteq> []) (reader_queue p) (writer_queue p) w (if rest = [] then s1 else s2)"
      using False w(3) sl(2) same ne by (auto simp: pipe_post_def c_def)
    show "if isclosed p then c = Done bs \<and> contents ?p = contents p
      else c = (if length bs \<le> room then Done [] else Sleeping (drop room bs)) \<and> contents ?p = contents p @ take room bs"
      using False p1(1,2) by (simp add: c_def)
  qed (rule pe)
qed

text \<open>With the lock free, \<^verbatim>\<open>lock_state\<close> takes it and leaves the holder ready.\<close>

lemma lock_state_free:
  assumes "pipe_ready w p s" and "sem_value (psem p) > 0"
  defines "m \<equiv> (psem p)\<lparr>sem_value := sem_value (psem p) - 1\<rparr>"
  shows "lock_state w p s = Some (True, p\<lparr>psem := m\<rparr>, s) \<and> pipe_ready w (p\<lparr>psem := m\<rparr>) s"
  using assms by (auto simp: lock_state_def ksem_down_def down_start_def pipe_ready_def pipe_inv_def)

section \<open>Properties\<close>

text \<open>A new pipe.\<close>

definition boot_pipe :: pipe_state where
  "boot_pipe = the (fst (pipe_state_create True (\<lambda>_. 0) 7 8 9 boot_kern))"

lemma boot_pipe_simps:
  "p_rpos boot_pipe = 0" "p_wpos boot_pipe = 0" "isclosed boot_pipe = False" "reader_queue boot_pipe = 8"
  "writer_queue boot_pipe = 9" "sem_value (psem boot_pipe) = 1" "sem_valid (psem boot_pipe)" "sem_queue (psem boot_pipe) = 7"
  "contents boot_pipe = []"
  by (simp_all add: boot_pipe_def pipe_state_create_def sem_init_def contents_def)

lemma boot_pipe_ready: "pipe_ready 5 boot_pipe boot_kern" "pipe_fits boot_pipe 1000"
  by (simp_all add: pipe_ready_def boot_kern_inv boot_kern_wait pipe_inv_def pipe_fits_def boot_pipe_simps boot_kern_simps)

text \<open>
  C11: The pipe is a byte stream: for every sequence of writes and reads, the bytes the reads return are,
  in order and without loss or duplication, those in the pipe at the start followed by those the writes put in, up to
  what is still in the pipe, which is never more than the buffer holds.
\<close>

theorem pipe_stream_order:
  assumes "pipe_fits p (sum_list (map op_size ops))" and "fifo_run write_loop read_loop ops p = (i, out, p')"
  shows "contents p @ i = out @ contents p' \<and> length (contents p') \<le> PIPE_BUFSIZE"
  using pipe_buffer.run_stream [of p ops 0 i out p'] assms by simp

theorem pipe_stream_order_witness:
  "\<exists>p'. fifo_run write_loop read_loop [Push [1, 2], Pop (Suc 0)] boot_pipe = ([1, 2], [1], p') \<and> contents p' = [2]"
proof -
  obtain p' where e: "fifo_run write_loop read_loop [Push [1, 2], Pop (Suc 0)] boot_pipe = ([1, 2], [1], p')"
    by (simp add: is_full_def is_empty_def boot_pipe_simps word_le_nat_alt)
  have "pipe_fits boot_pipe (sum_list (map op_size [Push [1, 2 :: u8], Pop (Suc 0)]))"
    using boot_pipe_ready(2) by (simp add: pipe_fits_def)
  from pipe_stream_order [OF this e] have "contents p' = [2]" by (simp add: boot_pipe_simps)
  then show ?thesis using e by blast
qed

text \<open>
  C35: \<^verbatim>\<open>pipe_state_read\<close>, called by a process other than an idle one on a pipe whose lock is free and not waited for, never panics and leaves the lock free. It returns the first \<open>n\<close> bytes of a
  non-empty pipe and takes them out; if there were any, every process that sleeps on the queue of the writers becomes runnable, with
  \<^verbatim>\<open>WT_PIPE\<close> as the reason, and the queue is empty. On an empty pipe it returns 0 if the pipe is closed, and otherwise the process sleeps at the end
  of the queue of the readers. No other process changes its state and no other queue changes.
\<close>

theorem pipe_state_read_spec:
  assumes "pipe_ready w p s" and "sem_value (psem p) > 0"
  shows "\<exists>c p' s'. pipe_state_read w n (Try []) p s = Some (c, p', s') \<and>
    c = (if contents p \<noteq> [] then Done (take n (contents p)) else if isclosed p then Done [] else Sleeping []) \<and>
    contents p' = drop n (contents p) \<and> p' = p\<lparr>p_rpos := p_rpos p'\<rparr> \<and>
    pipe_post s c (take n (contents p) \<noteq> []) (writer_queue p) (reader_queue p) w s'"
proof -
  let ?p = "p\<lparr>psem := (psem p)\<lparr>sem_value := sem_value (psem p) - 1\<rparr>\<rparr>"
  note m = lock_state_free [OF assms]
  then have eq: "pipe_state_read w n (Try []) p s = pipe_read_locked w n ?p s"
    by (simp add: pipe_state_read_def pipe_read_try_def)
  show ?thesis using pipe_read_locked_correct [OF conjunct2 [OF m], of n] unfolding eq lock_unlock unfolding psem_frame .
qed

theorem pipe_state_read_spec_witness:
  "\<exists>p' s'. pipe_state_read 5 10 (Try []) boot_pipe boot_kern = Some (Sleeping [], p', s') \<and> p' = boot_pipe\<lparr>p_rpos := p_rpos p'\<rparr> \<and>
    state (procs s' 1) = PROC_SLEEPING \<and> queues s' 8 = [5]"
  using pipe_state_read_spec [OF boot_pipe_ready(1), of 10] by (auto simp: boot_pipe_simps boot_kern_simps pipe_post_def woken_def asleep_def)

text \<open>
  C36: \<^verbatim>\<open>pipe_state_write\<close>, called by a process other than an idle one on a pipe whose lock is free and not waited for, never panics and leaves the lock free. It appends its bytes, as many as there is
  room for; every process that sleeps on the queue of the readers becomes runnable and the queue is empty. It sleeps at the end of the queue of the writers
  exactly when bytes are left over. On a closed pipe it returns at once, writes nothing and wakes nobody. No other process changes its state
  and no other queue changes. The position of the writer is assumed to stay within its 64 bits.
\<close>

theorem pipe_state_write_spec:
  assumes "pipe_ready w p s" and "sem_value (psem p) > 0" and "pipe_fits p (length bs)"
    and "room = PIPE_BUFSIZE - length (contents p)"
  shows "\<exists>c p' s'. pipe_state_write w (Try bs) p s = Some (c, p', s') \<and> p' = p\<lparr>pbuf := pbuf p', p_wpos := p_wpos p'\<rparr> \<and>
    pipe_post s c (\<not> isclosed p \<and> bs \<noteq> []) (reader_queue p) (writer_queue p) w s' \<and>
    (if isclosed p then c = Done bs \<and> contents p' = contents p
     else c = (if length bs \<le> room then Done [] else Sleeping (drop room bs)) \<and> contents p' = contents p @ take room bs)"
proof -
  let ?p = "p\<lparr>psem := (psem p)\<lparr>sem_value := sem_value (psem p) - 1\<rparr>\<rparr>"
  note m = lock_state_free [OF assms(1,2)]
  have f: "pipe_fits ?p (length bs)" "room = PIPE_BUFSIZE - length (contents ?p)" using assms(3,4) by (simp_all add: pipe_fits_def pipe_inv_def)
  have eq: "pipe_state_write w (Try bs) p s = pipe_write_locked w bs ?p s"
    using m by (simp add: pipe_state_write_def pipe_write_try_def)
  show ?thesis using pipe_write_locked_correct [OF conjunct2 [OF m] f] unfolding eq lock_unlock unfolding psem_frame .
qed

theorem pipe_state_write_spec_witness:
  "\<exists>p' s'. pipe_state_write 5 (Try [1, 2]) boot_pipe boot_kern = Some (Done [], p', s') \<and> contents p' = [1, 2] \<and> psem p' = psem boot_pipe"
proof -
  obtain c p' s' where "pipe_state_write 5 (Try [1, 2]) boot_pipe boot_kern = Some (c, p', s')" "p' = boot_pipe\<lparr>pbuf := pbuf p', p_wpos := p_wpos p'\<rparr>"
    "c = Done []" "contents p' = [1, 2]"
    using pipe_state_write_spec [OF boot_pipe_ready(1), of "[1, 2]" 4000] boot_pipe_ready(2) by (auto simp: boot_pipe_simps pipe_fits_def)
  moreover obtain x y where "p' = boot_pipe\<lparr>pbuf := x, p_wpos := y\<rparr>" using calculation(2) by blast
  then have "psem p' = psem boot_pipe" by simp
  ultimately show ?thesis by blast
qed

text \<open>
  \<^verbatim>\<open>pipe_state_size\<close> is exact and in bounds: it reports the number of bytes a read can return, and for an open
  pipe the number of bytes the writer's loop will store before it has to wait; neither exceeds the buffer.
\<close>

theorem pipe_state_size_exact:
  assumes "pipe_inv p"
  shows "unat (pipe_state_size p False) = length (fst (read_loop PIPE_BUFSIZE p)) \<and>
    unat (pipe_state_size p False) \<le> PIPE_BUFSIZE \<and>
    (\<not> isclosed p \<longrightarrow> unat (pipe_state_size p False) + unat (pipe_state_size p True) = PIPE_BUFSIZE \<and>
      (\<forall>bs. pipe_fits p (length bs) \<longrightarrow>
        length (fst (write_loop bs p)) = length bs - unat (pipe_state_size p True)))"
proof -
  have d: "unat (p_wpos p - p_rpos p) = length (contents p)" using unat_pos_diff [OF assms] by simp
  have le: "length (contents p) \<le> 4000" using assms by (simp add: pipe_inv_def)
  have "p_wpos p - p_rpos p \<le> 4000" using d le by (simp add: word_le_nat_alt)
  then have w: "unat (4000 - (p_wpos p - p_rpos p)) = 4000 - length (contents p)" using d by (simp add: unat_sub)
  have "length (fst (read_loop 4000 p)) = length (contents p)"
    using read_loop_correct [OF assms, of 4000] le by simp
  moreover have "length (fst (write_loop bs p)) = length bs - (4000 - length (contents p))" if "pipe_fits p (length bs)" for bs
    using write_loop_correct [of p bs 0] that by simp
  ultimately show ?thesis using d w le unfolding pipe_state_size_def PIPE_BUFSIZE_def Let_def by simp
qed

theorem pipe_state_size_exact_witness:
  "unat (pipe_state_size boot_pipe True) = 4000 \<and> length (fst (write_loop (replicate 5 7) boot_pipe)) = 0"
proof -
  have "unat (pipe_state_size boot_pipe False) + unat (pipe_state_size boot_pipe True) = PIPE_BUFSIZE \<and>
      (\<forall>bs. pipe_fits boot_pipe (length bs) \<longrightarrow>
        length (fst (write_loop bs boot_pipe)) = length bs - unat (pipe_state_size boot_pipe True))"
    using pipe_state_size_exact [of boot_pipe] boot_pipe_ready by (simp add: pipe_ready_def boot_pipe_simps)
  moreover have "unat (pipe_state_size boot_pipe False) = 0" by (simp add: pipe_state_size_def boot_pipe_simps)
  moreover have "pipe_fits boot_pipe 5" using boot_pipe_ready(2) by (simp add: pipe_fits_def)
  ultimately show ?thesis by simp
qed

end
