(* ===== verification/Rb_Tree.thy ===== *)
theory Rb_Tree
  imports Ucore_Prelude
begin

text \<open>
  Red-black trees (\<^verbatim>\<open>libs/rb_tree.c\<close>). A subtree of the C structure is a value of the datatype \<open>rb\<close>
  and the sentinel \<^verbatim>\<open>nil\<close> is \<open>Nil\<close>; a pointer into the tree, from which the code also walks up the \<^verbatim>\<open>parent\<close> links,
  is the subtree it points to together with the list of its ancestors, each with its other
  child, up to the sentinel \<^verbatim>\<open>root\<close>, which is the empty list. Rotations, insertion, deletion and their repair loops
  then read as in the code. Assertions, and writes to \<^verbatim>\<open>nil\<close>, which the code relies on never to do, are panics.
\<close>

section \<open>The code\<close>

datatype 'a rb = Nil | Node bool "'a rb" 'a "'a rb"

datatype 'a frame = InLeft bool 'a "'a rb" | InRight bool "'a rb" 'a

fun is_red :: "'a rb \<Rightarrow> bool" where
  "is_red Nil = False"
| "is_red (Node c l x r) = c"

fun paint :: "bool \<Rightarrow> 'a rb \<Rightarrow> 'a rb" where
  "paint c Nil = Nil"
| "paint c (Node d l x r) = Node c l x r"

fun frame_red :: "'a frame \<Rightarrow> bool" where
  "frame_red (InLeft c x r) = c"
| "frame_red (InRight c l x) = c"

fun plug :: "'a frame \<Rightarrow> 'a rb \<Rightarrow> 'a rb" where
  "plug (InLeft c x r) t = Node c t x r"
| "plug (InRight c l x) t = Node c l x t"

fun zip_up :: "'a rb \<Rightarrow> 'a frame list \<Rightarrow> 'a rb" where
  "zip_up t [] = t"
| "zip_up t (f # path) = zip_up (plug f t) path"

definition rb_tree_empty :: "'a rb \<Rightarrow> bool" where
  "rb_tree_empty t \<longleftrightarrow> t = Nil"

text \<open>The three allocations of \<^verbatim>\<open>rb_tree_create\<close> succeed or fail.\<close>

definition rb_tree_create :: "bool \<Rightarrow> bool \<Rightarrow> bool \<Rightarrow> 'a rb option" where
  "rb_tree_create ok_tree ok_nil ok_root =
     (if \<not> ok_tree then None else if \<not> ok_nil then None else if \<not> ok_root then None else Some Nil)"

fun rb_left_rotate :: "'a rb \<Rightarrow> 'a rb option" where
  "rb_left_rotate (Node c a x (Node d b y e)) = Some (Node d (Node c a x b) y e)"
| "rb_left_rotate _ = None"

fun rb_right_rotate :: "'a rb \<Rightarrow> 'a rb option" where
  "rb_right_rotate (Node c (Node d a x b) y e) = Some (Node d a x (Node c b y e))"
| "rb_right_rotate _ = None"

text \<open>\<^verbatim>\<open>rb_insert_binary\<close>: the ancestors of the place where the new node is linked.\<close>

fun rb_insert_binary :: "('a \<Rightarrow> 'a \<Rightarrow> int) \<Rightarrow> 'a \<Rightarrow> 'a rb \<Rightarrow> 'a frame list \<Rightarrow> 'a frame list" where
  "rb_insert_binary compare k Nil path = path"
| "rb_insert_binary compare k (Node c l x r) path =
     (if compare x k > 0 then rb_insert_binary compare k l (InLeft c x r # path)
      else rb_insert_binary compare k r (InRight c l x # path))"

text \<open>
  The loop of \<^verbatim>\<open>rb_insert\<close>. If the parent is red and is the root of the tree, the rotation would be at the
  sentinel \<^verbatim>\<open>root\<close>, which the assertion of the rotation excludes.
\<close>

fun rb_insert_fixup :: "'a rb \<Rightarrow> 'a frame list \<Rightarrow> 'a rb option" where
  "rb_insert_fixup x [] = Some x"
| "rb_insert_fixup x [f] = (if frame_red f then None else Some (plug f x))"
| "rb_insert_fixup x (f # g # path) =
     (if \<not> frame_red f then Some (zip_up x (f # g # path))
      else case g of
          InLeft gc gx y \<Rightarrow>
            if is_red y then rb_insert_fixup (Node True (paint False (plug f x)) gx (paint False y)) path
            else do {
              p \<leftarrow> (case f of InRight _ _ _ \<Rightarrow> rb_left_rotate (plug f x) | InLeft _ _ _ \<Rightarrow> Some (plug f x));
              t \<leftarrow> rb_right_rotate (Node True (paint False p) gx y);
              Some (zip_up t path)
            }
        | InRight gc y gx \<Rightarrow>
            if is_red y then rb_insert_fixup (Node True (paint False y) gx (paint False (plug f x))) path
            else do {
              p \<leftarrow> (case f of InLeft _ _ _ \<Rightarrow> rb_right_rotate (plug f x) | InRight _ _ _ \<Rightarrow> Some (plug f x));
              t \<leftarrow> rb_left_rotate (Node True y gx (paint False p));
              Some (zip_up t path)
            })"

definition rb_insert :: "('a \<Rightarrow> 'a \<Rightarrow> int) \<Rightarrow> 'a \<Rightarrow> 'a rb \<Rightarrow> 'a rb option" where
  "rb_insert compare k t = do {
     t \<leftarrow> rb_insert_fixup (Node True Nil k Nil) (rb_insert_binary compare k t []);
     Some (paint False t)
   }"

text \<open>A pointer to the node of \<open>z\<close>: the subtree and its ancestors.\<close>

fun rb_locate :: "'a \<Rightarrow> 'a rb \<Rightarrow> 'a frame list \<Rightarrow> ('a rb \<times> 'a frame list) option" where
  "rb_locate z Nil path = None"
| "rb_locate z (Node c l x r) path =
     (if x = z then Some (Node c l x r, path)
      else case rb_locate z l (InLeft c x r # path) of
          Some p \<Rightarrow> Some p
        | None \<Rightarrow> rb_locate z r (InRight c l x # path))"

fun rb_leftmost :: "'a rb \<Rightarrow> 'a frame list \<Rightarrow> ('a rb \<times> 'a frame list)" where
  "rb_leftmost (Node c (Node d a y b) x r) path = rb_leftmost (Node d a y b) (InLeft c x r # path)"
| "rb_leftmost t path = (t, path)"

fun rb_rightmost :: "'a rb \<Rightarrow> 'a frame list \<Rightarrow> ('a rb \<times> 'a frame list)" where
  "rb_rightmost (Node c l x (Node d a y b)) path = rb_rightmost (Node d a y b) (InRight c l x # path)"
| "rb_rightmost t path = (t, path)"

text \<open>The node of an ancestor list reached by climbing while the walk comes from the right (left).\<close>

fun climb_succ :: "'a frame list \<Rightarrow> 'a option" where
  "climb_succ [] = None"
| "climb_succ (InLeft c x r # path) = Some x"
| "climb_succ (InRight c l x # path) = climb_succ path"

fun climb_pred :: "'a frame list \<Rightarrow> 'a option" where
  "climb_pred [] = None"
| "climb_pred (InRight c l x # path) = Some x"
| "climb_pred (InLeft c x r # path) = climb_pred path"

fun node_of :: "'a rb \<Rightarrow> 'a option" where
  "node_of Nil = None"
| "node_of (Node c l x r) = Some x"

fun rb_tree_successor :: "'a rb \<times> 'a frame list \<Rightarrow> 'a option" where
  "rb_tree_successor (Node c l x r, path) =
     (if r \<noteq> Nil then node_of (fst (rb_leftmost r (InRight c l x # path))) else climb_succ path)"
| "rb_tree_successor (Nil, path) = None"

fun rb_tree_predecessor :: "'a rb \<times> 'a frame list \<Rightarrow> 'a option" where
  "rb_tree_predecessor (Node c l x r, path) =
     (if l \<noteq> Nil then node_of (fst (rb_rightmost l (InLeft c x r # path))) else climb_pred path)"
| "rb_tree_predecessor (Nil, path) = None"

definition rb_node_next :: "'a \<Rightarrow> 'a rb \<Rightarrow> 'a option" where
  "rb_node_next z t = do { p \<leftarrow> rb_locate z t []; rb_tree_successor p }"

definition rb_node_prev :: "'a \<Rightarrow> 'a rb \<Rightarrow> 'a option" where
  "rb_node_prev z t = do { p \<leftarrow> rb_locate z t []; rb_tree_predecessor p }"

text \<open>The argument \<open>compare\<close> is the comparison of a node with the key sought.\<close>

fun rb_search :: "('a \<Rightarrow> int) \<Rightarrow> 'a rb \<Rightarrow> 'a option" where
  "rb_search compare Nil = None"
| "rb_search compare (Node c l x r) =
     (if compare x = 0 then Some x else if compare x > 0 then rb_search compare l else rb_search compare r)"

text \<open>
  One round of \<^verbatim>\<open>rb_delete_fixup\<close> below the parent \<open>px\<close> of colour \<open>pc\<close>, with the sibling \<open>w\<close> black: the
  new subtree in the parent's place, and whether the loop is done (\<^verbatim>\<open>x = root\<close>).
\<close>

definition rb_fixup_left :: "'a rb \<Rightarrow> bool \<Rightarrow> 'a \<Rightarrow> 'a rb \<Rightarrow> ('a rb \<times> bool) option" where
  "rb_fixup_left x pc px w = (case w of
       Nil \<Rightarrow> None
     | Node wc wl wx wr \<Rightarrow>
         if \<not> is_red wl \<and> \<not> is_red wr then Some (Node pc x px (Node True wl wx wr), False)
         else do {
           w \<leftarrow> (if \<not> is_red wr then rb_right_rotate (Node True (paint False wl) wx wr) else Some w);
           (case w of
              Nil \<Rightarrow> None
            | Node _ wl wx wr \<Rightarrow> do {
                t \<leftarrow> rb_left_rotate (Node False x px (Node pc wl wx (paint False wr)));
                Some (t, True)
              })
         })"

definition rb_fixup_right :: "'a rb \<Rightarrow> bool \<Rightarrow> 'a \<Rightarrow> 'a rb \<Rightarrow> ('a rb \<times> bool) option" where
  "rb_fixup_right x pc px w = (case w of
       Nil \<Rightarrow> None
     | Node wc wl wx wr \<Rightarrow>
         if \<not> is_red wr \<and> \<not> is_red wl then Some (Node pc (Node True wl wx wr) px x, False)
         else do {
           w \<leftarrow> (if \<not> is_red wl then rb_left_rotate (Node True wl wx (paint False wr)) else Some w);
           (case w of
              Nil \<Rightarrow> None
            | Node _ wl wx wr \<Rightarrow> do {
                t \<leftarrow> rb_right_rotate (Node False (Node pc (paint False wl) wx wr) px x);
                Some (t, True)
              })
         })"

text \<open>The whole round: with a red sibling the parent is rotated down first and has a black one.\<close>

definition rb_fixup_round :: "'a rb \<Rightarrow> 'a frame \<Rightarrow> 'a frame list \<Rightarrow> ('a rb \<times> 'a frame list \<times> bool) option" where
  "rb_fixup_round x f up = (case f of
       InLeft pc px w \<Rightarrow>
         (case w of
            Node True wl wx wr \<Rightarrow> do {
              (t, fin) \<leftarrow> rb_fixup_left x True px wl;
              Some (t, InLeft False wx wr # up, fin)
            }
          | _ \<Rightarrow> do { (t, fin) \<leftarrow> rb_fixup_left x pc px w; Some (t, up, fin) })
     | InRight pc w px \<Rightarrow>
         (case w of
            Node True wl wx wr \<Rightarrow> do {
              (t, fin) \<leftarrow> rb_fixup_right x True px wr;
              Some (t, InRight False wl wx # up, fin)
            }
          | _ \<Rightarrow> do { (t, fin) \<leftarrow> rb_fixup_right x pc px w; Some (t, up, fin) }))"

lemma rb_fixup_red:
  "rb_fixup_left x pc px w = Some (t, False) \<Longrightarrow> is_red t = pc"
  "rb_fixup_right x pc px w = Some (t, False) \<Longrightarrow> is_red t = pc"
  by (auto simp: rb_fixup_left_def rb_fixup_right_def split: rb.splits if_splits elim!: bind_SomeE)

lemma rb_fixup_round_decr:
  "rb_fixup_round x f up = Some (t, path, False) \<Longrightarrow> is_red t \<or> path = up"
  by (auto simp: rb_fixup_round_def rb_fixup_red split: frame.splits rb.splits bool.splits elim!: bind_SomeE)

text \<open>
  \<^verbatim>\<open>rb_delete_fixup\<close>. The loop leaves with \<^verbatim>\<open>x\<close> red or at the root, and paints it black; or by
  \<^verbatim>\<open>x = root\<close>, where \<^verbatim>\<open>root\<close> was read before the loop: if the parent was that root it has just been painted black.
\<close>

function rb_delete_fixup :: "'a rb \<Rightarrow> 'a frame list \<Rightarrow> 'a rb option" where
  "rb_delete_fixup x path =
     (if path = [] \<or> is_red x then Some (zip_up (paint False x) path)
      else case rb_fixup_round x (hd path) (tl path) of
          None \<Rightarrow> None
        | Some (t, up, fin) \<Rightarrow>
            if fin then Some (if tl path = [] then zip_up t up else paint False (zip_up t up))
            else rb_delete_fixup t up)"
  by pat_completeness auto
termination
proof (relation "measure (\<lambda>(x, path). if is_red x then 0 else Suc (length path))", goal_cases)
  case (2 x path _ t _ up fin)
  then have "is_red t \<or> up = tl path" by (intro rb_fixup_round_decr) auto
  then show ?case using 2 by (cases path) auto
qed simp

declare rb_delete_fixup.simps [simp del]

definition rb_delete :: "'a \<Rightarrow> 'a rb \<Rightarrow> 'a rb option" where
  "rb_delete z t = (case rb_locate z t [] of
       Some (Node zc l _ r, path) \<Rightarrow>
         if l = Nil \<or> r = Nil then
           (let x = (if l \<noteq> Nil then l else r) in
            if \<not> zc then rb_delete_fixup x path else Some (zip_up x path))
         else
           (case rb_leftmost r [] of
              (Node yc yl y yr, ypath) \<Rightarrow>
                (let x = (if yl \<noteq> Nil then yl else yr); path' = ypath @ InRight zc l y # path in
                 if \<not> yc then rb_delete_fixup x path' else Some (zip_up x path'))
            | _ \<Rightarrow> None)
     | _ \<Rightarrow> None)"

text \<open>
  \<^verbatim>\<open>check_tree\<close>: the self-check of the tree, which returns its black height. The code also asserts that each child points back to its parent;
  here the parent of a node is the frame above it, so there is nothing to assert.
\<close>

fun check_tree :: "('a \<Rightarrow> 'a \<Rightarrow> int) \<Rightarrow> 'a rb \<Rightarrow> nat option" where
  "check_tree compare Nil = Some 1"
| "check_tree compare (Node c l x r) = do {
     kassert (case l of Nil \<Rightarrow> True | Node _ _ y _ \<Rightarrow> compare x y \<ge> 0);
     kassert (case r of Nil \<Rightarrow> True | Node _ _ y _ \<Rightarrow> compare x y \<le> 0);
     kassert (c \<longrightarrow> \<not> is_red l \<and> \<not> is_red r);
     hb_left \<leftarrow> check_tree compare l;
     hb_right \<leftarrow> check_tree compare r;
     kassert (hb_left = hb_right);
     Some (if c then hb_left else hb_left + 1)
   }"

section \<open>Order\<close>

fun inorder :: "'a rb \<Rightarrow> 'a list" where
  "inorder Nil = []"
| "inorder (Node c l x r) = inorder l @ x # inorder r"

fun before :: "'a frame list \<Rightarrow> 'a list" where
  "before [] = []"
| "before (InLeft c x r # path) = before path"
| "before (InRight c l x # path) = before path @ inorder l @ [x]"

fun after :: "'a frame list \<Rightarrow> 'a list" where
  "after [] = []"
| "after (InLeft c x r # path) = x # inorder r @ after path"
| "after (InRight c l x # path) = after path"

lemma inorder_paint [simp]: "inorder (paint c t) = inorder t"
  by (cases t) auto

lemma inorder_zip_up: "inorder (zip_up t path) = before path @ inorder t @ after path"
proof (induction path arbitrary: t)
  case (Cons f path)
  then show ?case by (cases f) auto
qed simp

lemma inorder_rotate:
  "rb_left_rotate t = Some t' \<Longrightarrow> inorder t' = inorder t"
  "rb_right_rotate t = Some t' \<Longrightarrow> inorder t' = inorder t"
  subgoal by (cases t rule: rb_left_rotate.cases) auto
  subgoal by (cases t rule: rb_right_rotate.cases) auto
  done

lemma rb_insert_fixup_inorder:
  "rb_insert_fixup x path = Some t \<Longrightarrow> inorder t = before path @ inorder x @ after path"
proof (induction x path arbitrary: t rule: rb_insert_fixup.induct)
  case (2 x f)
  then show ?case by (cases f) (auto split: if_splits)
next
  case (3 x f g path)
  show ?case
  proof (cases "frame_red f")
    case False
    then show ?thesis using 3(3) inorder_zip_up [of x "f # g # path"] by simp
  next
    case red: True
    show ?thesis
    proof (cases g)
      case (InLeft gc gx y)
      show ?thesis
      proof (cases "is_red y")
        case True
        then show ?thesis using 3(1) [of gc gx y t] 3(3) red InLeft by (cases f) auto
      next
        case False
        then obtain p s where c: "(case f of InRight _ _ _ \<Rightarrow> rb_left_rotate (plug f x) | InLeft _ _ _ \<Rightarrow> Some (plug f x)) = Some p"
          and s: "rb_right_rotate (Node True (paint False p) gx y) = Some s" and t: "t = zip_up s path"
          using 3(3) red InLeft by (auto elim!: bind_SomeE)
        have p: "inorder p = inorder (plug f x)" using c by (cases f) (auto dest: inorder_rotate)
        show ?thesis unfolding t inorder_zip_up inorder_rotate(2) [OF s] using p InLeft by (cases f) auto
      qed
    next
      case (InRight gc y gx)
      show ?thesis
      proof (cases "is_red y")
        case True
        then show ?thesis using 3(2) [of gc y gx t] 3(3) red InRight by (cases f) auto
      next
        case False
        then obtain p s where c: "(case f of InLeft _ _ _ \<Rightarrow> rb_right_rotate (plug f x) | InRight _ _ _ \<Rightarrow> Some (plug f x)) = Some p"
          and s: "rb_left_rotate (Node True y gx (paint False p)) = Some s" and t: "t = zip_up s path"
          using 3(3) red InRight by (auto elim!: bind_SomeE)
        have p: "inorder p = inorder (plug f x)" using c by (cases f) (auto dest: inorder_rotate)
        show ?thesis unfolding t inorder_zip_up inorder_rotate(1) [OF s] using p InRight by (cases f) auto
      qed
    qed
  qed
qed simp

lemma rb_fixup_left_inorder:
  assumes "rb_fixup_left x pc px w = Some (t, fin)"
  shows "inorder t = inorder x @ px # inorder w"
proof (cases w)
  case (Node wc wl wx wr)
  show ?thesis
  proof (cases "is_red wr")
    case True
    then show ?thesis using assms Node by (auto simp: rb_fixup_left_def)
  next
    case False
    then show ?thesis using assms Node by (cases wl) (auto simp: rb_fixup_left_def split: if_splits)
  qed
qed (use assms in \<open>simp add: rb_fixup_left_def\<close>)

lemma rb_fixup_right_inorder:
  assumes "rb_fixup_right x pc px w = Some (t, fin)"
  shows "inorder t = inorder w @ px # inorder x"
proof (cases w)
  case (Node wc wl wx wr)
  show ?thesis
  proof (cases "is_red wl")
    case True
    then show ?thesis using assms Node by (auto simp: rb_fixup_right_def)
  next
    case False
    then show ?thesis using assms Node by (cases wr) (auto simp: rb_fixup_right_def split: if_splits)
  qed
qed (use assms in \<open>simp add: rb_fixup_right_def\<close>)

lemma rb_fixup_round_inorder:
  assumes "rb_fixup_round x f up = Some (t, up', fin)"
  shows "before up' @ inorder t @ after up' = before (f # up) @ inorder x @ after (f # up)"
  using assms
  by (auto simp: rb_fixup_round_def dest!: rb_fixup_left_inorder rb_fixup_right_inorder
      split: frame.splits rb.splits bool.splits elim!: bind_SomeE)

lemma rb_delete_fixup_inorder:
  "rb_delete_fixup x path = Some t \<Longrightarrow> inorder t = before path @ inorder x @ after path"
proof (induction x path arbitrary: t rule: rb_delete_fixup.induct)
  case (1 x path)
  show ?case
  proof (cases "path = [] \<or> is_red x")
    case True
    then show ?thesis using 1(2) by (auto simp: rb_delete_fixup.simps [of x path] inorder_zip_up)
  next
    case False
    obtain s up fin where r: "rb_fixup_round x (hd path) (tl path) = Some (s, up, fin)"
      using 1(2) False by (auto simp: rb_delete_fixup.simps [of x path] split: option.splits)
    have io: "before up @ inorder s @ after up = before path @ inorder x @ after path"
      using rb_fixup_round_inorder [OF r] False by simp
    show ?thesis
    proof (cases fin)
      case True
      then show ?thesis using 1(2) False r io
        by (auto simp: rb_delete_fixup.simps [of x path] inorder_zip_up split: if_splits)
    next
      case fin: False
      then have "rb_delete_fixup s up = Some t" using 1(2) False r by (simp add: rb_delete_fixup.simps [of x path])
      with 1(1) [OF False r] fin io show ?thesis by simp
    qed
  qed
qed

section \<open>Balance\<close>

fun bh :: "'a rb \<Rightarrow> nat" where
  "bh Nil = 1"
| "bh (Node c l x r) = (if c then bh l else bh l + 1)"

fun rb_ok :: "'a rb \<Rightarrow> bool" where
  "rb_ok Nil = True"
| "rb_ok (Node c l x r) = (rb_ok l \<and> rb_ok r \<and> bh l = bh r \<and> (c \<longrightarrow> \<not> is_red l \<and> \<not> is_red r))"

fun sibling :: "'a frame \<Rightarrow> 'a rb" where
  "sibling (InLeft c x r) = r"
| "sibling (InRight c l x) = l"

text \<open>The ancestors admit a subtree of black height \<open>n\<close>; a red one has a black parent in the tree.\<close>

fun ctx :: "'a frame list \<Rightarrow> nat \<Rightarrow> bool" where
  "ctx [] n = True"
| "ctx (f # path) n = (rb_ok (sibling f) \<and> bh (sibling f) = n \<and>
     (frame_red f \<longrightarrow> \<not> is_red (sibling f) \<and> path \<noteq> [] \<and> \<not> frame_red (hd path)) \<and>
     ctx path (if frame_red f then n else n + 1))"

definition red_ok :: "'a rb \<Rightarrow> 'a frame list \<Rightarrow> bool" where
  "red_ok t path \<longleftrightarrow> (is_red t \<longrightarrow> path \<noteq> [] \<and> \<not> frame_red (hd path))"

lemma is_red_paint [simp]: "is_red (paint c t) \<longleftrightarrow> c \<and> t \<noteq> Nil"
  by (cases t) auto

lemma paint_eq_Nil [simp]: "paint c t = Nil \<longleftrightarrow> t = Nil"
  by (cases t) auto

lemma rb_ok_paint: "rb_ok t \<Longrightarrow> rb_ok (paint False t)"
  by (cases t) auto

lemma bh_paint: "bh (paint False t) = (if is_red t then bh t + 1 else bh t)"
  by (cases t) auto

lemma paint_black: "\<not> is_red t \<Longrightarrow> paint False t = t"
  by (cases t) auto

lemma plug_simps [simp]:
  "is_red (plug f t) = frame_red f" "plug f t \<noteq> Nil" "bh (plug f t) = (case f of InLeft c x r \<Rightarrow> bh t | InRight c l x \<Rightarrow> bh l) + (if frame_red f then 0 else 1)"
  by (cases f; simp)+

lemma zip_up_ok:
  "rb_ok t \<Longrightarrow> ctx path (bh t) \<Longrightarrow> red_ok t path \<Longrightarrow> rb_ok (zip_up t path) \<and> \<not> is_red (zip_up t path)"
proof (induction path arbitrary: t)
  case (Cons f path)
  then show ?case
    by (cases f) (fastforce simp: red_ok_def split: if_splits)+
qed (simp add: red_ok_def)

lemma rb_insert_binary_ctx:
  "rb_ok t \<Longrightarrow> ctx path (bh t) \<Longrightarrow> red_ok t path \<Longrightarrow> ctx (rb_insert_binary compare k t path) 1"
  by (induction compare k t path rule: rb_insert_binary.induct) (auto simp: red_ok_def split: if_splits)

lemma rb_insert_fixup_ok:
  assumes "is_red x" "rb_ok x" "ctx path (bh x)"
  shows "\<exists>t. rb_insert_fixup x path = Some t \<and> rb_ok (paint False t)"
  using assms
proof (induction x path rule: rb_insert_fixup.induct)
  case (1 x)
  then show ?case by (simp add: rb_ok_paint)
next
  case (2 x f)
  then show ?case by (cases f) auto
next
  case (3 x f g path)
  obtain xl xx xr where x: "x = Node True xl xx xr" using 3(3) by (cases x) auto
  show ?case
  proof (cases "frame_red f")
    case False
    then have "rb_ok (zip_up x (f # g # path))"
      by (intro zip_up_ok [THEN conjunct1]) (use 3 in \<open>auto simp: red_ok_def\<close>)
    then show ?thesis using False rb_ok_paint by auto
  next
    case red: True
    have nt: "rb_ok (paint False (zip_up s path))"
      if "rb_ok s" "bh s = bh x + 1" "\<not> is_red s" for s
      using zip_up_ok [of s path] that 3(5) red by (auto simp: red_ok_def rb_ok_paint)
    show ?thesis
    proof (cases g)
      case (InLeft gc gx y)
      show ?thesis
      proof (cases "is_red y")
        case True
        have "\<exists>t. rb_insert_fixup (Node True (paint False (plug f x)) gx (paint False y)) path = Some t \<and> rb_ok (paint False t)"
          by (rule 3(1)) (use 3(3-5) True red InLeft x in \<open>cases f; auto simp: rb_ok_paint bh_paint\<close>)+
        then show ?thesis using True red InLeft by simp
      next
        case False
        show ?thesis
        proof (cases f)
          case L: (InLeft c p s)
          show ?thesis
            using 3(3-5) red InLeft x False L nt [of "Node False x p (Node True s gx y)"] by auto
        next
          case R: (InRight c s p)
          show ?thesis
            using 3(3-5) red InLeft x False R nt [of "Node False (Node True s p xl) xx (Node True xr gx y)"] by auto
        qed
      qed
    next
      case (InRight gc y gx)
      show ?thesis
      proof (cases "is_red y")
        case True
        have "\<exists>t. rb_insert_fixup (Node True (paint False y) gx (paint False (plug f x))) path = Some t \<and> rb_ok (paint False t)"
          by (rule 3(2)) (use 3(3-5) True red InRight x in \<open>cases f; auto simp: rb_ok_paint bh_paint\<close>)+
        then show ?thesis using True red InRight by simp
      next
        case False
        show ?thesis
        proof (cases f)
          case L: (InLeft c p s)
          show ?thesis
            using 3(3-5) red InRight x False L nt [of "Node False (Node True y gx xl) xx (Node True xr p s)"] by auto
        next
          case R: (InRight c s p)
          show ?thesis
            using 3(3-5) red InRight x False R nt [of "Node False (Node True y gx s) p x"] by auto
        qed
      qed
    qed
  qed
qed

lemma bh_pos: "bh t > 0"
  by (induction t) auto

lemma rb_fixup_left_ok:
  assumes "rb_ok x" "rb_ok w" "\<not> is_red x" "\<not> is_red w" "bh w = bh x + 1"
  shows "\<exists>s fin. rb_fixup_left x pc px w = Some (s, fin) \<and> rb_ok (paint False s) \<and> is_red s = pc \<and> (fin \<longrightarrow> rb_ok s) \<and>
    bh s = bh x + (if fin then 1 else 0) + (if pc then 0 else 1)"
proof -
  obtain wl wx wr where w: "w = Node False wl wx wr" using assms(4,5) bh_pos [of x] by (cases w) auto
  consider a b d where "wr = Node True a b d" | a b d where "wl = Node True a b d" "\<not> is_red wr" | "\<not> is_red wl" "\<not> is_red wr"
    by (cases wl; cases wr) auto
  then show ?thesis
  proof cases
    case (1 a b d)
    then have "rb_fixup_left x pc px w = Some (Node pc (Node False x px wl) wx (Node False a b d), True)"
      using w by (simp add: rb_fixup_left_def)
    then show ?thesis using assms w 1 by auto
  next
    case (2 a b d)
    then have "rb_fixup_left x pc px w = Some (Node pc (Node False x px a) b (Node False d wx wr), True)"
      using w by (simp add: rb_fixup_left_def)
    then show ?thesis using assms w 2 by auto
  next
    case 3
    then have "rb_fixup_left x pc px w = Some (Node pc x px (Node True wl wx wr), False)"
      using w by (simp add: rb_fixup_left_def)
    then show ?thesis using assms w 3 by auto
  qed
qed

lemma rb_fixup_right_ok:
  assumes "rb_ok x" "rb_ok w" "\<not> is_red x" "\<not> is_red w" "bh w = bh x + 1"
  shows "\<exists>s fin. rb_fixup_right x pc px w = Some (s, fin) \<and> rb_ok (paint False s) \<and> is_red s = pc \<and> (fin \<longrightarrow> rb_ok s) \<and>
    bh s = bh x + (if fin then 1 else 0) + (if pc then 0 else 1)"
proof -
  obtain wl wx wr where w: "w = Node False wl wx wr" using assms(4,5) bh_pos [of x] by (cases w) auto
  consider a b d where "wl = Node True a b d" | a b d where "wr = Node True a b d" "\<not> is_red wl" | "\<not> is_red wl" "\<not> is_red wr"
    by (cases wl; cases wr) auto
  then show ?thesis
  proof cases
    case (1 a b d)
    then have "rb_fixup_right x pc px w = Some (Node pc (Node False a b d) wx (Node False wr px x), True)"
      using w by (simp add: rb_fixup_right_def)
    then show ?thesis using assms w 1 by auto
  next
    case (2 a b d)
    then have "rb_fixup_right x pc px w = Some (Node pc (Node False wl wx a) b (Node False d px x), True)"
      using w by (simp add: rb_fixup_right_def)
    then show ?thesis using assms w 2 by auto
  next
    case 3
    then have "rb_fixup_right x pc px w = Some (Node pc (Node True wl wx wr) px x, False)"
      using w by (simp add: rb_fixup_right_def)
    then show ?thesis using assms w 3 by auto
  qed
qed

lemma rb_fixup_round_ok:
  assumes x: "rb_ok x" "\<not> is_red x" and c: "ctx (f # up) (bh x + 1)"
  shows "\<exists>s up' fin. rb_fixup_round x f up = Some (s, up', fin) \<and> rb_ok (paint False s) \<and>
    ctx up' (bh s + (if fin then 0 else 1)) \<and> (fin \<longrightarrow> rb_ok s \<and> red_ok s up')"
proof (cases f)
  case (InLeft pc px w)
  show ?thesis
  proof (cases "is_red w")
    case True
    then obtain wl wx wr where w: "w = Node True wl wx wr" by (cases w) auto
    have pre: "rb_ok wl" "\<not> is_red wl" "bh wl = bh x + 1" "\<not> pc" "rb_ok wr" "bh wr = bh x + 1" "\<not> is_red wr"
      "ctx up (bh x + 2)" using c w InLeft by (auto split: if_splits)
    obtain s fin where s: "rb_fixup_left x True px wl = Some (s, fin)" "rb_ok (paint False s)" "is_red s = True" "fin \<longrightarrow> rb_ok s"
      "bh s = bh x + (if fin then 1 else 0) + (if True then 0 else 1)"
      using rb_fixup_left_ok [OF x(1) pre(1) x(2) pre(2,3), of True px] by blast
    have "rb_fixup_round x f up = Some (s, InLeft False wx wr # up, fin)" using s(1) w InLeft by (simp add: rb_fixup_round_def)
    moreover have "ctx (InLeft False wx wr # up) (bh s + (if fin then 0 else 1))" using s(5) pre by (cases fin) auto
    ultimately show ?thesis using s by (intro exI [of _ s] exI [of _ "InLeft False wx wr # up"] exI [of _ fin]) (simp add: red_ok_def)
  next
    case False
    have pre: "rb_ok w" "bh w = bh x + 1" "pc \<longrightarrow> up \<noteq> [] \<and> \<not> frame_red (hd up)" "ctx up (if pc then bh x + 1 else bh x + 2)"
      using c InLeft by (auto split: if_splits)
    obtain s fin where s: "rb_fixup_left x pc px w = Some (s, fin)" "rb_ok (paint False s)" "is_red s = pc" "fin \<longrightarrow> rb_ok s"
      "bh s = bh x + (if fin then 1 else 0) + (if pc then 0 else 1)"
      using rb_fixup_left_ok [OF x(1) pre(1) x(2) False pre(2), of pc px] by blast
    have "rb_fixup_round x f up = Some (s, up, fin)" using s(1) InLeft False by (cases w) (auto simp: rb_fixup_round_def)
    moreover have "ctx up (bh s + (if fin then 0 else 1))" using s(5) pre(4) by (cases fin; cases pc) auto
    ultimately show ?thesis using s pre(3) by (intro exI [of _ s] exI [of _ up] exI [of _ fin]) (simp add: red_ok_def)
  qed
next
  case (InRight pc w px)
  show ?thesis
  proof (cases "is_red w")
    case True
    then obtain wl wx wr where w: "w = Node True wl wx wr" by (cases w) auto
    have pre: "rb_ok wr" "\<not> is_red wr" "bh wr = bh x + 1" "\<not> pc" "rb_ok wl" "bh wl = bh x + 1" "\<not> is_red wl"
      "ctx up (bh x + 2)" using c w InRight by (auto split: if_splits)
    obtain s fin where s: "rb_fixup_right x True px wr = Some (s, fin)" "rb_ok (paint False s)" "is_red s = True" "fin \<longrightarrow> rb_ok s"
      "bh s = bh x + (if fin then 1 else 0) + (if True then 0 else 1)"
      using rb_fixup_right_ok [OF x(1) pre(1) x(2) pre(2,3), of True px] by blast
    have "rb_fixup_round x f up = Some (s, InRight False wl wx # up, fin)" using s(1) w InRight by (simp add: rb_fixup_round_def)
    moreover have "ctx (InRight False wl wx # up) (bh s + (if fin then 0 else 1))" using s(5) pre by (cases fin) auto
    ultimately show ?thesis using s by (intro exI [of _ s] exI [of _ "InRight False wl wx # up"] exI [of _ fin]) (simp add: red_ok_def)
  next
    case False
    have pre: "rb_ok w" "bh w = bh x + 1" "pc \<longrightarrow> up \<noteq> [] \<and> \<not> frame_red (hd up)" "ctx up (if pc then bh x + 1 else bh x + 2)"
      using c InRight by (auto split: if_splits)
    obtain s fin where s: "rb_fixup_right x pc px w = Some (s, fin)" "rb_ok (paint False s)" "is_red s = pc" "fin \<longrightarrow> rb_ok s"
      "bh s = bh x + (if fin then 1 else 0) + (if pc then 0 else 1)"
      using rb_fixup_right_ok [OF x(1) pre(1) x(2) False pre(2), of pc px] by blast
    have "rb_fixup_round x f up = Some (s, up, fin)" using s(1) InRight False by (cases w) (auto simp: rb_fixup_round_def)
    moreover have "ctx up (bh s + (if fin then 0 else 1))" using s(5) pre(4) by (cases fin; cases pc) auto
    ultimately show ?thesis using s pre(3) by (intro exI [of _ s] exI [of _ up] exI [of _ fin]) (simp add: red_ok_def)
  qed
qed

lemma rb_delete_fixup_ok:
  assumes "rb_ok (paint False x)" and "ctx path (bh x + 1)"
  shows "\<exists>t. rb_delete_fixup x path = Some t \<and> rb_ok t \<and> \<not> is_red t"
  using assms
proof (induction x path rule: rb_delete_fixup.induct)
  case (1 x path)
  show ?case
  proof (cases "path = [] \<or> is_red x")
    case True
    then have "rb_ok (zip_up (paint False x) path) \<and> \<not> is_red (zip_up (paint False x) path)"
      using 1(2,3) zip_up_ok [of "paint False x" path] by (auto simp: bh_paint red_ok_def)
    then show ?thesis using True by (simp add: rb_delete_fixup.simps [of x path])
  next
    case False
    then have c: "ctx (hd path # tl path) (bh x + 1)" and x: "rb_ok x" "\<not> is_red x"
      using 1(2,3) paint_black [of x] by auto
    obtain s up fin where r: "rb_fixup_round x (hd path) (tl path) = Some (s, up, fin)" "rb_ok (paint False s)"
      "ctx up (bh s + (if fin then 0 else 1))" "fin \<longrightarrow> rb_ok s \<and> red_ok s up"
      using rb_fixup_round_ok [OF x c] by blast
    show ?thesis
    proof (cases fin)
      case True
      then have "rb_ok (zip_up s up) \<and> \<not> is_red (zip_up s up)" using r by (intro zip_up_ok) auto
      then show ?thesis using False r(1) True paint_black [of "zip_up s up"]
        by (simp add: rb_delete_fixup.simps [of x path])
    next
      case fin: False
      then have "\<exists>t. rb_delete_fixup s up = Some t \<and> rb_ok t \<and> \<not> is_red t"
        using 1(1) [OF False r(1)] r(2,3) by simp
      then show ?thesis using False r(1) fin by (simp add: rb_delete_fixup.simps [of x path])
    qed
  qed
qed

section \<open>Pointers into the tree\<close>

lemma rb_locate_zip: "rb_locate z t path = Some (s, p) \<Longrightarrow> zip_up s p = zip_up t path \<and> node_of s = Some z"
  by (induction z t path rule: rb_locate.induct) (auto split: if_splits option.splits)

lemma rb_locate_ok:
  "rb_locate z t path = Some (s, p) \<Longrightarrow> rb_ok t \<Longrightarrow> ctx path (bh t) \<Longrightarrow> red_ok t path \<Longrightarrow> rb_ok s \<and> ctx p (bh s) \<and> red_ok s p"
proof (induction z t path rule: rb_locate.induct)
  case (2 z c l x r path)
  have l: "ctx (InLeft c x r # path) (bh l)" "red_ok l (InLeft c x r # path)"
    and r: "ctx (InRight c l x # path) (bh r)" "red_ok r (InRight c l x # path)"
    using 2(4-6) by (auto simp: red_ok_def split: if_splits)
  show ?case
  proof (cases "x = z")
    case False
    then show ?thesis using 2 l r by (auto split: option.splits)
  qed (use 2 in auto)
qed simp

lemma rb_locate_mem: "z \<in> set (inorder t) \<Longrightarrow> rb_locate z t path \<noteq> None"
  by (induction z t path rule: rb_locate.induct) (auto split: option.splits)

lemma rb_locate_node:
  assumes "z \<in> set (inorder t)"
  obtains c l r p where "rb_locate z t [] = Some (Node c l z r, p)" and "inorder t = before p @ inorder l @ z # inorder r @ after p"
proof -
  obtain s p where s: "rb_locate z t [] = Some (s, p)" using rb_locate_mem [OF assms, of "[]"] by auto
  then obtain c l r where "s = Node c l z r" using rb_locate_zip [OF s] by (cases s) auto
  moreover have "inorder t = before p @ inorder s @ after p" using rb_locate_zip [OF s] inorder_zip_up [of s p] by simp
  ultimately show thesis using that s by simp
qed

lemma rb_leftmost_append: "rb_leftmost t (p @ q) = (case rb_leftmost t p of (s, p') \<Rightarrow> (s, p' @ q))"
proof (induction t p rule: rb_leftmost.induct)
  case (1 c d a y b x r path)
  then show ?case by simp
qed simp_all

lemma rb_leftmost_node:
  "t \<noteq> Nil \<Longrightarrow> \<exists>c y r p. rb_leftmost t path = (Node c Nil y r, p)"
  by (induction t path rule: rb_leftmost.induct) auto

lemma rb_leftmost_ok:
  "rb_leftmost t path = (s, p) \<Longrightarrow> rb_ok t \<Longrightarrow> ctx path (bh t) \<Longrightarrow> red_ok t path \<Longrightarrow> rb_ok s \<and> ctx p (bh s) \<and> red_ok s p"
proof (induction t path rule: rb_leftmost.induct)
  case (1 c d a y b x r path)
  have "ctx (InLeft c x r # path) (bh (Node d a y b))" "red_ok (Node d a y b) (InLeft c x r # path)"
    using 1(3-5) by (auto simp: red_ok_def split: if_splits)
  then show ?case using 1 by simp
qed auto

lemma rb_leftmost_inorder:
  "rb_leftmost t path = (s, p) \<Longrightarrow> before p = before path \<and> inorder s @ after p = inorder t @ after path"
  by (induction t path rule: rb_leftmost.induct) auto

lemma rb_rightmost_last: "t \<noteq> Nil \<Longrightarrow> node_of (fst (rb_rightmost t path)) = Some (last (inorder t))"
  by (induction t path rule: rb_rightmost.induct) auto

lemma rb_leftmost_hd: "t \<noteq> Nil \<Longrightarrow> node_of (fst (rb_leftmost t path)) = Some (hd (inorder t))"
  by (induction t path rule: rb_leftmost.induct) (auto simp: hd_append)

lemma climb_pred_last: "climb_pred path = (if before path = [] then None else Some (last (before path)))"
  by (induction path rule: climb_pred.induct) auto

lemma climb_succ_hd: "climb_succ path = (if after path = [] then None else Some (hd (after path)))"
  by (induction path rule: climb_succ.induct) auto

lemma before_append: "before (p @ q) = before q @ before p"
  by (induction p rule: before.induct) auto

lemma after_append: "after (p @ q) = after p @ after q"
  by (induction p rule: after.induct) auto

lemma inorder_Nil [simp]: "inorder t = [] \<longleftrightarrow> t = Nil"
  by (cases t) auto

lemma rb_node_prev_correct:
  assumes "inorder t = xs @ z # ys" and "distinct (inorder t)"
  shows "rb_node_prev z t = (if xs = [] then None else Some (last xs))"
proof -
  have "z \<in> set (inorder t)" using assms(1) by simp
  then obtain c l r p where loc: "rb_locate z t [] = Some (Node c l z r, p)"
    and io: "inorder t = before p @ inorder l @ z # inorder r @ after p" by (rule rb_locate_node)
  have "distinct (xs @ z # ys)" "distinct (before p @ inorder l @ z # inorder r @ after p)"
    using assms io by simp_all
  then have "z \<notin> set xs" "z \<notin> set (before p @ inorder l)" by auto
  moreover have "xs @ z # ys = (before p @ inorder l) @ z # inorder r @ after p" using assms(1) io by simp
  ultimately have "xs = before p @ inorder l" using split_at_unique [of xs z ys "before p @ inorder l"] by blast
  then show ?thesis
    by (auto simp: rb_node_prev_def loc climb_pred_last rb_rightmost_last)
qed

section \<open>Insertion and deletion\<close>

text \<open>\<open>compare\<close> is the order of the keys \<open>f\<close>.\<close>

definition compare_ok :: "('a \<Rightarrow> 'a \<Rightarrow> int) \<Rightarrow> ('a \<Rightarrow> 'k::linorder) \<Rightarrow> bool" where
  "compare_ok compare f \<longleftrightarrow> (\<forall>x y. (compare x y > 0 \<longleftrightarrow> f y < f x) \<and> (compare x y < 0 \<longleftrightarrow> f x < f y))"

lemma rb_insert_binary_order:
  assumes "compare_ok compare f"
  shows "sorted (map f (inorder t)) \<Longrightarrow>
    before (rb_insert_binary compare k t path) = before path @ filter (\<lambda>x. f x \<le> f k) (inorder t) \<and>
    after (rb_insert_binary compare k t path) = filter (\<lambda>x. f k < f x) (inorder t) @ after path"
proof (induction t arbitrary: path)
  case (Node c l x r)
  have lr: "\<forall>y \<in> set (inorder l). f y \<le> f x" "\<forall>y \<in> set (inorder r). f x \<le> f y" "sorted (map f (inorder l))" "sorted (map f (inorder r))"
    using Node.prems by (auto simp: sorted_append)
  show ?case
  proof (cases "f k < f x")
    case True
    then have "filter (\<lambda>x. f x \<le> f k) (inorder r) = []" "filter (\<lambda>x. f k < f x) (inorder r) = inorder r"
      using lr(2) by (auto simp: filter_empty_conv filter_id_conv)
    then show ?thesis using True Node.IH(1) [OF lr(3)] assms by (simp add: compare_ok_def)
  next
    case False
    then have "filter (\<lambda>x. f x \<le> f k) (inorder l) = inorder l" "filter (\<lambda>x. f k < f x) (inorder l) = []"
      using lr(1) by (auto simp: filter_empty_conv filter_id_conv)
    then show ?thesis using False Node.IH(2) [OF lr(4)] assms by (simp add: compare_ok_def)
  qed
qed simp

lemma rb_insert_correct:
  assumes "compare_ok compare f" "sorted (map f (inorder t))" "rb_ok t" "\<not> is_red t"
  shows "\<exists>t'. rb_insert compare k t = Some t' \<and> rb_ok t' \<and> \<not> is_red t' \<and>
    inorder t' = filter (\<lambda>x. f x \<le> f k) (inorder t) @ k # filter (\<lambda>x. f k < f x) (inorder t)"
proof -
  let ?p = "rb_insert_binary compare k t []"
  have "ctx ?p 1" by (rule rb_insert_binary_ctx) (use assms in \<open>auto simp: red_ok_def\<close>)
  then obtain s where s: "rb_insert_fixup (Node True Nil k Nil) ?p = Some s" "rb_ok (paint False s)"
    using rb_insert_fixup_ok [of "Node True Nil k Nil" ?p] by auto
  show ?thesis
    using s rb_insert_fixup_inorder [OF s(1)] rb_insert_binary_order [OF assms(1,2), of k "[]"]
    by (simp add: rb_insert_def)
qed

text \<open>Unlinking a node with at most one child.\<close>

lemma rb_splice:
  assumes n: "rb_ok (Node c l y r)" "ctx path (bh (Node c l y r))" "red_ok (Node c l y r) path" "l = Nil \<or> r = Nil"
  shows "\<exists>t. (let x = (if l \<noteq> Nil then l else r) in if \<not> c then rb_delete_fixup x path else Some (zip_up x path)) = Some t \<and>
    rb_ok t \<and> \<not> is_red t \<and> inorder t = before path @ inorder l @ inorder r @ after path"
proof -
  define x where "x = (if l \<noteq> Nil then l else r)"
  have x: "rb_ok x" "bh x = bh l" "inorder x = inorder l @ inorder r" using n by (auto simp: x_def)
  show ?thesis
  proof (cases c)
    case True
    then have "rb_ok (zip_up x path) \<and> \<not> is_red (zip_up x path)"
      using n x by (intro zip_up_ok) (auto simp: red_ok_def x_def)
    then show ?thesis using True x(3) unfolding x_def [symmetric] by (simp add: inorder_zip_up)
  next
    case False
    then obtain t where "rb_delete_fixup x path = Some t" "rb_ok t" "\<not> is_red t"
      using rb_delete_fixup_ok [of x path] n x by (auto simp: rb_ok_paint)
    then show ?thesis using False x(3) rb_delete_fixup_inorder unfolding x_def [symmetric] by fastforce
  qed
qed

lemma rb_delete_correct:
  assumes t: "rb_ok t" "\<not> is_red t" and z: "z \<in> set (inorder t)" and d: "distinct (inorder t)"
  shows "\<exists>t'. rb_delete z t = Some t' \<and> rb_ok t' \<and> \<not> is_red t' \<and> inorder t' = remove1 z (inorder t)"
proof -
  obtain c l r p where loc: "rb_locate z t [] = Some (Node c l z r, p)"
    and io: "inorder t = before p @ inorder l @ z # inorder r @ after p" using z by (rule rb_locate_node)
  have n: "rb_ok (Node c l z r)" "ctx p (bh (Node c l z r))" "red_ok (Node c l z r) p"
    using rb_locate_ok [OF loc] t by (auto simp: red_ok_def)
  have rem: "remove1 z (inorder t) = before p @ inorder l @ inorder r @ after p"
    using d by (simp add: io remove1_append)
  show ?thesis
  proof (cases "l = Nil \<or> r = Nil")
    case True
    then have "rb_delete z t = (let x = (if l \<noteq> Nil then l else r) in if \<not> c then rb_delete_fixup x p else Some (zip_up x p))"
      by (simp add: rb_delete_def loc)
    then show ?thesis using rb_splice [OF n True] rem by simp
  next
    case False
    then obtain yc y yr q where q: "rb_leftmost r [] = (Node yc Nil y yr, q)" using rb_leftmost_node by blast
    let ?p = "q @ InRight c l y # p"
    have lm: "rb_leftmost r (InRight c l y # p) = (Node yc Nil y yr, ?p)"
      using rb_leftmost_append [of r "[]" "InRight c l y # p"] q by simp
    have "ctx (InRight c l y # p) (bh r)" "red_ok r (InRight c l y # p)"
      using n by (auto simp: red_ok_def split: if_splits)
    then have y: "rb_ok (Node yc Nil y yr)" "ctx ?p (bh (Node yc Nil y yr))" "red_ok (Node yc Nil y yr) ?p"
      using rb_leftmost_ok [OF lm] n(1) by simp_all
    have "before q = []" "inorder r = y # inorder yr @ after q" using rb_leftmost_inorder [OF q] by simp_all
    then have "before ?p @ inorder yr @ after ?p = before p @ inorder l @ inorder r @ after p"
      by (simp add: before_append after_append)
    moreover have "rb_delete z t = (let x = (if Nil \<noteq> Nil then Nil else yr) in if \<not> yc then rb_delete_fixup x ?p else Some (zip_up x ?p))"
      using False by (simp add: rb_delete_def loc q)
    ultimately show ?thesis using rb_splice [OF y] rem by simp
  qed
qed

lemma check_tree_rb_ok: "check_tree compare t = Some n \<Longrightarrow> rb_ok t \<and> bh t = n"
  by (induction t arbitrary: n) (auto elim!: bind_SomeE split: if_splits)

lemma check_tree_sorted:
  assumes "compare_ok compare f"
  shows "rb_ok t \<Longrightarrow> sorted (map f (inorder t)) \<Longrightarrow> check_tree compare t = Some (bh t)"
proof (induction t)
  case (Node c l x r)
  have lr: "\<forall>y \<in> set (inorder l). f y \<le> f x" "\<forall>y \<in> set (inorder r). f x \<le> f y"
    "sorted (map f (inorder l))" "sorted (map f (inorder r))"
    using Node.prems(2) by (auto simp: sorted_append)
  have cmp: "f y \<le> f x \<Longrightarrow> compare x y \<ge> 0" "f x \<le> f y \<Longrightarrow> compare x y \<le> 0" for y
    using assms unfolding compare_ok_def by (metis not_less)+
  have "case l of Nil \<Rightarrow> True | Node _ _ y _ \<Rightarrow> compare x y \<ge> 0" using lr(1) cmp(1) by (cases l) simp_all
  moreover have "case r of Nil \<Rightarrow> True | Node _ _ y _ \<Rightarrow> compare x y \<le> 0" using lr(2) cmp(2) by (cases r) simp_all
  ultimately show ?case using Node.IH lr(3,4) Node.prems(1) by simp
qed simp

lemma rb_search_correct:
  assumes "\<forall>x \<in> set (inorder t). (compare x > 0 \<longleftrightarrow> k < f x) \<and> (compare x < 0 \<longleftrightarrow> f x < k)" and "sorted (map f (inorder t))"
  shows "case rb_search compare t of Some x \<Rightarrow> x \<in> set (inorder t) \<and> f x = k | None \<Rightarrow> k \<notin> f ` set (inorder t)"
  using assms
proof (induction t)
  case (Node c l x r)
  have lr: "\<forall>y \<in> set (inorder l). f y \<le> f x" "\<forall>y \<in> set (inorder r). f x \<le> f y"
    "sorted (map f (inorder l))" "sorted (map f (inorder r))"
    using Node.prems(2) by (auto simp: sorted_append)
  have x: "compare x > 0 \<longleftrightarrow> k < f x" "compare x < 0 \<longleftrightarrow> f x < k" using Node.prems(1) by auto
  consider "f x = k" | "k < f x" | "f x < k" by fastforce
  then show ?case
  proof cases
    case 1
    then show ?thesis using x by auto
  next
    case 2
    then have "k \<notin> f ` set (inorder r)" using lr(2) by auto
    moreover have "rb_search compare (Node c l x r) = rb_search compare l" using 2 x by auto
    moreover have "case rb_search compare l of Some x \<Rightarrow> x \<in> set (inorder l) \<and> f x = k | None \<Rightarrow> k \<notin> f ` set (inorder l)"
      by (rule Node.IH(1)) (use Node.prems(1) lr(3) in auto)
    ultimately show ?thesis using 2 by (cases "rb_search compare l") auto
  next
    case 3
    then have "k \<notin> f ` set (inorder l)" using lr(1) by auto
    moreover have "rb_search compare (Node c l x r) = rb_search compare r" using 3 x by auto
    moreover have "case rb_search compare r of Some x \<Rightarrow> x \<in> set (inorder r) \<and> f x = k | None \<Rightarrow> k \<notin> f ` set (inorder r)"
      by (rule Node.IH(2)) (use Node.prems(1) lr(4) in auto)
    ultimately show ?thesis using 3 by (cases "rb_search compare r") auto
  qed
qed simp

fun height :: "'a rb \<Rightarrow> nat" where
  "height Nil = 0"
| "height (Node c l x r) = Suc (max (height l) (height r))"

lemma bh_size: "rb_ok t \<Longrightarrow> 2 ^ (bh t - 1) \<le> length (inorder t) + 1"
proof (induction t)
  case (Node c l x r)
  have *: "2 ^ (bh l - 1) \<le> length (inorder l) + 1" "2 ^ (bh l - 1) \<le> length (inorder r) + 1"
    using Node by auto
  have "(2 :: nat) ^ bh l = 2 ^ (bh l - 1) + 2 ^ (bh l - 1)" using bh_pos [of l] by (intro pow2_half)
  then show ?case using * by auto
qed simp

lemma height_bh: "rb_ok t \<Longrightarrow> height t \<le> 2 * (bh t - 1) + (if is_red t then 1 else 0)"
proof (induction t)
  case (Node c l x r)
  have ih: "height l \<le> 2 * (bh l - 1) + (if is_red l then 1 else 0)" "height r \<le> 2 * (bh l - 1) + (if is_red r then 1 else 0)"
    using Node by simp_all
  show ?case
  proof (cases c)
    case True
    then have "\<not> is_red l" "\<not> is_red r" using Node.prems by simp_all
    then show ?thesis using ih True by simp
  next
    case False
    have "height l \<le> 2 * (bh l - 1) + 1" "height r \<le> 2 * (bh l - 1) + 1"
      using ih by (simp_all split: if_splits)
    then show ?thesis using False bh_pos [of l] by simp
  qed
qed simp

section \<open>Properties\<close>

text \<open>
  C12: Insertion into a sorted tree that passes \<^verbatim>\<open>check_tree\<close>, with a black root, never fails an assertion: the
  result passes \<^verbatim>\<open>check_tree\<close> and has a black root again, and its nodes in order are the old ones with the
  new one after those whose key is not greater.
\<close>

theorem rb_insert_keeps_tree:
  assumes "compare_ok compare f" "sorted (map f (inorder t))" "check_tree compare t = Some n" "\<not> is_red t"
  shows "\<exists>t' n'. rb_insert compare k t = Some t' \<and> check_tree compare t' = Some n' \<and> \<not> is_red t' \<and>
    inorder t' = filter (\<lambda>x. f x \<le> f k) (inorder t) @ k # filter (\<lambda>x. f k < f x) (inorder t)"
proof -
  obtain t' where t': "rb_insert compare k t = Some t'" "rb_ok t'" "\<not> is_red t'"
    "inorder t' = filter (\<lambda>x. f x \<le> f k) (inorder t) @ k # filter (\<lambda>x. f k < f x) (inorder t)"
    using rb_insert_correct [OF assms(1,2)] check_tree_rb_ok [OF assms(3)] assms(4) by blast
  have "sorted (map f (inorder t'))"
    using assms(2) unfolding t'(4) by (auto simp: sorted_append sorted_filter)
  then show ?thesis using t' check_tree_sorted [OF assms(1) t'(2)] by blast
qed

theorem rb_insert_keeps_tree_witness:
  "\<exists>t'. rb_insert (-) 2 (Node False Nil 1 (Node True Nil (3 :: int) Nil)) = Some t' \<and> inorder t' = [1, 2, 3]"
  using rb_insert_keeps_tree [of "(-)" "\<lambda>x. x" "Node False Nil 1 (Node True Nil (3 :: int) Nil)" 2 2]
  by (auto simp: compare_ok_def)

text \<open>
  C13: Deletion of a node of such a tree (nodes being distinct) never fails an assertion and never paints \<^verbatim>\<open>nil\<close>: the
  result passes \<^verbatim>\<open>check_tree\<close>, has a black root, and holds the other nodes in the same order.
\<close>

theorem rb_delete_keeps_tree:
  assumes "compare_ok compare f" "sorted (map f (inorder t))" "check_tree compare t = Some n" "\<not> is_red t"
    and "z \<in> set (inorder t)" "distinct (inorder t)"
  shows "\<exists>t' n'. rb_delete z t = Some t' \<and> check_tree compare t' = Some n' \<and> \<not> is_red t' \<and>
    inorder t' = remove1 z (inorder t)"
proof -
  obtain t' where t': "rb_delete z t = Some t'" "rb_ok t'" "\<not> is_red t'" "inorder t' = remove1 z (inorder t)"
    using rb_delete_correct [of t z] check_tree_rb_ok [OF assms(3)] assms(4-6) by blast
  have "sorted (map f (inorder t'))" using assms(2) t'(4) by (simp add: sorted_map_remove1)
  then show ?thesis using t' check_tree_sorted [OF assms(1) t'(2)] by blast
qed

theorem rb_delete_keeps_tree_witness:
  "\<exists>t'. rb_delete 1 (Node False (Node False Nil 0 Nil) 1 (Node False Nil (3 :: int) Nil)) = Some t' \<and> inorder t' = [0, 3]"
  using rb_delete_keeps_tree [of "(-)" "\<lambda>x. x" "Node False (Node False Nil 0 Nil) 1 (Node False Nil (3 :: int) Nil)" 3 1]
  by (auto simp: compare_ok_def)

text \<open>
  A tree that passes \<^verbatim>\<open>check_tree\<close>, with a black root, is at most twice as high as the logarithm of its size: every
  walk from the root ends within \<open>2 log (n + 1)\<close> steps.
\<close>

theorem rb_tree_height:
  assumes "check_tree compare t = Some n" and "\<not> is_red t"
  shows "2 ^ height t \<le> (length (inorder t) + 1) ^ 2"
proof -
  note ok = check_tree_rb_ok [OF assms(1), THEN conjunct1]
  have "(2 :: nat) ^ height t \<le> 2 ^ (2 * (bh t - 1))"
    using height_bh [OF ok] assms(2) by (intro power_increasing) auto
  also have "\<dots> = (2 ^ (bh t - 1)) ^ 2" by (simp add: power_mult [symmetric] mult.commute)
  also have "\<dots> \<le> (length (inorder t) + 1) ^ 2" by (rule power_mono [OF bh_size [OF ok]]) simp
  finally show ?thesis .
qed

theorem rb_tree_height_witness:
  "2 ^ height (Node False Nil (1 :: int) (Node True Nil 3 Nil)) \<le> (9 :: nat)"
  using rb_tree_height [of "(-)" "Node False Nil (1 :: int) (Node True Nil 3 Nil)" 2] by simp

end
