(* ===== verification/Swap.thy ===== *)
theory Swap
  imports Ucore_Prelude
begin

text \<open>
  Page frames and the swap core (\<^verbatim>\<open>mm/swap.c\<close>, \<^verbatim>\<open>fs/swap/swapfs.c\<close>, \<^verbatim>\<open>glue-ucore/memlayout.h\<close>): the reference
  counts of swap entries in \<^verbatim>\<open>mem_map\<close>, the hash table of the pages that have an entry, the active and inactive
  lists and the operations on them. Frames are numbered; \<^verbatim>\<open>pool\<close> holds the frames the page allocator will hand
  out, in that order, and is empty when it fails. The contents of the swap device are part of the state; whether a transfer
  succeeds is an argument. \<^verbatim>\<open>swap_in_sem\<close> serialises the callers of \<^verbatim>\<open>swap_in_page\<close> and has no effect on one call.
\<close>

section \<open>The code\<close>

type_synonym pdata = "nat \<Rightarrow> u8"

record page =
  page_ref :: int
  pg_swap :: bool
  pg_dirty :: bool
  pg_active :: bool
  pg_index :: u64
  pg_data :: pdata

record swap_list_t =
  swap_list :: "nat list"
  nr_pages :: nat

record phys =
  pages :: "nat \<Rightarrow> page"
  pool :: "nat list"
  mem_map :: "nat \<Rightarrow> nat"
  max_swap_offset :: nat
  swap_next :: nat
  active_list :: swap_list_t
  inactive_list :: swap_list_t
  hash_list :: "nat \<Rightarrow> nat list"
  disk :: "nat \<Rightarrow> pdata"

definition SWAP_UNUSED :: nat where "SWAP_UNUSED = 0xFFFF"
definition MAX_SWAP_REF :: nat where "MAX_SWAP_REF = 0xFFFE"
definition E_SWAP_FAULT :: int where [simp]: "E_SWAP_FAULT = 7"

definition upd_page :: "nat \<Rightarrow> (page \<Rightarrow> page) \<Rightarrow> phys \<Rightarrow> phys" where
  "upd_page f g s = s\<lparr>pages := (pages s)(f := g (pages s f))\<rparr>"

definition page_struct_alloc :: "page \<Rightarrow> page" where
  "page_struct_alloc p = p\<lparr>page_ref := 0, pg_swap := False, pg_dirty := False, pg_active := False\<rparr>"

definition alloc_page :: "phys \<Rightarrow> nat option \<times> phys" where
  "alloc_page s = (case pool s of
       [] \<Rightarrow> (None, s)
     | f # fs \<Rightarrow> (Some f, upd_page f page_struct_alloc (s\<lparr>pool := fs\<rparr>)))"

definition free_page :: "nat \<Rightarrow> phys \<Rightarrow> phys" where
  "free_page f s = s\<lparr>pool := f # pool s\<rparr>"

definition swap_list_init :: swap_list_t where
  "swap_list_init = \<lparr>swap_list = [], nr_pages = 0\<rparr>"

definition list_add_tail :: "nat \<Rightarrow> swap_list_t \<Rightarrow> swap_list_t" where
  "list_add_tail f l = \<lparr>swap_list = swap_list l @ [f], nr_pages = nr_pages l + 1\<rparr>"

definition swap_active_list_add :: "nat \<Rightarrow> phys \<Rightarrow> phys option" where
  "swap_active_list_add f s = do {
     kassert (pg_swap (pages s f));
     let s = upd_page f (\<lambda>p. p\<lparr>pg_active := True\<rparr>) s in
       Some (s\<lparr>active_list := list_add_tail f (active_list s)\<rparr>)
   }"

definition swap_inactive_list_add :: "nat \<Rightarrow> phys \<Rightarrow> phys option" where
  "swap_inactive_list_add f s = do {
     kassert (pg_swap (pages s f));
     let s = upd_page f (\<lambda>p. p\<lparr>pg_active := False\<rparr>) s in
       Some (s\<lparr>inactive_list := list_add_tail f (inactive_list s)\<rparr>)
   }"

text \<open>\<^verbatim>\<open>list_del(&(page->swap_link))\<close> unlinks the page from the list it is in.\<close>

definition swap_list_del :: "nat \<Rightarrow> phys \<Rightarrow> phys option" where
  "swap_list_del f s = do {
     kassert (pg_swap (pages s f));
     let act = pg_active (pages s f) in
       Some (s\<lparr>active_list := \<lparr>swap_list = remove1 f (swap_list (active_list s)),
                 nr_pages = (if act then nr_pages (active_list s) - 1 else nr_pages (active_list s))\<rparr>,
               inactive_list := \<lparr>swap_list = remove1 f (swap_list (inactive_list s)),
                 nr_pages = (if act then nr_pages (inactive_list s) else nr_pages (inactive_list s) - 1)\<rparr>\<rparr>)
   }"

definition hash32 :: "u32 \<Rightarrow> nat \<Rightarrow> u32" where
  "hash32 val bits = drop_bit (32 - bits) (val * 0x9e370001)"

definition entry_hashfn :: "u64 \<Rightarrow> nat" where
  "entry_hashfn x = unat (hash32 (ucast x) 10)"

definition swap_offset :: "u64 \<Rightarrow> phys \<Rightarrow> nat option" where
  "swap_offset entry s = (let off = unat (drop_bit 8 entry) in
     if off > 0 \<and> off < max_swap_offset s then Some off else None)"

definition swap_hash_find :: "u64 \<Rightarrow> phys \<Rightarrow> nat option" where
  "swap_hash_find entry s = find (\<lambda>f. pg_index (pages s f) = entry) (hash_list s (entry_hashfn entry))"

definition swap_page_del :: "nat \<Rightarrow> phys \<Rightarrow> phys option" where
  "swap_page_del f s = do {
     kassert (pg_swap (pages s f));
     let i = entry_hashfn (pg_index (pages s f)); s = upd_page f (\<lambda>p. p\<lparr>pg_swap := False\<rparr>) s in
       Some (s\<lparr>hash_list := (hash_list s)(i := remove1 f (hash_list s i))\<rparr>)
   }"

definition swap_free_page :: "nat \<Rightarrow> phys \<Rightarrow> phys option" where
  "swap_free_page f s = do {
     kassert (pg_swap (pages s f) \<and> page_ref (pages s f) = 0);
     s \<leftarrow> swap_page_del f s;
     Some (free_page f s)
   }"

text \<open>The scan of \<^verbatim>\<open>try_alloc_swap_entry\<close>: the values of \<^verbatim>\<open>empty\<close>, \<^verbatim>\<open>zero\<close> and \<^verbatim>\<open>next\<close> when the loop ends.\<close>

partial_function (option) alloc_scan :: "(nat \<Rightarrow> nat) \<Rightarrow> nat \<Rightarrow> nat \<Rightarrow> nat \<Rightarrow> nat \<Rightarrow> (nat \<times> nat \<times> nat) option" where
  "alloc_scan mm lim stop next zero =
     (let empty = (if mm next = SWAP_UNUSED then next else 0);
          zero = (if mm next = 0 \<and> zero = 0 then next else zero);
          next = (if next + 1 = lim then 1 else next + 1)
      in if empty = 0 \<and> next \<noteq> stop then alloc_scan mm lim stop next zero else Some (empty, zero, next))"

definition swap_entry :: "nat \<Rightarrow> u64" where
  "swap_entry off = push_bit 8 (of_nat off)"

definition try_alloc_swap_entry :: "phys \<Rightarrow> (u64 \<times> phys) option" where
  "try_alloc_swap_entry s = do {
     (empty, zero, next) \<leftarrow> alloc_scan (mem_map s) (max_swap_offset s) (swap_next s) (swap_next s) 0;
     let s = s\<lparr>swap_next := next\<rparr> in
       if empty \<noteq> 0 then Some (swap_entry empty, s)
       else if zero \<noteq> 0 then
         (case swap_hash_find (swap_entry zero) s of
            None \<Rightarrow> None
          | Some f \<Rightarrow> do {
              kassert (pg_swap (pages s f));
              s \<leftarrow> swap_list_del f s;
              s \<leftarrow> (if page_ref (pages s f) = 0 then swap_free_page f s else swap_page_del f s);
              Some (swap_entry zero, s\<lparr>mem_map := (mem_map s)(zero := SWAP_UNUSED)\<rparr>)
            })
       else Some (0, s)
   }"

definition swap_page_add :: "nat \<Rightarrow> u64 \<Rightarrow> phys \<Rightarrow> (bool \<times> phys) option" where
  "swap_page_add f entry s = do {
     kassert (\<not> pg_swap (pages s f));
     (entry, s) \<leftarrow>
       (if entry = 0 then do {
          (entry, s) \<leftarrow> try_alloc_swap_entry s;
          if entry = 0 then Some (0, s)
          else do {
            off \<leftarrow> swap_offset entry s;
            kassert (mem_map s off = SWAP_UNUSED);
            Some (entry, upd_page f (\<lambda>p. p\<lparr>pg_dirty := True\<rparr>) (s\<lparr>mem_map := (mem_map s)(off := 0)\<rparr>))
          }
        } else Some (entry, s));
     if entry = 0 then Some (False, s)
     else
       let s = upd_page f (\<lambda>p. p\<lparr>pg_swap := True, pg_index := entry\<rparr>) s; i = entry_hashfn entry in
         Some (True, s\<lparr>hash_list := (hash_list s)(i := f # hash_list s i)\<rparr>)
   }"

definition swap_remove_entry :: "u64 \<Rightarrow> phys \<Rightarrow> phys option" where
  "swap_remove_entry entry s = do {
     off \<leftarrow> swap_offset entry s;
     kassert (mem_map s off > 0);
     let s = s\<lparr>mem_map := (mem_map s)(off := mem_map s off - 1)\<rparr> in
       if mem_map s off = 0 then
         (case swap_hash_find entry s of
            None \<Rightarrow> Some (s\<lparr>mem_map := (mem_map s)(off := SWAP_UNUSED)\<rparr>)
          | Some f \<Rightarrow>
              if page_ref (pages s f) \<noteq> 0 then Some s
              else do {
                s \<leftarrow> swap_list_del f s;
                s \<leftarrow> swap_free_page f s;
                Some (s\<lparr>mem_map := (mem_map s)(off := SWAP_UNUSED)\<rparr>)
              })
       else Some s
   }"

definition swap_page_count :: "nat \<Rightarrow> phys \<Rightarrow> nat option" where
  "swap_page_count f s =
     (if \<not> pg_swap (pages s f) then Some 0
      else do { off \<leftarrow> swap_offset (pg_index (pages s f)) s; Some (mem_map s off) })"

definition swap_duplicate :: "u64 \<Rightarrow> phys \<Rightarrow> phys option" where
  "swap_duplicate entry s = do {
     off \<leftarrow> swap_offset entry s;
     kassert (mem_map s off < MAX_SWAP_REF);
     Some (s\<lparr>mem_map := (mem_map s)(off := mem_map s off + 1)\<rparr>)
   }"

text \<open>\<^verbatim>\<open>swapfs_read\<close> and \<^verbatim>\<open>swapfs_write\<close>, when the device reports success.\<close>

definition swapfs_read :: "u64 \<Rightarrow> nat \<Rightarrow> phys \<Rightarrow> phys option" where
  "swapfs_read entry f s = do { off \<leftarrow> swap_offset entry s; Some (upd_page f (\<lambda>p. p\<lparr>pg_data := disk s off\<rparr>) s) }"

definition swapfs_write :: "u64 \<Rightarrow> nat \<Rightarrow> phys \<Rightarrow> phys option" where
  "swapfs_write entry f s = do { off \<leftarrow> swap_offset entry s; Some (s\<lparr>disk := (disk s)(off := pg_data (pages s f))\<rparr>) }"

definition swap_in_page :: "bool \<Rightarrow> u64 \<Rightarrow> phys \<Rightarrow> ((int \<times> nat option) \<times> phys) option" where
  "swap_in_page read_ok entry s = do {
     off \<leftarrow> swap_offset entry s;
     (case swap_hash_find entry s of
        Some f \<Rightarrow> Some ((0, Some f), s)
      | None \<Rightarrow>
          (case alloc_page s of
             (None, s) \<Rightarrow> Some ((- E_NO_MEM, None), s)
           | (Some f, s) \<Rightarrow>
               if \<not> read_ok then Some ((- E_SWAP_FAULT, None), free_page f s)
               else do {
                 s \<leftarrow> swapfs_read entry f s;
                 (_, s) \<leftarrow> swap_page_add f entry s;
                 s \<leftarrow> swap_active_list_add f s;
                 Some ((0, Some f), s)
               }))
   }"

definition swap_copy_entry :: "bool \<Rightarrow> u64 \<Rightarrow> phys \<Rightarrow> ((int \<times> u64 option) \<times> phys) option" where
  "swap_copy_entry read_ok entry s = do {
     s \<leftarrow> swap_duplicate entry s;
     (r, s) \<leftarrow>
       (case alloc_page s of
          (None, s) \<Rightarrow> Some ((- E_NO_MEM, None), s)
        | (Some n, s) \<Rightarrow> do {
            ((ret, pg), s) \<leftarrow> swap_in_page read_ok entry s;
            (case pg of
               None \<Rightarrow> Some ((ret, None), free_page n s)
             | Some f \<Rightarrow> do {
                 (ok, s) \<leftarrow> swap_page_add n 0 s;
                 if \<not> ok then Some ((- E_NO_MEM, None), free_page n s)
                 else do {
                   s \<leftarrow> swap_active_list_add n s;
                   let s = upd_page n (\<lambda>p. p\<lparr>pg_data := pg_data (pages s f)\<rparr>) s in
                     Some ((0, Some (pg_index (pages s n))), s)
                 }
               })
          });
     s \<leftarrow> swap_remove_entry entry s;
     Some (r, s)
   }"

definition try_free_swap_entry :: "u64 \<Rightarrow> phys \<Rightarrow> (bool \<times> phys) option" where
  "try_free_swap_entry entry s = do {
     off \<leftarrow> swap_offset entry s;
     Some (if mem_map s off = 0 then (True, s\<lparr>mem_map := (mem_map s)(off := SWAP_UNUSED)\<rparr>) else (False, s))
   }"

text \<open>
  The body of the loop of \<^verbatim>\<open>page_launder\<close>; the Boolean result tells whether the page was freed. \<open>write_ok\<close>
  is the outcome of \<^verbatim>\<open>swapfs_write\<close>.
\<close>

definition launder_page :: "bool \<Rightarrow> nat \<Rightarrow> phys \<Rightarrow> (bool \<times> phys) option" where
  "launder_page write_ok f s = do {
     kassert (pg_swap (pages s f) \<and> \<not> pg_active (pages s f));
     s \<leftarrow> swap_list_del f s;
     if page_ref (pages s f) \<noteq> 0 then do { s \<leftarrow> swap_active_list_add f s; Some (False, s) }
     else do {
       let entry = pg_index (pages s f) in do {
       (freed, s) \<leftarrow> try_free_swap_entry entry s;
       if freed \<or> \<not> pg_dirty (pages s f) then do { s \<leftarrow> swap_free_page f s; Some (True, s) }
       else do {
         s \<leftarrow> Some (upd_page f (\<lambda>p. p\<lparr>pg_dirty := False\<rparr>) s);
         s \<leftarrow> swap_duplicate entry s;
         s \<leftarrow> (if write_ok then swapfs_write entry f s else Some (upd_page f (\<lambda>p. p\<lparr>pg_dirty := True\<rparr>) s));
         off \<leftarrow> swap_offset entry s;
         s \<leftarrow> Some (s\<lparr>mem_map := (mem_map s)(off := mem_map s off - 1)\<rparr>);
         if page_ref (pages s f) \<noteq> 0 then do { s \<leftarrow> swap_active_list_add f s; Some (False, s) }
         else if pg_dirty (pages s f) then do { s \<leftarrow> swap_inactive_list_add f s; Some (False, s) }
         else do {
           (_, s) \<leftarrow> try_free_swap_entry entry s;
           s \<leftarrow> swap_free_page f s;
           Some (True, s)
         }
       }}
     }
   }"



fun refill_loop :: "nat list \<Rightarrow> phys \<Rightarrow> phys option" where
  "refill_loop [] s = Some s"
| "refill_loop (f # fs) s = do {
     kassert (pg_swap (pages s f) \<and> pg_active (pages s f));
     s \<leftarrow> (if page_ref (pages s f) = 0 then do { s \<leftarrow> swap_list_del f s; swap_inactive_list_add f s } else Some s);
     refill_loop fs s
   }"

definition refill_inactive_scan :: "phys \<Rightarrow> phys option" where
  "refill_inactive_scan s = refill_loop (take (nr_pages (active_list s)) (swap_list (active_list s))) s"

text \<open>The state after \<^verbatim>\<open>swap_init\<close>, for a device of \<open>lim\<close> pages.\<close>

definition swap_init :: "nat \<Rightarrow> phys \<Rightarrow> phys option" where
  "swap_init lim s = do {
     kassert (1024 \<le> lim \<and> lim < 2 ^ 24);
     Some (s\<lparr>max_swap_offset := lim, active_list := swap_list_init, inactive_list := swap_list_init,
       mem_map := (\<lambda>off. if off < lim then SWAP_UNUSED else mem_map s off), swap_next := 1, hash_list := (\<lambda>i. [])\<rparr>)
   }"

section \<open>The scan for a free entry\<close>

text \<open>The offsets the scan still visits.\<close>

definition to_visit :: "nat \<Rightarrow> nat \<Rightarrow> nat \<Rightarrow> nat set" where
  "to_visit lim stop nx = (if nx < stop then {nx..<stop} else {nx..<lim} \<union> {1..<stop})"

lemma to_visit_step:
  assumes "1 \<le> stop" "stop < lim" "1 \<le> nx" "nx < lim" "n = (if nx + 1 = lim then 1 else nx + 1)"
  shows "to_visit lim stop nx \<subseteq> insert nx (if n = stop then {} else to_visit lim stop n)"
    and "n \<noteq> stop \<Longrightarrow> card (to_visit lim stop n) < card (to_visit lim stop nx)"
    and "1 \<le> n \<and> n < lim"
proof -
  show "to_visit lim stop nx \<subseteq> insert nx (if n = stop then {} else to_visit lim stop n)" "1 \<le> n \<and> n < lim"
    using assms by (auto simp: to_visit_def)
  assume "n \<noteq> stop"
  then have "to_visit lim stop n \<subseteq> to_visit lim stop nx" "nx \<in> to_visit lim stop nx" "nx \<notin> to_visit lim stop n"
    using assms by (auto simp: to_visit_def split: if_splits)
  then have "to_visit lim stop n \<subset> to_visit lim stop nx" by blast
  moreover have "finite (to_visit lim stop nx)" by (simp add: to_visit_def)
  ultimately show "card (to_visit lim stop n) < card (to_visit lim stop nx)" by (rule psubset_card_mono [rotated])
qed

lemma alloc_scan_correct:
  assumes "1 \<le> stop" "stop < lim" "1 \<le> nx" "nx < lim"
  shows "\<exists>e z n. alloc_scan mm lim stop nx zero = Some (e, z, n) \<and> 1 \<le> n \<and> n < lim \<and>
    (e \<noteq> 0 \<longrightarrow> mm e = SWAP_UNUSED \<and> e < lim) \<and>
    (e = 0 \<longrightarrow> (\<forall>off \<in> to_visit lim stop nx. mm off \<noteq> SWAP_UNUSED \<and> (mm off = 0 \<longrightarrow> z \<noteq> 0))) \<and>
    (zero \<noteq> 0 \<longrightarrow> z = zero) \<and> (z \<noteq> 0 \<longrightarrow> z = zero \<or> mm z = 0 \<and> z < lim)"
  using assms
proof (induction "card (to_visit lim stop nx)" arbitrary: nx zero rule: less_induct)
  case less
  define n where "n = (if nx + 1 = lim then 1 else nx + 1)"
  define z where "z = (if mm nx = 0 \<and> zero = 0 then nx else zero)"
  note st = to_visit_step [OF less.prems n_def]
  have unf: "alloc_scan mm lim stop nx zero =
    (if mm nx \<noteq> SWAP_UNUSED \<and> n \<noteq> stop then alloc_scan mm lim stop n z
     else Some (if mm nx = SWAP_UNUSED then nx else 0, z, n))"
    using less.prems(3) by (subst alloc_scan.simps) (auto simp: Let_def n_def z_def)
  show ?case
  proof (cases "mm nx \<noteq> SWAP_UNUSED \<and> n \<noteq> stop")
    case False
    then show ?thesis using unf st less.prems by (auto simp: z_def)
  next
    case True
    obtain e z' n' where ih: "alloc_scan mm lim stop n z = Some (e, z', n')" "1 \<le> n'" "n' < lim"
      "e \<noteq> 0 \<longrightarrow> mm e = SWAP_UNUSED \<and> e < lim"
      "e = 0 \<longrightarrow> (\<forall>off \<in> to_visit lim stop n. mm off \<noteq> SWAP_UNUSED \<and> (mm off = 0 \<longrightarrow> z' \<noteq> 0))"
      "z \<noteq> 0 \<longrightarrow> z' = z" "z' \<noteq> 0 \<longrightarrow> z' = z \<or> mm z' = 0 \<and> z' < lim"
      using less.hyps [OF st(2), of z] True st(3) less.prems by blast
    have "mm nx = 0 \<longrightarrow> z' \<noteq> 0" using ih(6) less.prems(3) by (auto simp: z_def)
    then have "e = 0 \<longrightarrow> (\<forall>off \<in> to_visit lim stop nx. mm off \<noteq> SWAP_UNUSED \<and> (mm off = 0 \<longrightarrow> z' \<noteq> 0))"
      using ih(5) st(1) True by auto
    moreover have "zero \<noteq> 0 \<longrightarrow> z' = zero" using ih(6) by (auto simp: z_def)
    moreover have "z' \<noteq> 0 \<longrightarrow> z' = zero \<or> mm z' = 0 \<and> z' < lim"
      using ih(7) less.prems(4) by (auto simp: z_def split: if_splits)
    ultimately show ?thesis using unf True ih(1-4) by auto
  qed
qed

lemma to_visit_all: "1 \<le> stop \<Longrightarrow> stop < lim \<Longrightarrow> to_visit lim stop stop = {1..<lim}"
  by (auto simp: to_visit_def)

section \<open>The invariant\<close>

text \<open>
  \<open>X\<close> are pages an operation has taken off the lists and not put back, \<open>Z\<close> entries whose count it is about to settle.
\<close>

definition geo_ok :: "phys \<Rightarrow> bool" where
  "geo_ok s \<longleftrightarrow> 1024 \<le> max_swap_offset s \<and> max_swap_offset s < 2 ^ 24 \<and> 1 \<le> swap_next s \<and> swap_next s < max_swap_offset s"

definition hash_ok :: "phys \<Rightarrow> bool" where
  "hash_ok s \<longleftrightarrow> (\<forall>i. distinct (hash_list s i)) \<and>
     (\<forall>i f. f \<in> set (hash_list s i) \<longleftrightarrow> pg_swap (pages s f) \<and> entry_hashfn (pg_index (pages s f)) = i)"

definition index_ok :: "nat set \<Rightarrow> phys \<Rightarrow> bool" where
  "index_ok X s \<longleftrightarrow>
     (\<forall>f. pg_swap (pages s f) \<longrightarrow> (\<exists>off. 0 < off \<and> off < max_swap_offset s \<and> pg_index (pages s f) = swap_entry off \<and>
        (f \<notin> X \<longrightarrow> mem_map s off \<noteq> SWAP_UNUSED))) \<and>
     (\<forall>f g. pg_swap (pages s f) \<and> pg_swap (pages s g) \<and> pg_index (pages s f) = pg_index (pages s g) \<longrightarrow> f = g)"

definition lists_ok :: "nat set \<Rightarrow> phys \<Rightarrow> bool" where
  "lists_ok X s \<longleftrightarrow>
     distinct (swap_list (active_list s)) \<and> nr_pages (active_list s) = length (swap_list (active_list s)) \<and>
     set (swap_list (active_list s)) = {f. pg_swap (pages s f) \<and> pg_active (pages s f)} - X \<and>
     distinct (swap_list (inactive_list s)) \<and> nr_pages (inactive_list s) = length (swap_list (inactive_list s)) \<and>
     set (swap_list (inactive_list s)) = {f. pg_swap (pages s f) \<and> \<not> pg_active (pages s f)} - X"

definition zero_ok :: "nat set \<Rightarrow> phys \<Rightarrow> bool" where
  "zero_ok Z s \<longleftrightarrow> (\<forall>off. 0 < off \<and> off < max_swap_offset s \<and> off \<notin> Z \<and> mem_map s off = 0 \<longrightarrow>
     (\<exists>f. pg_swap (pages s f) \<and> pg_index (pages s f) = swap_entry off))"

definition pool_ok :: "phys \<Rightarrow> bool" where
  "pool_ok s \<longleftrightarrow> distinct (pool s) \<and> (\<forall>f \<in> set (pool s). \<not> pg_swap (pages s f))"

definition swap_inv :: "nat set \<Rightarrow> nat set \<Rightarrow> phys \<Rightarrow> bool" where
  "swap_inv X Z s \<longleftrightarrow> geo_ok s \<and> hash_ok s \<and> index_ok X s \<and> lists_ok X s \<and> zero_ok Z s \<and> pool_ok s"

lemma swap_invD:
  assumes "swap_inv X Z s"
  shows "geo_ok s" "hash_ok s" "index_ok X s" "lists_ok X s" "zero_ok Z s" "pool_ok s"
  using assms by (simp_all add: swap_inv_def)

lemma upd_frame_simps [simp]:
  "pages (upd_page f g s) h = (if h = f then g (pages s f) else pages s h)" "pool (upd_page f g s) = pool s"
  "mem_map (upd_page f g s) = mem_map s" "max_swap_offset (upd_page f g s) = max_swap_offset s"
  "swap_next (upd_page f g s) = swap_next s" "active_list (upd_page f g s) = active_list s"
  "inactive_list (upd_page f g s) = inactive_list s" "hash_list (upd_page f g s) = hash_list s" "disk (upd_page f g s) = disk s"
  by (simp_all add: upd_page_def)

lemma swap_entry_offset:
  assumes "off < 2 ^ 24"
  shows "unat (drop_bit 8 (swap_entry off)) = off"
proof -
  have "unat (of_nat off :: u64) = off" using assms by (intro unat_of_nat_less) simp
  then have "unat (swap_entry off) = off * 2 ^ 8"
    using assms unat_mult_lem [of "of_nat off :: u64" 256] by (simp add: swap_entry_def push_bit_eq_mult)
  then show ?thesis by (simp add: drop_bit_eq_div unat_div_distrib)
qed

lemma swap_inv_offset:
  assumes "swap_inv X Z s" and "0 < off" "off < max_swap_offset s"
  shows "swap_offset (swap_entry off) s = Some off"
proof -
  have "off < 2 ^ 24" using assms by (auto simp: swap_inv_def geo_ok_def)
  then show ?thesis using assms(2,3) swap_entry_offset by (simp add: swap_offset_def Let_def)
qed

lemma swap_entry_inj:
  assumes "swap_inv X Z s" "a < max_swap_offset s" "b < max_swap_offset s" "swap_entry a = swap_entry b"
  shows "a = b"
proof -
  have "a < 2 ^ 24" "b < 2 ^ 24" using assms(1-3) by (simp_all add: swap_inv_def geo_ok_def)
  then show ?thesis using swap_entry_offset assms(4) by metis
qed

text \<open>The page of an entry, as the hash table finds it.\<close>

lemma swap_hash_find_iff:
  assumes "swap_inv X Z s"
  shows "swap_hash_find entry s = Some f \<longleftrightarrow> pg_swap (pages s f) \<and> pg_index (pages s f) = entry"
    and "swap_hash_find entry s = None \<longleftrightarrow> (\<forall>f. pg_swap (pages s f) \<longrightarrow> pg_index (pages s f) \<noteq> entry)"
proof -
  have mem: "g \<in> set (hash_list s i) \<longleftrightarrow> pg_swap (pages s g) \<and> entry_hashfn (pg_index (pages s g)) = i" for g i
    using assms by (simp add: swap_inv_def hash_ok_def index_ok_def)
  have inj: "pg_swap (pages s g) \<Longrightarrow> pg_swap (pages s h) \<Longrightarrow> pg_index (pages s g) = pg_index (pages s h) \<Longrightarrow> g = h" for g h
    using assms by (simp add: swap_inv_def hash_ok_def index_ok_def)
  show n: "swap_hash_find entry s = None \<longleftrightarrow> (\<forall>f. pg_swap (pages s f) \<longrightarrow> pg_index (pages s f) \<noteq> entry)"
    by (auto simp: swap_hash_find_def find_None_iff mem)
  have "swap_hash_find entry s = Some g \<Longrightarrow> pg_swap (pages s g) \<and> pg_index (pages s g) = entry" for g
    unfolding swap_hash_find_def find_Some_iff using mem by (metis nth_mem)
  then show "swap_hash_find entry s = Some f \<longleftrightarrow> pg_swap (pages s f) \<and> pg_index (pages s f) = entry"
    using n inj by (metis option.exhaust)
qed

text \<open>Taking a page off its list, and putting it back.\<close>

lemma swap_list_del_ok:
  assumes "swap_inv X Z s" and "pg_swap (pages s f)" and "f \<notin> X"
  shows "\<exists>s'. swap_list_del f s = Some s' \<and> swap_inv (insert f X) Z s' \<and> pages s' = pages s \<and> pool s' = pool s \<and>
    mem_map s' = mem_map s \<and> max_swap_offset s' = max_swap_offset s \<and> disk s' = disk s"
proof -
  obtain s' where s': "swap_list_del f s = Some s'" using assms(2) by (simp add: swap_list_del_def Let_def)
  then have eq: "pages s' = pages s" "pool s' = pool s" "mem_map s' = mem_map s" "max_swap_offset s' = max_swap_offset s" "disk s' = disk s"
    "hash_list s' = hash_list s" "swap_next s' = swap_next s"
    using assms(2) by (auto simp: swap_list_del_def Let_def)
  note d = swap_invD [OF assms(1)]
  have l: "swap_list (active_list s') = remove1 f (swap_list (active_list s))"
    "swap_list (inactive_list s') = remove1 f (swap_list (inactive_list s))"
    "nr_pages (active_list s') = (if pg_active (pages s f) then nr_pages (active_list s) - 1 else nr_pages (active_list s))"
    "nr_pages (inactive_list s') = (if pg_active (pages s f) then nr_pages (inactive_list s) else nr_pages (inactive_list s) - 1)"
    using s' assms(2) by (auto simp: swap_list_del_def Let_def)
  have m: "f \<in> set (swap_list (active_list s)) \<longleftrightarrow> pg_active (pages s f)"
    "f \<in> set (swap_list (inactive_list s)) \<longleftrightarrow> \<not> pg_active (pages s f)"
    using d(4) assms(2,3) by (simp_all add: lists_ok_def)
  note d4 = d(4) [unfolded lists_ok_def]
  have "set (remove1 f (swap_list (active_list s))) = {g. pg_swap (pages s g) \<and> pg_active (pages s g)} - insert f X"
    "set (remove1 f (swap_list (inactive_list s))) = {g. pg_swap (pages s g) \<and> \<not> pg_active (pages s g)} - insert f X"
    using d4 by auto
  moreover have "length (remove1 f (swap_list (active_list s))) = (if pg_active (pages s f) then nr_pages (active_list s) - 1 else nr_pages (active_list s))"
    "length (remove1 f (swap_list (inactive_list s))) = (if pg_active (pages s f) then nr_pages (inactive_list s) else nr_pages (inactive_list s) - 1)"
    using d4 m by (simp_all add: length_remove1)
  ultimately have "lists_ok (insert f X) s'"
    using d4 unfolding lists_ok_def l eq by simp
  then have "swap_inv (insert f X) Z s'"
    using d unfolding swap_inv_def geo_ok_def hash_ok_def index_ok_def zero_ok_def pool_ok_def eq by blast
  then show ?thesis using s' eq by blast
qed

lemma swap_list_add_ok:
  assumes "swap_inv X Z s" and "pg_swap (pages s f)" and "f \<in> X"
    and "\<And>off. off < max_swap_offset s \<Longrightarrow> pg_index (pages s f) = swap_entry off \<Longrightarrow> mem_map s off \<noteq> SWAP_UNUSED"
    and add: "add = swap_active_list_add \<and> act \<or> add = swap_inactive_list_add \<and> \<not> act"
  shows "\<exists>s'. add f s = Some s' \<and> swap_inv (X - {f}) Z s' \<and> pages s' = (pages s)(f := (pages s f)\<lparr>pg_active := act\<rparr>) \<and>
    pool s' = pool s \<and> mem_map s' = mem_map s \<and> max_swap_offset s' = max_swap_offset s \<and> disk s' = disk s"
proof -
  obtain s' where s': "add f s = Some s'"
    using assms(2) add by (auto simp: swap_active_list_add_def swap_inactive_list_add_def Let_def)
  then have eq: "pages s' = (pages s)(f := (pages s f)\<lparr>pg_active := act\<rparr>)" "pool s' = pool s" "mem_map s' = mem_map s"
    "max_swap_offset s' = max_swap_offset s" "disk s' = disk s" "hash_list s' = hash_list s" "swap_next s' = swap_next s"
    using assms(2) add by (auto simp: swap_active_list_add_def swap_inactive_list_add_def Let_def fun_eq_iff)
  have inv: "pg_swap (pages s' g) = pg_swap (pages s g)" "pg_index (pages s' g) = pg_index (pages s g)" for g by (simp_all add: eq)
  have lists: "active_list s' = (if act then list_add_tail f (active_list s) else active_list s)"
    "inactive_list s' = (if act then inactive_list s else list_add_tail f (inactive_list s))"
    using s' assms(2) add by (auto simp: swap_active_list_add_def swap_inactive_list_add_def Let_def)
  note d = swap_invD [OF assms(1)]
  have "lists_ok (X - {f}) s'"
    using d(4) assms(2,3) unfolding lists_ok_def lists by (auto simp: list_add_tail_def eq split: if_splits)
  moreover have "index_ok (X - {f}) s'"
    using d(3) assms(4) unfolding index_ok_def inv eq(3,4) by blast
  moreover have "geo_ok s'" "hash_ok s'" "zero_ok Z s'" "pool_ok s'"
    using d unfolding geo_ok_def hash_ok_def zero_ok_def pool_ok_def inv eq(2-4,6,7) by simp_all
  ultimately have "swap_inv (X - {f}) Z s'" by (simp add: swap_inv_def)
  then show ?thesis using s' eq by blast
qed

text \<open>Dropping a page from the hash table leaves its entry, if its count is 0, to be settled.\<close>

lemma swap_page_del_ok:
  assumes "swap_inv X Z s" and "pg_swap (pages s f)" and "f \<in> X" and "pg_index (pages s f) = swap_entry off" "0 < off" "off < max_swap_offset s"
  shows "\<exists>s'. swap_page_del f s = Some s' \<and> swap_inv (X - {f}) (insert off Z) s' \<and>
    pages s' = (pages s)(f := (pages s f)\<lparr>pg_swap := False\<rparr>) \<and>
    pool s' = pool s \<and> mem_map s' = mem_map s \<and> max_swap_offset s' = max_swap_offset s \<and> disk s' = disk s"
proof -
  obtain s' where s': "swap_page_del f s = Some s'" using assms(2) by (simp add: swap_page_del_def Let_def)
  then have eq: "pages s' = (pages s)(f := (pages s f)\<lparr>pg_swap := False\<rparr>)" "pool s' = pool s" "mem_map s' = mem_map s"
    "max_swap_offset s' = max_swap_offset s" "disk s' = disk s" "swap_next s' = swap_next s"
    "active_list s' = active_list s" "inactive_list s' = inactive_list s"
    "hash_list s' = (let i = entry_hashfn (pg_index (pages s f)) in (hash_list s)(i := remove1 f (hash_list s i)))"
    using assms(2) by (auto simp: swap_page_del_def Let_def fun_eq_iff)
  note d = swap_invD [OF assms(1)]
  have "hash_ok s'" using d(2) unfolding hash_ok_def eq by (auto simp: Let_def)
  moreover have "index_ok (X - {f}) s'" using d(3) unfolding index_ok_def eq(1,3,4) by (auto split: if_splits) 
  moreover have "lists_ok (X - {f}) s'" using d(4) assms(3) unfolding lists_ok_def eq by auto
  moreover have "zero_ok (insert off Z) s'"
    unfolding zero_ok_def eq(3,4)
  proof (intro allI impI)
    fix a assume a: "0 < a \<and> a < max_swap_offset s \<and> a \<notin> insert off Z \<and> mem_map s a = 0"
    then obtain g where g: "pg_swap (pages s g)" "pg_index (pages s g) = swap_entry a" using d(5) unfolding zero_ok_def by blast
    have "g \<noteq> f" using swap_entry_inj [OF assms(1), of a off] a assms(4,6) g(2) by auto
    then show "\<exists>g. pg_swap (pages s' g) \<and> pg_index (pages s' g) = swap_entry a" using g by (intro exI [of _ g]) (simp add: eq(1))
  qed
  moreover have "geo_ok s'" "pool_ok s'" using d(1,6) unfolding geo_ok_def pool_ok_def eq by auto
  ultimately have "swap_inv (X - {f}) (insert off Z) s'" by (simp add: swap_inv_def)
  then show ?thesis using s' eq by blast
qed

text \<open>A new count for an entry.\<close>

lemma mem_map_ok:
  assumes inv: "swap_inv X Z s"
    and unused: "v = SWAP_UNUSED \<Longrightarrow> \<forall>f. pg_swap (pages s f) \<and> pg_index (pages s f) = swap_entry off \<longrightarrow> f \<in> X"
    and zero: "v = 0 \<Longrightarrow> off \<in> Z' \<or> (\<exists>f. pg_swap (pages s f) \<and> pg_index (pages s f) = swap_entry off)"
    and Z: "Z \<subseteq> insert off Z'" and off: "off < max_swap_offset s"
  shows "swap_inv X Z' (s\<lparr>mem_map := (mem_map s)(off := v)\<rparr>)" (is "swap_inv X Z' ?s")
proof -
  note d = swap_invD [OF inv]
  have "index_ok X ?s"
    unfolding index_ok_def
  proof (intro conjI allI impI)
    fix f assume "pg_swap (pages ?s f)"
    then have f: "pg_swap (pages s f)" by simp
    then obtain a where a: "0 < a" "a < max_swap_offset s" "pg_index (pages s f) = swap_entry a" "f \<notin> X \<longrightarrow> mem_map s a \<noteq> SWAP_UNUSED"
      using d(3) unfolding index_ok_def by blast
    have "f \<notin> X \<longrightarrow> mem_map ?s a \<noteq> SWAP_UNUSED" using a f unused by auto
    then show "\<exists>off. 0 < off \<and> off < max_swap_offset ?s \<and> pg_index (pages ?s f) = swap_entry off \<and> (f \<notin> X \<longrightarrow> mem_map ?s off \<noteq> SWAP_UNUSED)"
      using a by auto
  qed (use d(3) in \<open>auto simp: index_ok_def\<close>)
  moreover have "zero_ok Z' ?s"
    using d(5) zero Z unfolding zero_ok_def by (auto split: if_splits)
  ultimately show ?thesis using d by (simp add: swap_inv_def geo_ok_def hash_ok_def lists_ok_def pool_ok_def)
qed

lemma free_page_ok:
  "swap_inv X Z s \<Longrightarrow> f \<notin> set (pool s) \<Longrightarrow> \<not> pg_swap (pages s f) \<Longrightarrow> swap_inv X Z (free_page f s)"
  by (simp add: swap_inv_def geo_ok_def hash_ok_def index_ok_def lists_ok_def zero_ok_def pool_ok_def free_page_def)

lemma swap_free_page_ok:
  assumes "swap_inv X Z s" "pg_swap (pages s f)" "f \<in> X" "pg_index (pages s f) = swap_entry off" "0 < off" "off < max_swap_offset s"
    and "page_ref (pages s f) = 0"
  shows "\<exists>s'. swap_free_page f s = Some s' \<and> swap_inv (X - {f}) (insert off Z) s' \<and>
    pages s' = (pages s)(f := (pages s f)\<lparr>pg_swap := False\<rparr>) \<and> pool s' = f # pool s \<and> mem_map s' = mem_map s \<and>
    max_swap_offset s' = max_swap_offset s \<and> disk s' = disk s"
proof -
  obtain s1 where s1: "swap_page_del f s = Some s1" "swap_inv (X - {f}) (insert off Z) s1"
    "pages s1 = (pages s)(f := (pages s f)\<lparr>pg_swap := False\<rparr>)" "pool s1 = pool s" "mem_map s1 = mem_map s"
    "max_swap_offset s1 = max_swap_offset s" "disk s1 = disk s"
    using swap_page_del_ok [OF assms(1-6)] by blast
  have "f \<notin> set (pool s)" using assms(1,2) by (auto simp: swap_inv_def pool_ok_def)
  then have "swap_inv (X - {f}) (insert off Z) (free_page f s1)" using s1 by (intro free_page_ok) auto
  then show ?thesis using s1 assms(2,7) by (simp add: swap_free_page_def) (simp add: free_page_def)
qed

text \<open>What one operation may do to the other frames: a page that has no entry is left alone.\<close>

definition swap_frame :: "phys \<Rightarrow> phys \<Rightarrow> bool" where
  "swap_frame s s' \<longleftrightarrow> (\<forall>f. \<not> pg_swap (pages s f) \<longrightarrow> pages s' f = pages s f) \<and>
     set (pool s') \<subseteq> set (pool s) \<union> {f. pg_swap (pages s f)} \<and> max_swap_offset s' = max_swap_offset s \<and> disk s' = disk s"

lemma swap_duplicate_ok:
  assumes "swap_inv X Z s" "0 < off" "off < max_swap_offset s" "mem_map s off < MAX_SWAP_REF"
  shows "\<exists>s'. swap_duplicate (swap_entry off) s = Some s' \<and> swap_inv X (Z - {off}) s' \<and> s' = s\<lparr>mem_map := (mem_map s)(off := mem_map s off + 1)\<rparr>"
proof -
  have "swap_inv X (Z - {off}) (s\<lparr>mem_map := (mem_map s)(off := mem_map s off + 1)\<rparr>)"
    by (rule mem_map_ok [OF assms(1)]) (use assms in \<open>auto simp: MAX_SWAP_REF_def SWAP_UNUSED_def\<close>)
  then show ?thesis using swap_inv_offset [OF assms(1-3)] assms(4) by (simp add: swap_duplicate_def)
qed

lemma swap_remove_entry_ok:
  assumes inv: "swap_inv {} {} s" and off: "0 < off" "off < max_swap_offset s" and cnt: "0 < mem_map s off" "mem_map s off \<noteq> SWAP_UNUSED" "mem_map s off \<le> MAX_SWAP_REF"
  shows "\<exists>s'. swap_remove_entry (swap_entry off) s = Some s' \<and> swap_inv {} {} s' \<and> swap_frame s s' \<and>
    (\<forall>a. a \<noteq> off \<longrightarrow> mem_map s' a = mem_map s a) \<and>
    mem_map s' off = (if mem_map s off > 1 then mem_map s off - 1
      else case swap_hash_find (swap_entry off) s of
          Some f \<Rightarrow> if page_ref (pages s f) \<noteq> 0 then 0 else SWAP_UNUSED
        | None \<Rightarrow> SWAP_UNUSED)"
proof -
  let ?s = "s\<lparr>mem_map := (mem_map s)(off := mem_map s off - 1)\<rparr>"
  have o: "swap_offset (swap_entry off) s = Some off" by (rule swap_inv_offset [OF inv off])
  have un: "mem_map s off - 1 \<noteq> SWAP_UNUSED" using cnt by (simp add: SWAP_UNUSED_def MAX_SWAP_REF_def)
  have find: "swap_hash_find (swap_entry off) ?s = swap_hash_find (swap_entry off) s" by (simp add: swap_hash_find_def)
  consider "mem_map s off > 1" | "mem_map s off = 1" using cnt(1) by linarith
  then show ?thesis
  proof cases
    case 1
    then have "swap_inv {} {} ?s" by (intro mem_map_ok [OF inv]) (use off un in auto)
    moreover have "swap_remove_entry (swap_entry off) s = Some ?s"
      using o 1 by (simp add: swap_remove_entry_def Let_def)
    ultimately show ?thesis using 1 by (intro exI [of _ ?s]) (simp add: swap_frame_def)
  next
    case 2
    have inv0: "swap_inv {} {off} ?s" by (rule mem_map_ok [OF inv]) (use off un in auto)
    show ?thesis
    proof (cases "swap_hash_find (swap_entry off) s")
      case None
      let ?s' = "?s\<lparr>mem_map := (mem_map ?s)(off := SWAP_UNUSED)\<rparr>"
      have "\<forall>f. pg_swap (pages s f) \<longrightarrow> pg_index (pages s f) \<noteq> swap_entry off"
        using None swap_hash_find_iff(2) [OF inv] by simp
      then have "swap_inv {} {} ?s'" by (intro mem_map_ok [OF inv0]) (use off in \<open>auto simp: SWAP_UNUSED_def\<close>)
      moreover have "swap_remove_entry (swap_entry off) s = Some ?s'"
        using o 2 None find by (simp add: swap_remove_entry_def Let_def)
      ultimately show ?thesis using 2 None by (intro exI [of _ ?s']) (simp add: swap_frame_def)
    next
      case (Some f)
      have f: "pg_swap (pages s f)" "pg_index (pages s f) = swap_entry off" using swap_hash_find_iff(1) [OF inv] Some by simp_all
      show ?thesis
      proof (cases "page_ref (pages s f) = 0")
        case False
        have "swap_inv {} {} ?s" by (rule mem_map_ok [OF inv]) (use off un f in auto)
        moreover have "swap_remove_entry (swap_entry off) s = Some ?s"
          using o 2 Some find False by (simp add: swap_remove_entry_def Let_def)
        ultimately show ?thesis using 2 Some False by (intro exI [of _ ?s]) (simp add: swap_frame_def)
      next
        case True
        obtain s1 where s1: "swap_list_del f ?s = Some s1" "swap_inv {f} {off} s1" "pages s1 = pages s" "pool s1 = pool s"
          "mem_map s1 = (mem_map s)(off := mem_map s off - 1)" "max_swap_offset s1 = max_swap_offset s" "disk s1 = disk s"
          using swap_list_del_ok [OF inv0, of f] f(1) by auto
        obtain s2 where s2: "swap_free_page f s1 = Some s2" "swap_inv {} {off} s2" "pages s2 = (pages s)(f := (pages s f)\<lparr>pg_swap := False\<rparr>)"
          "pool s2 = f # pool s" "mem_map s2 = mem_map s1" "max_swap_offset s2 = max_swap_offset s" "disk s2 = disk s"
          using swap_free_page_ok [OF s1(2), of f off] f True s1 off by auto
        let ?s' = "s2\<lparr>mem_map := (mem_map s2)(off := SWAP_UNUSED)\<rparr>"
        have "\<forall>g. pg_swap (pages s2 g) \<longrightarrow> pg_index (pages s2 g) \<noteq> swap_entry off"
          using f inv s2(3) unfolding swap_inv_def index_ok_def by auto
        then have "swap_inv {} {} ?s'" by (intro mem_map_ok [OF s2(2)]) (use off s2(6) in \<open>auto simp: SWAP_UNUSED_def\<close>)
        moreover have "swap_remove_entry (swap_entry off) s = Some ?s'"
          using o 2 Some find True s1(1) s2(1) by (simp add: swap_remove_entry_def Let_def)
        ultimately show ?thesis using 2 Some True f(1) s1(5) s2
          by (intro exI [of _ ?s']) (auto simp: swap_frame_def)
      qed
    qed
  qed
qed

lemma alloc_page_ok:
  assumes "swap_inv X Z s" and "alloc_page s = (Some f, s')"
  shows "swap_inv X Z s' \<and> f \<in> set (pool s) \<and> f \<notin> set (pool s') \<and> \<not> pg_swap (pages s' f) \<and> page_ref (pages s' f) = 0 \<and>
    (\<forall>g. g \<noteq> f \<longrightarrow> pages s' g = pages s g) \<and> mem_map s' = mem_map s \<and> max_swap_offset s' = max_swap_offset s \<and> disk s' = disk s"
proof -
  obtain fs where p: "pool s = f # fs" and s': "s' = upd_page f page_struct_alloc (s\<lparr>pool := fs\<rparr>)"
    using assms(2) by (auto simp: alloc_page_def split: list.splits)
  have n: "\<not> pg_swap (pages s f)" "f \<notin> set fs" using assms(1) p by (auto simp: swap_inv_def pool_ok_def)
  have sw: "pg_swap (pages s' g) = pg_swap (pages s g)" for g using n by (simp add: s' page_struct_alloc_def)
  have ix: "pg_index (pages s' g) = pg_index (pages s g)" "pg_swap (pages s g) \<Longrightarrow> pages s' g = pages s g" for g
    using n by (auto simp: s' page_struct_alloc_def)
  have eq: "mem_map s' = mem_map s" "max_swap_offset s' = max_swap_offset s" "disk s' = disk s" "swap_next s' = swap_next s" "hash_list s' = hash_list s"
    "active_list s' = active_list s" "inactive_list s' = inactive_list s" "pool s' = fs" by (simp_all add: s')
  note d = swap_invD [OF assms(1)]
  have "lists_ok X s'" using d(4) ix(2) n unfolding lists_ok_def eq sw by (simp add: s' page_struct_alloc_def) auto
  moreover have "pool_ok s'" using d(6) p unfolding pool_ok_def eq sw by simp
  moreover have "geo_ok s'" "hash_ok s'" "index_ok X s'" "zero_ok Z s'"
    using d unfolding geo_ok_def hash_ok_def index_ok_def zero_ok_def eq sw ix(1) by simp_all
  ultimately have "swap_inv X Z s'" by (simp add: swap_inv_def)
  then show ?thesis using p n eq by (simp add: s' page_struct_alloc_def)
qed

lemma swap_next_ok: "swap_inv X Z s \<Longrightarrow> 1 \<le> n \<Longrightarrow> n < max_swap_offset s \<Longrightarrow> swap_inv X Z (s\<lparr>swap_next := n\<rparr>)"
  by (simp add: swap_inv_def geo_ok_def hash_ok_def index_ok_def lists_ok_def zero_ok_def pool_ok_def)

lemma swap_inv_geo: "swap_inv X Z s \<Longrightarrow> 1 \<le> swap_next s \<and> swap_next s < max_swap_offset s"
  by (simp add: swap_inv_def geo_ok_def)

text \<open>Reclaiming an entry of count 0 from its page.\<close>

lemma swap_reclaim_ok:
  assumes inv: "swap_inv {} {} s" and off: "0 < off" "off < max_swap_offset s" "mem_map s off = 0"
  obtains f s1 s2 where "swap_hash_find (swap_entry off) s = Some f" "pg_swap (pages s f)" "swap_list_del f s = Some s1" "pages s1 = pages s"
    "(if page_ref (pages s1 f) = 0 then swap_free_page f s1 else swap_page_del f s1) = Some s2"
    "swap_inv {} {} (s2\<lparr>mem_map := (mem_map s2)(off := SWAP_UNUSED)\<rparr>)" "swap_frame s s2" "mem_map s2 = mem_map s"
proof -
  obtain f where f: "pg_swap (pages s f)" "pg_index (pages s f) = swap_entry off"
    using inv off unfolding swap_inv_def zero_ok_def by blast
  obtain s1 where s1: "swap_list_del f s = Some s1" "swap_inv {f} {} s1" "pages s1 = pages s" "pool s1 = pool s"
    "mem_map s1 = mem_map s" "max_swap_offset s1 = max_swap_offset s" "disk s1 = disk s"
    using swap_list_del_ok [OF inv f(1)] by auto
  obtain s2 where s2: "(if page_ref (pages s1 f) = 0 then swap_free_page f s1 else swap_page_del f s1) = Some s2" "swap_inv {} {off} s2"
    "pages s2 = (pages s)(f := (pages s f)\<lparr>pg_swap := False\<rparr>)" "set (pool s2) \<subseteq> insert f (set (pool s))"
    "mem_map s2 = mem_map s" "max_swap_offset s2 = max_swap_offset s" "disk s2 = disk s"
    using swap_free_page_ok [OF s1(2), of f off] swap_page_del_ok [OF s1(2), of f off] f s1(3-7) off
    by (cases "page_ref (pages s1 f) = 0") (auto simp: subset_insertI)
  have "\<forall>g. pg_swap (pages s2 g) \<longrightarrow> pg_index (pages s2 g) \<noteq> swap_entry off"
    using f inv s2(3) unfolding swap_inv_def index_ok_def by auto
  then have "swap_inv {} {} (s2\<lparr>mem_map := (mem_map s2)(off := SWAP_UNUSED)\<rparr>)"
    by (intro mem_map_ok [OF s2(2)]) (use off s2(6) in \<open>auto simp: SWAP_UNUSED_def\<close>)
  moreover have "swap_frame s s2" using f(1) s2 by (auto simp: swap_frame_def)
  ultimately show thesis using that swap_hash_find_iff(1) [OF inv] f s1 s2 by blast
qed

lemma try_alloc_swap_entry_ok:
  assumes inv: "swap_inv {} {} s"
  shows "\<exists>e s'. try_alloc_swap_entry s = Some (e, s') \<and> swap_inv {} {} s' \<and> swap_frame s s' \<and>
    (if e = 0 then \<forall>off. 0 < off \<and> off < max_swap_offset s \<longrightarrow> mem_map s off \<noteq> SWAP_UNUSED \<and> mem_map s off \<noteq> 0
     else \<exists>off. 0 < off \<and> off < max_swap_offset s \<and> e = swap_entry off \<and> mem_map s off \<in> {SWAP_UNUSED, 0} \<and>
       mem_map s' = (mem_map s)(off := SWAP_UNUSED))"
proof -
  note g = swap_inv_geo [OF inv]
  obtain e z n where sc: "alloc_scan (mem_map s) (max_swap_offset s) (swap_next s) (swap_next s) 0 = Some (e, z, n)"
    "1 \<le> n" "n < max_swap_offset s" "e \<noteq> 0 \<longrightarrow> mem_map s e = SWAP_UNUSED \<and> e < max_swap_offset s"
    "e = 0 \<longrightarrow> (\<forall>off \<in> {1..<max_swap_offset s}. mem_map s off \<noteq> SWAP_UNUSED \<and> (mem_map s off = 0 \<longrightarrow> z \<noteq> 0))"
    "z \<noteq> 0 \<longrightarrow> mem_map s z = 0 \<and> z < max_swap_offset s"
    using alloc_scan_correct [of "swap_next s" "max_swap_offset s" "swap_next s" "mem_map s" 0] to_visit_all g by fastforce
  let ?s = "s\<lparr>swap_next := n\<rparr>"
  have inv': "swap_inv {} {} ?s" by (rule swap_next_ok [OF inv sc(2,3)])
  have lim: "max_swap_offset s < 2 ^ 24" using inv by (simp add: swap_inv_def geo_ok_def)
  have ne: "swap_entry a \<noteq> 0" if "0 < a" "a < max_swap_offset s" for a
    using swap_entry_offset [of a] that lim by auto
  consider "e \<noteq> 0" | "e = 0" "z \<noteq> 0" | "e = 0" "z = 0" by blast
  then show ?thesis
  proof cases
    case 1
    then have "try_alloc_swap_entry s = Some (swap_entry e, ?s)" using sc(1) by (simp add: try_alloc_swap_entry_def)
    moreover have "(mem_map s)(e := SWAP_UNUSED) = mem_map s" using sc(4) 1 by auto
    ultimately show ?thesis using 1 sc(4) inv' ne [of e] by (auto simp: swap_frame_def intro!: exI [of _ e])
  next
    case 2
    obtain f s1 s2 where r: "swap_hash_find (swap_entry z) ?s = Some f" "pg_swap (pages ?s f)" "swap_list_del f ?s = Some s1" "pages s1 = pages ?s"
      "(if page_ref (pages s1 f) = 0 then swap_free_page f s1 else swap_page_del f s1) = Some s2"
      "swap_inv {} {} (s2\<lparr>mem_map := (mem_map s2)(z := SWAP_UNUSED)\<rparr>)" "swap_frame ?s s2" "mem_map s2 = mem_map ?s"
      using swap_reclaim_ok [OF inv', of z] 2 sc(6) by auto
    have "try_alloc_swap_entry s = Some (swap_entry z, s2\<lparr>mem_map := (mem_map s2)(z := SWAP_UNUSED)\<rparr>)"
      using sc(1) 2 r by (simp add: try_alloc_swap_entry_def)
    then show ?thesis using 2 sc(6) r(6-8) ne [of z] by (auto simp: swap_frame_def intro!: exI [of _ z])
  next
    case 3
    then have "try_alloc_swap_entry s = Some (0, ?s)" using sc(1) by (simp add: try_alloc_swap_entry_def)
    then show ?thesis using 3 sc(5) inv' by (auto simp: swap_frame_def)
  qed
qed

lemma upd_page_ok:
  assumes "swap_inv X Z s" "pg_swap (g (pages s f)) = pg_swap (pages s f)" "pg_index (g (pages s f)) = pg_index (pages s f)"
    "pg_active (g (pages s f)) = pg_active (pages s f)"
  shows "swap_inv X Z (upd_page f g s)" (is "swap_inv X Z ?s")
proof -
  have p: "pg_swap (pages ?s h) = pg_swap (pages s h)" "pg_index (pages ?s h) = pg_index (pages s h)"
    "pg_active (pages ?s h) = pg_active (pages s h)" for h using assms(2-4) by simp_all
  show ?thesis using assms(1)
    unfolding swap_inv_def geo_ok_def hash_ok_def index_ok_def lists_ok_def zero_ok_def pool_ok_def p by simp
qed

text \<open>Giving a page its entry; it is then in no list.\<close>

lemma swap_page_enter_ok:
  assumes inv: "swap_inv {} Z s" and f: "\<not> pg_swap (pages s f)" "f \<notin> set (pool s)"
    and off: "0 < off" "off < max_swap_offset s" "mem_map s off \<noteq> SWAP_UNUSED"
    and fresh: "\<forall>g. pg_swap (pages s g) \<longrightarrow> pg_index (pages s g) \<noteq> swap_entry off"
    and s': "s' = (upd_page f (\<lambda>p. p\<lparr>pg_swap := True, pg_index := swap_entry off\<rparr>) s)
      \<lparr>hash_list := (hash_list s)(entry_hashfn (swap_entry off) := f # hash_list s (entry_hashfn (swap_entry off)))\<rparr>"
  shows "swap_inv {f} (Z - {off}) s'"
proof -
  note d = swap_invD [OF inv]
  have sw: "pg_swap (pages s' g) \<longleftrightarrow> g = f \<or> pg_swap (pages s g)"
    "pg_index (pages s' g) = (if g = f then swap_entry off else pg_index (pages s g))"
    "pg_active (pages s' g) = pg_active (pages s g)" for g by (simp_all add: s')
  have eq: "mem_map s' = mem_map s" "max_swap_offset s' = max_swap_offset s" "swap_next s' = swap_next s" "pool s' = pool s"
    "active_list s' = active_list s" "inactive_list s' = inactive_list s"
    "hash_list s' = (hash_list s)(entry_hashfn (swap_entry off) := f # hash_list s (entry_hashfn (swap_entry off)))" by (simp_all add: s')
  have "hash_ok s'" using d(2) f(1) unfolding hash_ok_def eq sw by auto
  moreover have "index_ok {f} s'" using d(3) off fresh unfolding index_ok_def eq sw by (auto split: if_splits)
  moreover have "lists_ok {f} s'" using d(4) f(1) unfolding lists_ok_def eq sw by auto
  moreover have "zero_ok (Z - {off}) s'"
    unfolding zero_ok_def eq
  proof (intro allI impI)
    fix a assume a: "0 < a \<and> a < max_swap_offset s \<and> a \<notin> Z - {off} \<and> mem_map s a = 0"
    show "\<exists>g. pg_swap (pages s' g) \<and> pg_index (pages s' g) = swap_entry a"
    proof (cases "a = off")
      case False
      then obtain g where "pg_swap (pages s g)" "pg_index (pages s g) = swap_entry a" using d(5) a unfolding zero_ok_def by blast
      then show ?thesis using f(1) by (intro exI [of _ g]) (auto simp: sw)
    qed (auto simp: sw)
  qed
  moreover have "geo_ok s'" "pool_ok s'" using d(1,6) f(2) unfolding geo_ok_def pool_ok_def eq sw by auto
  ultimately show ?thesis by (simp add: swap_inv_def)
qed

text \<open>\<^verbatim>\<open>swap_page_add\<close> followed by \<^verbatim>\<open>swap_active_list_add\<close>, with a given entry and with a new one.\<close>

lemma swap_page_add_given:
  assumes inv: "swap_inv {} {} s" and f: "\<not> pg_swap (pages s f)" "f \<notin> set (pool s)"
    and off: "0 < off" "off < max_swap_offset s" "mem_map s off \<noteq> SWAP_UNUSED"
    and fresh: "\<forall>g. pg_swap (pages s g) \<longrightarrow> pg_index (pages s g) \<noteq> swap_entry off"
  shows "\<exists>s1 s2. swap_page_add f (swap_entry off) s = Some (True, s1) \<and> swap_active_list_add f s1 = Some s2 \<and> swap_inv {} {} s2 \<and>
    pages s2 = (pages s)(f := (pages s f)\<lparr>pg_swap := True, pg_index := swap_entry off, pg_active := True\<rparr>) \<and>
    pool s2 = pool s \<and> mem_map s2 = mem_map s \<and> max_swap_offset s2 = max_swap_offset s \<and> disk s2 = disk s"
proof -
  let ?s1 = "(upd_page f (\<lambda>p. p\<lparr>pg_swap := True, pg_index := swap_entry off\<rparr>) s)
      \<lparr>hash_list := (hash_list s)(entry_hashfn (swap_entry off) := f # hash_list s (entry_hashfn (swap_entry off)))\<rparr>"
  have i1: "swap_inv {f} {} ?s1" using swap_page_enter_ok [OF inv f off fresh refl] by simp
  have "off < 2 ^ 24" using inv off(2) by (simp add: swap_inv_def geo_ok_def)
  then have ne: "swap_entry off \<noteq> 0" using swap_entry_offset [of off] off(1) by auto
  then have a: "swap_page_add f (swap_entry off) s = Some (True, ?s1)"
    using f(1) by (simp add: swap_page_add_def Let_def)
  have "mem_map ?s1 a \<noteq> SWAP_UNUSED" if "a < max_swap_offset ?s1" "pg_index (pages ?s1 f) = swap_entry a" for a
    using swap_entry_inj [OF inv, of a off] that off by auto
  then obtain s2 where "swap_active_list_add f ?s1 = Some s2" "swap_inv {} {} s2" "pages s2 = (pages ?s1)(f := (pages ?s1 f)\<lparr>pg_active := True\<rparr>)"
    "pool s2 = pool ?s1" "mem_map s2 = mem_map ?s1" "max_swap_offset s2 = max_swap_offset ?s1" "disk s2 = disk ?s1"
    using swap_list_add_ok [OF i1, of f swap_active_list_add True] by auto
  then show ?thesis using a by (intro exI [of _ ?s1] exI [of _ s2]) (auto simp: fun_eq_iff)
qed

lemma swap_page_add_new:
  assumes inv: "swap_inv {} {} s" and f: "\<not> pg_swap (pages s f)" "f \<notin> set (pool s)"
  shows "\<exists>ok s1. swap_page_add f 0 s = Some (ok, s1) \<and>
    (if ok then \<exists>off s2. swap_active_list_add f s1 = Some s2 \<and> swap_inv {} {} s2 \<and> 0 < off \<and> off < max_swap_offset s \<and>
        mem_map s off \<in> {SWAP_UNUSED, 0} \<and> mem_map s2 = (mem_map s)(off := 0) \<and> swap_frame (upd_page f (\<lambda>_. pages s2 f) s) s2 \<and>
        pages s2 f = (pages s f)\<lparr>pg_dirty := True, pg_swap := True, pg_index := swap_entry off, pg_active := True\<rparr>
     else swap_inv {} {} s1 \<and> swap_frame s s1 \<and> (\<forall>off. 0 < off \<and> off < max_swap_offset s \<longrightarrow> mem_map s off \<noteq> SWAP_UNUSED \<and> mem_map s off \<noteq> 0))"
proof -
  obtain e s' where t: "try_alloc_swap_entry s = Some (e, s')" "swap_inv {} {} s'" "swap_frame s s'"
    "if e = 0 then \<forall>off. 0 < off \<and> off < max_swap_offset s \<longrightarrow> mem_map s off \<noteq> SWAP_UNUSED \<and> mem_map s off \<noteq> 0
     else \<exists>off. 0 < off \<and> off < max_swap_offset s \<and> e = swap_entry off \<and> mem_map s off \<in> {SWAP_UNUSED, 0} \<and>
       mem_map s' = (mem_map s)(off := SWAP_UNUSED)"
    using try_alloc_swap_entry_ok [OF inv] by blast
  show ?thesis
  proof (cases "e = 0")
    case True
    then show ?thesis using t f(1) by (auto simp: swap_page_add_def)
  next
    case False
    then obtain off where off: "0 < off" "off < max_swap_offset s" "e = swap_entry off" "mem_map s off \<in> {SWAP_UNUSED, 0}"
      "mem_map s' = (mem_map s)(off := SWAP_UNUSED)" using t(4) by auto
    have pf: "pages s' f = pages s f" "f \<notin> set (pool s')" "max_swap_offset s' = max_swap_offset s" "disk s' = disk s"
      using t(3) f by (auto simp: swap_frame_def)
    have fresh: "\<forall>g. pg_swap (pages s' g) \<longrightarrow> pg_index (pages s' g) \<noteq> swap_entry off"
    proof (intro allI impI)
      fix g assume "pg_swap (pages s' g)"
      then obtain a where "a < max_swap_offset s'" "pg_index (pages s' g) = swap_entry a" "mem_map s' a \<noteq> SWAP_UNUSED"
        using t(2) unfolding swap_inv_def index_ok_def by blast
      then show "pg_index (pages s' g) \<noteq> swap_entry off"
        using swap_entry_inj [OF t(2), of a off] off pf(3) by auto
    qed
    let ?s = "upd_page f (\<lambda>p. p\<lparr>pg_dirty := True\<rparr>) (s'\<lparr>mem_map := (mem_map s')(off := 0)\<rparr>)"
    have "swap_inv {} {off} (s'\<lparr>mem_map := (mem_map s')(off := 0)\<rparr>)"
      by (rule mem_map_ok [OF t(2)]) (use off pf in \<open>auto simp: SWAP_UNUSED_def\<close>)
    then have i: "swap_inv {} {off} ?s" by (intro upd_page_ok) auto
    let ?s1 = "(upd_page f (\<lambda>p. p\<lparr>pg_swap := True, pg_index := swap_entry off\<rparr>) ?s)
        \<lparr>hash_list := (hash_list ?s)(entry_hashfn (swap_entry off) := f # hash_list ?s (entry_hashfn (swap_entry off)))\<rparr>"
    have i1: "swap_inv {f} {} ?s1"
      using swap_page_enter_ok [OF i, of f off ?s1] f pf off fresh by (simp add: SWAP_UNUSED_def)
    have "swap_offset e s' = Some off" using swap_inv_offset [OF t(2), of off] off pf by simp
    then have a: "swap_page_add f 0 s = Some (True, ?s1)"
      using f(1) t(1) False off by (simp add: swap_page_add_def Let_def)
    have "mem_map ?s1 a \<noteq> SWAP_UNUSED" if "a < max_swap_offset ?s1" "pg_index (pages ?s1 f) = swap_entry a" for a
      using swap_entry_inj [OF inv, of a off] that off pf(3) by (auto simp: SWAP_UNUSED_def)
    then obtain s2 where s2: "swap_active_list_add f ?s1 = Some s2" "swap_inv {} {} s2" "pages s2 = (pages ?s1)(f := (pages ?s1 f)\<lparr>pg_active := True\<rparr>)"
      "pool s2 = pool ?s1" "mem_map s2 = mem_map ?s1" "max_swap_offset s2 = max_swap_offset ?s1" "disk s2 = disk ?s1"
      using swap_list_add_ok [OF i1, of f swap_active_list_add True] by auto
    have "pages s2 f = (pages s f)\<lparr>pg_dirty := True, pg_swap := True, pg_index := swap_entry off, pg_active := True\<rparr>"
      "mem_map s2 = (mem_map s)(off := 0)" "swap_frame (upd_page f (\<lambda>_. pages s2 f) s) s2"
      using s2 pf off t(3) by (auto simp: swap_frame_def)
    then show ?thesis using a s2 off by (intro exI [of _ True] exI [of _ ?s1]) auto
  qed
qed

lemma swap_in_page_ok:
  assumes inv: "swap_inv {} {} s" and off: "0 < off" "off < max_swap_offset s" "mem_map s off \<noteq> SWAP_UNUSED"
  shows "\<exists>ret pg s'. swap_in_page read_ok (swap_entry off) s = Some ((ret, pg), s') \<and> swap_inv {} {} s' \<and> mem_map s' = mem_map s \<and>
    (case pg of
       Some f \<Rightarrow> ret = 0 \<and> pg_swap (pages s' f) \<and> pg_index (pages s' f) = swap_entry off \<and> (\<forall>g. g \<noteq> f \<longrightarrow> pages s' g = pages s g) \<and>
         (if pg_swap (pages s f) then s' = s else read_ok \<and> f \<in> set (pool s) \<and> pg_data (pages s' f) = disk s off \<and> page_ref (pages s' f) = 0)
     | None \<Rightarrow> swap_hash_find (swap_entry off) s = None \<and> ret = (if pool s = [] then - E_NO_MEM else - E_SWAP_FAULT) \<and> (pool s \<noteq> [] \<longrightarrow> \<not> read_ok))"
proof -
  have o: "swap_offset (swap_entry off) s = Some off" by (rule swap_inv_offset [OF inv off(1,2)])
  show ?thesis
  proof (cases "swap_hash_find (swap_entry off) s")
    case (Some f)
    then have "pg_swap (pages s f)" "pg_index (pages s f) = swap_entry off" using swap_hash_find_iff(1) [OF inv] by blast+
    moreover have "swap_in_page read_ok (swap_entry off) s = Some ((0, Some f), s)" using o Some by (simp add: swap_in_page_def)
    ultimately show ?thesis using inv by (intro exI [of _ 0] exI [of _ "Some f"] exI [of _ s]) simp
  next
    case None
    have fresh: "\<forall>g. pg_swap (pages s g) \<longrightarrow> pg_index (pages s g) \<noteq> swap_entry off" using None swap_hash_find_iff(2) [OF inv] by simp
    show ?thesis
    proof (cases "alloc_page s")
      case (Pair pg s1)
      show ?thesis
      proof (cases pg)
        case N: None
        then have "pool s = []" "s1 = s" using Pair by (auto simp: alloc_page_def split: list.splits)
        moreover from this have "swap_in_page read_ok (swap_entry off) s = Some ((- E_NO_MEM, None), s)"
          using o None Pair N by (simp add: swap_in_page_def)
        ultimately show ?thesis using inv None by (intro exI [of _ "- E_NO_MEM"] exI [of _ "None"] exI [of _ s]) simp
      next
        case (Some f)
        then have al: "alloc_page s = (Some f, s1)" using Pair by simp
        have s1: "swap_inv {} {} s1" "f \<in> set (pool s)" "f \<notin> set (pool s1)" "\<not> pg_swap (pages s1 f)" "page_ref (pages s1 f) = 0"
          "\<forall>g. g \<noteq> f \<longrightarrow> pages s1 g = pages s g" "mem_map s1 = mem_map s" "max_swap_offset s1 = max_swap_offset s" "disk s1 = disk s"
          using alloc_page_ok [OF inv al] by simp_all
        have nf: "\<not> pg_swap (pages s f)" using s1(2) inv by (auto simp: swap_inv_def pool_ok_def)
        show ?thesis
        proof (cases read_ok)
          case False
          then have "swap_in_page read_ok (swap_entry off) s = Some ((- E_SWAP_FAULT, None), free_page f s1)"
            using o None al by (simp add: swap_in_page_def)
          moreover have "swap_inv {} {} (free_page f s1)" using s1 by (intro free_page_ok) auto
          ultimately show ?thesis using None False s1(2,7)
            by (intro exI [of _ "- E_SWAP_FAULT"] exI [of _ "None"] exI [of _ "free_page f s1"]) (auto simp: free_page_def)
        next
          case True
          let ?s2 = "upd_page f (\<lambda>p. p\<lparr>pg_data := disk s off\<rparr>) s1"
          have i2: "swap_inv {} {} ?s2" by (rule upd_page_ok [OF s1(1)]) auto
          have fresh2: "\<forall>g. pg_swap (pages ?s2 g) \<longrightarrow> pg_index (pages ?s2 g) \<noteq> swap_entry off"
            using fresh s1(4,6) by auto
          obtain s3 s4 where a: "swap_page_add f (swap_entry off) ?s2 = Some (True, s3)" "swap_active_list_add f s3 = Some s4" "swap_inv {} {} s4"
            "pages s4 = (pages ?s2)(f := (pages ?s2 f)\<lparr>pg_swap := True, pg_index := swap_entry off, pg_active := True\<rparr>)" "mem_map s4 = mem_map ?s2"
            using swap_page_add_given [OF i2, of f off] fresh2 s1 off by auto
          have "swap_offset (swap_entry off) s1 = Some off" using o s1(8) by (simp add: swap_offset_def)
          then have "swap_in_page read_ok (swap_entry off) s = Some ((0, Some f), s4)"
            using o None al True a(1,2) s1(9) by (simp add: swap_in_page_def swapfs_read_def)
          then show ?thesis using a(3-5) True s1 nf by (intro exI [of _ 0] exI [of _ "Some f"] exI [of _ s4]) simp
        qed
      qed
    qed
  qed
qed

text \<open>Page replacement. Counts stay below the limit at which \<^verbatim>\<open>swap_duplicate\<close> refuses.\<close>

definition counts_low :: "phys \<Rightarrow> bool" where
  "counts_low s \<longleftrightarrow> (\<forall>off. mem_map s off = SWAP_UNUSED \<or> mem_map s off < MAX_SWAP_REF)"

lemma zero_settled: "swap_inv X (insert off Z) s \<Longrightarrow> mem_map s off \<noteq> 0 \<Longrightarrow> swap_inv X Z s"
  by (auto simp: swap_inv_def zero_ok_def)

lemma swap_page_offset:
  assumes "swap_inv X Z s" and "pg_swap (pages s f)"
  obtains off where "0 < off" "off < max_swap_offset s" "pg_index (pages s f) = swap_entry off" "f \<notin> X \<longrightarrow> mem_map s off \<noteq> SWAP_UNUSED"
    "swap_offset (pg_index (pages s f)) s = Some off"
proof -
  obtain off where "0 < off" "off < max_swap_offset s" "pg_index (pages s f) = swap_entry off" "f \<notin> X \<longrightarrow> mem_map s off \<noteq> SWAP_UNUSED"
    using assms unfolding swap_inv_def index_ok_def by blast
  then show thesis using that swap_inv_offset [OF assms(1)] by simp
qed

lemma disk_ok: "swap_inv X Z s \<Longrightarrow> swap_inv X Z (s\<lparr>disk := d\<rparr>)"
  by (simp add: swap_inv_def geo_ok_def hash_ok_def index_ok_def lists_ok_def zero_ok_def pool_ok_def)

text \<open>
  What becomes of an inactive page: the slot of its entry, whether it is freed, whether it is written out, and its descriptor afterwards.
\<close>

definition slot_of :: "phys \<Rightarrow> nat \<Rightarrow> nat" where
  "slot_of s f = unat (drop_bit 8 (pg_index (pages s f)))"

definition freeable :: "bool \<Rightarrow> phys \<Rightarrow> nat \<Rightarrow> bool" where
  "freeable ok s f \<longleftrightarrow> page_ref (pages s f) = 0 \<and> (mem_map s (slot_of s f) = 0 \<or> \<not> pg_dirty (pages s f) \<or> ok)"

definition written :: "bool \<Rightarrow> phys \<Rightarrow> nat \<Rightarrow> bool" where
  "written ok s f \<longleftrightarrow> page_ref (pages s f) = 0 \<and> mem_map s (slot_of s f) \<noteq> 0 \<and> pg_dirty (pages s f) \<and> ok"

definition laundered :: "bool \<Rightarrow> phys \<Rightarrow> nat \<Rightarrow> page" where
  "laundered ok s f =
     (if page_ref (pages s f) \<noteq> 0 then (pages s f)\<lparr>pg_active := True\<rparr>
      else if freeable ok s f then (pages s f)\<lparr>pg_swap := False, pg_dirty := pg_dirty (pages s f) \<and> \<not> written ok s f\<rparr>
      else pages s f)"

lemma launder_page_ok:
  assumes inv: "swap_inv {} {} s" and low: "counts_low s" and f: "pg_swap (pages s f)" "\<not> pg_active (pages s f)"
  shows "\<exists>s'. launder_page ok f s = Some (freeable ok s f, s') \<and> swap_inv {} {} s' \<and> counts_low s' \<and> max_swap_offset s' = max_swap_offset s \<and>
    pages s' = (pages s)(f := laundered ok s f) \<and> pool s' = (if freeable ok s f then f # pool s else pool s) \<and>
    mem_map s' = (if page_ref (pages s f) = 0 \<and> mem_map s (slot_of s f) = 0 then (mem_map s)(slot_of s f := SWAP_UNUSED) else mem_map s) \<and>
    disk s' = (if written ok s f then (disk s)(slot_of s f := pg_data (pages s f)) else disk s)"
proof -
  obtain off where off: "0 < off" "off < max_swap_offset s" "pg_index (pages s f) = swap_entry off" "mem_map s off \<noteq> SWAP_UNUSED"
    "swap_offset (pg_index (pages s f)) s = Some off" using swap_page_offset [OF inv f(1)] by blast
  have sl: "slot_of s f = off" using off(5) by (simp add: slot_of_def swap_offset_def Let_def split: if_splits)
  obtain s1 where s1: "swap_list_del f s = Some s1" "swap_inv {f} {} s1" "pages s1 = pages s" "pool s1 = pool s"
    "mem_map s1 = mem_map s" "max_swap_offset s1 = max_swap_offset s" "disk s1 = disk s"
    using swap_list_del_ok [OF inv f(1)] by auto
  have off1: "a < max_swap_offset s \<Longrightarrow> pg_index (pages s f) = swap_entry a \<Longrightarrow> a = off" for a
    using swap_entry_inj [OF inv, of a off] off(2,3) by metis
  have o1: "swap_offset (swap_entry off) x = Some off" if "max_swap_offset x = max_swap_offset s" for x
    using off that by (simp add: swap_offset_def)
  note d = freeable_def written_def laundered_def sl
  show ?thesis
  proof (cases "page_ref (pages s f) = 0")
    case False
    have nu: "a < max_swap_offset s1 \<Longrightarrow> pg_index (pages s1 f) = swap_entry a \<Longrightarrow> mem_map s1 a \<noteq> SWAP_UNUSED" for a
      using off1 off(4) s1(3,5,6) by metis
    have "\<exists>s2. swap_active_list_add f s1 = Some s2 \<and> swap_inv ({f} - {f}) {} s2 \<and> pages s2 = (pages s1)(f := (pages s1 f)\<lparr>pg_active := True\<rparr>) \<and>
        pool s2 = pool s1 \<and> mem_map s2 = mem_map s1 \<and> max_swap_offset s2 = max_swap_offset s1 \<and> disk s2 = disk s1"
      by (rule swap_list_add_ok [OF s1(2) _ _ nu]) (use s1(3) f(1) in auto)
    then obtain s2 where s2: "swap_active_list_add f s1 = Some s2" "swap_inv {} {} s2" "pages s2 = (pages s)(f := (pages s f)\<lparr>pg_active := True\<rparr>)"
      "mem_map s2 = mem_map s" "pool s2 = pool s" "max_swap_offset s2 = max_swap_offset s" "disk s2 = disk s" unfolding s1(3-7) Diff_cancel by blast
    then have "launder_page ok f s = Some (False, s2)" using s1(1,3) False f by (simp add: launder_page_def)
    then show ?thesis using s2 low False by (intro exI [of _ s2]) (simp add: counts_low_def d)
  next
    case ref: True
    have free: "\<exists>s3. swap_free_page f x = Some s3 \<and> swap_inv {} {} s3 \<and> pages s3 = (pages x)(f := (pages x f)\<lparr>pg_swap := False\<rparr>) \<and> pool s3 = f # pool x \<and>
        mem_map s3 = mem_map x \<and> disk s3 = disk x \<and> max_swap_offset s3 = max_swap_offset x"
      if "swap_inv {f} {} x" "pg_swap (pages x f)" "pg_index (pages x f) = swap_entry off" "max_swap_offset x = max_swap_offset s" "mem_map x off \<noteq> 0"
        "page_ref (pages x f) = 0" for x
      using swap_free_page_ok [OF that(1), of f off] that off zero_settled by fastforce
    consider "mem_map s off = 0" | "mem_map s off \<noteq> 0" "\<not> pg_dirty (pages s f)" | "mem_map s off \<noteq> 0" "pg_dirty (pages s f)" by blast
    then show ?thesis
    proof cases
      case 1
      let ?s2 = "s1\<lparr>mem_map := (mem_map s1)(off := SWAP_UNUSED)\<rparr>"
      have "swap_inv {f} {} ?s2"
        by (rule mem_map_ok [OF s1(2)]) (use s1 off inv f in \<open>auto simp: SWAP_UNUSED_def swap_inv_def index_ok_def\<close>)
      then obtain s3 where s3: "swap_free_page f ?s2 = Some s3" "swap_inv {} {} s3" "pages s3 = (pages s)(f := (pages s f)\<lparr>pg_swap := False\<rparr>)"
        "pool s3 = f # pool s" "mem_map s3 = (mem_map s)(off := SWAP_UNUSED)" "max_swap_offset s3 = max_swap_offset s" "disk s3 = disk s"
        using free [of ?s2] s1 f off ref by (auto simp: SWAP_UNUSED_def)
      have "launder_page ok f s = Some (True, s3)"
        using s1(1,3,5,6) s3(1) f ref off 1 o1 by (simp add: launder_page_def try_free_swap_entry_def)
      moreover have "counts_low s3" using low s3(5) by (simp add: counts_low_def)
      ultimately show ?thesis using s3 ref 1 by (intro exI [of _ s3]) (simp add: d)
    next
      case 2
      obtain s3 where s3: "swap_free_page f s1 = Some s3" "swap_inv {} {} s3" "pages s3 = (pages s)(f := (pages s f)\<lparr>pg_swap := False\<rparr>)"
        "pool s3 = f # pool s" "mem_map s3 = mem_map s" "max_swap_offset s3 = max_swap_offset s" "disk s3 = disk s"
        using free [OF s1(2)] s1 f off ref 2 by auto
      have "launder_page ok f s = Some (True, s3)"
        using s1(1,3,5,6) s3(1) f ref off 2 o1 by (simp add: launder_page_def try_free_swap_entry_def)
      moreover have "laundered ok s f = (pages s f)\<lparr>pg_swap := False\<rparr>" using ref 2 by (auto simp: d intro!: page.equality)
      ultimately show ?thesis using s3 low ref 2 by (intro exI [of _ s3]) (simp add: counts_low_def freeable_def written_def sl)
    next
      case 3
      let ?s2 = "upd_page f (\<lambda>p. p\<lparr>pg_dirty := False\<rparr>) s1"
      have i2: "swap_inv {f} {} ?s2" by (rule upd_page_ok [OF s1(2)]) auto
      have e: "x\<lparr>mem_map := mem_map s\<rparr> = x" if "mem_map x = mem_map s" for x :: phys using that by (cases x) simp
      have m: "mem_map s off < MAX_SWAP_REF" using low off(4) by (auto simp: counts_low_def)
      show ?thesis
      proof (cases ok)
        case True
        let ?s4 = "?s2\<lparr>disk := (disk s)(off := pg_data (pages s f))\<rparr>"
        have i4: "swap_inv {f} {} ?s4" by (rule disk_ok [OF i2])
        obtain s5 where s5: "swap_free_page f ?s4 = Some s5" "swap_inv {} {} s5" "pages s5 = (pages ?s4)(f := (pages ?s4 f)\<lparr>pg_swap := False\<rparr>)"
          "pool s5 = f # pool s" "mem_map s5 = mem_map s" "disk s5 = disk ?s4" "max_swap_offset s5 = max_swap_offset s"
          using free [OF i4] s1 f off ref 3 by auto
        have "pages s5 = (pages s)(f := (pages s f)\<lparr>pg_swap := False, pg_dirty := False\<rparr>)" using s5(3) s1(3) by (auto simp: fun_eq_iff)
        moreover have "launder_page ok f s = Some (True, s5)"
          using s1 s5(1) f ref off 3 o1 m True
          by (simp add: launder_page_def try_free_swap_entry_def swap_duplicate_def swapfs_write_def fun_upd_idem upd_page_def e)
        ultimately show ?thesis using s5(2,4-7) low ref 3 True by (intro exI [of _ s5]) (simp add: counts_low_def d)
      next
        case False
        let ?s4 = "upd_page f (\<lambda>p. p\<lparr>pg_dirty := True\<rparr>) ?s2"
        have i4: "swap_inv {f} {} ?s4" by (rule upd_page_ok [OF i2]) auto
        have "mem_map ?s4 a \<noteq> SWAP_UNUSED" if "a < max_swap_offset ?s4" "pg_index (pages ?s4 f) = swap_entry a" for a
          using off1 [of a] that off s1 by auto
        then obtain s5 where s5: "swap_inactive_list_add f ?s4 = Some s5" "swap_inv {} {} s5" "pages s5 = (pages ?s4)(f := (pages ?s4 f)\<lparr>pg_active := False\<rparr>)"
          "mem_map s5 = mem_map s" "pool s5 = pool s" "max_swap_offset s5 = max_swap_offset s" "disk s5 = disk s"
          using swap_list_add_ok [OF i4, of f swap_inactive_list_add False] s1 f(1) by auto
        have "(pages s f)\<lparr>pg_dirty := True, pg_active := False\<rparr> = pages s f" using f(2) 3(2) by (cases "pages s f") simp
        then have "pages s5 = pages s" using s5(3) s1(3) by (auto simp: fun_eq_iff)
        moreover have "launder_page ok f s = Some (False, s5)"
          using s1 s5(1) f ref off 3 o1 m False
          by (simp add: launder_page_def try_free_swap_entry_def swap_duplicate_def fun_upd_idem upd_page_def e)
        ultimately show ?thesis using s5(2,4-7) low ref 3 False by (intro exI [of _ s5]) (simp add: counts_low_def d fun_upd_idem)
      qed
    qed
  qed
qed



lemma refill_loop_ok:
  assumes "swap_inv {} {} s" "distinct fs" "\<forall>f \<in> set fs. pg_swap (pages s f) \<and> pg_active (pages s f)"
  shows "\<exists>s'. refill_loop fs s = Some s' \<and> swap_inv {} {} s' \<and> pool s' = pool s \<and> mem_map s' = mem_map s \<and>
    (\<forall>f. pages s' f = (if f \<in> set fs \<and> page_ref (pages s f) = 0 then (pages s f)\<lparr>pg_active := False\<rparr> else pages s f))"
  using assms
proof (induction fs arbitrary: s)
  case (Cons f fs)
  have f: "pg_swap (pages s f)" "pg_active (pages s f)" using Cons.prems(3) by simp_all
  obtain s1 where s1: "(if page_ref (pages s f) = 0 then do { s \<leftarrow> swap_list_del f s; swap_inactive_list_add f s } else Some s) = Some s1"
    "swap_inv {} {} s1" "pool s1 = pool s" "mem_map s1 = mem_map s"
    "\<forall>g. pages s1 g = (if g = f \<and> page_ref (pages s f) = 0 then (pages s f)\<lparr>pg_active := False\<rparr> else pages s g)"
  proof (cases "page_ref (pages s f) = 0")
    case True
    obtain s1 where s1: "swap_list_del f s = Some s1" "swap_inv {f} {} s1" "pages s1 = pages s" "pool s1 = pool s"
      "mem_map s1 = mem_map s" "max_swap_offset s1 = max_swap_offset s"
      using swap_list_del_ok [OF Cons.prems(1) f(1)] by auto
    obtain off where off: "off < max_swap_offset s" "pg_index (pages s f) = swap_entry off" "mem_map s off \<noteq> SWAP_UNUSED"
      using swap_page_offset [OF Cons.prems(1) f(1)] by blast
    have nu: "a < max_swap_offset s1 \<Longrightarrow> pg_index (pages s1 f) = swap_entry a \<Longrightarrow> mem_map s1 a \<noteq> SWAP_UNUSED" for a
      using swap_entry_inj [OF Cons.prems(1), of a off] off s1(3,5,6) by metis
    have "\<exists>s2. swap_inactive_list_add f s1 = Some s2 \<and> swap_inv ({f} - {f}) {} s2 \<and> pages s2 = (pages s1)(f := (pages s1 f)\<lparr>pg_active := False\<rparr>) \<and>
        pool s2 = pool s1 \<and> mem_map s2 = mem_map s1 \<and> max_swap_offset s2 = max_swap_offset s1 \<and> disk s2 = disk s1"
      by (rule swap_list_add_ok [OF s1(2) _ _ nu]) (use s1(3) f(1) in auto)
    then show thesis using that True s1 by auto
  next
    case False
    then show thesis using that [of s] Cons.prems(1) by simp
  qed
  have fs: "distinct fs" "f \<notin> set fs" "\<forall>g \<in> set fs. pg_swap (pages s1 g) \<and> pg_active (pages s1 g)"
    using Cons.prems(2,3) s1(5) by auto
  obtain s' where s': "refill_loop fs s1 = Some s'" "swap_inv {} {} s'" "pool s' = pool s1" "mem_map s' = mem_map s1"
    "\<forall>f. pages s' f = (if f \<in> set fs \<and> page_ref (pages s1 f) = 0 then (pages s1 f)\<lparr>pg_active := False\<rparr> else pages s1 f)"
    using Cons.IH [OF s1(2) fs(1,3)] by blast
  have "refill_loop (f # fs) s = Some s'" using f s1(1) s'(1) by simp
  then show ?case using s' s1(3-5) fs(2) by (intro exI [of _ s']) auto
qed simp

section \<open>Properties\<close>

lemma swap_init_inv:
  assumes "1024 \<le> lim" "lim < 2 ^ 24" "distinct (pool s)" "\<forall>f. \<not> pg_swap (pages s f)"
  shows "\<exists>s'. swap_init lim s = Some s' \<and> swap_inv {} {} s' \<and> counts_low s' = (\<forall>off \<ge> lim. mem_map s off = SWAP_UNUSED \<or> mem_map s off < MAX_SWAP_REF)"
  using assms
  by (auto simp: swap_init_def swap_inv_def geo_ok_def hash_ok_def index_ok_def lists_ok_def zero_ok_def pool_ok_def swap_list_init_def
      SWAP_UNUSED_def counts_low_def not_less)

text \<open>A machine with four free frames and a swap device of 1024 pages.\<close>

definition boot_phys :: phys where
  "boot_phys = \<lparr>pages = (\<lambda>f. \<lparr>page_ref = 0, pg_swap = False, pg_dirty = False, pg_active = False, pg_index = 0, pg_data = (\<lambda>i. 0)\<rparr>),
     pool = [0, 1, 2, 3], mem_map = (\<lambda>off. SWAP_UNUSED), max_swap_offset = 1024, swap_next = 1,
     active_list = swap_list_init, inactive_list = swap_list_init, hash_list = (\<lambda>i. []), disk = (\<lambda>off i. 0)\<rparr>"

lemma boot_phys_inv: "swap_inv {} {} boot_phys" "counts_low boot_phys"
  by (simp_all add: boot_phys_def swap_inv_def geo_ok_def hash_ok_def index_ok_def lists_ok_def zero_ok_def pool_ok_def swap_list_init_def
      SWAP_UNUSED_def counts_low_def)

text \<open>
  C37: \<^verbatim>\<open>try_alloc_swap_entry\<close> returns and fails no assertion. It returns 0 only if every entry of the device is
  in use; otherwise the entry it returns was unused, or had count 0 and is taken back from its page, and is marked unused for the
  caller. Pages without an entry are not touched.
\<close>

theorem try_alloc_swap_entry_total:
  assumes "swap_inv {} {} s"
  shows "\<exists>e s'. try_alloc_swap_entry s = Some (e, s') \<and> swap_inv {} {} s' \<and> swap_frame s s' \<and>
    (if e = 0 then \<forall>off. 0 < off \<and> off < max_swap_offset s \<longrightarrow> mem_map s off \<noteq> SWAP_UNUSED \<and> mem_map s off \<noteq> 0
     else \<exists>off. 0 < off \<and> off < max_swap_offset s \<and> e = swap_entry off \<and> mem_map s off \<in> {SWAP_UNUSED, 0} \<and>
       mem_map s' = (mem_map s)(off := SWAP_UNUSED))"
  by (rule try_alloc_swap_entry_ok [OF assms])

theorem try_alloc_swap_entry_total_witness:
  "\<exists>e s'. try_alloc_swap_entry boot_phys = Some (e, s') \<and> e \<noteq> 0"
proof -
  obtain e s' where e: "try_alloc_swap_entry boot_phys = Some (e, s')"
    "if e = 0 then \<forall>off. 0 < off \<and> off < max_swap_offset boot_phys \<longrightarrow> mem_map boot_phys off \<noteq> SWAP_UNUSED \<and> mem_map boot_phys off \<noteq> 0
     else \<exists>off. 0 < off \<and> off < max_swap_offset boot_phys \<and> e = swap_entry off \<and> mem_map boot_phys off \<in> {SWAP_UNUSED, 0} \<and>
       mem_map s' = (mem_map boot_phys)(off := SWAP_UNUSED)"
    using try_alloc_swap_entry_total [OF boot_phys_inv(1)] by blast
  have "mem_map boot_phys 1 = SWAP_UNUSED" "max_swap_offset boot_phys = 1024" by (simp_all add: boot_phys_def)
  then have "e \<noteq> 0" using e(2) by (metis one_less_numeral_iff semiring_norm(76) zero_less_one)
  then show ?thesis using e(1) by blast
qed

text \<open>
  C21: Swapping out and in is the identity on the contents: when \<^verbatim>\<open>page_launder\<close> writes a dirty page out and frees it, a later
  \<^verbatim>\<open>swap_in_page\<close> of its entry returns a frame with the same contents.
\<close>

theorem swap_out_in_roundtrip:
  assumes "swap_inv {} {} s" "counts_low s" and f: "pg_swap (pages s f)" "\<not> pg_active (pages s f)" "pg_dirty (pages s f)"
    and off: "off < max_swap_offset s" "pg_index (pages s f) = swap_entry off" "mem_map s off \<noteq> 0"
    and out: "launder_page True f s = Some (True, s')"
  shows "\<exists>g s''. swap_in_page True (swap_entry off) s' = Some ((0, Some g), s'') \<and> pg_data (pages s'' g) = pg_data (pages s f)"
proof -
  have "slot_of s f = off" using swap_entry_offset [of off] off(1,2) assms(1) by (simp add: slot_of_def swap_inv_def geo_ok_def)
  then have s': "swap_inv {} {} s'" "\<forall>g. g \<noteq> f \<longrightarrow> pages s' g = pages s g" "pool s' = f # pool s" "\<not> pg_swap (pages s' f)"
    "max_swap_offset s' = max_swap_offset s" "mem_map s' = mem_map s" "disk s' off = pg_data (pages s f)"
    using launder_page_ok [OF assms(1,2) f(1,2), of True] out f(3) off by (auto simp: laundered_def written_def freeable_def)
  obtain a where "a < max_swap_offset s" "pg_index (pages s f) = swap_entry a" "0 < a" "mem_map s a \<noteq> SWAP_UNUSED"
    using swap_page_offset [OF assms(1) f(1)] by blast
  then have a: "0 < off" "mem_map s' off \<noteq> SWAP_UNUSED" using swap_entry_inj [OF assms(1), of a off] off s'(6) by metis+
  have "\<not> (pg_swap (pages s' g) \<and> pg_index (pages s' g) = swap_entry off)" for g
  proof (cases "g = f")
    case False
    then have "pages s' g = pages s g" using s'(2) by blast
    then show ?thesis using assms(1) f(1) off(2) False unfolding swap_inv_def index_ok_def by metis
  qed (use s'(4) in simp)
  then have none: "swap_hash_find (swap_entry off) s' = None" using swap_hash_find_iff(2) [OF s'(1)] by blast
  obtain ret pg s'' where r: "swap_in_page True (swap_entry off) s' = Some ((ret, pg), s'')"
    "case pg of
       Some f \<Rightarrow> ret = 0 \<and> pg_swap (pages s'' f) \<and> pg_index (pages s'' f) = swap_entry off \<and> (\<forall>g. g \<noteq> f \<longrightarrow> pages s'' g = pages s' g) \<and>
         (if pg_swap (pages s' f) then s'' = s' else True \<and> f \<in> set (pool s') \<and> pg_data (pages s'' f) = disk s' off \<and> page_ref (pages s'' f) = 0)
     | None \<Rightarrow> swap_hash_find (swap_entry off) s' = None \<and> ret = (if pool s' = [] then - E_NO_MEM else - E_SWAP_FAULT) \<and> (pool s' \<noteq> [] \<longrightarrow> \<not> True)"
    using swap_in_page_ok [OF s'(1) a(1) _ a(2), of True] off(1) s'(5) by auto
  obtain g where g: "pg = Some g" using r(2) s'(3) by (cases pg) auto
  have "\<not> pg_swap (pages s' g)" using \<open>\<And>g. \<not> (pg_swap (pages s' g) \<and> pg_index (pages s' g) = swap_entry off)\<close> [of g] r(2) g by auto
  then show ?thesis using r g s'(7) by auto
qed

text \<open>A machine where frame 0 holds a dirty page with entry 2, referenced once from a page table that has been swapped out.\<close>

definition dirty_phys :: phys where
  "dirty_phys = boot_phys\<lparr>pages := (pages boot_phys)(0 := \<lparr>page_ref = 0, pg_swap = True, pg_dirty = True, pg_active = False, pg_index = swap_entry 2, pg_data = (\<lambda>i. 7)\<rparr>),
     pool := [1, 2, 3], mem_map := (\<lambda>off. SWAP_UNUSED)(2 := 1), inactive_list := \<lparr>swap_list = [0], nr_pages = 1\<rparr>,
     hash_list := (\<lambda>i. if i = entry_hashfn (swap_entry 2) then [0] else [])\<rparr>"

lemma dirty_phys_inv: "swap_inv {} {} dirty_phys" "counts_low dirty_phys"
  by (auto simp: dirty_phys_def boot_phys_def swap_inv_def geo_ok_def hash_ok_def index_ok_def lists_ok_def zero_ok_def pool_ok_def swap_list_init_def
      SWAP_UNUSED_def counts_low_def MAX_SWAP_REF_def)

theorem swap_out_in_roundtrip_witness:
  "\<exists>s' g s''. launder_page True 0 dirty_phys = Some (True, s') \<and> swap_in_page True (swap_entry 2) s' = Some ((0, Some g), s'') \<and>
    pg_data (pages s'' g) = (\<lambda>i. 7)"
proof -
  have o: "swap_offset (swap_entry 2) x = Some 2" if "max_swap_offset x = 1024" for x
    using swap_entry_offset [of 2] that by (simp add: swap_offset_def Let_def)
  obtain s' where out: "launder_page True 0 dirty_phys = Some (True, s')"
    by (simp add: launder_page_def dirty_phys_def swap_list_del_def try_free_swap_entry_def swap_duplicate_def swapfs_write_def swap_free_page_def
        swap_page_del_def o Let_def boot_phys_def MAX_SWAP_REF_def)
  have "\<exists>g s''. swap_in_page True (swap_entry 2) s' = Some ((0, Some g), s'') \<and> pg_data (pages s'' g) = pg_data (pages dirty_phys 0)"
    by (rule swap_out_in_roundtrip [OF dirty_phys_inv _ _ _ _ _ _ out]) (simp_all add: dirty_phys_def boot_phys_def)
  moreover have "pg_data (pages dirty_phys 0) = (\<lambda>i. 7)" by (simp add: dirty_phys_def)
  ultimately show ?thesis using out by auto
qed



end
