(* ===== verification/Page_Table.thy ===== *)
theory Page_Table
  imports Swap
begin

text \<open>
  The four-level page tables of a process (\<^verbatim>\<open>glue-ucore/pmm.c\<close>, \<^verbatim>\<open>mm/mmu.h\<close>). A table is a function from its 512
  indices; an entry of an upper level without \<^verbatim>\<open>PTE_P\<close> is \<open>None\<close>, one with it is the frame of the lower table together with that
  table. An entry of the last level is the 64-bit \<^verbatim>\<open>pte_t\<close>: 0, a frame number with permission bits, or a swap entry.
  Addresses are natural numbers; the user range ends at \<^verbatim>\<open>USERTOP\<close>, so that no sum below leaves 64 bits.
\<close>

section \<open>The code\<close>

definition PTE_P :: u64 where "PTE_P = 0x001"
definition PTE_W :: u64 where "PTE_W = 0x002"
definition PTE_U :: u64 where "PTE_U = 0x004"
definition PTE_A :: u64 where "PTE_A = 0x020"
definition PTE_D :: u64 where "PTE_D = 0x040"
definition PTE_SWAP :: u64 where "PTE_SWAP = PTE_A OR PTE_D"
definition PTE_USER :: u64 where "PTE_USER = PTE_U OR PTE_W OR PTE_P"

definition PGSIZE :: nat where [simp]: "PGSIZE = 4096"
definition PTSIZE :: nat where "PTSIZE = 512 * PGSIZE"
definition PMSIZE :: nat where "PMSIZE = 512 * PTSIZE"
definition PUSIZE :: nat where "PUSIZE = 512 * PMSIZE"

definition PTX :: "nat \<Rightarrow> nat" where "PTX la = la div PGSIZE mod 512"
definition PMX :: "nat \<Rightarrow> nat" where "PMX la = la div PTSIZE mod 512"
definition PUX :: "nat \<Rightarrow> nat" where "PUX la = la div PMSIZE mod 512"
definition PGX :: "nat \<Rightarrow> nat" where "PGX la = la div PUSIZE mod 512"

definition USERTOP :: nat where "USERTOP = 0x0000100000000000"
definition USERBASE :: nat where "USERBASE = 0x0000000001000000"

definition USER_ACCESS :: "nat \<Rightarrow> nat \<Rightarrow> bool" where
  "USER_ACCESS start stop \<longleftrightarrow> USERBASE \<le> start \<and> start < stop \<and> stop \<le> USERTOP"

type_synonym pte_t = u64
type_synonym ptab = "nat \<Rightarrow> pte_t"
type_synonym pmd = "nat \<Rightarrow> (nat \<times> ptab) option"
type_synonym pud = "nat \<Rightarrow> (nat \<times> pmd) option"
type_synonym pgd = "nat \<Rightarrow> (nat \<times> pud) option"

text \<open>A new table: one page with reference count 1, every entry clear.\<close>

definition alloc_table :: "'t \<Rightarrow> phys \<Rightarrow> (nat \<times> 't) option \<times> phys" where
  "alloc_table clear s = (case alloc_page s of
       (None, s) \<Rightarrow> (None, s)
     | (Some f, s) \<Rightarrow> (Some (f, clear), upd_page f (\<lambda>p. p\<lparr>page_ref := 1\<rparr>) s))"

text \<open>
  The walks \<^verbatim>\<open>get_pud\<close>, \<^verbatim>\<open>get_pmd\<close>, \<^verbatim>\<open>get_pte\<close>: whether they return a pointer, and the tables, in which they may have allocated.
\<close>

definition get_pud :: "pgd \<Rightarrow> nat \<Rightarrow> bool \<Rightarrow> phys \<Rightarrow> (pud option \<times> pgd) \<times> phys" where
  "get_pud pgdir la create s = (case pgdir (PGX la) of
       Some (f, t) \<Rightarrow> ((Some t, pgdir), s)
     | None \<Rightarrow>
         if \<not> create then ((None, pgdir), s)
         else case alloc_table (\<lambda>i. None) s of
             (None, s) \<Rightarrow> ((None, pgdir), s)
           | (Some (f, t), s) \<Rightarrow> ((Some t, pgdir(PGX la := Some (f, t))), s))"

definition set_pud :: "pgd \<Rightarrow> nat \<Rightarrow> pud \<Rightarrow> pgd" where
  "set_pud pgdir la t = pgdir(PGX la := map_option (\<lambda>(f, _). (f, t)) (pgdir (PGX la)))"

definition get_pmd :: "pgd \<Rightarrow> nat \<Rightarrow> bool \<Rightarrow> phys \<Rightarrow> (pmd option \<times> pgd) \<times> phys" where
  "get_pmd pgdir la create s = (case get_pud pgdir la create s of
       ((None, pgdir), s) \<Rightarrow> ((None, pgdir), s)
     | ((Some pud, pgdir), s) \<Rightarrow>
         (case pud (PUX la) of
            Some (f, t) \<Rightarrow> ((Some t, pgdir), s)
          | None \<Rightarrow>
              if \<not> create then ((None, pgdir), s)
              else case alloc_table (\<lambda>i. None) s of
                  (None, s) \<Rightarrow> ((None, pgdir), s)
                | (Some (f, t), s) \<Rightarrow> ((Some t, set_pud pgdir la (pud(PUX la := Some (f, t)))), s)))"

definition set_pmd :: "pgd \<Rightarrow> nat \<Rightarrow> pmd \<Rightarrow> pgd" where
  "set_pmd pgdir la t = (case pgdir (PGX la) of
       None \<Rightarrow> pgdir
     | Some (f, pud) \<Rightarrow> set_pud pgdir la (pud(PUX la := map_option (\<lambda>(f, _). (f, t)) (pud (PUX la)))))"

definition get_pte :: "pgd \<Rightarrow> nat \<Rightarrow> bool \<Rightarrow> phys \<Rightarrow> (pte_t option \<times> pgd) \<times> phys" where
  "get_pte pgdir la create s = (case get_pmd pgdir la create s of
       ((None, pgdir), s) \<Rightarrow> ((None, pgdir), s)
     | ((Some pmd, pgdir), s) \<Rightarrow>
         (case pmd (PMX la) of
            Some (f, t) \<Rightarrow> ((Some (t (PTX la)), pgdir), s)
          | None \<Rightarrow>
              if \<not> create then ((None, pgdir), s)
              else case alloc_table (\<lambda>i. 0) s of
                  (None, s) \<Rightarrow> ((None, pgdir), s)
                | (Some (f, t), s) \<Rightarrow> ((Some (t (PTX la)), set_pmd pgdir la (pmd(PMX la := Some (f, t)))), s)))"

text \<open>\<^verbatim>\<open>*ptep = v\<close>, for the pointer \<^verbatim>\<open>get_pte\<close> has returned for \<open>la\<close>.\<close>

definition set_pte :: "pgd \<Rightarrow> nat \<Rightarrow> pte_t \<Rightarrow> pgd" where
  "set_pte pgdir la v = (case pgdir (PGX la) of
       None \<Rightarrow> pgdir
     | Some (_, pud) \<Rightarrow>
         (case pud (PUX la) of
            None \<Rightarrow> pgdir
          | Some (_, pmd) \<Rightarrow> set_pmd pgdir la (pmd(PMX la := map_option (\<lambda>(f, t). (f, t(PTX la := v))) (pmd (PMX la))))))"

definition pte2page :: "pte_t \<Rightarrow> nat option" where
  "pte2page v = (if v AND PTE_P = 0 then None else Some (unat (drop_bit 12 v)))"

definition page2pa :: "nat \<Rightarrow> u64" where
  "page2pa f = push_bit 12 (of_nat f)"

definition get_page :: "pgd \<Rightarrow> nat \<Rightarrow> phys \<Rightarrow> nat option" where
  "get_page pgdir la s = (case get_pte pgdir la False s of
       ((Some v, _), _) \<Rightarrow> if v AND PTE_P \<noteq> 0 then pte2page v else None
     | _ \<Rightarrow> None)"

text \<open>\<^verbatim>\<open>page_remove_pte\<close>: drops the reference of one entry; the caller's entry becomes 0.\<close>

definition page_remove_pte :: "pte_t \<Rightarrow> phys \<Rightarrow> phys option" where
  "page_remove_pte v s =
     (if v AND PTE_P \<noteq> 0 then do {
        f \<leftarrow> pte2page v;
        if \<not> pg_swap (pages s f) then
          (let s = upd_page f (\<lambda>p. p\<lparr>page_ref := page_ref p - 1\<rparr>) s in
           Some (if page_ref (pages s f) = 0 then free_page f s else s))
        else
          (let s = (if v AND PTE_D \<noteq> 0 then upd_page f (\<lambda>p. p\<lparr>pg_dirty := True\<rparr>) s else s) in
           Some (upd_page f (\<lambda>p. p\<lparr>page_ref := page_ref p - 1\<rparr>) s))
      }
      else if v \<noteq> 0 then swap_remove_entry v s
      else Some s)"

definition page_remove :: "pgd \<Rightarrow> nat \<Rightarrow> phys \<Rightarrow> (pgd \<times> phys) option" where
  "page_remove pgdir la s = (case get_pte pgdir la False s of
       ((None, pgdir), s) \<Rightarrow> Some (pgdir, s)
     | ((Some v, pgdir), s) \<Rightarrow> do { s \<leftarrow> page_remove_pte v s; Some (set_pte pgdir la 0, s) })"

definition page_insert :: "pgd \<Rightarrow> nat \<Rightarrow> nat \<Rightarrow> u64 \<Rightarrow> phys \<Rightarrow> (int \<times> pgd \<times> phys) option" where
  "page_insert pgdir f la perm s = (case get_pte pgdir la True s of
       ((None, pgdir), s) \<Rightarrow> Some (- E_NO_MEM, pgdir, s)
     | ((Some v, pgdir), s) \<Rightarrow> do {
         s \<leftarrow> Some (upd_page f (\<lambda>p. p\<lparr>page_ref := page_ref p + 1\<rparr>) s);
         s \<leftarrow> (if v \<noteq> 0 then
                 if v AND PTE_P \<noteq> 0 \<and> pte2page v = Some f
                 then Some (upd_page f (\<lambda>p. p\<lparr>page_ref := page_ref p - 1\<rparr>) s)
                 else page_remove_pte v s
               else Some s);
         Some (0, set_pte pgdir la (page2pa f OR PTE_P OR perm), s)
       })"

definition pgdir_alloc_page :: "pgd \<Rightarrow> nat \<Rightarrow> u64 \<Rightarrow> phys \<Rightarrow> (nat option \<times> pgd \<times> phys) option" where
  "pgdir_alloc_page pgdir la perm s = (case alloc_page s of
       (None, s) \<Rightarrow> Some (None, pgdir, s)
     | (Some f, s) \<Rightarrow> do {
         (ret, pgdir, s) \<leftarrow> page_insert pgdir f la perm s;
         if ret \<noteq> 0 then Some (None, pgdir, free_page f s) else Some (Some f, pgdir, s)
       })"

subsection \<open>\<^verbatim>\<open>unmap_range\<close>\<close>

partial_function (option) unmap_pte_loop :: "ptab \<Rightarrow> nat \<Rightarrow> nat \<Rightarrow> phys \<Rightarrow> (ptab \<times> phys) option" where
  "unmap_pte_loop pt start stop s = do {
     (pt, s) \<leftarrow> (if pt (PTX start) \<noteq> 0 then do { s \<leftarrow> page_remove_pte (pt (PTX start)) s; Some (pt(PTX start := 0), s) }
       else Some (pt, s));
     let start = start + PGSIZE in
       if start \<noteq> 0 \<and> start < stop then unmap_pte_loop pt start stop s else Some (pt, s)
   }"

definition unmap_range_pte :: "ptab \<Rightarrow> nat \<Rightarrow> nat \<Rightarrow> phys \<Rightarrow> (ptab \<times> phys) option" where
  "unmap_range_pte pt start stop s = do {
     kassert (start < stop \<and> stop \<le> PTSIZE);
     kassert (start mod PGSIZE = 0 \<and> stop mod PGSIZE = 0);
     unmap_pte_loop pt start stop s
   }"

text \<open>
  The loop that \<^verbatim>\<open>unmap_range_pmd\<close>, \<^verbatim>\<open>unmap_range_pud\<close> and \<^verbatim>\<open>unmap_range_pgd\<close> share: \<open>esize\<close> is what an entry of the table maps,
  \<open>child\<close> the function for the table below.
\<close>

partial_function (option) unmap_level_loop ::
    "nat \<Rightarrow> ('t \<Rightarrow> nat \<Rightarrow> nat \<Rightarrow> phys \<Rightarrow> ('t \<times> phys) option) \<Rightarrow> (nat \<Rightarrow> (nat \<times> 't) option) \<Rightarrow> nat \<Rightarrow> nat \<Rightarrow> nat \<Rightarrow> phys \<Rightarrow>
     ((nat \<Rightarrow> (nat \<times> 't) option) \<times> phys) option" where
  "unmap_level_loop esize child tab la start stop s =
     (let off = start - la; n = min (esize - off) (stop - start); i = la div esize mod 512 in do {
        (tab, s) \<leftarrow> (case tab i of
            None \<Rightarrow> Some (tab, s)
          | Some (f, t) \<Rightarrow> do { (t, s) \<leftarrow> child t off (off + n) s; Some (tab(i := Some (f, t)), s) });
        let start = start + n; la = la + esize in
          if start \<noteq> 0 \<and> start < stop then unmap_level_loop esize child tab la start stop s else Some (tab, s)
      })"

definition unmap_range_pmd :: "pmd \<Rightarrow> nat \<Rightarrow> nat \<Rightarrow> phys \<Rightarrow> (pmd \<times> phys) option" where
  "unmap_range_pmd pmd start stop s = do {
     kassert (start < stop \<and> stop \<le> PMSIZE);
     unmap_level_loop PTSIZE unmap_range_pte pmd (start div PTSIZE * PTSIZE) start stop s
   }"

definition unmap_range_pud :: "pud \<Rightarrow> nat \<Rightarrow> nat \<Rightarrow> phys \<Rightarrow> (pud \<times> phys) option" where
  "unmap_range_pud pud start stop s = do {
     kassert (start < stop \<and> stop \<le> PUSIZE);
     unmap_level_loop PMSIZE unmap_range_pmd pud (start div PMSIZE * PMSIZE) start stop s
   }"

definition unmap_range_pgd :: "pgd \<Rightarrow> nat \<Rightarrow> nat \<Rightarrow> phys \<Rightarrow> (pgd \<times> phys) option" where
  "unmap_range_pgd pgdir start stop s =
     unmap_level_loop PUSIZE unmap_range_pud pgdir (start div PUSIZE * PUSIZE) start stop s"

definition unmap_range :: "pgd \<Rightarrow> nat \<Rightarrow> nat \<Rightarrow> phys \<Rightarrow> (pgd \<times> phys) option" where
  "unmap_range pgdir start stop s = do {
     kassert (start mod PGSIZE = 0 \<and> stop mod PGSIZE = 0);
     kassert (USER_ACCESS start stop);
     unmap_range_pgd pgdir start stop s
   }"

subsection \<open>\<^verbatim>\<open>exit_range\<close>\<close>

text \<open>The tables are freed index by index.\<close>

fun exit_pmd_loop :: "nat list \<Rightarrow> pmd \<Rightarrow> phys \<Rightarrow> pmd \<times> phys" where
  "exit_pmd_loop [] pmd s = (pmd, s)"
| "exit_pmd_loop (i # is) pmd s =
     (case pmd i of None \<Rightarrow> exit_pmd_loop is pmd s | Some (f, _) \<Rightarrow> exit_pmd_loop is (pmd(i := None)) (free_page f s))"

definition exit_range_pmd :: "pmd \<Rightarrow> phys \<Rightarrow> pmd \<times> phys" where
  "exit_range_pmd pmd s = exit_pmd_loop [0..<512] pmd s"

fun exit_pud_loop :: "nat list \<Rightarrow> pud \<Rightarrow> phys \<Rightarrow> pud \<times> phys" where
  "exit_pud_loop [] pud s = (pud, s)"
| "exit_pud_loop (i # is) pud s =
     (case pud i of
        None \<Rightarrow> exit_pud_loop is pud s
      | Some (f, t) \<Rightarrow> exit_pud_loop is (pud(i := None)) (free_page f (snd (exit_range_pmd t s))))"

definition exit_range_pud :: "pud \<Rightarrow> phys \<Rightarrow> pud \<times> phys" where
  "exit_range_pud pud s = exit_pud_loop [0..<512] pud s"

partial_function (option) exit_range_pgd :: "pgd \<Rightarrow> nat \<Rightarrow> nat \<Rightarrow> phys \<Rightarrow> (pgd \<times> phys) option" where
  "exit_range_pgd pgdir start stop s =
     (let (pgdir, s) = (case pgdir (PGX start) of
          None \<Rightarrow> (pgdir, s)
        | Some (f, t) \<Rightarrow> (pgdir(PGX start := None), free_page f (snd (exit_range_pud t s))));
        start = start + PUSIZE
      in if start \<noteq> 0 \<and> start < stop then exit_range_pgd pgdir start stop s else Some (pgdir, s))"

definition exit_range :: "pgd \<Rightarrow> nat \<Rightarrow> nat \<Rightarrow> phys \<Rightarrow> (pgd \<times> phys) option" where
  "exit_range pgdir start stop s = do {
     kassert (start mod PGSIZE = 0 \<and> stop mod PGSIZE = 0);
     kassert (USER_ACCESS start stop);
     exit_range_pgd pgdir (start div PUSIZE * PUSIZE) stop s
   }"

subsection \<open>\<^verbatim>\<open>copy_range\<close>\<close>

text \<open>The address after a hole of the source tables.\<close>

definition skip_hole :: "pgd \<Rightarrow> nat \<Rightarrow> phys \<Rightarrow> nat" where
  "skip_hole pgdir la s =
     (if fst (fst (get_pud pgdir la False s)) = None then (la + PUSIZE) div PUSIZE * PUSIZE
      else if fst (fst (get_pmd pgdir la False s)) = None then (la + PMSIZE) div PMSIZE * PMSIZE
      else (la + PTSIZE) div PTSIZE * PTSIZE)"

text \<open>One entry \<open>v \<noteq> 0\<close> of the source at \<open>la\<close>; \<open>Some None\<close> is \<^verbatim>\<open>-E_NO_MEM\<close>.\<close>

definition copy_entry :: "pgd \<Rightarrow> pgd \<Rightarrow> nat \<Rightarrow> pte_t \<Rightarrow> bool \<Rightarrow> phys \<Rightarrow> (bool \<times> pgd \<times> pgd \<times> phys) option" where
  "copy_entry to from la v share s = (case get_pte to la True s of
       ((None, to), s) \<Rightarrow> Some (False, to, from, s)
     | ((Some nv, to), s) \<Rightarrow> do {
         kassert (v \<noteq> 0 \<and> nv = 0);
         if v AND PTE_P \<noteq> 0 then do {
           f \<leftarrow> pte2page v;
           (perm, from, s) \<leftarrow>
             (if \<not> share \<and> v AND PTE_W \<noteq> 0 then
                (let perm = v AND PTE_USER AND NOT PTE_W in do {
                   (_, from, s) \<leftarrow> page_insert from f la (perm OR (v AND PTE_SWAP)) s;
                   Some (perm, from, s)
                 })
              else Some (v AND PTE_USER, from, s));
           (ret, to, s) \<leftarrow> page_insert to f la perm s;
           kassert (ret = 0);
           Some (True, to, from, s)
         } else do {
           s \<leftarrow> swap_duplicate v s;
           Some (True, set_pte to la v, from, s)
         }
       })"

partial_function (option) copy_range_loop :: "pgd \<Rightarrow> pgd \<Rightarrow> nat \<Rightarrow> nat \<Rightarrow> bool \<Rightarrow> phys \<Rightarrow> (int \<times> pgd \<times> pgd \<times> phys) option" where
  "copy_range_loop to from start stop share s = do {
     (ok, next, to, from, s) \<leftarrow>
       (case fst (fst (get_pte from start False s)) of
          None \<Rightarrow> Some (True, skip_hole from start s, to, from, s)
        | Some v \<Rightarrow>
            if v \<noteq> 0 then do { (ok, to, from, s) \<leftarrow> copy_entry to from start v share s; Some (ok, start + PGSIZE, to, from, s) }
            else Some (True, start + PGSIZE, to, from, s));
     if \<not> ok then Some (- E_NO_MEM, to, from, s)
     else if next \<noteq> 0 \<and> next < stop then copy_range_loop to from next stop share s
     else Some (0, to, from, s)
   }"

definition copy_range :: "pgd \<Rightarrow> pgd \<Rightarrow> nat \<Rightarrow> nat \<Rightarrow> bool \<Rightarrow> phys \<Rightarrow> (int \<times> pgd \<times> pgd \<times> phys) option" where
  "copy_range to from start stop share s = do {
     kassert (start mod PGSIZE = 0 \<and> stop mod PGSIZE = 0);
     kassert (USER_ACCESS start stop);
     copy_range_loop to from start stop share s
   }"

section \<open>The walk over a range as an operation on a flat table\<close>

text \<open>
  The entry for an address in a table of each level, as a function of the offset within what the table maps; 0 when a lower table is
  missing. Releasing a list of entries is \<^verbatim>\<open>page_remove_pte\<close> on each of them, in order.
\<close>

definition view_pte :: "ptab \<Rightarrow> nat \<Rightarrow> pte_t" where
  "view_pte t a = t (a div PGSIZE)"

definition view_level :: "nat \<Rightarrow> ('t \<Rightarrow> nat \<Rightarrow> pte_t) \<Rightarrow> (nat \<Rightarrow> (nat \<times> 't) option) \<Rightarrow> nat \<Rightarrow> pte_t" where
  "view_level esize view tab a = (case tab (a div esize) of None \<Rightarrow> 0 | Some (f, t) \<Rightarrow> view t (a mod esize))"

fun release :: "pte_t list \<Rightarrow> phys \<Rightarrow> phys option" where
  "release [] s = Some s"
| "release (v # vs) s = do { s \<leftarrow> page_remove_pte v s; release vs s }"

definition page_addrs :: "nat \<Rightarrow> nat \<Rightarrow> nat list" where
  "page_addrs start stop = map (\<lambda>i. i * PGSIZE) [start div PGSIZE..<stop div PGSIZE]"

text \<open>What an unmapping function promises: it clears the range and releases what was there.\<close>

definition unmaps :: "nat \<Rightarrow> ('t \<Rightarrow> nat \<Rightarrow> pte_t) \<Rightarrow> 't \<Rightarrow> nat \<Rightarrow> nat \<Rightarrow> (phys \<Rightarrow> ('t \<times> phys) option) \<Rightarrow> bool" where
  "unmaps lim view t start stop f \<longleftrightarrow> (\<exists>t'. (\<forall>a < lim. view t' a = (if start \<le> a \<and> a < stop then 0 else view t a)) \<and>
     (\<forall>s. f s = map_option (\<lambda>s'. (t', s')) (release (map (view t) (page_addrs start stop)) s)))"

lemma release_append: "release (xs @ ys) s = do { s \<leftarrow> release xs s; release ys s }"
proof (induction xs arbitrary: s)
  case (Cons v xs)
  then show ?case by (cases "page_remove_pte v s") simp_all
qed simp

lemma page_remove_pte_0 [simp]: "page_remove_pte 0 s = Some s"
  by (simp add: page_remove_pte_def)

lemma release_zeros: "\<forall>v \<in> set vs. v = 0 \<Longrightarrow> release vs s = Some s"
  by (induction vs) auto

lemma page_addrs_split:
  assumes "start \<le> mid" "mid \<le> stop"
  shows "page_addrs start stop = page_addrs start mid @ page_addrs mid stop"
  using assms upt_add_eq_append [of "start div PGSIZE" "mid div PGSIZE" "stop div PGSIZE - mid div PGSIZE"]
  by (simp add: page_addrs_def div_le_mono)

lemma page_addrs_mem:
  assumes "a \<in> set (page_addrs start stop)" "start mod PGSIZE = 0"
  shows "start \<le> a" "a < stop" "a mod PGSIZE = 0"
proof -
  obtain i where i: "a = i * 4096" "start div 4096 \<le> i" "i < stop div 4096" using assms(1) by (auto simp: page_addrs_def)
  show "start \<le> a" using i assms(2) by (metis PGSIZE_def div_mult_mod_eq add.right_neutral mult_le_mono1)
  have "i * 4096 < stop div 4096 * 4096" using i(3) by simp
  then show "a < stop" using i(1) div_times_less_eq_dividend [of stop 4096] by linarith
  show "a mod PGSIZE = 0" using i(1) by simp
qed

lemma page_addrs_Cons:
  assumes "start < stop" "start mod PGSIZE = 0" "stop mod PGSIZE = 0"
  shows "page_addrs start stop = start # page_addrs (start + PGSIZE) stop" "start + PGSIZE \<le> stop"
proof -
  obtain i j where ij: "start = 4096 * i" "stop = 4096 * j" using assms(2,3) by (auto simp: dvd_def mod_eq_0_iff_dvd)
  then have "i < j" using assms(1) by simp
  then show "page_addrs start stop = start # page_addrs (start + PGSIZE) stop" "start + PGSIZE \<le> stop"
    using ij upt_conv_Cons [of i j] by (simp_all add: page_addrs_def div_add)
qed

lemma upt_shift: "[c + x..<c + y] = map (\<lambda>i. c + i) [x..<y]"
  by (induction y) auto

lemma page_addrs_shift:
  assumes "b mod PGSIZE = 0"
  shows "page_addrs (b + x) (b + y) = map (\<lambda>a. b + a) (page_addrs x y)"
proof -
  obtain c where "b = c * 4096" using assms by (auto simp: mod_eq_0_iff_dvd dvd_def)
  then have d: "(b + x) div 4096 = c + x div 4096" "(b + y) div 4096 = c + y div 4096" "b = c * 4096" by simp_all
  show ?thesis unfolding page_addrs_def PGSIZE_def d(1,2) upt_shift by (simp add: d(3) algebra_simps)
qed

lemma unmap_pte_loop_ok:
  "start < stop \<Longrightarrow> stop \<le> PTSIZE \<Longrightarrow> start mod PGSIZE = 0 \<Longrightarrow> stop mod PGSIZE = 0 \<Longrightarrow>
   unmaps PTSIZE view_pte pt start stop (unmap_pte_loop pt start stop)"
proof (induction "stop - start" arbitrary: start pt rule: less_induct)
  case less
  define i where "i = start div 4096"
  have i: "PTX start = i" "start = i * 4096" "i < 512"
    using less.prems by (auto simp: PTX_def PTSIZE_def i_def)
  have vs: "view_pte pt start = pt i" using i(2) by (simp add: view_pte_def)
  have c: "page_addrs start stop = start # page_addrs (start + PGSIZE) stop" "start + PGSIZE \<le> stop"
    using page_addrs_Cons [of start stop] less.prems by blast+
  let ?pt = "pt(i := 0)"
  have one: "unmap_pte_loop pt start stop s = do {
      s \<leftarrow> page_remove_pte (view_pte pt start) s;
      if start + PGSIZE < stop then unmap_pte_loop ?pt (start + PGSIZE) stop s else Some (?pt, s) }" for s
  proof (cases "pt i = 0")
    case True
    then have "?pt = pt" by (simp add: fun_upd_idem)
    then show ?thesis using True by (simp add: unmap_pte_loop.simps [of pt start] i(1) vs Let_def)
  next
    case False
    then show ?thesis by (simp add: unmap_pte_loop.simps [of pt start] i(1) vs Let_def cong: if_cong)
  qed
  have v1: "view_pte ?pt a = (if start \<le> a \<and> a < start + PGSIZE then 0 else view_pte pt a)" for a
  proof -
    have "a div 4096 = i \<longleftrightarrow> i * 4096 \<le> a \<and> a < i * 4096 + 4096" by auto
    then show ?thesis using i(2) by (simp add: view_pte_def)
  qed
  have rest: "map (view_pte ?pt) (page_addrs (start + PGSIZE) stop) = map (view_pte pt) (page_addrs (start + PGSIZE) stop)"
    using page_addrs_mem(1) [of _ "start + PGSIZE" stop] less.prems(3) v1 by (intro map_cong) (force simp: mod_add_self2)+
  show ?case
  proof (cases "start + PGSIZE < stop")
    case False
    then have e: "stop = start + PGSIZE" using c(2) by simp
    then have "page_addrs (start + PGSIZE) stop = []" by (simp add: page_addrs_def)
    then show ?thesis unfolding unmaps_def using one v1 e c(1)
      by (intro exI [of _ ?pt]) (simp add: map_option_case option.case_eq_if bind_eq_None_conv split: Option.bind_split)
  next
    case True
    have "stop - (start + PGSIZE) < stop - start" using True by (simp add: diff_less_mono2)
    then obtain pt' where p: "\<forall>a < PTSIZE. view_pte pt' a = (if start + PGSIZE \<le> a \<and> a < stop then 0 else view_pte ?pt a)"
      "\<forall>s. unmap_pte_loop ?pt (start + PGSIZE) stop s = map_option (\<lambda>s'. (pt', s')) (release (map (view_pte pt) (page_addrs (start + PGSIZE) stop)) s)"
      using less.hyps [of "start + PGSIZE" ?pt, OF _ True] less.prems True unfolding unmaps_def rest by auto
    show ?thesis unfolding unmaps_def
      by (intro exI [of _ pt']) (use True p v1 one c in \<open>auto simp: split: Option.bind_split\<close>)
  qed
qed

text \<open>
  The contract a table of one level relies on for the tables below it: an entry maps a whole number of pages, and the function for the
  lower table unmaps any page range inside it. The function of the next level then keeps the same contract.
\<close>

locale lower_tables =
  fixes esize :: nat and view :: "'t \<Rightarrow> nat \<Rightarrow> pte_t" and child :: "'t \<Rightarrow> nat \<Rightarrow> nat \<Rightarrow> phys \<Rightarrow> ('t \<times> phys) option"
  assumes esize: "0 < esize" "esize mod PGSIZE = 0"
    and child_unmaps: "a < b \<Longrightarrow> b \<le> esize \<Longrightarrow> a mod PGSIZE = 0 \<Longrightarrow> b mod PGSIZE = 0 \<Longrightarrow> unmaps esize view t a b (child t a b)"
begin

lemma entry_view:
  assumes "a div esize = k"
  shows "view_level esize view tab a = (case tab k of None \<Rightarrow> 0 | Some (f, t) \<Rightarrow> view t (a - k * esize))"
  using assms by (auto simp: view_level_def minus_div_mult_eq_mod split: option.split)

lemma same_entry:
  assumes "k * esize \<le> a" "a < k * esize + esize"
  shows "a div esize = k"
  using assms esize(1) by (simp add: div_nat_eqI algebra_simps)

text \<open>One entry: the part of the range that it maps.\<close>

lemma entry_unmaps:
  assumes r: "k * esize \<le> start" "start < mid" "mid \<le> k * esize + esize" "start mod PGSIZE = 0" "mid mod PGSIZE = 0"
  shows "unmaps lim (view_level esize view) tab start mid (\<lambda>s. case tab k of
      None \<Rightarrow> Some (tab, s)
    | Some (f, t) \<Rightarrow> do { (t, s) \<leftarrow> child t (start - k * esize) (mid - k * esize) s; Some (tab(k := Some (f, t)), s) })"
proof (cases "tab k")
  case None
  have z: "view_level esize view tab a = 0" if "start \<le> a" "a < mid" for a
    using same_entry [of k a] entry_view [of a k tab] that r None by simp
  have "release (map (view_level esize view tab) (page_addrs start mid)) s = Some s" for s
    using page_addrs_mem [OF _ r(4)] z by (intro release_zeros) auto
  then show ?thesis unfolding unmaps_def using None z by (intro exI [of _ tab]) simp
next
  case (Some p)
  obtain f t where p: "p = (f, t)" by fastforce
  let ?b = "k * esize"
  have al: "?b mod PGSIZE = 0" using esize(2) by (simp add: mod_mult_right_eq [symmetric])
  have al': "(start - ?b) mod PGSIZE = 0" "(mid - ?b) mod PGSIZE = 0"
    using r al by (simp_all add: dvd_diff_nat flip: dvd_eq_mod_eq_0)
  have lt: "start - ?b < mid - ?b" "mid - ?b \<le> esize" using r by auto
  obtain t' where v: "\<forall>a < esize. view t' a = (if start - ?b \<le> a \<and> a < mid - ?b then 0 else view t a)"
    and c: "\<forall>s. child t (start - ?b) (mid - ?b) s = map_option (\<lambda>s'. (t', s')) (release (map (view t) (page_addrs (start - ?b) (mid - ?b))) s)"
    using child_unmaps [OF lt al', of t] unfolding unmaps_def by blast
  have "map (view_level esize view tab) (page_addrs start mid) = map (view t) (page_addrs (start - ?b) (mid - ?b))"
  proof -
    have "view_level esize view tab (?b + a) = view t a" if "a \<in> set (page_addrs (start - ?b) (mid - ?b))" for a
    proof -
      have "(?b + a) div esize = k" by (rule same_entry) (use page_addrs_mem(2) [OF that al'(1)] r in auto)
      then show ?thesis using entry_view [of "?b + a" k tab] Some p by simp
    qed
    then show ?thesis using page_addrs_shift [OF al, of "start - ?b" "mid - ?b"] r by simp
  qed
  moreover have "view_level esize view (tab(k := Some (f, t'))) a = (if start \<le> a \<and> a < mid then 0 else view_level esize view tab a)" for a
  proof (cases "a div esize = k")
    case True
    then have "?b \<le> a" "a - ?b < esize" using esize(1) by (auto simp: minus_div_mult_eq_mod simp flip: True)
    then show ?thesis using entry_view [OF True] v r Some p by auto
  next
    case False
    then have "\<not> (start \<le> a \<and> a < mid)" using same_entry [of k a] r by auto
    then show ?thesis using False by (auto simp: view_level_def)
  qed
  ultimately show ?thesis unfolding unmaps_def using Some p c
    by (intro exI [of _ "tab(k := Some (f, t'))"]) (auto simp: map_option_case split: option.split)
qed

lemma unmap_level_loop_ok:
  "start < stop \<Longrightarrow> stop \<le> 512 * esize \<Longrightarrow> start mod PGSIZE = 0 \<Longrightarrow> stop mod PGSIZE = 0 \<Longrightarrow> k * esize \<le> start \<Longrightarrow>
   start < k * esize + esize \<Longrightarrow>
   unmaps (512 * esize) (view_level esize view) tab start stop (unmap_level_loop esize child tab (k * esize) start stop)"
proof (induction "stop - start" arbitrary: start k tab rule: less_induct)
  case less
  let ?b = "k * esize"
  define mid where "mid = min (?b + esize) stop"
  have k: "?b div esize mod 512 = k"
  proof -
    have "k * esize < 512 * esize" using less.prems by linarith
    then show ?thesis using esize(1) by simp
  qed
  have mid: "start < mid" "mid \<le> ?b + esize" "mid \<le> stop" "mid < stop \<Longrightarrow> mid = ?b + esize" using less.prems by (auto simp: mid_def)
  have n: "min (esize - (start - ?b)) (stop - start) = mid - start" using less.prems by (auto simp: mid_def)
  have al: "mid mod PGSIZE = 0" using less.prems(4) esize(2) by (auto simp: mid_def min_def mod_add_eq [symmetric] mod_mult_right_eq [symmetric] simp del: PGSIZE_def)
  obtain tab' where t: "\<forall>a < 512 * esize. view_level esize view tab' a = (if start \<le> a \<and> a < mid then 0 else view_level esize view tab a)"
    and e: "\<forall>s. (case tab k of
        None \<Rightarrow> Some (tab, s)
      | Some (f, t) \<Rightarrow> do { (t, s) \<leftarrow> child t (start - ?b) (mid - ?b) s; Some (tab(k := Some (f, t)), s) }) =
      map_option (\<lambda>s'. (tab', s')) (release (map (view_level esize view tab) (page_addrs start mid)) s)"
    using entry_unmaps [OF less.prems(5) mid(1,2) less.prems(3) al, of "512 * esize" tab] unfolding unmaps_def by blast
  have step: "unmap_level_loop esize child tab ?b start stop s = do {
      s \<leftarrow> release (map (view_level esize view tab) (page_addrs start mid)) s;
      if mid < stop then unmap_level_loop esize child tab' (?b + esize) mid stop s else Some (tab', s) }" for s
  proof -
    have o: "start - ?b + (mid - start) = mid - ?b" "start + (mid - start) = mid" using less.prems mid by auto
    have "mid \<noteq> 0" using mid(1) by simp
    then show ?thesis
      unfolding unmap_level_loop.simps [of esize child tab ?b start stop s] Let_def n k o e [rule_format]
      by (cases "release (map (view_level esize view tab) (page_addrs start mid)) s") simp_all
  qed
  show ?case
  proof (cases "mid < stop")
    case False
    then have "mid = stop" using mid(3) by simp
    then show ?thesis unfolding unmaps_def using t step
      by (intro exI [of _ tab']) (simp add: map_option_case split: Option.bind_split option.split)
  next
    case True
    have m: "mid = Suc k * esize" using mid(4) [OF True] by simp
    have rest: "map (view_level esize view tab') (page_addrs mid stop) = map (view_level esize view tab) (page_addrs mid stop)"
      using page_addrs_mem [OF _ al, of _ stop] t less.prems(2) by (intro map_cong) force+
    have "stop - mid < stop - start" "mid < Suc k * esize + esize" using True mid(1) m esize(1) by auto
    then have "unmaps (512 * esize) (view_level esize view) tab' mid stop (unmap_level_loop esize child tab' (Suc k * esize) mid stop)"
      using less.hyps [of mid "Suc k" tab'] True less.prems al m by simp
    then obtain tab2 where u: "\<forall>a < 512 * esize. view_level esize view tab2 a = (if mid \<le> a \<and> a < stop then 0 else view_level esize view tab' a)"
      "\<forall>s. unmap_level_loop esize child tab' (?b + esize) mid stop s =
        map_option (\<lambda>s'. (tab2, s')) (release (map (view_level esize view tab) (page_addrs mid stop)) s)"
      unfolding unmaps_def rest by (auto simp: add.commute)
    have "unmap_level_loop esize child tab ?b start stop s =
        map_option (\<lambda>s'. (tab2, s')) (release (map (view_level esize view tab) (page_addrs start stop)) s)" for s
      unfolding step page_addrs_split [OF less_imp_le [OF mid(1)] mid(3)] map_append release_append using True u(2)
      by (simp split: Option.bind_split)
    moreover have "\<forall>a < 512 * esize. view_level esize view tab2 a = (if start \<le> a \<and> a < stop then 0 else view_level esize view tab a)"
      using u(1) t mid by auto
    ultimately show ?thesis unfolding unmaps_def by blast
  qed
qed

lemma level_unmaps:
  assumes "start < stop" "stop \<le> 512 * esize" "start mod PGSIZE = 0" "stop mod PGSIZE = 0"
  shows "unmaps (512 * esize) (view_level esize view) tab start stop (unmap_level_loop esize child tab (start div esize * esize) start stop)"
proof (rule unmap_level_loop_ok [OF assms])
  show "start div esize * esize \<le> start" by simp
  show "start < start div esize * esize + esize" using dividend_less_div_times [OF esize(1), of start] by (simp add: add.commute)
qed

end

interpretation pte_tables: lower_tables PTSIZE view_pte unmap_range_pte
proof
  show "0 < PTSIZE" "PTSIZE mod PGSIZE = 0" by (simp_all add: PTSIZE_def)
  show "unmaps PTSIZE view_pte t a b (unmap_range_pte t a b)"
    if "a < b" "b \<le> PTSIZE" "a mod PGSIZE = 0" "b mod PGSIZE = 0" for a b and t :: ptab
    using unmap_pte_loop_ok [OF that, of t] that unfolding unmaps_def unmap_range_pte_def by simp
qed

interpretation pmd_tables: lower_tables PMSIZE "view_level PTSIZE view_pte" unmap_range_pmd
proof
  show "0 < PMSIZE" "PMSIZE mod PGSIZE = 0" by (simp_all add: PMSIZE_def PTSIZE_def)
  show "unmaps PMSIZE (view_level PTSIZE view_pte) t a b (unmap_range_pmd t a b)"
    if "a < b" "b \<le> PMSIZE" "a mod PGSIZE = 0" "b mod PGSIZE = 0" for a b and t :: pmd
    using pte_tables.level_unmaps [of a b t] that unfolding unmaps_def unmap_range_pmd_def by (simp add: PMSIZE_def)
qed

interpretation pud_tables: lower_tables PUSIZE "view_level PMSIZE (view_level PTSIZE view_pte)" unmap_range_pud
proof
  show "0 < PUSIZE" "PUSIZE mod PGSIZE = 0" by (simp_all add: PUSIZE_def PMSIZE_def PTSIZE_def)
  show "unmaps PUSIZE (view_level PMSIZE (view_level PTSIZE view_pte)) t a b (unmap_range_pud t a b)"
    if "a < b" "b \<le> PUSIZE" "a mod PGSIZE = 0" "b mod PGSIZE = 0" for a b and t :: pud
    using pmd_tables.level_unmaps [of a b t] that unfolding unmaps_def unmap_range_pud_def by (simp add: PUSIZE_def)
qed

text \<open>The entry that the walk of the code reaches for an address, 0 when a table on the way is missing.\<close>

definition pte_at :: "pgd \<Rightarrow> nat \<Rightarrow> pte_t" where
  "pte_at pgdir la = (case pgdir (PGX la) of
       None \<Rightarrow> 0
     | Some (_, pud) \<Rightarrow>
         (case pud (PUX la) of
            None \<Rightarrow> 0
          | Some (_, pmd) \<Rightarrow> (case pmd (PMX la) of None \<Rightarrow> 0 | Some (_, pt) \<Rightarrow> pt (PTX la))))"

lemma mod_div_mod: "a mod (n * m) div m = a div m mod (n::nat)"
  by (cases "m = 0") (simp_all add: mod_mult2_eq mult.commute [of n])

lemma pte_at_view:
  assumes "la < 512 * PUSIZE"
  shows "pte_at pgdir la = view_level PUSIZE (view_level PMSIZE (view_level PTSIZE view_pte)) pgdir la"
proof -
  have "la div PUSIZE = PGX la" using assms by (simp add: PGX_def less_mult_imp_div_less)
  moreover have "la mod PUSIZE div PMSIZE = PUX la" by (simp add: PUX_def PUSIZE_def mod_div_mod)
  moreover have "la mod PUSIZE mod PMSIZE div PTSIZE = PMX la"
    by (simp add: PMX_def PUSIZE_def PMSIZE_def mod_div_mod mod_mod_cancel)
  moreover have "la mod PUSIZE mod PMSIZE mod PTSIZE div PGSIZE = PTX la"
    using mod_div_mod [of la 512 4096] by (simp add: PTX_def PUSIZE_def PMSIZE_def PTSIZE_def mod_mod_cancel)
  ultimately show ?thesis by (simp add: pte_at_def view_level_def view_pte_def split: option.split)
qed

lemma unmap_range_ok:
  assumes "USER_ACCESS start stop" "start mod PGSIZE = 0" "stop mod PGSIZE = 0"
  shows "unmaps (512 * PUSIZE) pte_at pgdir start stop (unmap_range pgdir start stop)"
proof -
  let ?v = "view_level PUSIZE (view_level PMSIZE (view_level PTSIZE view_pte))"
  have st: "start < stop" "stop \<le> 512 * PUSIZE" using assms(1)
    by (simp_all add: USER_ACCESS_def USERTOP_def PUSIZE_def PMSIZE_def PTSIZE_def)
  have m: "map (pte_at pgdir) (page_addrs start stop) = map (?v pgdir) (page_addrs start stop)"
  proof (rule map_cong [OF refl])
    fix a assume "a \<in> set (page_addrs start stop)"
    then have "a < 512 * PUSIZE" using page_addrs_mem(2) [OF _ assms(2)] st(2) by (meson order_less_le_trans)
    then show "pte_at pgdir a = ?v pgdir a" by (rule pte_at_view)
  qed
  obtain t' where "\<forall>a < 512 * PUSIZE. ?v t' a = (if start \<le> a \<and> a < stop then 0 else ?v pgdir a)"
    and u: "\<forall>s. unmap_level_loop PUSIZE unmap_range_pud pgdir (start div PUSIZE * PUSIZE) start stop s =
      map_option (\<lambda>s'. (t', s')) (release (map (?v pgdir) (page_addrs start stop)) s)"
    using pud_tables.level_unmaps [OF st assms(2,3), of pgdir] unfolding unmaps_def by blast
  then have "\<forall>a < 512 * PUSIZE. pte_at t' a = (if start \<le> a \<and> a < stop then 0 else pte_at pgdir a)"
    by (simp add: pte_at_view)
  moreover have "unmap_range pgdir start stop s = map_option (\<lambda>s'. (t', s')) (release (map (pte_at pgdir) (page_addrs start stop)) s)" for s
    using assms u unfolding m by (simp add: unmap_range_def unmap_range_pgd_def)
  ultimately show ?thesis unfolding unmaps_def by blast
qed

text \<open>Entries that are empty or present can always be released; only a swap entry can fail an assertion.\<close>

lemma release_present: "\<forall>v \<in> set vs. v = 0 \<or> v AND PTE_P \<noteq> 0 \<Longrightarrow> \<exists>s'. release vs s = Some s'"
proof (induction vs arbitrary: s)
  case (Cons v vs)
  have "\<exists>s1. page_remove_pte v s = Some s1"
    using Cons.prems by (cases "v = 0") (auto simp: page_remove_pte_def pte2page_def Let_def)
  then show ?case using Cons by auto
qed simp

section \<open>Properties\<close>

definition demo_pgdir :: pgd where
  "demo_pgdir = (\<lambda>_. Some (1, \<lambda>_. Some (2, \<lambda>_. Some (3, \<lambda>_. 0x5007))))"

text \<open>
  C19: the four nested loops over the levels of the page table do exactly what one pass over a flat table would: every entry of the range is
  cleared and no other, and the pages and swap entries found there are released once each, in address order; the result depends on
  the tables below only through their entries.
\<close>

theorem unmap_range_is_flat:
  assumes "USER_ACCESS start stop" "start mod PGSIZE = 0" "stop mod PGSIZE = 0"
  shows "\<exists>pgdir'. (\<forall>la < 2 ^ 48. pte_at pgdir' la = (if start \<le> la \<and> la < stop then 0 else pte_at pgdir la)) \<and>
    (\<forall>s. unmap_range pgdir start stop s = map_option (\<lambda>s'. (pgdir', s')) (release (map (pte_at pgdir) (page_addrs start stop)) s))"
  using unmap_range_ok [OF assms, of pgdir] by (simp add: unmaps_def PUSIZE_def PMSIZE_def PTSIZE_def)

theorem unmap_range_is_flat_witness:
  "\<exists>pgdir' s'. unmap_range demo_pgdir 0x1000000 0x1002000 boot_phys = Some (pgdir', s') \<and>
     pte_at pgdir' 0x1001000 = 0 \<and> pte_at pgdir' 0x1002000 = 0x5007 \<and> page_ref (pages s' 5) = page_ref (pages boot_phys 5) - 2"
proof -
  have e: "pte_at demo_pgdir la = 0x5007" for la by (simp add: pte_at_def demo_pgdir_def)
  have u: "USER_ACCESS 0x1000000 0x1002000" "0x1000000 mod PGSIZE = 0" "0x1002000 mod PGSIZE = 0"
    by (simp_all add: USER_ACCESS_def USERBASE_def USERTOP_def)
  have p: "page_addrs 0x1000000 0x1002000 = [0x1000000, 0x1001000]" by (simp add: page_addrs_def upt_rec)
  have "\<exists>s'. release [0x5007, 0x5007] boot_phys = Some s' \<and> page_ref (pages s' 5) = page_ref (pages boot_phys 5) - 2"
    by (simp add: page_remove_pte_def pte2page_def PTE_P_def PTE_D_def upd_page_def free_page_def Let_def boot_phys_def)
  then show ?thesis
    using unmap_range_is_flat [OF u, of demo_pgdir] by (auto simp: e p)
qed

end
