(* ===== verification/Shmem.thy ===== *)
theory Shmem
  imports Page_Table
begin

text \<open>
  Shared memory objects (\<^verbatim>\<open>mm/shmem.c\<close>): an object is a sorted list of nodes, each of which holds the 512 page table
  entries of 2 MB of it. A structure from \<^verbatim>\<open>kmalloc\<close> is named by the number of the call that returned it; which calls
  succeed is part of the state, and \<^verbatim>\<open>kfree\<close>, after which the name is not used again, has no effect on it. \<^verbatim>\<open>shmem_sem\<close> serialises
  the callers and has no effect on one call.
\<close>

section \<open>The code\<close>

record kmem =
  frames :: phys
  kmalloc_ok :: "nat \<Rightarrow> bool"
  kmalloc_calls :: nat

definition kmalloc :: "kmem \<Rightarrow> nat option \<times> kmem" where
  "kmalloc k = (let n = kmalloc_calls k in (if kmalloc_ok k n then Some n else None, k\<lparr>kmalloc_calls := n + 1\<rparr>))"

record shmn =
  shmn_start :: nat
  shmn_end :: nat
  shmn_entry :: "nat \<Rightarrow> pte_t"
  shmn_page :: nat

record shmem =
  shmn_list :: "nat list"
  shmns :: "nat \<Rightarrow> shmn"
  shmn_cache :: "nat option"
  shmem_len :: nat
  shmem_ref :: int

definition SHMN_NENTRY :: nat where "SHMN_NENTRY = PGSIZE div 8"

definition shmem_create :: "nat \<Rightarrow> shmem \<Rightarrow> kmem \<Rightarrow> (nat \<times> shmem) option \<times> kmem" where
  "shmem_create len raw k = (case kmalloc k of
       (None, k) \<Rightarrow> (None, k)
     | (Some i, k) \<Rightarrow> (Some (i, raw\<lparr>shmn_list := [], shmn_cache := None, shmem_len := len, shmem_ref := 0\<rparr>), k))"

definition shmn_create :: "nat \<Rightarrow> kmem \<Rightarrow> ((nat \<times> shmn) option \<times> kmem) option" where
  "shmn_create start k = do {
     kassert (start mod PGSIZE * SHMN_NENTRY = 0);
     Some (case kmalloc k of
         (None, k) \<Rightarrow> (None, k)
       | (Some i, k) \<Rightarrow>
           (case alloc_page (frames k) of
              (Some f, s) \<Rightarrow>
                (Some (i, \<lparr>shmn_start = start, shmn_end = start + PGSIZE * SHMN_NENTRY, shmn_entry = (\<lambda>_. 0), shmn_page = f\<rparr>),
                 k\<lparr>frames := s\<rparr>)
            | (None, s) \<Rightarrow> (None, k\<lparr>frames := s\<rparr>)))
   }"

text \<open>The caller's entry becomes 0.\<close>

definition shmem_remove_entry_pte :: "pte_t \<Rightarrow> phys \<Rightarrow> phys option" where
  "shmem_remove_entry_pte v s =
     (if v AND PTE_P \<noteq> 0 then do {
        f \<leftarrow> pte2page v;
        if \<not> pg_swap (pages s f) then
          (let s = upd_page f (\<lambda>p. p\<lparr>page_ref := page_ref p - 1\<rparr>) s in
           Some (if page_ref (pages s f) = 0 then free_page f s else s))
        else
          (let s = (if v AND PTE_D \<noteq> 0 then upd_page f (\<lambda>p. p\<lparr>pg_dirty := True\<rparr>) s else s) in
           Some (upd_page f (\<lambda>p. p\<lparr>page_ref := page_ref p - 1\<rparr>) s))
      }
      else if v \<noteq> 0 then swap_remove_entry v s
      else Some s)"

fun remove_entries :: "pte_t list \<Rightarrow> phys \<Rightarrow> phys option" where
  "remove_entries [] s = Some s"
| "remove_entries (v # vs) s = do { s \<leftarrow> shmem_remove_entry_pte v s; remove_entries vs s }"

definition shmn_destroy :: "shmn \<Rightarrow> phys \<Rightarrow> phys option" where
  "shmn_destroy n s = do {
     s \<leftarrow> remove_entries (map (shmn_entry n) [0..<SHMN_NENTRY]) s;
     Some (free_page (shmn_page n) s)
   }"

definition shmn_has :: "nat \<Rightarrow> shmn \<Rightarrow> bool" where
  "shmn_has addr n \<longleftrightarrow> shmn_start n \<le> addr \<and> addr < shmn_end n"

definition find_shmn :: "nat \<Rightarrow> shmem \<Rightarrow> nat option \<times> shmem" where
  "find_shmn addr sh =
     (let r = (case shmn_cache sh of
          Some i \<Rightarrow> if shmn_has addr (shmns sh i) then Some i else find (\<lambda>i. shmn_has addr (shmns sh i)) (shmn_list sh)
        | None \<Rightarrow> find (\<lambda>i. shmn_has addr (shmns sh i)) (shmn_list sh))
      in (r, if r \<noteq> None then sh\<lparr>shmn_cache := r\<rparr> else sh))"

definition check_shmn_overlap :: "shmn \<Rightarrow> shmn \<Rightarrow> unit option" where
  "check_shmn_overlap p n = do {
     kassert (shmn_start p < shmn_end p);
     kassert (shmn_end p \<le> shmn_start n);
     kassert (shmn_start n < shmn_end n)
   }"

text \<open>The list is split before the first node with a larger start.\<close>

definition insert_shmn :: "nat \<Rightarrow> shmn \<Rightarrow> shmem \<Rightarrow> shmem option" where
  "insert_shmn i n sh =
     (let before = takeWhile (\<lambda>j. \<not> shmn_start (shmns sh j) > shmn_start n) (shmn_list sh);
          after = dropWhile (\<lambda>j. \<not> shmn_start (shmns sh j) > shmn_start n) (shmn_list sh)
      in do {
        (if before \<noteq> [] then check_shmn_overlap (shmns sh (last before)) n else Some ());
        (if after \<noteq> [] then check_shmn_overlap n (shmns sh (hd after)) else Some ());
        Some (sh\<lparr>shmn_list := before @ i # after, shmns := (shmns sh)(i := n)\<rparr>)
      })"

fun destroy_shmns :: "shmn list \<Rightarrow> phys \<Rightarrow> phys option" where
  "destroy_shmns [] s = Some s"
| "destroy_shmns (n # ns) s = do { s \<leftarrow> shmn_destroy n s; destroy_shmns ns s }"

definition shmem_destroy :: "shmem \<Rightarrow> phys \<Rightarrow> phys option" where
  "shmem_destroy sh s = destroy_shmns (map (shmns sh) (shmn_list sh)) s"

definition set_entry :: "nat \<Rightarrow> nat \<Rightarrow> pte_t \<Rightarrow> shmem \<Rightarrow> shmem" where
  "set_entry i idx v sh = sh\<lparr>shmns := (shmns sh)(i := (shmns sh i)\<lparr>shmn_entry := (shmn_entry (shmns sh i))(idx := v)\<rparr>)\<rparr>"

text \<open>The result is the node and the index of the entry, or \<open>None\<close> for \<^verbatim>\<open>NULL\<close>.\<close>

definition shmem_get_entry :: "nat \<Rightarrow> bool \<Rightarrow> shmem \<Rightarrow> kmem \<Rightarrow> ((nat \<times> nat) option \<times> shmem \<times> kmem) option" where
  "shmem_get_entry addr create sh k = do {
     kassert (addr < shmem_len sh);
     let addr = addr div PGSIZE * PGSIZE; (r, sh) = find_shmn addr sh in do {
     kassert (case r of None \<Rightarrow> True | Some i \<Rightarrow> shmn_has addr (shmns sh i));
     (r, sh, k) \<leftarrow> (case r of
         Some i \<Rightarrow> Some (Some i, sh, k)
       | None \<Rightarrow>
           if \<not> create then Some (None, sh, k)
           else do {
             (n, k) \<leftarrow> shmn_create (addr div (PGSIZE * SHMN_NENTRY) * (PGSIZE * SHMN_NENTRY)) k;
             case n of
               None \<Rightarrow> Some (None, sh, k)
             | Some (i, n) \<Rightarrow> do { sh \<leftarrow> insert_shmn i n sh; Some (Some i, sh, k) }
           });
     case r of
       None \<Rightarrow> Some (None, sh, k)
     | Some i \<Rightarrow>
         (let idx = (addr - shmn_start (shmns sh i)) div PGSIZE in
          if shmn_entry (shmns sh i) idx = 0 \<and> create then
            (case alloc_page (frames k) of
               (Some f, s) \<Rightarrow> Some (Some (i, idx), set_entry i idx (page2pa f OR PTE_P) sh,
                 k\<lparr>frames := upd_page f (\<lambda>p. p\<lparr>page_ref := page_ref p + 1\<rparr>) s\<rparr>)
             | (None, s) \<Rightarrow> Some (Some (i, idx), sh, k\<lparr>frames := s\<rparr>))
          else Some (Some (i, idx), sh, k))
   }}"

definition shmem_insert_entry :: "nat \<Rightarrow> pte_t \<Rightarrow> shmem \<Rightarrow> kmem \<Rightarrow> (int \<times> shmem \<times> kmem) option" where
  "shmem_insert_entry addr v sh k = do {
     (r, sh, k) \<leftarrow> shmem_get_entry addr True sh k;
     case r of
       None \<Rightarrow> Some (- E_NO_MEM, sh, k)
     | Some (i, idx) \<Rightarrow> do {
         s \<leftarrow> (let old = shmn_entry (shmns sh i) idx in
               if old \<noteq> 0 then shmem_remove_entry_pte old (frames k) else Some (frames k));
         s \<leftarrow> (if v AND PTE_P \<noteq> 0 then do { f \<leftarrow> pte2page v; Some (upd_page f (\<lambda>p. p\<lparr>page_ref := page_ref p + 1\<rparr>) s) }
               else if v \<noteq> 0 then swap_duplicate v s
               else Some s);
         Some (0, set_entry i idx v sh, k\<lparr>frames := s\<rparr>)
       }
   }"

definition shmem_remove_entry :: "nat \<Rightarrow> shmem \<Rightarrow> kmem \<Rightarrow> (int \<times> shmem \<times> kmem) option" where
  "shmem_remove_entry addr sh k = shmem_insert_entry addr 0 sh k"

end
