(* ===== verification/Vmm.thy ===== *)
theory Vmm
  imports Shmem Rb_Tree Strings
begin

text \<open>
  Virtual memory areas and address spaces (\<^verbatim>\<open>mm/vmm.c\<close>, \<^verbatim>\<open>mm/vmm.h\<close>). Structures from \<^verbatim>\<open>kmalloc\<close> are named as in \<open>Shmem\<close>; the
  state maps the names of areas and of shared memory objects to records, and an address space (\<^verbatim>\<open>struct mm_struct\<close>) is a
  record passed to and returned by the operations on it. Bounds of areas are natural numbers; the address and length a caller passes are
  64-bit words, because the sums of the code wrap around. A fresh address space has no page directory: \<open>pgdir\<close> is \<open>None\<close> until \<^verbatim>\<open>setup_pgdir\<close>
  (\<^verbatim>\<open>process/proc.c\<close>) has run, and walking the tables through the null pointer is a panic. Of \<^verbatim>\<open>struct mm_struct\<close> the link \<^verbatim>\<open>proc_mm_link\<close> into
  the list of all address spaces is left out; the semaphore \<^verbatim>\<open>mm_sem\<close> is passed beside the record, in \<open>Pgfault\<close>.
\<close>

section \<open>The code\<close>

definition VM_READ :: u32 where "VM_READ = 0x01"
definition VM_WRITE :: u32 where "VM_WRITE = 0x02"
definition VM_EXEC :: u32 where "VM_EXEC = 0x04"
definition VM_STACK :: u32 where "VM_STACK = 0x08"
definition VM_SHARE :: u32 where "VM_SHARE = 0x10"

record vma =
  vm_mm :: nat
  vm_start :: nat
  vm_end :: nat
  vm_flags :: u32
  vm_shmem :: "nat option"
  shmem_off :: nat

record vms =
  kmem :: kmem
  vmas :: "nat \<Rightarrow> vma"
  shmems :: "nat \<Rightarrow> shmem"

record mm_struct =
  mm_id :: nat
  mmap_list :: "nat list"
  mmap_tree :: "nat rb option"
  mmap_cache :: "nat option"
  pgdir :: "pgd option"
  map_count :: nat
  swap_address :: nat
  mm_count :: int
  locked_by :: int
  brk_start :: nat
  brk :: nat
  lapic :: int

definition RB_MIN_MAP_COUNT :: nat where "RB_MIN_MAP_COUNT = 32"

definition upd_vma :: "nat \<Rightarrow> (vma \<Rightarrow> vma) \<Rightarrow> vms \<Rightarrow> vms" where
  "upd_vma v g s = s\<lparr>vmas := (vmas s)(v := g (vmas s v))\<rparr>"

definition upd_shmem :: "nat \<Rightarrow> (shmem \<Rightarrow> shmem) \<Rightarrow> vms \<Rightarrow> vms" where
  "upd_shmem i g s = s\<lparr>shmems := (shmems s)(i := g (shmems s i))\<rparr>"

definition phys_of :: "vms \<Rightarrow> phys" where
  "phys_of s = frames (kmem s)"

definition set_phys :: "phys \<Rightarrow> vms \<Rightarrow> vms" where
  "set_phys p s = s\<lparr>kmem := (kmem s)\<lparr>frames := p\<rparr>\<rparr>"

text \<open>\<^verbatim>\<open>ROUNDDOWN\<close> and \<^verbatim>\<open>ROUNDUP\<close> to a page, on 64-bit values.\<close>

definition page_down :: "u64 \<Rightarrow> u64" where
  "page_down a = a - a mod 4096"

definition page_up :: "u64 \<Rightarrow> u64" where
  "page_up a = page_down (a + 4096 - 1)"

definition mm_create :: "vms \<Rightarrow> mm_struct option \<times> vms" where
  "mm_create s = (case kmalloc (kmem s) of
       (None, k) \<Rightarrow> (None, s\<lparr>kmem := k\<rparr>)
     | (Some i, k) \<Rightarrow>
         (Some \<lparr>mm_id = i, mmap_list = [], mmap_tree = None, mmap_cache = None, pgdir = None, map_count = 0,
                swap_address = 0, mm_count = 0, locked_by = 0, brk_start = 0, brk = 0, lapic = -1\<rparr>, s\<lparr>kmem := k\<rparr>))"

text \<open>
  The new directory starts as a copy of \<open>init_pg\<close>, the kernel's initial directory (\<^verbatim>\<open>init_pgdir_get()\<close>); the entry for \<^verbatim>\<open>VPT\<close>, through which the
  directory maps itself far above user space, is not represented.
\<close>

definition setup_pgdir :: "pgd \<Rightarrow> mm_struct \<Rightarrow> vms \<Rightarrow> int \<times> mm_struct \<times> vms" where
  "setup_pgdir init_pg m s = (case alloc_page (phys_of s) of
       (None, p) \<Rightarrow> (- E_NO_MEM, m, set_phys p s)
     | (Some f, p) \<Rightarrow> (0, m\<lparr>pgdir := Some init_pg\<rparr>, set_phys p s))"

definition vma_create :: "nat \<Rightarrow> nat \<Rightarrow> u32 \<Rightarrow> vms \<Rightarrow> nat option \<times> vms" where
  "vma_create start stop fl s = (case kmalloc (kmem s) of
       (None, k) \<Rightarrow> (None, s\<lparr>kmem := k\<rparr>)
     | (Some v, k) \<Rightarrow>
         (Some v, upd_vma v (\<lambda>x. x\<lparr>vm_start := start, vm_end := stop, vm_flags := fl, vm_shmem := None, shmem_off := 0\<rparr>)
                    (s\<lparr>kmem := k\<rparr>)))"

text \<open>An access through a null \<^verbatim>\<open>shmem\<close> is a panic.\<close>

definition vma_destroy :: "nat \<Rightarrow> vms \<Rightarrow> vms option" where
  "vma_destroy v s =
     (if vm_flags (vmas s v) AND VM_SHARE \<noteq> 0 then do {
        i \<leftarrow> vm_shmem (vmas s v);
        let s = upd_shmem i (\<lambda>sh. sh\<lparr>shmem_ref := shmem_ref sh - 1\<rparr>) s in
          if shmem_ref (shmems s i) = 0 then do { p \<leftarrow> shmem_destroy (shmems s i) (phys_of s); Some (set_phys p s) }
          else Some s
      }
      else Some s)"

fun find_vma_rb :: "(nat \<Rightarrow> vma) \<Rightarrow> nat rb \<Rightarrow> nat \<Rightarrow> nat option \<Rightarrow> nat option" where
  "find_vma_rb V Nil addr vma = vma"
| "find_vma_rb V (Node c l tmp r) addr vma =
     (if vm_end (V tmp) > addr then
        if vm_start (V tmp) \<le> addr then Some tmp else find_vma_rb V l addr (Some tmp)
      else find_vma_rb V r addr vma)"

definition find_vma :: "(nat \<Rightarrow> vma) \<Rightarrow> mm_struct \<Rightarrow> nat \<Rightarrow> nat option \<times> mm_struct" where
  "find_vma V m addr =
     (let vma = (case mmap_cache m of
          Some v \<Rightarrow> if vm_start (V v) \<le> addr \<and> vm_end (V v) > addr then Some v else None
        | None \<Rightarrow> None);
        vma = (if vma \<noteq> None then vma
               else case mmap_tree m of
                   Some t \<Rightarrow> find_vma_rb V t addr None
                 | None \<Rightarrow> find (\<lambda>v. addr < vm_end (V v)) (mmap_list m))
      in (vma, if vma \<noteq> None then m\<lparr>mmap_cache := vma\<rparr> else m))"

definition find_vma_intersection :: "(nat \<Rightarrow> vma) \<Rightarrow> mm_struct \<Rightarrow> nat \<Rightarrow> nat \<Rightarrow> nat option \<times> mm_struct" where
  "find_vma_intersection V m start stop = (case find_vma V m start of
       (Some v, m) \<Rightarrow> (if stop \<le> vm_start (V v) then None else Some v, m)
     | (None, m) \<Rightarrow> (None, m))"

definition vma_compare :: "(nat \<Rightarrow> vma) \<Rightarrow> nat \<Rightarrow> nat \<Rightarrow> int" where
  "vma_compare V a b =
     (if vm_start (V a) < vm_start (V b) then - 1 else if vm_start (V a) > vm_start (V b) then 1 else 0)"

definition check_vma_overlap :: "vma \<Rightarrow> vma \<Rightarrow> unit option" where
  "check_vma_overlap p n = do {
     kassert (vm_start p < vm_end p);
     kassert (vm_end p \<le> vm_start n);
     kassert (vm_start n < vm_end n)
   }"

definition insert_vma_rb :: "(nat \<Rightarrow> vma) \<Rightarrow> nat rb \<Rightarrow> nat \<Rightarrow> (nat rb \<times> nat option) option" where
  "insert_vma_rb V t v = do { t \<leftarrow> rb_insert (vma_compare V) v t; Some (t, rb_node_prev v t) }"

fun build_tree :: "(nat \<Rightarrow> vma) \<Rightarrow> nat list \<Rightarrow> nat rb \<Rightarrow> nat rb option" where
  "build_tree V [] t = Some t"
| "build_tree V (v # vs) t = do { (t, _) \<leftarrow> insert_vma_rb V t v; build_tree V vs t }"

text \<open>The three allocations of \<^verbatim>\<open>rb_tree_create\<close>.\<close>

definition tree_alloc :: "kmem \<Rightarrow> nat rb option \<times> kmem" where
  "tree_alloc k = (case kmalloc k of
       (None, k) \<Rightarrow> (rb_tree_create False True True, k)
     | (Some _, k) \<Rightarrow>
         (case kmalloc k of
            (None, k) \<Rightarrow> (rb_tree_create True False True, k)
          | (Some _, k) \<Rightarrow> (case kmalloc k of (r, k) \<Rightarrow> (rb_tree_create True True (r \<noteq> None), k))))"

text \<open>The new area goes after \<open>before\<close>: the areas up to the predecessor in the tree, or up to the first with a larger start.\<close>

fun upto_elem :: "nat \<Rightarrow> nat list \<Rightarrow> nat list" where
  "upto_elem p [] = []"
| "upto_elem p (x # xs) = x # (if x = p then [] else upto_elem p xs)"

definition insert_place :: "mm_struct \<Rightarrow> nat \<Rightarrow> vms \<Rightarrow> (mm_struct \<times> nat list) option" where
  "insert_place m v s = (case mmap_tree m of
       Some t \<Rightarrow> do {
         (t, prev) \<leftarrow> insert_vma_rb (vmas s) t v;
         Some (m\<lparr>mmap_tree := Some t\<rparr>, case prev of None \<Rightarrow> [] | Some p \<Rightarrow> upto_elem p (mmap_list m))
       }
     | None \<Rightarrow> Some (m, takeWhile (\<lambda>u. \<not> vm_start (vmas s u) > vm_start (vmas s v)) (mmap_list m)))"

definition check_neighbours :: "(nat \<Rightarrow> vma) \<Rightarrow> nat list \<Rightarrow> nat \<Rightarrow> nat list \<Rightarrow> unit option" where
  "check_neighbours V ps v ns = do {
     (if ps \<noteq> [] then check_vma_overlap (V (last ps)) (V v) else Some ());
     (if ns \<noteq> [] then check_vma_overlap (V v) (V (hd ns)) else Some ())
   }"

definition insert_vma_struct :: "mm_struct \<Rightarrow> nat \<Rightarrow> vms \<Rightarrow> (mm_struct \<times> vms) option" where
  "insert_vma_struct m v s = do {
     kassert (vm_start (vmas s v) < vm_end (vmas s v));
     (m, before) \<leftarrow> insert_place m v s;
     let after = drop (length before) (mmap_list m) in do {
     check_neighbours (vmas s) before v after;
     let s = upd_vma v (\<lambda>x. x\<lparr>vm_mm := mm_id m\<rparr>) s;
         m = m\<lparr>mmap_list := before @ v # after, map_count := map_count m + 1\<rparr> in
     if mmap_tree m = None \<and> map_count m \<ge> RB_MIN_MAP_COUNT then
       (case tree_alloc (kmem s) of
          (None, k) \<Rightarrow> Some (m, s\<lparr>kmem := k\<rparr>)
        | (Some t, k) \<Rightarrow> do { t \<leftarrow> build_tree (vmas s) (mmap_list m) t; Some (m\<lparr>mmap_tree := Some t\<rparr>, s\<lparr>kmem := k\<rparr>) })
     else Some (m, s)
   }}"

definition remove_vma_struct :: "mm_struct \<Rightarrow> nat \<Rightarrow> vms \<Rightarrow> mm_struct option" where
  "remove_vma_struct m v s = do {
     kassert (mm_id m = vm_mm (vmas s v));
     t \<leftarrow> (case mmap_tree m of None \<Rightarrow> Some None | Some t \<Rightarrow> map_option Some (rb_delete v t));
     Some (m\<lparr>mmap_tree := t, mmap_list := remove1 v (mmap_list m),
             mmap_cache := (if mmap_cache m = Some v then None else mmap_cache m), map_count := map_count m - 1\<rparr>)
   }"

fun destroy_vmas :: "nat list \<Rightarrow> vms \<Rightarrow> vms option" where
  "destroy_vmas [] s = Some s"
| "destroy_vmas (v # vs) s = do { s \<leftarrow> vma_destroy v s; destroy_vmas vs s }"

definition mm_destroy :: "mm_struct \<Rightarrow> vms \<Rightarrow> vms option" where
  "mm_destroy m s = do { kassert (mm_count m = 0); destroy_vmas (mmap_list m) s }"

text \<open>The result is the code, the address space, the area (\<^verbatim>\<open>*vma_store\<close>) and the state.\<close>

definition mm_map :: "mm_struct \<Rightarrow> u64 \<Rightarrow> u64 \<Rightarrow> u32 \<Rightarrow> vms \<Rightarrow> (int \<times> mm_struct \<times> nat option \<times> vms) option" where
  "mm_map m addr len fl s =
     (let start = unat (page_down addr); stop = unat (page_up (addr + len)) in
      if \<not> USER_ACCESS start stop then Some (- E_INVAL, m, None, s)
      else
        (case find_vma (vmas s) m start of (vma, m) \<Rightarrow>
           if (case vma of Some v \<Rightarrow> stop > vm_start (vmas s v) | None \<Rightarrow> False) then Some (- E_INVAL, m, None, s)
           else
             (case vma_create start stop (fl AND NOT VM_SHARE) s of
                (None, s) \<Rightarrow> Some (- E_NO_MEM, m, None, s)
              | (Some v, s) \<Rightarrow> do { (m, s) \<leftarrow> insert_vma_struct m v s; Some (0, m, Some v, s) })))"

definition mm_map_shmem :: "mm_struct \<Rightarrow> u64 \<Rightarrow> u32 \<Rightarrow> nat option \<Rightarrow> vms \<Rightarrow> (int \<times> mm_struct \<times> nat option \<times> vms) option" where
  "mm_map_shmem m addr fl shmem s = (case shmem of
       None \<Rightarrow> Some (- E_INVAL, m, None, s)
     | Some i \<Rightarrow>
         if addr mod 4096 \<noteq> 0 then Some (- E_INVAL, m, None, s)
         else do {
           (ret, m, v, s) \<leftarrow> mm_map m addr (of_nat (shmem_len (shmems s i))) fl
             (upd_shmem i (\<lambda>sh. sh\<lparr>shmem_ref := shmem_ref sh + 1\<rparr>) s);
           if ret \<noteq> 0 then Some (ret, m, None, upd_shmem i (\<lambda>sh. sh\<lparr>shmem_ref := shmem_ref sh - 1\<rparr>) s)
           else do {
             v \<leftarrow> v;
             Some (0, m, Some v, upd_vma v (\<lambda>x. x\<lparr>vm_shmem := Some i, shmem_off := 0, vm_flags := vm_flags x OR VM_SHARE\<rparr>) s)
           }
         })"

definition vma_resize :: "nat \<Rightarrow> nat \<Rightarrow> nat \<Rightarrow> vms \<Rightarrow> vms option" where
  "vma_resize v start stop s = do {
     kassert (start mod PGSIZE = 0 \<and> stop mod PGSIZE = 0);
     kassert (vm_start (vmas s v) \<le> start \<and> start < stop \<and> stop \<le> vm_end (vmas s v));
     Some (upd_vma v (\<lambda>x. x\<lparr>shmem_off := (if vm_flags x AND VM_SHARE \<noteq> 0 then shmem_off x + (start - vm_start x) else shmem_off x),
                            vm_start := start, vm_end := stop\<rparr>) s)
   }"

definition mm_unmap_range :: "nat \<Rightarrow> nat \<Rightarrow> mm_struct \<Rightarrow> vms \<Rightarrow> (mm_struct \<times> vms) option" where
  "mm_unmap_range start stop m s = do {
     pg \<leftarrow> pgdir m;
     (pg, p) \<leftarrow> unmap_range pg start stop (phys_of s);
     Some (m\<lparr>pgdir := Some pg\<rparr>, set_phys p s)
   }"

text \<open>The areas from \<open>vma\<close> on that begin below \<open>stop\<close> move to the front of the free list, one after the other.\<close>

fun unmap_detach :: "nat list \<Rightarrow> nat \<Rightarrow> mm_struct \<Rightarrow> vms \<Rightarrow> nat list \<Rightarrow> (mm_struct \<times> nat list) option" where
  "unmap_detach [] stop m s fr = Some (m, fr)"
| "unmap_detach (v # vs) stop m s fr =
     (if vm_start (vmas s v) < stop then do { m \<leftarrow> remove_vma_struct m v s; unmap_detach vs stop m s (v # fr) }
      else Some (m, fr))"

definition unmap_one :: "nat \<Rightarrow> nat \<Rightarrow> nat \<Rightarrow> mm_struct \<Rightarrow> vms \<Rightarrow> (mm_struct \<times> vms) option" where
  "unmap_one start stop v m s =
     (if vm_start (vmas s v) < start then
        (let un_end = vm_end (vmas s v) in do {
           s \<leftarrow> vma_resize v (vm_start (vmas s v)) start s;
           (m, s) \<leftarrow> insert_vma_struct m v s;
           mm_unmap_range start un_end m s
         })
      else
        (let un_start = vm_start (vmas s v); un_end = vm_end (vmas s v) in
         if stop < un_end then do {
           s \<leftarrow> vma_resize v stop (vm_end (vmas s v)) s;
           (m, s) \<leftarrow> insert_vma_struct m v s;
           mm_unmap_range un_start stop m s
         }
         else do {
           s \<leftarrow> vma_destroy v s;
           mm_unmap_range un_start un_end m s
         }))"

fun unmap_free :: "nat \<Rightarrow> nat \<Rightarrow> nat list \<Rightarrow> mm_struct \<Rightarrow> vms \<Rightarrow> (mm_struct \<times> vms) option" where
  "unmap_free start stop [] m s = Some (m, s)"
| "unmap_free start stop (v # vs) m s = do { (m, s) \<leftarrow> unmap_one start stop v m s; unmap_free start stop vs m s }"

definition mm_unmap :: "mm_struct \<Rightarrow> u64 \<Rightarrow> u64 \<Rightarrow> vms \<Rightarrow> (int \<times> mm_struct \<times> vms) option" where
  "mm_unmap m addr len s =
     (let start = unat (page_down addr); stop = unat (page_up (addr + len)) in
      if \<not> USER_ACCESS start stop then Some (- E_INVAL, m, s)
      else
        (case find_vma (vmas s) m start of
           (None, m) \<Rightarrow> Some (0, m, s)
         | (Some v, m) \<Rightarrow>
             if stop \<le> vm_start (vmas s v) then Some (0, m, s)
             else if vm_start (vmas s v) < start \<and> stop < vm_end (vmas s v) then
               (case vma_create (vm_start (vmas s v)) start (vm_flags (vmas s v)) s of
                  (None, s) \<Rightarrow> Some (- E_NO_MEM, m, s)
                | (Some nv, s) \<Rightarrow> do {
                    s \<leftarrow> vma_resize v stop (vm_end (vmas s v)) s;
                    (m, s) \<leftarrow> insert_vma_struct m nv s;
                    (m, s) \<leftarrow> mm_unmap_range start stop m s;
                    Some (0, m, s)
                  })
             else do {
               (m, fr) \<leftarrow> unmap_detach (dropWhile (\<lambda>u. u \<noteq> v) (mmap_list m)) stop m s [];
               (m, s) \<leftarrow> unmap_free start stop fr m s;
               Some (0, m, s)
             }))"

fun dup_vmas :: "nat list \<Rightarrow> mm_struct \<Rightarrow> mm_struct \<Rightarrow> vms \<Rightarrow> (int \<times> mm_struct \<times> mm_struct \<times> vms) option" where
  "dup_vmas [] to from s = Some (0, to, from, s)"
| "dup_vmas (v # vs) to from s =
     (case vma_create (vm_start (vmas s v)) (vm_end (vmas s v)) (vm_flags (vmas s v)) s of
        (None, s) \<Rightarrow> Some (- E_NO_MEM, to, from, s)
      | (Some nv, s) \<Rightarrow>
          (let share = (vm_flags (vmas s v) AND VM_SHARE \<noteq> 0) in do {
             s \<leftarrow> (if share then do {
                     i \<leftarrow> vm_shmem (vmas s v);
                     Some (upd_shmem i (\<lambda>sh. sh\<lparr>shmem_ref := shmem_ref sh + 1\<rparr>)
                       (upd_vma nv (\<lambda>x. x\<lparr>vm_shmem := Some i, shmem_off := shmem_off (vmas s v)\<rparr>) s))
                   } else Some s);
             (to, s) \<leftarrow> insert_vma_struct to nv s;
             tp \<leftarrow> pgdir to;
             fp \<leftarrow> pgdir from;
             (ret, tp, fp, p) \<leftarrow> copy_range tp fp (vm_start (vmas s v)) (vm_end (vmas s v)) share (phys_of s);
             let to = to\<lparr>pgdir := Some tp\<rparr>; from = from\<lparr>pgdir := Some fp\<rparr>; s = set_phys p s in
               if ret \<noteq> 0 then Some (- E_NO_MEM, to, from, s) else dup_vmas vs to from s
           }))"

definition dup_mmap :: "mm_struct \<Rightarrow> mm_struct \<Rightarrow> vms \<Rightarrow> (int \<times> mm_struct \<times> mm_struct \<times> vms) option" where
  "dup_mmap to from s = dup_vmas (rev (mmap_list from)) to from s"

fun unmap_vmas :: "nat list \<Rightarrow> mm_struct \<Rightarrow> vms \<Rightarrow> (mm_struct \<times> vms) option" where
  "unmap_vmas [] m s = Some (m, s)"
| "unmap_vmas (v # vs) m s = do {
     (m, s) \<leftarrow> mm_unmap_range (vm_start (vmas s v)) (vm_end (vmas s v)) m s;
     unmap_vmas vs m s
   }"

fun exit_vmas :: "nat list \<Rightarrow> mm_struct \<Rightarrow> vms \<Rightarrow> (mm_struct \<times> vms) option" where
  "exit_vmas [] m s = Some (m, s)"
| "exit_vmas (v # vs) m s = do {
     pg \<leftarrow> pgdir m;
     (pg, p) \<leftarrow> exit_range pg (vm_start (vmas s v)) (vm_end (vmas s v)) (phys_of s);
     exit_vmas vs (m\<lparr>pgdir := Some pg\<rparr>) (set_phys p s)
   }"

definition exit_mmap :: "mm_struct \<Rightarrow> vms \<Rightarrow> (mm_struct \<times> vms) option" where
  "exit_mmap m s = do {
     kassert (mm_count m = 0);
     (m, s) \<leftarrow> unmap_vmas (mmap_list m) m s;
     exit_vmas (mmap_list m) m s
   }"

text \<open>The areas are visited from the last to the first; 0 is failure.\<close>

fun unmapped_scan :: "(nat \<Rightarrow> vma) \<Rightarrow> nat \<Rightarrow> nat list \<Rightarrow> nat \<Rightarrow> nat" where
  "unmapped_scan V len [] start = (if start \<ge> USERBASE then start else 0)"
| "unmapped_scan V len (v # vs) start =
     (if start \<ge> vm_end (V v) then start
      else if start + len > vm_start (V v) then
        if len \<ge> vm_start (V v) then 0 else unmapped_scan V len vs (vm_start (V v) - len)
      else unmapped_scan V len vs start)"

definition get_unmapped_area :: "(nat \<Rightarrow> vma) \<Rightarrow> mm_struct \<Rightarrow> nat \<Rightarrow> nat" where
  "get_unmapped_area V m len =
     (if len = 0 \<or> len > USERTOP then 0 else unmapped_scan V len (rev (mmap_list m)) (USERTOP - len))"

definition mm_brk :: "mm_struct \<Rightarrow> u64 \<Rightarrow> u64 \<Rightarrow> vms \<Rightarrow> (int \<times> mm_struct \<times> vms) option" where
  "mm_brk m addr len s =
     (let start = page_down addr; stop = page_up (addr + len); fl = VM_READ OR VM_WRITE in
      if \<not> USER_ACCESS (unat start) (unat stop) then Some (- E_INVAL, m, s)
      else do {
        (ret, m, s) \<leftarrow> mm_unmap m start (stop - start) s;
        if ret \<noteq> 0 then Some (ret, m, s)
        else
          (case find_vma (vmas s) m (unat (start - 1)) of (vma, m) \<Rightarrow>
             (case (case vma of Some v \<Rightarrow> if vm_end (vmas s v) = unat start \<and> vm_flags (vmas s v) = fl then Some v else None
                | None \<Rightarrow> None) of
                Some v \<Rightarrow> Some (0, m, upd_vma v (\<lambda>x. x\<lparr>vm_end := unat stop\<rparr>) s)
              | None \<Rightarrow>
                  (case vma_create (unat start) (unat stop) fl s of
                     (None, s) \<Rightarrow> Some (- E_NO_MEM, m, s)
                   | (Some v, s) \<Rightarrow> do { (m, s) \<leftarrow> insert_vma_struct m v s; Some (0, m, s) })))
      })"

partial_function (option) check_loop :: "(nat \<Rightarrow> vma) \<Rightarrow> mm_struct \<Rightarrow> nat \<Rightarrow> nat \<Rightarrow> bool \<Rightarrow> (bool \<times> mm_struct) option" where
  "check_loop V m start stop write =
     (if \<not> start < stop then Some (True, m)
      else
        (case find_vma V m start of
           (None, m) \<Rightarrow> Some (False, m)
         | (Some v, m) \<Rightarrow>
             if start < vm_start (V v) then Some (False, m)
             else if vm_flags (V v) AND (if write then VM_WRITE else VM_READ) = 0 then Some (False, m)
             else if write \<and> vm_flags (V v) AND VM_STACK \<noteq> 0 \<and> start < vm_start (V v) + PGSIZE then Some (False, m)
             else check_loop V m (vm_end (V v)) stop write))"

definition PBASE :: u64 where "PBASE = 0xFFFF900000000000"
definition PSIZE :: u64 where "PSIZE = 0x0000400000000000"
definition KERNBASE :: u64 where "KERNBASE = 0xFFFFFFFF80000000"

definition KERN_ACCESS :: "u64 \<Rightarrow> u64 \<Rightarrow> bool" where
  "KERN_ACCESS start stop \<longleftrightarrow> (PBASE \<le> start \<and> start < stop \<and> stop \<le> PBASE + PSIZE) \<or> (start < stop \<and> KERNBASE \<le> start)"

definition user_mem_check :: "(nat \<Rightarrow> vma) \<Rightarrow> mm_struct option \<Rightarrow> u64 \<Rightarrow> u64 \<Rightarrow> bool \<Rightarrow> (bool \<times> mm_struct option) option" where
  "user_mem_check V mo addr len write = (case mo of
       None \<Rightarrow> Some (KERN_ACCESS addr (addr + len), None)
     | Some m \<Rightarrow>
         if \<not> USER_ACCESS (unat addr) (unat (addr + len)) then Some (False, Some m)
         else do { (r, m) \<leftarrow> check_loop V m (unat addr) (unat (addr + len)) write; Some (r, Some m) })"

text \<open>
  The copies between user and kernel memory, over one address space \<open>M\<close> that holds both: a fault inside a copy is resolved by
  \<^verbatim>\<open>do_pgfault\<close> before the access.
\<close>

definition copy_from_user :: "(nat \<Rightarrow> vma) \<Rightarrow> mm_struct option \<Rightarrow> u64 \<Rightarrow> u64 \<Rightarrow> u64 \<Rightarrow> bool \<Rightarrow> mem \<Rightarrow> (bool \<times> mm_struct option \<times> mem) option" where
  "copy_from_user V mo dst src len writable M = do {
     (ok, mo) \<leftarrow> user_mem_check V mo src len writable;
     Some (ok, mo, if ok then memcpy M (unat dst) (unat src) (unat len) else M)
   }"

definition copy_to_user :: "(nat \<Rightarrow> vma) \<Rightarrow> mm_struct option \<Rightarrow> u64 \<Rightarrow> u64 \<Rightarrow> u64 \<Rightarrow> mem \<Rightarrow> (bool \<times> mm_struct option \<times> mem) option" where
  "copy_to_user V mo dst src len M = do {
     (ok, mo) \<leftarrow> user_mem_check V mo dst len True;
     Some (ok, mo, if ok then memcpy M (unat dst) (unat src) (unat len) else M)
   }"

partial_function (option) copy_string_loop :: "(nat \<Rightarrow> vma) \<Rightarrow> mm_struct option \<Rightarrow> u64 \<Rightarrow> u64 \<Rightarrow> u64 \<Rightarrow> u64 \<Rightarrow> mem \<Rightarrow>
    (bool \<times> mm_struct option \<times> mem) option" where
  "copy_string_loop V mo dst src maxn part M =
     (let part = (if part > maxn then maxn else part) in do {
        (ok, mo) \<leftarrow> user_mem_check V mo src part False;
        if \<not> ok then Some (False, mo, M)
        else
          (let alen = strnlen M (unat src) (unat part) in
           if alen < unat part then Some (True, mo, memcpy M (unat dst) (unat src) (alen + 1))
           else if part = maxn then Some (False, mo, M)
           else copy_string_loop V mo (dst + part) (src + part) (maxn - part) 4096 (memcpy M (unat dst) (unat src) (unat part)))
      })"

definition copy_string :: "(nat \<Rightarrow> vma) \<Rightarrow> mm_struct option \<Rightarrow> u64 \<Rightarrow> u64 \<Rightarrow> u64 \<Rightarrow> mem \<Rightarrow> (bool \<times> mm_struct option \<times> mem) option" where
  "copy_string V mo dst src maxn M = copy_string_loop V mo dst src maxn (page_down (src + 4096) - src) M"

section \<open>Well-formed address spaces\<close>

text \<open>
  The list is sorted and the areas on it are disjoint, page aligned and in the user range; the count, the cache and the tree,
  when there is one, agree with the list.
\<close>

definition vma_ok :: "vma \<Rightarrow> bool" where
  "vma_ok x \<longleftrightarrow> vm_start x < vm_end x \<and> vm_start x mod PGSIZE = 0 \<and> vm_end x mod PGSIZE = 0 \<and>
     USERBASE \<le> vm_start x \<and> vm_end x \<le> USERTOP"

definition ordered :: "(nat \<Rightarrow> vma) \<Rightarrow> nat list \<Rightarrow> bool" where
  "ordered V vs \<longleftrightarrow> sorted_wrt (\<lambda>a b. vm_end (V a) \<le> vm_start (V b)) vs \<and> (\<forall>v \<in> set vs. vm_start (V v) < vm_end (V v))"

definition tree_ok :: "nat list \<Rightarrow> nat rb option \<Rightarrow> bool" where
  "tree_ok vs t \<longleftrightarrow> (case t of None \<Rightarrow> True | Some t \<Rightarrow> rb_ok t \<and> \<not> is_red t \<and> inorder t = vs)"

definition mm_ok :: "(nat \<Rightarrow> vma) \<Rightarrow> mm_struct \<Rightarrow> bool" where
  "mm_ok V m \<longleftrightarrow> ordered V (mmap_list m) \<and> (\<forall>v \<in> set (mmap_list m). vma_ok (V v) \<and> vm_mm (V v) = mm_id m) \<and>
     map_count m = length (mmap_list m) \<and> (\<forall>v. mmap_cache m = Some v \<longrightarrow> v \<in> set (mmap_list m)) \<and>
     tree_ok (mmap_list m) (mmap_tree m)"

lemma ordered_append: "ordered V (xs @ ys) \<longleftrightarrow> ordered V xs \<and> ordered V ys \<and>
    (\<forall>x \<in> set xs. \<forall>y \<in> set ys. vm_end (V x) \<le> vm_start (V y))"
  by (auto simp: ordered_def sorted_wrt_append)

lemma ordered_Cons: "ordered V (x # xs) \<longleftrightarrow> vm_start (V x) < vm_end (V x) \<and> ordered V xs \<and>
    (\<forall>y \<in> set xs. vm_end (V x) \<le> vm_start (V y))"
  by (auto simp: ordered_def)

lemma ordered_Nil [simp]: "ordered V []"
  by (simp add: ordered_def)

lemma ordered_distinct: "ordered V vs \<Longrightarrow> distinct vs"
  by (induction vs) (auto simp: ordered_Cons dest!: bspec)

lemma ordered_sorted: "ordered V vs \<Longrightarrow> sorted (map (\<lambda>v. vm_start (V v)) vs)"
  by (induction vs) (fastforce simp: ordered_Cons)+

lemma ordered_cong: "(\<forall>v \<in> set vs. vm_start (V v) = vm_start (W v) \<and> vm_end (V v) = vm_end (W v)) \<Longrightarrow> ordered V vs = ordered W vs"
  by (induction vs) (auto simp: ordered_Cons)

text \<open>The first area that ends above \<open>addr\<close>, which every way of looking it up returns.\<close>

definition first_above :: "(nat \<Rightarrow> vma) \<Rightarrow> nat \<Rightarrow> nat list \<Rightarrow> nat option" where
  "first_above V addr vs = find (\<lambda>v. addr < vm_end (V v)) vs"

lemma first_above_append: "first_above V addr (xs @ ys) = (case first_above V addr xs of None \<Rightarrow> first_above V addr ys | Some v \<Rightarrow> Some v)"
  by (induction xs) (auto simp: first_above_def)

lemma first_above_None: "first_above V addr vs = None \<longleftrightarrow> (\<forall>v \<in> set vs. vm_end (V v) \<le> addr)"
  by (auto simp: first_above_def find_None_iff)

lemma first_above_split:
  "first_above V addr vs = Some v \<longleftrightarrow> (\<exists>xs ys. vs = xs @ v # ys \<and> (\<forall>u \<in> set xs. vm_end (V u) \<le> addr) \<and> addr < vm_end (V v))"
proof
  show "first_above V addr vs = Some v \<Longrightarrow> \<exists>xs ys. vs = xs @ v # ys \<and> (\<forall>u \<in> set xs. vm_end (V u) \<le> addr) \<and> addr < vm_end (V v)"
  proof (induction vs)
    case (Cons u vs)
    show ?case
    proof (cases "addr < vm_end (V u)")
      case True
      then show ?thesis using Cons.prems by (intro exI [of _ "[]"] exI [of _ vs]) (simp add: first_above_def)
    next
      case False
      then obtain xs ys where "vs = xs @ v # ys" "\<forall>w \<in> set xs. vm_end (V w) \<le> addr" "addr < vm_end (V v)"
        using Cons by (auto simp: first_above_def)
      then show ?thesis using False by (intro exI [of _ "u # xs"] exI [of _ ys]) auto
    qed
  qed (simp add: first_above_def)
next
  assume "\<exists>xs ys. vs = xs @ v # ys \<and> (\<forall>u \<in> set xs. vm_end (V u) \<le> addr) \<and> addr < vm_end (V v)"
  then obtain xs ys where s: "vs = xs @ v # ys" "\<forall>u \<in> set xs. vm_end (V u) \<le> addr" "addr < vm_end (V v)" by blast
  have "first_above V addr xs = None" using s(2) by (simp add: first_above_None)
  then show "first_above V addr vs = Some v" using s by (simp add: first_above_append) (simp add: first_above_def)
qed

lemma first_above_hit:
  assumes "ordered V vs" "v \<in> set vs" "vm_start (V v) \<le> addr" "addr < vm_end (V v)"
  shows "first_above V addr vs = Some v"
proof -
  obtain xs ys where s: "vs = xs @ v # ys" using assms(2) by (meson split_list)
  then have "\<forall>u \<in> set xs. vm_end (V u) \<le> addr" using assms(1,3) by (fastforce simp: ordered_append)
  then show ?thesis using s assms(4) by (auto simp: first_above_split)
qed

lemma find_vma_rb_first:
  "ordered V (inorder t) \<Longrightarrow>
   find_vma_rb V t addr d = (case first_above V addr (inorder t) of None \<Rightarrow> d | Some v \<Rightarrow> Some v)"
proof (induction t arbitrary: d)
  case (Node c l x r)
  have o: "ordered V (inorder l)" "ordered V (inorder r)" "\<forall>u \<in> set (inorder l). vm_end (V u) \<le> vm_start (V x)"
    "vm_start (V x) < vm_end (V x)"
    using Node.prems by (auto simp: ordered_append ordered_Cons)
  have l: "first_above V addr (inorder l) = None" if "vm_start (V x) \<le> addr \<or> vm_end (V x) \<le> addr"
    using that o(3,4) by (auto simp: first_above_None dest!: bspec)
  show ?case
    using Node.IH(1) [OF o(1)] Node.IH(2) [OF o(2)] l
    by (auto simp: first_above_append split: option.split) (auto simp: first_above_def)
qed (simp add: first_above_def)

lemma find_vma_same:
  assumes "find_vma V m addr = (r, m')"
  shows "mmap_list m' = mmap_list m" "pgdir m' = pgdir m" "mm_id m' = mm_id m" "mm_count m' = mm_count m"
  using assms by (auto simp: find_vma_def Let_def)

lemma find_vma_first:
  assumes "mm_ok V m"
  shows "fst (find_vma V m addr) = first_above V addr (mmap_list m)"
    and "mm_ok V (snd (find_vma V m addr))"
proof -
  let ?c = "case mmap_cache m of Some v \<Rightarrow> if vm_start (V v) \<le> addr \<and> vm_end (V v) > addr then Some v else None | None \<Rightarrow> None"
  have o: "ordered V (mmap_list m)" using assms by (simp add: mm_ok_def)
  have c: "?c = Some v \<Longrightarrow> first_above V addr (mmap_list m) = Some v" for v
    using assms first_above_hit [OF o] by (auto simp: mm_ok_def split: option.splits if_splits)
  have t: "mmap_tree m = Some t \<Longrightarrow> find_vma_rb V t addr None = first_above V addr (mmap_list m)" for t
    using assms find_vma_rb_first [of V t addr None] o by (auto simp: mm_ok_def tree_ok_def split: option.split)
  show r: "fst (find_vma V m addr) = first_above V addr (mmap_list m)"
    using c t by (cases ?c; cases "mmap_tree m") (simp_all add: find_vma_def Let_def first_above_def)
  have s: "snd (find_vma V m addr) = (case fst (find_vma V m addr) of None \<Rightarrow> m | Some v \<Rightarrow> m\<lparr>mmap_cache := Some v\<rparr>)"
    by (simp add: find_vma_def Let_def split: option.split)
  show "mm_ok V (snd (find_vma V m addr))"
    unfolding s r using assms by (auto simp: mm_ok_def first_above_split split: option.split)
qed

section \<open>Insertion and removal of an area\<close>

definition free_for :: "(nat \<Rightarrow> vma) \<Rightarrow> nat list \<Rightarrow> nat \<Rightarrow> nat \<Rightarrow> bool" where
  "free_for V vs start stop \<longleftrightarrow> (\<forall>u \<in> set vs. vm_end (V u) \<le> start \<or> stop \<le> vm_start (V u))"

abbreviation below :: "(nat \<Rightarrow> vma) \<Rightarrow> nat \<Rightarrow> nat list \<Rightarrow> nat list" where
  "below V v vs \<equiv> filter (\<lambda>u. vm_start (V u) \<le> vm_start (V v)) vs"

abbreviation above :: "(nat \<Rightarrow> vma) \<Rightarrow> nat \<Rightarrow> nat list \<Rightarrow> nat list" where
  "above V v vs \<equiv> filter (\<lambda>u. vm_start (V v) < vm_start (V u)) vs"

lemma vma_compare_ok: "compare_ok (vma_compare V) (\<lambda>v. vm_start (V v))"
  by (auto simp: compare_ok_def vma_compare_def)

lemma sorted_below_above:
  "sorted (map (\<lambda>v. vm_start (V v)) vs) \<Longrightarrow> below V v vs @ above V v vs = vs \<and>
   takeWhile (\<lambda>u. \<not> vm_start (V u) > vm_start (V v)) vs = below V v vs"
proof (induction vs)
  case (Cons u vs)
  show ?case
  proof (cases "vm_start (V u) \<le> vm_start (V v)")
    case False
    then have "\<forall>w \<in> set vs. vm_start (V v) < vm_start (V w)" using Cons.prems by auto
    then have "below V v vs = []" "above V v vs = vs" by (auto simp: filter_empty_conv)
    then show ?thesis using False by simp
  qed (use Cons in auto)
qed simp

lemma upto_elem_append: "p \<notin> set xs \<Longrightarrow> upto_elem p (xs @ p # ys) = xs @ [p]"
  by (induction xs) auto

lemma upto_elem_last: "distinct (xs @ ys) \<Longrightarrow> xs \<noteq> [] \<Longrightarrow> upto_elem (last xs) (xs @ ys) = xs"
  using upto_elem_append [of "last xs" "butlast xs" ys] by (cases xs rule: rev_cases) auto

lemma ordered_insert:
  assumes "ordered V vs" "free_for V vs (vm_start (V v)) (vm_end (V v))" "vm_start (V v) < vm_end (V v)"
  shows "ordered V (below V v vs @ v # above V v vs)"
proof -
  have o: "ordered V (below V v vs @ above V v vs)"
    using assms(1) sorted_below_above [OF ordered_sorted [OF assms(1)]] by simp
  have w: "vm_start (V u) < vm_end (V u)" if "u \<in> set vs" for u using that assms(1) by (simp add: ordered_def)
  have b: "vm_end (V u) \<le> vm_start (V v)" if "u \<in> set vs" "vm_start (V u) \<le> vm_start (V v)" for u
    using that assms(2,3) by (force simp: free_for_def)
  have a: "vm_end (V v) \<le> vm_start (V u)" if "u \<in> set vs" "vm_start (V v) < vm_start (V u)" for u
    using that assms(2) w [of u] by (force simp: free_for_def)
  show ?thesis using o a b assms(3) by (auto simp: ordered_append ordered_Cons)
qed

lemma insert_vma_rb_ok:
  assumes "rb_ok t" "\<not> is_red t" "ordered V (inorder t)" "v \<notin> set (inorder t)"
  shows "\<exists>t'. insert_vma_rb V t v = Some (t', if below V v (inorder t) = [] then None else Some (last (below V v (inorder t)))) \<and>
    rb_ok t' \<and> \<not> is_red t' \<and> inorder t' = below V v (inorder t) @ v # above V v (inorder t)"
proof -
  obtain t' where t: "rb_insert (vma_compare V) v t = Some t'" "rb_ok t'" "\<not> is_red t'"
    "inorder t' = below V v (inorder t) @ v # above V v (inorder t)"
    using rb_insert_correct [OF vma_compare_ok ordered_sorted [OF assms(3)] assms(1,2), of v] by blast
  have "distinct (inorder t)" using assms(3) by (rule ordered_distinct)
  then have "distinct (inorder t')" using t(4) assms(4) by auto
  then show ?thesis using t rb_node_prev_correct [OF t(4)] by (auto simp: insert_vma_rb_def)
qed

lemma build_tree_ok:
  "rb_ok t \<Longrightarrow> \<not> is_red t \<Longrightarrow> ordered V (inorder t @ vs) \<Longrightarrow>
   \<exists>t'. build_tree V vs t = Some t' \<and> rb_ok t' \<and> \<not> is_red t' \<and> inorder t' = inorder t @ vs"
proof (induction vs arbitrary: t)
  case (Cons v vs)
  have o: "ordered V (inorder t)" "\<forall>u \<in> set (inorder t). vm_end (V u) \<le> vm_start (V v)" "\<forall>u \<in> set (inorder t). vm_start (V u) < vm_end (V u)"
    using Cons.prems(3) by (auto simp: ordered_def sorted_wrt_append)
  have "vm_start (V u) < vm_start (V v)" if "u \<in> set (inorder t)" for u
    using o(2,3) that by (meson less_le_trans)
  then have b: "below V v (inorder t) = inorder t" "above V v (inorder t) = []" and "v \<notin> set (inorder t)"
    by (auto simp: filter_id_conv filter_empty_conv intro: less_imp_le dest: less_asym)
  then obtain t' p where "insert_vma_rb V t v = Some (t', p)" "rb_ok t'" "\<not> is_red t'" "inorder t' = inorder t @ [v]"
    using insert_vma_rb_ok [OF Cons.prems(1,2) o(1)] by force
  then show ?case using Cons.IH [of t'] Cons.prems(3) by simp
qed simp

lemma tree_alloc_cases:
  "tree_alloc k = (r, k') \<Longrightarrow> frames k' = frames k \<and> kmalloc_ok k' = kmalloc_ok k \<and> kmalloc_calls k \<le> kmalloc_calls k' \<and> (r = None \<or> r = Some Nil)"
  by (auto simp: tree_alloc_def kmalloc_def rb_tree_create_def Let_def split: option.splits if_splits prod.splits)

text \<open>What an operation on areas does not touch.\<close>

definition vms_frame :: "vms \<Rightarrow> vms \<Rightarrow> bool" where
  "vms_frame s s' \<longleftrightarrow> phys_of s' = phys_of s \<and> shmems s' = shmems s \<and> kmalloc_ok (kmem s') = kmalloc_ok (kmem s) \<and>
     kmalloc_calls (kmem s) \<le> kmalloc_calls (kmem s')"

lemma vms_frame_refl [simp]: "vms_frame s s"
  by (simp add: vms_frame_def)

lemma vms_frame_trans: "vms_frame a b \<Longrightarrow> vms_frame b c \<Longrightarrow> vms_frame a c"
  by (auto simp: vms_frame_def)

lemma vms_frame_upd_vma [simp]: "vms_frame s (upd_vma v g s)"
  by (simp add: vms_frame_def upd_vma_def phys_of_def)

lemma vms_frame_tree_alloc: "tree_alloc (kmem s) = (r, k) \<Longrightarrow> vms_frame s (s\<lparr>kmem := k\<rparr>)"
  by (drule tree_alloc_cases) (simp add: vms_frame_def phys_of_def)

lemma vmas_upd_vma [simp]: "vmas (upd_vma v g s) = (vmas s)(v := g (vmas s v))"
  by (simp add: upd_vma_def)

lemma insert_vma_before:
  assumes ok: "mm_ok (vmas s) m" and v: "v \<notin> set (mmap_list m)"
  defines "xs \<equiv> below (vmas s) v (mmap_list m)" and "ys \<equiv> above (vmas s) v (mmap_list m)"
  shows "\<exists>t. insert_place m v s = Some (m\<lparr>mmap_tree := t\<rparr>, xs) \<and>
    tree_ok (xs @ v # ys) t \<and> (t = None \<longleftrightarrow> mmap_tree m = None)"
proof -
  have o: "ordered (vmas s) (mmap_list m)" and tr: "tree_ok (mmap_list m) (mmap_tree m)" using ok by (auto simp: mm_ok_def)
  have sp: "xs @ ys = mmap_list m" "takeWhile (\<lambda>u. \<not> vm_start (vmas s u) > vm_start (vmas s v)) (mmap_list m) = xs"
    unfolding xs_def ys_def using sorted_below_above [OF ordered_sorted [OF o], of v] by auto
  show ?thesis
  proof (cases "mmap_tree m")
    case None
    have "m\<lparr>mmap_tree := None\<rparr> = m" using None by (cases m) simp
    then show ?thesis using sp None by (intro exI [of _ None]) (simp add: insert_place_def tree_ok_def)
  next
    case (Some t)
    then have t: "rb_ok t" "\<not> is_red t" "inorder t = mmap_list m" using tr by (auto simp: tree_ok_def)
    obtain t' where t': "insert_vma_rb (vmas s) t v = Some (t', if xs = [] then None else Some (last xs))" "rb_ok t'" "\<not> is_red t'"
      "inorder t' = xs @ v # ys"
      using insert_vma_rb_ok [OF t(1,2), of "vmas s" v] o v unfolding t(3) xs_def ys_def by blast
    have "xs \<noteq> [] \<Longrightarrow> upto_elem (last xs) (mmap_list m) = xs"
      using upto_elem_last [of xs ys] ordered_distinct [OF o] sp(1) by simp
    then show ?thesis using Some t' by (intro exI [of _ "Some t'"]) (auto simp: insert_place_def tree_ok_def)
  qed
qed

lemma check_neighbours_ok:
  assumes "ordered V (xs @ v # ys)"
  shows "check_neighbours V xs v ys = Some ()"
proof -
  have "vm_start (V u) < vm_end (V u)" if "u \<in> set (xs @ v # ys)" for u using assms that unfolding ordered_def by blast
  moreover have "\<forall>u \<in> set xs. vm_end (V u) \<le> vm_start (V v)" "\<forall>u \<in> set ys. vm_end (V v) \<le> vm_start (V u)"
    using assms by (simp_all add: ordered_append ordered_Cons)
  ultimately show ?thesis by (simp add: check_neighbours_def check_vma_overlap_def)
qed

lemma insert_vma_ok:
  assumes ok: "mm_ok (vmas s) m" and v: "v \<notin> set (mmap_list m)" "vma_ok (vmas s v)"
    and fr: "free_for (vmas s) (mmap_list m) (vm_start (vmas s v)) (vm_end (vmas s v))"
    and xs: "xs = below (vmas s) v (mmap_list m)" and ys: "ys = above (vmas s) v (mmap_list m)"
  shows "\<exists>t s'. insert_vma_struct m v s = Some (m\<lparr>mmap_tree := t, mmap_list := xs @ v # ys, map_count := map_count m + 1\<rparr>, s') \<and>
    vmas s' = (vmas s)(v := (vmas s v)\<lparr>vm_mm := mm_id m\<rparr>) \<and> vms_frame s s' \<and> tree_ok (xs @ v # ys) t"
proof -
  have o: "ordered (vmas s) (mmap_list m)" using ok by (simp add: mm_ok_def)
  have n: "ordered (vmas s) (xs @ v # ys)" unfolding xs ys using ordered_insert [OF o fr] v by (simp add: vma_ok_def)
  have "xs @ ys = mmap_list m" unfolding xs ys by (rule conjunct1 [OF sorted_below_above [OF ordered_sorted [OF o]]])
  then have sp: "drop (length xs) (mmap_list m) = ys" by (metis append_eq_conv_conj)
  obtain t where "insert_place m v s = Some (m\<lparr>mmap_tree := t\<rparr>, xs) \<and> tree_ok (xs @ v # ys) t \<and> (t = None \<longleftrightarrow> mmap_tree m = None)"
    unfolding xs ys using insert_vma_before [OF ok v(1)] ..
  then have t: "insert_place m v s = Some (m\<lparr>mmap_tree := t\<rparr>, xs)" and tr: "tree_ok (xs @ v # ys) t" "t = None \<longleftrightarrow> mmap_tree m = None"
    by simp_all
  let ?m = "m\<lparr>mmap_tree := t, mmap_list := xs @ v # ys, map_count := map_count m + 1\<rparr>"
  let ?s = "upd_vma v (\<lambda>x. x\<lparr>vm_mm := mm_id m\<rparr>) s"
  have ins: "insert_vma_struct m v s = (if t = None \<and> map_count m + 1 \<ge> RB_MIN_MAP_COUNT then
       (case tree_alloc (kmem ?s) of
          (None, k) \<Rightarrow> Some (?m, ?s\<lparr>kmem := k\<rparr>)
        | (Some t, k) \<Rightarrow> do { t \<leftarrow> build_tree (vmas ?s) (xs @ v # ys) t; Some (?m\<lparr>mmap_tree := Some t\<rparr>, ?s\<lparr>kmem := k\<rparr>) })
     else Some (?m, ?s))"
    using v(2) by (auto simp: insert_vma_struct_def t sp check_neighbours_ok [OF n] vma_ok_def Let_def split: prod.split option.split)
  show ?thesis
  proof (cases "t = None \<and> map_count m + 1 \<ge> RB_MIN_MAP_COUNT")
    case False
    then show ?thesis using ins tr by (intro exI [of _ t] exI [of _ ?s]) auto
  next
    case True
    obtain r k where k: "tree_alloc (kmem ?s) = (r, k)" by fastforce
    have f: "vms_frame s (?s\<lparr>kmem := k\<rparr>)" by (rule vms_frame_trans [OF vms_frame_upd_vma vms_frame_tree_alloc [OF k]])
    show ?thesis
    proof (cases r)
      case None
      then show ?thesis using ins True k tr f by (intro exI [of _ t] exI [of _ "?s\<lparr>kmem := k\<rparr>"]) simp
    next
      case (Some t0)
      then have "t0 = Nil" using tree_alloc_cases [OF k] by simp
      moreover have "ordered (vmas ?s) (xs @ v # ys)"
        using n ordered_cong [of "xs @ v # ys" "vmas s" "vmas ?s"] by simp
      ultimately obtain t' where "build_tree (vmas ?s) (xs @ v # ys) t0 = Some t'" "tree_ok (xs @ v # ys) (Some t')"
        using build_tree_ok [of t0 "vmas ?s" "xs @ v # ys"] by (auto simp: tree_ok_def)
      then show ?thesis using ins True k Some f
        by (intro exI [of _ "Some t'"] exI [of _ "?s\<lparr>kmem := k\<rparr>"]) simp
    qed
  qed
qed

text \<open>The area at an address, and its flags.\<close>

definition flags_at :: "(nat \<Rightarrow> vma) \<Rightarrow> nat list \<Rightarrow> nat \<Rightarrow> u32 option" where
  "flags_at V vs a = map_option (\<lambda>v. vm_flags (V v)) (find (\<lambda>v. vm_start (V v) \<le> a \<and> a < vm_end (V v)) vs)"

lemma flags_at_Some:
  assumes "ordered V vs"
  shows "flags_at V vs a = Some fl \<longleftrightarrow> (\<exists>v \<in> set vs. vm_start (V v) \<le> a \<and> a < vm_end (V v) \<and> vm_flags (V v) = fl)"
  using assms
proof (induction vs)
  case (Cons u vs)
  then have o: "ordered V vs" "\<forall>v \<in> set vs. vm_end (V u) \<le> vm_start (V v)" by (simp_all add: ordered_Cons)
  show ?case
  proof (cases "vm_start (V u) \<le> a \<and> a < vm_end (V u)")
    case True
    then have "\<forall>v \<in> set vs. \<not> vm_start (V v) \<le> a" using o(2) by (meson le_trans not_le)
    then show ?thesis using True by (auto simp: flags_at_def)
  next
    case False
    then have "flags_at V (u # vs) a = flags_at V vs a" by (auto simp: flags_at_def)
    then show ?thesis using Cons.IH [OF o(1)] False by auto
  qed
qed (simp add: flags_at_def)

lemma flags_at_eqI:
  assumes "ordered V vs" "ordered W ws"
    and "\<And>fl. (\<exists>v \<in> set vs. vm_start (V v) \<le> a \<and> a < vm_end (V v) \<and> vm_flags (V v) = fl) \<longleftrightarrow>
      (\<exists>v \<in> set ws. vm_start (W v) \<le> b \<and> b < vm_end (W v) \<and> vm_flags (W v) = fl)"
  shows "flags_at V vs a = flags_at W ws b"
  using flags_at_Some [OF assms(1), of a] flags_at_Some [OF assms(2), of b] assms(3) by (metis not_None_eq)

lemma vma_ok_vm_mm [simp]: "vma_ok (x\<lparr>vm_mm := i\<rparr>) = vma_ok x"
  by (simp add: vma_ok_def)

text \<open>The same for the address space: it is well-formed and maps the new area on top of the old ones.\<close>

lemma insert_vma_mm_ok:
  assumes ok: "mm_ok (vmas s) m" and v: "v \<notin> set (mmap_list m)" "vma_ok (vmas s v)"
    and fr: "free_for (vmas s) (mmap_list m) (vm_start (vmas s v)) (vm_end (vmas s v))"
  shows "\<exists>m' s'. insert_vma_struct m v s = Some (m', s') \<and> mm_ok (vmas s') m' \<and> vms_frame s s' \<and>
    set (mmap_list m') = insert v (set (mmap_list m)) \<and> vmas s' = (vmas s)(v := (vmas s v)\<lparr>vm_mm := mm_id m\<rparr>) \<and>
    mm_id m' = mm_id m \<and> pgdir m' = pgdir m \<and> mm_count m' = mm_count m \<and>
    (\<forall>a. flags_at (vmas s') (mmap_list m') a =
       (if vm_start (vmas s v) \<le> a \<and> a < vm_end (vmas s v) then Some (vm_flags (vmas s v)) else flags_at (vmas s) (mmap_list m) a))"
proof -
  define zs where "zs = below (vmas s) v (mmap_list m) @ v # above (vmas s) v (mmap_list m)"
  have o: "ordered (vmas s) (mmap_list m)" using ok by (simp add: mm_ok_def)
  have n: "ordered (vmas s) zs" unfolding zs_def using ordered_insert [OF o fr] v by (simp add: vma_ok_def)
  have set: "set zs = insert v (set (mmap_list m))" by (auto simp: zs_def)
  have len: "length zs = length (mmap_list m) + 1"
    using arg_cong [OF conjunct1 [OF sorted_below_above [OF ordered_sorted [OF o], of v]], of length] by (simp add: zs_def)
  obtain t s' where i: "insert_vma_struct m v s = Some (m\<lparr>mmap_tree := t, mmap_list := zs, map_count := map_count m + 1\<rparr>, s')"
    and V: "vmas s' = (vmas s)(v := (vmas s v)\<lparr>vm_mm := mm_id m\<rparr>)" and f: "vms_frame s s'" and t: "tree_ok zs t"
    unfolding zs_def using insert_vma_ok [OF ok v fr refl refl] by blast
  have n': "ordered (vmas s') zs" using n ordered_cong [of zs "vmas s" "vmas s'"] by (simp add: V)
  have "mm_ok (vmas s') (m\<lparr>mmap_tree := t, mmap_list := zs, map_count := map_count m + 1\<rparr>)"
    using ok n' len t v(2) set by (auto simp: mm_ok_def V)
  moreover have "flags_at (vmas s') zs a =
       (if vm_start (vmas s v) \<le> a \<and> a < vm_end (vmas s v) then Some (vm_flags (vmas s v)) else flags_at (vmas s) (mmap_list m) a)" for a
  proof (cases "vm_start (vmas s v) \<le> a \<and> a < vm_end (vmas s v)")
    case True
    then show ?thesis using flags_at_Some [OF n', of a "vm_flags (vmas s v)"] set by (auto simp: V)
  next
    case False
    have "flags_at (vmas s') zs a = flags_at (vmas s) (mmap_list m) a"
      by (rule flags_at_eqI [OF n' o]) (use False v(1) in \<open>auto simp: V set\<close>)
    then show ?thesis by (simp add: if_not_P [OF False])
  qed
  ultimately show ?thesis using i V f set
    by (intro exI [of _ "m\<lparr>mmap_tree := t, mmap_list := zs, map_count := map_count m + 1\<rparr>"] exI [of _ s']) simp
qed

section \<open>Mapping a range\<close>

lemma free_for_first_above:
  assumes "ordered V vs"
  shows "free_for V vs start stop \<longleftrightarrow> (case first_above V start vs of None \<Rightarrow> True | Some v \<Rightarrow> stop \<le> vm_start (V v))"
proof (cases "first_above V start vs")
  case None
  then show ?thesis using first_above_None [of V start vs] by (simp add: free_for_def)
next
  case (Some v)
  then obtain xs ys where s: "vs = xs @ v # ys" "\<forall>u \<in> set xs. vm_end (V u) \<le> start" "start < vm_end (V v)"
    by (auto simp: first_above_split)
  have "\<forall>u \<in> set ys. vm_start (V v) \<le> vm_start (V u)"
    using assms s(1) by (auto simp: ordered_append ordered_Cons dest!: bspec)
  then show ?thesis using Some s by (fastforce simp: free_for_def)
qed

lemma unat_page_down: "unat (page_down a) = unat a - unat a mod 4096"
proof -
  have "unat (a mod 4096) = unat a mod 4096" by (simp add: unat_mod_distrib)
  moreover have "a mod 4096 \<le> a" by (simp add: word_le_nat_alt unat_mod_distrib)
  ultimately show ?thesis by (simp add: page_down_def unat_sub_if_size word_le_nat_alt)
qed

lemma page_down_aligned [simp]: "unat (page_down a) mod 4096 = 0"
  by (simp add: unat_page_down minus_mod_eq_mult_div)

lemma page_up_aligned [simp]: "unat (page_up a) mod 4096 = 0"
  by (simp add: page_up_def)

text \<open>An address space whose areas have names that \<^verbatim>\<open>kmalloc\<close> has given out.\<close>

definition mm_inv :: "vms \<Rightarrow> mm_struct \<Rightarrow> bool" where
  "mm_inv s m \<longleftrightarrow> mm_ok (vmas s) m \<and> (\<forall>v \<in> set (mmap_list m). v < kmalloc_calls (kmem s))"

abbreviation mapped :: "vms \<Rightarrow> mm_struct \<Rightarrow> nat \<Rightarrow> u32 option" where
  "mapped s m \<equiv> flags_at (vmas s) (mmap_list m)"

lemma find_vma_inv:
  assumes "mm_inv s m" "find_vma (vmas s) m a = (r, m')"
  shows "mm_inv s m'" "r = first_above (vmas s) a (mmap_list m)"
  using assms find_vma_first [of "vmas s" m a] find_vma_same [OF assms(2)] by (auto simp: mm_inv_def)

lemma vma_create_cases:
  assumes "vma_create start stop fl s = (r, s')"
  shows "vms_frame s s'" "kmalloc_calls (kmem s') = kmalloc_calls (kmem s) + 1"
    "r = (if kmalloc_ok (kmem s) (kmalloc_calls (kmem s)) then Some (kmalloc_calls (kmem s)) else None)"
    "vmas s' = (case r of None \<Rightarrow> vmas s | Some v \<Rightarrow> (vmas s)(v := (vmas s v)\<lparr>vm_start := start, vm_end := stop, vm_flags := fl,
       vm_shmem := None, shmem_off := 0\<rparr>))"
  using assms by (auto simp: vma_create_def kmalloc_def Let_def vms_frame_def phys_of_def upd_vma_def split: if_splits)

lemma mm_ok_cong: "(\<forall>v \<in> set (mmap_list m). V v = W v) \<Longrightarrow> mm_ok V m \<Longrightarrow> mm_ok W m"
  using ordered_cong [of "mmap_list m" V W] by (auto simp: mm_ok_def)

lemma flags_at_cong: "(\<forall>v \<in> set vs. V v = W v) \<Longrightarrow> flags_at V vs a = flags_at W vs a"
  by (induction vs) (auto simp: flags_at_def)

lemma mm_inv_fresh:
  assumes "mm_inv s m" "vma_create start stop fl s = (r, s')"
  shows "mm_inv s' m" "mapped s' m = mapped s m" "free_for (vmas s') (mmap_list m) a b = free_for (vmas s) (mmap_list m) a b"
proof -
  note c = vma_create_cases [OF assms(2)]
  have eq: "\<forall>v \<in> set (mmap_list m). vmas s v = vmas s' v"
    using assms(1) c(3) by (auto simp: c(4) mm_inv_def split: option.split if_splits)
  show "mm_inv s' m" using assms(1) mm_ok_cong [OF eq] c(2) by (auto simp: mm_inv_def)
  show "mapped s' m = mapped s m" using flags_at_cong [OF eq] by auto
  show "free_for (vmas s') (mmap_list m) a b = free_for (vmas s) (mmap_list m) a b" using eq by (simp add: free_for_def)
qed

text \<open>A new area in a free range.\<close>

lemma map_new_vma:
  assumes inv: "mm_inv s m" and u: "USER_ACCESS start stop" "start mod PGSIZE = 0" "stop mod PGSIZE = 0"
    and fr: "free_for (vmas s) (mmap_list m) start stop" and c: "vma_create start stop fl s = (Some v, s1)"
  shows "\<exists>m' s'. insert_vma_struct m v s1 = Some (m', s') \<and> mm_inv s' m' \<and> vms_frame s s' \<and> pgdir m' = pgdir m \<and> mm_id m' = mm_id m \<and>
    mm_count m' = mm_count m \<and> (\<forall>a. mapped s' m' a = (if start \<le> a \<and> a < stop then Some fl else mapped s m a))"
proof -
  note cc = vma_create_cases [OF c] mm_inv_fresh [OF inv c]
  have v: "v = kmalloc_calls (kmem s)" "v \<notin> set (mmap_list m)" using cc(3) inv by (auto simp: mm_inv_def split: if_splits)
  have b: "vm_start (vmas s1 v) = start" "vm_end (vmas s1 v) = stop" "vm_flags (vmas s1 v) = fl" using cc(4) by simp_all
  have ok: "vma_ok (vmas s1 v)" using u b by (simp add: vma_ok_def USER_ACCESS_def)
  have fr': "free_for (vmas s1) (mmap_list m) (vm_start (vmas s1 v)) (vm_end (vmas s1 v))" using fr b cc(7) by simp
  obtain m' s' where i: "insert_vma_struct m v s1 = Some (m', s')" and ok': "mm_ok (vmas s') m'" and f: "vms_frame s1 s'"
    and set: "set (mmap_list m') = insert v (set (mmap_list m))" and k: "mm_id m' = mm_id m" "pgdir m' = pgdir m" "mm_count m' = mm_count m"
    and fl: "\<forall>a. mapped s' m' a = (if start \<le> a \<and> a < stop then Some fl else mapped s1 m a)"
    using insert_vma_mm_ok [OF _ v(2) ok fr'] cc(5) b unfolding mm_inv_def by blast
  have "\<forall>w \<in> set (mmap_list m'). w < kmalloc_calls (kmem s')"
    using set f cc(2,5) v(1) by (fastforce simp: vms_frame_def mm_inv_def)
  then show ?thesis
    using i ok' k fl cc(6) vms_frame_trans [OF cc(1) f] by (intro exI [of _ m'] exI [of _ s']) (simp add: mm_inv_def)
qed

lemma mm_map_ok:
  assumes inv: "mm_inv s m" and st: "start = unat (page_down addr)" "stop = unat (page_up (addr + len))"
  shows "\<exists>ret m' v s'. mm_map m addr len fl s = Some (ret, m', v, s') \<and> mm_inv s' m' \<and>
    ret = (if \<not> USER_ACCESS start stop \<or> \<not> free_for (vmas s) (mmap_list m) start stop then - E_INVAL
           else if \<not> kmalloc_ok (kmem s) (kmalloc_calls (kmem s)) then - E_NO_MEM else 0) \<and>
    (\<forall>a. mapped s' m' a = (if ret = 0 \<and> start \<le> a \<and> a < stop then Some (fl AND NOT VM_SHARE) else mapped s m a))"
proof (cases "USER_ACCESS start stop")
  case False
  then show ?thesis using inv by (simp add: mm_map_def st Let_def)
next
  case True
  have o: "ordered (vmas s) (mmap_list m)" using inv by (simp add: mm_inv_def mm_ok_def)
  obtain r m1 where f: "find_vma (vmas s) m start = (r, m1)" by fastforce
  note fv = find_vma_inv [OF inv f]
  have l: "mmap_list m1 = mmap_list m" by (rule find_vma_same(1) [OF f])
  have fr: "free_for (vmas s) (mmap_list m) start stop \<longleftrightarrow> \<not> (case r of Some v \<Rightarrow> stop > vm_start (vmas s v) | None \<Rightarrow> False)"
    using free_for_first_above [OF o] fv(2) by (auto split: option.split)
  show ?thesis
  proof (cases "free_for (vmas s) (mmap_list m) start stop")
    case False
    then show ?thesis using True f fr fv(1) l by (simp add: mm_map_def st [symmetric] Let_def)
  next
    case free: True
    obtain c s1 where c: "vma_create start stop (fl AND NOT VM_SHARE) s = (c, s1)" by fastforce
    show ?thesis
    proof (cases c)
      case None
      then show ?thesis using True f fr free mm_inv_fresh [OF fv(1) c] vma_create_cases(3) [OF c] l
        by (simp add: mm_map_def st [symmetric] Let_def c split: if_splits)
    next
      case (Some v)
      have al: "start mod PGSIZE = 0" "stop mod PGSIZE = 0" using st by simp_all
      obtain m' s' where "insert_vma_struct m1 v s1 = Some (m', s')" "mm_inv s' m'"
        "\<forall>a. mapped s' m' a = (if start \<le> a \<and> a < stop then Some (fl AND NOT VM_SHARE) else mapped s m1 a)"
        using map_new_vma [OF fv(1) True al, of "fl AND NOT VM_SHARE" v s1] free l c Some by auto
      then show ?thesis using True f fr free vma_create_cases(3) [OF c] l Some
        by (auto simp: mm_map_def st [symmetric] Let_def c split: if_splits)
    qed
  qed
qed

section \<open>Checking user memory\<close>

definition accessible :: "(nat \<Rightarrow> vma) \<Rightarrow> nat list \<Rightarrow> bool \<Rightarrow> nat \<Rightarrow> bool" where
  "accessible V vs write a \<longleftrightarrow> (\<exists>v \<in> set vs. vm_start (V v) \<le> a \<and> a < vm_end (V v) \<and>
     vm_flags (V v) AND (if write then VM_WRITE else VM_READ) \<noteq> 0 \<and>
     \<not> (write \<and> vm_flags (V v) AND VM_STACK \<noteq> 0 \<and> a < vm_start (V v) + PGSIZE))"

lemma accessible_first:
  assumes "ordered V vs"
  shows "accessible V vs write a \<longleftrightarrow> (case first_above V a vs of None \<Rightarrow> False | Some v \<Rightarrow> vm_start (V v) \<le> a \<and>
     vm_flags (V v) AND (if write then VM_WRITE else VM_READ) \<noteq> 0 \<and>
     \<not> (write \<and> vm_flags (V v) AND VM_STACK \<noteq> 0 \<and> a < vm_start (V v) + PGSIZE))"
proof (cases "first_above V a vs")
  case None
  then have "\<forall>v \<in> set vs. \<not> a < vm_end (V v)" using first_above_None [of V a vs] by (simp add: not_less)
  then show ?thesis using None by (auto simp: accessible_def)
next
  case (Some v)
  then have v: "v \<in> set vs" "a < vm_end (V v)" by (auto simp: first_above_split)
  have "u = v" if "u \<in> set vs" "vm_start (V u) \<le> a" "a < vm_end (V u)" for u
    using first_above_hit [OF assms that] Some by simp
  then show ?thesis using v Some by (auto simp: accessible_def)
qed

lemma check_loop_ok:
  "mm_ok V m \<Longrightarrow> \<exists>m'. check_loop V m start stop write =
     Some (\<forall>a. start \<le> a \<and> a < stop \<longrightarrow> accessible V (mmap_list m) write a, m') \<and> mm_ok V m' \<and> mmap_list m' = mmap_list m"
proof (induction "stop - start" arbitrary: start m rule: less_induct)
  case less
  obtain r m1 where f: "find_vma V m start = (r, m1)" by fastforce
  have m1: "mm_ok V m1" "r = first_above V start (mmap_list m)" "mmap_list m1 = mmap_list m"
    using find_vma_first [OF less.prems, of start] f find_vma_same(1) [OF f] by auto
  have o: "ordered V (mmap_list m)" using less.prems by (simp add: mm_ok_def)
  note acc = accessible_first [OF o, of "write"]
  show ?case
  proof (cases "start < stop")
    case True
    show ?thesis
    proof (cases "accessible V (mmap_list m) write start")
      case False
      then have "check_loop V m start stop write = Some (False, m1)"
        using True f m1(2) acc [of start] by (auto simp: check_loop.simps [of V m start] split: option.splits)
      then show ?thesis using False True m1 by auto
    next
      case acc1: True
      then obtain v where v: "r = Some v" "vm_start (V v) \<le> start"
        "vm_flags (V v) AND (if write then VM_WRITE else VM_READ) \<noteq> 0"
        "\<not> (write \<and> vm_flags (V v) AND VM_STACK \<noteq> 0 \<and> start < vm_start (V v) + PGSIZE)"
        using acc [of start] m1(2) by (auto split: option.splits)
      have lt: "start < vm_end (V v)" "v \<in> set (mmap_list m)" using v(1) m1(2) by (auto simp: first_above_split)
      have in_v: "accessible V (mmap_list m) write a" if "start \<le> a" "a < vm_end (V v)" for a
        unfolding accessible_def using that v lt by (intro bexI [of _ v]) auto
      obtain m' where "check_loop V m1 (vm_end (V v)) stop write =
          Some (\<forall>a. vm_end (V v) \<le> a \<and> a < stop \<longrightarrow> accessible V (mmap_list m) write a, m')" "mm_ok V m'" "mmap_list m' = mmap_list m"
        using less.hyps [of "vm_end (V v)" m1, OF diff_less_mono2 [OF lt(1) True] m1(1)] m1(3) by auto
      moreover have "(\<forall>a. vm_end (V v) \<le> a \<and> a < stop \<longrightarrow> accessible V (mmap_list m) write a) \<longleftrightarrow>
          (\<forall>a. start \<le> a \<and> a < stop \<longrightarrow> accessible V (mmap_list m) write a)"
        using in_v lt by (meson le_trans less_imp_le not_le)
      moreover have "check_loop V m start stop write = check_loop V m1 (vm_end (V v)) stop write"
        using True f v by (auto simp: check_loop.simps [of V m start])
      ultimately show ?thesis by simp
    qed
  next
    case False
    then have "check_loop V m start stop write = Some (True, m)" by (simp add: check_loop.simps)
    then show ?thesis using False less.prems by auto
  qed
qed

section \<open>Finding a free range\<close>

definition fits :: "(nat \<Rightarrow> vma) \<Rightarrow> nat list \<Rightarrow> nat \<Rightarrow> nat \<Rightarrow> bool" where
  "fits V vs len x \<longleftrightarrow> USERBASE \<le> x \<and> x + len \<le> USERTOP \<and> free_for V vs x (x + len)"

lemma unmapped_scan_ok:
  assumes "ordered V (vs @ us)" "\<forall>v \<in> set (vs @ us). vma_ok (V v)" "0 < len" "start + len \<le> USERTOP"
    and "\<forall>u \<in> set us. start + len \<le> vm_start (V u)" and "\<forall>x. fits V (vs @ us) len x \<longrightarrow> x \<le> start"
    and "r = unmapped_scan V len (rev vs) start"
  shows "(r \<noteq> 0 \<longrightarrow> fits V (vs @ us) len r) \<and> (\<forall>x. fits V (vs @ us) len x \<longrightarrow> x \<le> r)"
  using assms
proof (induction vs arbitrary: us start rule: rev_induct)
  case Nil
  then show ?case by (auto simp: fits_def free_for_def)
next
  case (snoc v vs)
  have v: "vma_ok (V v)" "\<forall>u \<in> set vs. vm_end (V u) \<le> vm_start (V v)" "\<forall>u \<in> set us. vm_end (V v) \<le> vm_start (V u)"
    "vm_start (V v) < vm_end (V v)"
    using snoc.prems(1,2) by (auto simp: ordered_append ordered_Cons vma_ok_def)
  have e: "x + len \<le> vm_start (V v)" if "fits V ((vs @ [v]) @ us) len x" "start < vm_end (V v)" for x
  proof -
    have "x \<le> start" using snoc.prems(6) that(1) by blast
    moreover have "vm_end (V v) \<le> x \<or> x + len \<le> vm_start (V v)" using that(1) by (simp add: fits_def free_for_def)
    ultimately show ?thesis using that(2) by linarith
  qed
  consider "vm_end (V v) \<le> start" | "start < vm_end (V v)" "start + len \<le> vm_start (V v)"
    | "start < vm_end (V v)" "vm_start (V v) < start + len" "vm_start (V v) \<le> len"
    | "start < vm_end (V v)" "vm_start (V v) < start + len" "len < vm_start (V v)"
    by linarith
  then show ?case
  proof cases
    case 1
    have "\<forall>u \<in> set vs. vm_end (V u) \<le> start" using v(2,4) 1 by (meson less_imp_le le_trans)
    then have "fits V ((vs @ [v]) @ us) len start"
      using 1 v snoc.prems(4,5) by (auto simp: fits_def free_for_def vma_ok_def)
    then show ?thesis using 1 snoc.prems(6,7) by simp
  next
    case 2
    then show ?thesis using snoc.IH [of "v # us" start] snoc.prems by simp
  next
    case 3
    have "\<not> fits V ((vs @ [v]) @ us) len x" for x
      using e [of x] 3 by (auto simp: fits_def USERBASE_def)
    then show ?thesis using 3 snoc.prems(7) by simp
  next
    case 4
    have m: "x \<le> vm_start (V v) - len" if "fits V ((vs @ [v]) @ us) len x" for x using e [OF that 4(1)] by linarith
    have "vm_start (V v) - len + len \<le> USERTOP" using 4 v(1) by (simp add: vma_ok_def)
    moreover have "\<forall>u \<in> set (v # us). vm_start (V v) - len + len \<le> vm_start (V u)" using 4 v(3,4) by fastforce
    ultimately show ?thesis using snoc.IH [of "v # us" "vm_start (V v) - len"] snoc.prems(1,2,3,7) m 4 by simp
  qed
qed

section \<open>Properties\<close>

text \<open>An address space with a text area and a stack, for the witnesses.\<close>

definition demo_vmas :: "nat \<Rightarrow> vma" where
  "demo_vmas = (\<lambda>v. if v = 0
     then \<lparr>vm_mm = 7, vm_start = 0x10000000, vm_end = 0x10002000, vm_flags = VM_READ OR VM_EXEC, vm_shmem = None, shmem_off = 0\<rparr>
     else \<lparr>vm_mm = 7, vm_start = 0x20000000, vm_end = 0x20004000, vm_flags = VM_READ OR VM_WRITE OR VM_STACK, vm_shmem = None, shmem_off = 0\<rparr>)"

definition demo_mm :: mm_struct where
  "demo_mm = \<lparr>mm_id = 7, mmap_list = [0, 2], mmap_tree = None, mmap_cache = Some 2, pgdir = Some (\<lambda>_. None), map_count = 2,
     swap_address = 0, mm_count = 0, locked_by = 0, brk_start = 0, brk = 0, lapic = -1\<rparr>"

definition demo_vms :: vms where
  "demo_vms = \<lparr>kmem = \<lparr>frames = boot_phys, kmalloc_ok = (\<lambda>_. True), kmalloc_calls = 8\<rparr>, vmas = demo_vmas,
     shmems = (\<lambda>_. \<lparr>shmn_list = [], shmns = (\<lambda>_. \<lparr>shmn_start = 0, shmn_end = 0, shmn_entry = (\<lambda>_. 0), shmn_page = 0\<rparr>),
       shmn_cache = None, shmem_len = 0, shmem_ref = 0\<rparr>)\<rparr>"

lemma demo_mm_ok: "mm_ok demo_vmas demo_mm"
  by (simp add: mm_ok_def ordered_def vma_ok_def tree_ok_def demo_vmas_def demo_mm_def USERBASE_def USERTOP_def)

lemma demo_mm_inv: "mm_inv demo_vms demo_mm"
  using demo_mm_ok by (simp add: mm_inv_def demo_vms_def) (simp add: demo_mm_def)

text \<open>
  C14: looking up an address gives the first area of the list that ends above it, whether the cached area, the red-black tree or the list
  answers; the address space stays well-formed and only the cached area changes.
\<close>

theorem find_vma_is_list_search:
  assumes "mm_ok V m"
  shows "\<exists>c. find_vma V m addr = (find (\<lambda>v. addr < vm_end (V v)) (mmap_list m), m\<lparr>mmap_cache := c\<rparr>) \<and> mm_ok V (m\<lparr>mmap_cache := c\<rparr>)"
proof -
  obtain r m' where f: "find_vma V m addr = (r, m')" by fastforce
  then have "m' = m\<lparr>mmap_cache := mmap_cache m'\<rparr>" by (auto simp: find_vma_def Let_def)
  moreover have "r = find (\<lambda>v. addr < vm_end (V v)) (mmap_list m)" "mm_ok V m'"
    using find_vma_first [OF assms, of addr] f by (auto simp: first_above_def)
  ultimately show ?thesis using f by metis
qed

theorem find_vma_is_list_search_witness:
  "mm_ok demo_vmas demo_mm \<and> fst (find_vma demo_vmas demo_mm 0x10001000) = Some 0"
  using find_vma_is_list_search [OF demo_mm_ok, of "0x10001000"] demo_mm_ok
  by (auto simp: demo_vmas_def demo_mm_def)

text \<open>
  C17: mapping a range never panics on a well-formed address space and leaves it well-formed. It fails with the invalid-argument
  code exactly when the rounded range is outside user space or meets an area, with the out-of-memory code when the
  structure cannot be allocated; on success the range, and nothing else, has the requested flags without the sharing flag.
\<close>

theorem mm_map_correct:
  fixes addr len :: u64
  assumes "mm_inv s m"
  defines "start \<equiv> unat (page_down addr)" and "stop \<equiv> unat (page_up (addr + len))"
  shows "\<exists>ret m' v s'. mm_map m addr len fl s = Some (ret, m', v, s') \<and> mm_inv s' m' \<and>
    ret = (if \<not> USER_ACCESS start stop \<or> \<not> free_for (vmas s) (mmap_list m) start stop then - E_INVAL
           else if \<not> kmalloc_ok (kmem s) (kmalloc_calls (kmem s)) then - E_NO_MEM else 0) \<and>
    (\<forall>a. flags_at (vmas s') (mmap_list m') a =
       (if ret = 0 \<and> start \<le> a \<and> a < stop then Some (fl AND NOT VM_SHARE) else flags_at (vmas s) (mmap_list m) a))"
  unfolding start_def stop_def by (rule mm_map_ok [OF assms(1) refl refl])

theorem mm_map_correct_witness:
  "mm_inv demo_vms demo_mm \<and> (\<exists>m' v s'. mm_map demo_mm 0x18000000 0x1800 (VM_READ OR VM_SHARE) demo_vms = Some (0, m', v, s') \<and>
     mm_inv s' m' \<and> flags_at (vmas s') (mmap_list m') 0x18001FFF = Some VM_READ \<and> flags_at (vmas s') (mmap_list m') 0x18002000 = None)"
proof -
  have u: "unat (page_down 0x18000000) = 0x18000000" "unat (page_up (0x18000000 + 0x1800)) = 0x18002000"
    by (simp_all add: page_up_def page_down_def)
  have f: "USER_ACCESS 0x18000000 0x18002000" "free_for (vmas demo_vms) (mmap_list demo_mm) 0x18000000 0x18002000"
    "kmalloc_ok (kmem demo_vms) (kmalloc_calls (kmem demo_vms))" "flags_at (vmas demo_vms) (mmap_list demo_mm) 0x18002000 = None"
    "(VM_READ OR VM_SHARE) AND NOT VM_SHARE = VM_READ"
    by (simp_all add: USER_ACCESS_def USERBASE_def USERTOP_def free_for_def demo_vms_def demo_vmas_def demo_mm_def flags_at_def VM_READ_def VM_SHARE_def)
  show ?thesis
    using mm_map_correct [OF demo_mm_inv, of "0x18000000" "0x1800" "VM_READ OR VM_SHARE"] demo_mm_inv unfolding u
    by (auto simp: f)
qed

text \<open>
  C18: the check of a user range answers yes exactly when the range is not empty, does not wrap around, lies in user space and every byte
  of it is in an area that permits the access, where the lowest page of a stack area is never writable. It always
  returns and leaves the address space well-formed.
\<close>

theorem user_mem_check_exact:
  assumes "mm_ok V m"
  shows "\<exists>m'. mm_ok V m' \<and> user_mem_check V (Some m) addr len wr =
    Some (len \<noteq> 0 \<and> USERBASE \<le> unat addr \<and> unat addr + unat len \<le> USERTOP \<and>
      (\<forall>a. unat addr \<le> a \<and> a < unat addr + unat len \<longrightarrow> accessible V (mmap_list m) wr a), Some m')"
proof -
  have ua: "USER_ACCESS (unat addr) (unat (addr + len)) \<longleftrightarrow> len \<noteq> 0 \<and> USERBASE \<le> unat addr \<and> unat addr + unat len \<le> USERTOP"
  proof (cases "unat addr + unat len < 2 ^ 64")
    case True
    then have "unat (addr + len) = unat addr + unat len" by (simp add: unat_word_ariths)
    then show ?thesis by (auto simp: USER_ACCESS_def unat_eq_zero [symmetric])
  next
    case False
    then have "unat (addr + len) + 2 ^ 64 = unat addr + unat len"
      using unat_lt2p [of addr] unat_lt2p [of len] by (simp add: unat_word_ariths mod_if [of "unat addr + unat len"])
    then show ?thesis using False unat_lt2p [of len] by (auto simp: USER_ACCESS_def USERTOP_def)
  qed
  have e: "unat (addr + len) = unat addr + unat len" if "USER_ACCESS (unat addr) (unat (addr + len))"
    using that ua by (simp add: unat_word_ariths USERTOP_def)
  obtain m' where "check_loop V m (unat addr) (unat (addr + len)) wr =
      Some (\<forall>a. unat addr \<le> a \<and> a < unat (addr + len) \<longrightarrow> accessible V (mmap_list m) wr a, m')" "mm_ok V m'"
    using check_loop_ok [OF assms] by blast
  then show ?thesis using assms ua e by (cases "USER_ACCESS (unat addr) (unat (addr + len))") (auto simp: user_mem_check_def)
qed

theorem user_mem_check_exact_witness:
  "mm_ok demo_vmas demo_mm \<and> (\<exists>m'. user_mem_check demo_vmas (Some demo_mm) 0x20001000 0x3000 True = Some (True, Some m')) \<and>
   (\<exists>m'. user_mem_check demo_vmas (Some demo_mm) 0x20000FFF 0x10 True = Some (False, Some m'))"
proof -
  have "\<forall>a. 0x20001000 \<le> a \<and> a < 0x20004000 \<longrightarrow> accessible demo_vmas (mmap_list demo_mm) True a"
    by (simp add: accessible_def demo_vmas_def demo_mm_def VM_READ_def VM_WRITE_def VM_STACK_def)
  moreover have "\<not> accessible demo_vmas (mmap_list demo_mm) True 0x20000FFF"
    by (simp add: accessible_def demo_vmas_def demo_mm_def VM_READ_def VM_EXEC_def VM_WRITE_def VM_STACK_def)
  ultimately show ?thesis
    using user_mem_check_exact [OF demo_mm_ok, of "0x20001000" "0x3000" True] demo_mm_ok
      user_mem_check_exact [OF demo_mm_ok, of "0x20000FFF" "0x10" True]
    by (auto simp: USERBASE_def USERTOP_def)
qed

text \<open>
  C26: the search for an unmapped area returns the highest address at which a range of the length fits between the
  areas and the bounds of user space, and 0 only when there is none.
\<close>

theorem get_unmapped_area_highest:
  assumes "mm_ok V m" and "0 < len"
  defines "r \<equiv> get_unmapped_area V m len"
  shows "(r \<noteq> 0 \<longrightarrow> USERBASE \<le> r \<and> r + len \<le> USERTOP \<and> free_for V (mmap_list m) r (r + len)) \<and>
    (\<forall>x. USERBASE \<le> x \<and> x + len \<le> USERTOP \<and> free_for V (mmap_list m) x (x + len) \<longrightarrow> x \<le> r)"
proof (cases "len > USERTOP")
  case True
  then show ?thesis by (auto simp: r_def get_unmapped_area_def)
next
  case False
  have "ordered V (mmap_list m)" "\<forall>v \<in> set (mmap_list m). vma_ok (V v)" using assms(1) by (auto simp: mm_ok_def)
  moreover have "\<forall>x. fits V (mmap_list m) len x \<longrightarrow> x \<le> USERTOP - len" by (auto simp: fits_def)
  moreover have "r = unmapped_scan V len (rev (mmap_list m)) (USERTOP - len)"
    using assms(2) False by (simp add: r_def get_unmapped_area_def)
  ultimately show ?thesis
    using unmapped_scan_ok [of V "mmap_list m" "[]" len "USERTOP - len" r] assms(2) False by (simp add: fits_def)
qed

theorem get_unmapped_area_highest_witness:
  "mm_ok demo_vmas demo_mm \<and> get_unmapped_area demo_vmas demo_mm 0x1000 = 0x0000100000000000 - 0x1000 \<and>
   free_for demo_vmas (mmap_list demo_mm) (0x0000100000000000 - 0x1000) 0x0000100000000000"
proof -
  have "get_unmapped_area demo_vmas demo_mm 0x1000 = 0x0000100000000000 - 0x1000"
    by (simp add: get_unmapped_area_def demo_mm_def demo_vmas_def USERTOP_def)
  then show ?thesis using get_unmapped_area_highest [OF demo_mm_ok, of "0x1000"] demo_mm_ok by simp
qed

end
