(* ===== verification/Vmm_Unmap.thy ===== *)
theory Vmm_Unmap
  imports Vmm
begin

text \<open>
  Unmapping a range of an address space (\<^verbatim>\<open>mm_unmap\<close> of \<^verbatim>\<open>mm/vmm.c\<close>): the areas that meet the range leave the list, those
  that reach over its ends come back shortened, an area that contains it is split, and the page table entries of what was mapped
  are released. The lemmas follow the steps of the code.
\<close>

section \<open>Taking areas off the list\<close>

lemma mm_ok_remove:
  assumes ok: "mm_ok V m" and v: "v \<in> set (mmap_list m)" and V: "V = vmas s"
  shows "\<exists>m'. remove_vma_struct m v s = Some m' \<and> mm_ok V m' \<and> mmap_list m' = remove1 v (mmap_list m) \<and>
    pgdir m' = pgdir m \<and> mm_id m' = mm_id m \<and> mm_count m' = mm_count m"
proof -
  let ?l = "remove1 v (mmap_list m)"
  have o: "ordered V (mmap_list m)" using ok by (simp add: mm_ok_def)
  obtain xs ys where l: "mmap_list m = xs @ v # ys" using v by (meson split_list)
  have d: "distinct (mmap_list m)" using o by (rule ordered_distinct)
  then have r: "?l = xs @ ys" using l by (simp add: remove1_append)
  have o': "ordered V ?l" unfolding r using o by (auto simp: l ordered_append ordered_Cons)
  have id: "mm_id m = vm_mm (vmas s v)" using ok v V by (auto simp: mm_ok_def)
  have "\<exists>t. (case mmap_tree m of None \<Rightarrow> Some None | Some t \<Rightarrow> map_option Some (rb_delete v t)) = Some t \<and> tree_ok ?l t"
  proof (cases "mmap_tree m")
    case (Some t)
    then have "rb_ok t" "\<not> is_red t" "inorder t = mmap_list m" using ok by (auto simp: mm_ok_def tree_ok_def)
    then show ?thesis using rb_delete_correct [of t v] v d Some by (auto simp: tree_ok_def)
  qed (simp add: tree_ok_def)
  then obtain t where t: "(case mmap_tree m of None \<Rightarrow> Some None | Some t \<Rightarrow> map_option Some (rb_delete v t)) = Some t" "tree_ok ?l t"
    by blast
  let ?m = "m\<lparr>mmap_tree := t, mmap_list := ?l, mmap_cache := (if mmap_cache m = Some v then None else mmap_cache m),
    map_count := map_count m - 1\<rparr>"
  have e: "remove_vma_struct m v s = Some ?m" using id t(1) by (simp add: remove_vma_struct_def)
  have c: "u \<in> set ?l" if "mmap_cache ?m = Some u" for u
  proof -
    have "u \<noteq> v" "mmap_cache m = Some u" using that by (auto split: if_splits)
    then show ?thesis using ok by (auto simp: mm_ok_def)
  qed
  have "mm_ok V ?m"
    unfolding mm_ok_def using o' t(2) ok c notin_set_remove1 [of _ "mmap_list m" v]
    by (auto simp: mm_ok_def length_remove1 v dest: notin_set_remove1)
  then show ?thesis using e by (intro exI [of _ ?m]) simp
qed

lemma unmap_detach_ok:
  "mm_ok (vmas s) m \<Longrightarrow> mmap_list m = A @ L \<Longrightarrow>
   \<exists>m'. unmap_detach L stop m s fr = Some (m', rev (takeWhile (\<lambda>v. vm_start (vmas s v) < stop) L) @ fr) \<and> mm_ok (vmas s) m' \<and>
     mmap_list m' = A @ dropWhile (\<lambda>v. vm_start (vmas s v) < stop) L \<and> pgdir m' = pgdir m \<and> mm_id m' = mm_id m \<and> mm_count m' = mm_count m"
proof (induction L arbitrary: m fr)
  case (Cons v L)
  show ?case
  proof (cases "vm_start (vmas s v) < stop")
    case True
    have "distinct (mmap_list m)" using Cons.prems(1) by (auto simp: mm_ok_def intro: ordered_distinct)
    then have "remove1 v (mmap_list m) = A @ L" using Cons.prems(2) by (simp add: remove1_append)
    then obtain m1 where "remove_vma_struct m v s = Some m1" "mm_ok (vmas s) m1" "mmap_list m1 = A @ L" "pgdir m1 = pgdir m"
      "mm_id m1 = mm_id m" "mm_count m1 = mm_count m"
      using mm_ok_remove [OF Cons.prems(1), of v s] Cons.prems(2) by auto
    then show ?thesis using Cons.IH [of m1 "v # fr"] True by auto
  qed (use Cons.prems in simp)
qed simp

section \<open>Releasing the entries of a range\<close>

text \<open>The entry of an address; without a directory no page is mapped.\<close>

definition pte_in :: "pgd option \<Rightarrow> nat \<Rightarrow> pte_t" where
  "pte_in d la = (case d of None \<Rightarrow> 0 | Some pg \<Rightarrow> pte_at pg la)"

lemma pte_in_Some [simp]: "pte_in (Some pg) la = pte_at pg la" "pte_in (Some pg) = pte_at pg"
  by (simp_all add: pte_in_def fun_eq_iff)

text \<open>There is a directory, and no page of the range is swapped out.\<close>

definition all_present :: "pgd option \<Rightarrow> nat \<Rightarrow> nat \<Rightarrow> bool" where
  "all_present d start stop \<longleftrightarrow> d \<noteq> None \<and> (\<forall>la. start \<le> la \<and> la < stop \<longrightarrow> pte_in d la = 0 \<or> pte_in d la AND PTE_P \<noteq> 0)"

text \<open>No area that meets the range is shared.\<close>

definition private_in :: "vms \<Rightarrow> mm_struct \<Rightarrow> nat \<Rightarrow> nat \<Rightarrow> bool" where
  "private_in s m start stop \<longleftrightarrow>
     (\<forall>v \<in> set (mmap_list m). vm_start (vmas s v) < stop \<and> start < vm_end (vmas s v) \<longrightarrow> vm_flags (vmas s v) AND VM_SHARE = 0)"

lemma vmas_set_phys [simp]: "vmas (set_phys p s) = vmas s" "shmems (set_phys p s) = shmems s"
  "kmalloc_ok (kmem (set_phys p s)) = kmalloc_ok (kmem s)" "kmalloc_calls (kmem (set_phys p s)) = kmalloc_calls (kmem s)"
  by (simp_all add: set_phys_def)

lemma mm_ok_pgdir [simp]: "mm_ok V (m\<lparr>pgdir := pg\<rparr>) = mm_ok V m"
  by (simp add: mm_ok_def)

lemma mm_unmap_range_ok:
  assumes "USER_ACCESS start stop" "start mod PGSIZE = 0" "stop mod PGSIZE = 0" "all_present (pgdir m) start stop"
  shows "\<exists>pg p. mm_unmap_range start stop m s = Some (m\<lparr>pgdir := Some pg\<rparr>, set_phys p s) \<and>
    (\<forall>la < 2 ^ 48. pte_at pg la = (if start \<le> la \<and> la < stop then 0 else pte_in (pgdir m) la))"
proof -
  obtain d where d: "pgdir m = Some d" using assms(4) by (auto simp: all_present_def)
  obtain pg where pg: "\<forall>la < 2 ^ 48. pte_at pg la = (if start \<le> la \<and> la < stop then 0 else pte_at d la)"
    and u: "\<forall>s. unmap_range d start stop s = map_option (\<lambda>s'. (pg, s')) (release (map (pte_at d) (page_addrs start stop)) s)"
    using unmap_range_ok [OF assms(1-3), of d] by (auto simp: unmaps_def PUSIZE_def PMSIZE_def PTSIZE_def)
  have "\<forall>v \<in> set (map (pte_at d) (page_addrs start stop)). v = 0 \<or> v AND PTE_P \<noteq> 0"
    using page_addrs_mem [OF _ assms(2), of _ stop] assms(4) d by (auto simp: all_present_def)
  then obtain p where "release (map (pte_at d) (page_addrs start stop)) (phys_of s) = Some p"
    using release_present by blast
  then show ?thesis using pg u d by (intro exI [of _ pg] exI [of _ p]) (simp add: mm_unmap_range_def)
qed

section \<open>An area that reaches over an end of the range\<close>

definition disjoint_vmas :: "vma \<Rightarrow> vma \<Rightarrow> bool" where
  "disjoint_vmas x y \<longleftrightarrow> vm_end x \<le> vm_start y \<or> vm_end y \<le> vm_start x"

lemma vma_resize_ok:
  assumes "vma_ok (vmas s v)" "vm_start (vmas s v) \<le> lo" "lo < hi" "hi \<le> vm_end (vmas s v)" "lo mod PGSIZE = 0" "hi mod PGSIZE = 0"
    "vm_flags (vmas s v) AND VM_SHARE = 0"
  shows "vma_resize v lo hi s = Some (upd_vma v (\<lambda>x. x\<lparr>vm_start := lo, vm_end := hi\<rparr>) s)"
proof -
  have "(\<lambda>x. x\<lparr>shmem_off := (if vm_flags x AND VM_SHARE \<noteq> 0 then shmem_off x + (lo - vm_start x) else shmem_off x),
      vm_start := lo, vm_end := hi\<rparr>) (vmas s v) = (vmas s v)\<lparr>vm_start := lo, vm_end := hi\<rparr>"
    using assms(7) by simp
  then show ?thesis using assms by (simp add: vma_resize_def upd_vma_def)
qed

text \<open>What a step that releases \<open>[p, q)\<close> and keeps the flags \<open>K\<close> on top of the address space \<open>m\<close> promises.\<close>

definition step_result :: "nat \<Rightarrow> nat \<Rightarrow> (nat \<Rightarrow> u32 \<Rightarrow> bool) \<Rightarrow> nat set \<Rightarrow> mm_struct \<Rightarrow> vms \<Rightarrow> mm_struct \<Rightarrow> vms \<Rightarrow> bool" where
  "step_result p q K C m s m' s' \<longleftrightarrow> mm_inv s' m' \<and> set (mmap_list m') \<subseteq> set (mmap_list m) \<union> C \<and>
     (\<forall>u. u \<notin> C \<longrightarrow> vmas s' u = vmas s u) \<and>
     (\<forall>u \<in> C \<inter> set (mmap_list m'). vm_start (vmas s u) \<le> vm_start (vmas s' u) \<and> vm_end (vmas s' u) \<le> vm_end (vmas s u)) \<and> kmalloc_calls (kmem s) \<le> kmalloc_calls (kmem s') \<and>
     mm_id m' = mm_id m \<and> mm_count m' = mm_count m \<and> (\<forall>a fl. mapped s' m' a = Some fl \<longleftrightarrow> mapped s m a = Some fl \<or> K a fl) \<and>
     pgdir m' \<noteq> None \<and> (\<forall>la < 2 ^ 48. pte_in (pgdir m') la = (if p \<le> la \<and> la < q then 0 else pte_in (pgdir m) la))"

lemma unmap_keep:
  assumes inv: "mm_inv s m" and v: "v \<notin> set (mmap_list m)" "v < kmalloc_calls (kmem s)" "vma_ok (vmas s v)" "vm_flags (vmas s v) AND VM_SHARE = 0"
    and fr: "free_for (vmas s) (mmap_list m) (vm_start (vmas s v)) (vm_end (vmas s v))"
    and k: "vm_start (vmas s v) \<le> lo" "lo < hi" "hi \<le> vm_end (vmas s v)" "lo mod PGSIZE = 0" "hi mod PGSIZE = 0"
    and h: "USER_ACCESS p q" "p mod PGSIZE = 0" "q mod PGSIZE = 0" "all_present (pgdir m) p q"
  shows "\<exists>m' s'. (do { s \<leftarrow> vma_resize v lo hi s; (m, s) \<leftarrow> insert_vma_struct m v s; mm_unmap_range p q m s }) = Some (m', s') \<and>
    step_result p q (\<lambda>a fl. lo \<le> a \<and> a < hi \<and> fl = vm_flags (vmas s v)) {v} m s m' s'"
proof -
  let ?s = "upd_vma v (\<lambda>x. x\<lparr>vm_start := lo, vm_end := hi\<rparr>) s"
  have eq: "\<forall>u \<in> set (mmap_list m). vmas s u = vmas ?s u" using v(1) by auto
  have ok: "mm_ok (vmas ?s) m" by (rule mm_ok_cong [OF eq]) (use inv in \<open>simp add: mm_inv_def\<close>)
  have vok: "vma_ok (vmas ?s v)" using v(3) k by (auto simp: vma_ok_def)
  have fr': "free_for (vmas ?s) (mmap_list m) (vm_start (vmas ?s v)) (vm_end (vmas ?s v))"
    using fr k eq by (fastforce simp: free_for_def)
  obtain m1 s1 where i: "insert_vma_struct m v ?s = Some (m1, s1)" and ok1: "mm_ok (vmas s1) m1" and f: "vms_frame ?s s1"
    and set: "set (mmap_list m1) = insert v (set (mmap_list m))" and V: "vmas s1 = (vmas ?s)(v := (vmas ?s v)\<lparr>vm_mm := mm_id m\<rparr>)"
    and same: "mm_id m1 = mm_id m" "pgdir m1 = pgdir m" "mm_count m1 = mm_count m"
    and fl: "\<forall>a. mapped s1 m1 a = (if vm_start (vmas ?s v) \<le> a \<and> a < vm_end (vmas ?s v) then Some (vm_flags (vmas ?s v)) else mapped ?s m a)"
    using insert_vma_mm_ok [OF ok v(1) vok fr'] by blast
  obtain pg ph where u: "mm_unmap_range p q m1 s1 = Some (m1\<lparr>pgdir := Some pg\<rparr>, set_phys ph s1)"
    and pt: "\<forall>la < 2 ^ 48. pte_at pg la = (if p \<le> la \<and> la < q then 0 else pte_in (pgdir m) la)"
    using mm_unmap_range_ok [OF h(1-3), of m1 s1] h(4) same(2) by auto
  have calls: "kmalloc_calls (kmem s) \<le> kmalloc_calls (kmem s1)" using f by (simp add: vms_frame_def upd_vma_def)
  have old: "mapped ?s m a = mapped s m a" for a by (rule flags_at_cong [OF eq, symmetric])
  have out: "mapped s m a = None" if "lo \<le> a" "a < hi" for a
  proof (rule ccontr)
    assume "mapped s m a \<noteq> None"
    then obtain u where "u \<in> set (mmap_list m)" "vm_start (vmas s u) \<le> a" "a < vm_end (vmas s u)"
      using inv flags_at_Some [of "vmas s" "mmap_list m" a] by (auto simp: mm_inv_def mm_ok_def)
    then show False using fr k that by (fastforce simp: free_for_def)
  qed
  have "mm_inv (set_phys ph s1) (m1\<lparr>pgdir := Some pg\<rparr>)"
    using ok1 set v(2) inv calls by (fastforce simp: mm_inv_def)
  moreover have "mapped (set_phys ph s1) (m1\<lparr>pgdir := Some pg\<rparr>) a = Some f \<longleftrightarrow>
      mapped s m a = Some f \<or> (lo \<le> a \<and> a < hi \<and> f = vm_flags (vmas s v))" for a f
    using fl out old by (auto simp: V)
  ultimately have "step_result p q (\<lambda>a fl. lo \<le> a \<and> a < hi \<and> fl = vm_flags (vmas s v)) {v} m s (m1\<lparr>pgdir := Some pg\<rparr>) (set_phys ph s1)"
    using set V calls same pt k by (auto simp: step_result_def)
  moreover have "(do { s \<leftarrow> vma_resize v lo hi s; (m, s) \<leftarrow> insert_vma_struct m v s; mm_unmap_range p q m s }) = Some (m1\<lparr>pgdir := Some pg\<rparr>, set_phys ph s1)"
    using vma_resize_ok [OF v(3) k v(4)] i u by simp
  ultimately show ?thesis by blast
qed

text \<open>An area that has been taken off the list because it meets the range and does not contain it.\<close>

definition detached :: "nat \<Rightarrow> nat \<Rightarrow> mm_struct \<Rightarrow> vms \<Rightarrow> nat \<Rightarrow> bool" where
  "detached start stop m s v \<longleftrightarrow> v \<notin> set (mmap_list m) \<and> v < kmalloc_calls (kmem s) \<and> vma_ok (vmas s v) \<and>
     vm_flags (vmas s v) AND VM_SHARE = 0 \<and> free_for (vmas s) (mmap_list m) (vm_start (vmas s v)) (vm_end (vmas s v)) \<and>
     vm_start (vmas s v) < stop \<and> start < vm_end (vmas s v) \<and> (start \<le> vm_start (vmas s v) \<or> vm_end (vmas s v) \<le> stop)"

lemma step_result_cong:
  "step_result p q K C m s m' s' \<Longrightarrow> (\<And>a fl. K a fl \<longleftrightarrow> K' a fl) \<Longrightarrow> p = p' \<Longrightarrow> q = q' \<Longrightarrow> step_result p' q' K' C m s m' s'"
  by (simp add: step_result_def)

lemma all_present_sub: "all_present pg start stop \<Longrightarrow> start \<le> p \<Longrightarrow> q \<le> stop \<Longrightarrow> all_present pg p q"
  by (auto simp: all_present_def)

lemma unmap_one_ok:
  assumes inv: "mm_inv s m" and d: "detached start stop m s v" and al: "start mod PGSIZE = 0" "stop mod PGSIZE = 0"
    and pr: "all_present (pgdir m) start stop"
  shows "\<exists>m' s'. unmap_one start stop v m s = Some (m', s') \<and>
    step_result (max start (vm_start (vmas s v))) (min stop (vm_end (vmas s v)))
      (\<lambda>a fl. vm_start (vmas s v) \<le> a \<and> a < vm_end (vmas s v) \<and> \<not> (start \<le> a \<and> a < stop) \<and> fl = vm_flags (vmas s v)) {v} m s m' s'"
proof -
  note v = d [unfolded detached_def vma_ok_def]
  have al': "vm_start (vmas s v) mod PGSIZE = 0" "vm_end (vmas s v) mod PGSIZE = 0" using v by blast+
  have lt: "vm_start (vmas s v) < stop" "start < vm_end (vmas s v)" using v by blast+
  have d': "v \<notin> set (mmap_list m)" "v < kmalloc_calls (kmem s)" "vma_ok (vmas s v)" "vm_flags (vmas s v) AND VM_SHARE = 0"
    "free_for (vmas s) (mmap_list m) (vm_start (vmas s v)) (vm_end (vmas s v))" using d by (simp_all add: detached_def)
  consider "vm_start (vmas s v) < start" | "start \<le> vm_start (vmas s v)" "stop < vm_end (vmas s v)"
    | "start \<le> vm_start (vmas s v)" "vm_end (vmas s v) \<le> stop" by linarith
  then show ?thesis
  proof cases
    case 1
    define e where "e = vm_end (vmas s v)"
    have u: "USER_ACCESS start (vm_end (vmas s v))" "vm_end (vmas s v) \<le> stop" using 1 v by (auto simp: USER_ACCESS_def)
    obtain m' s' where r: "(do { s \<leftarrow> vma_resize v (vm_start (vmas s v)) start s; (m, s) \<leftarrow> insert_vma_struct m v s;
        mm_unmap_range start e m s }) = Some (m', s') \<and>
      step_result start e (\<lambda>a fl. vm_start (vmas s v) \<le> a \<and> a < start \<and> fl = vm_flags (vmas s v)) {v} m s m' s'"
      using unmap_keep [OF inv d' order_refl 1 less_imp_le [OF lt(2)] al'(1) al(1) u(1) al(1) al'(2) all_present_sub [OF pr order_refl u(2)]]
      unfolding e_def [symmetric] by (elim exE that)
    have "unmap_one start stop v m s = Some (m', s')" using 1 conjunct1 [OF r] by (simp add: unmap_one_def Let_def e_def)
    moreover have "step_result (max start (vm_start (vmas s v))) (min stop (vm_end (vmas s v)))
      (\<lambda>a fl. vm_start (vmas s v) \<le> a \<and> a < vm_end (vmas s v) \<and> \<not> (start \<le> a \<and> a < stop) \<and> fl = vm_flags (vmas s v)) {v} m s m' s'"
      by (rule step_result_cong [OF conjunct2 [OF r]]) (use 1 u v in \<open>auto simp: e_def\<close>)
    ultimately show ?thesis by blast
  next
    case 2
    define b where "b = vm_start (vmas s v)"
    have u: "USER_ACCESS (vm_start (vmas s v)) stop" using 2 v by (auto simp: USER_ACCESS_def)
    obtain m' s' where r: "(do { s \<leftarrow> vma_resize v stop (vm_end (vmas s v)) s; (m, s) \<leftarrow> insert_vma_struct m v s;
        mm_unmap_range b stop m s }) = Some (m', s') \<and>
      step_result b stop (\<lambda>a fl. stop \<le> a \<and> a < vm_end (vmas s v) \<and> fl = vm_flags (vmas s v)) {v} m s m' s'"
      using unmap_keep [OF inv d' less_imp_le [OF lt(1)] 2(2) order_refl al(2) al'(2) u al'(1) al(2) all_present_sub [OF pr 2(1) order_refl]]
      unfolding b_def [symmetric] by (elim exE that)
    have "unmap_one start stop v m s = Some (m', s')" using 2 conjunct1 [OF r] by (simp add: unmap_one_def Let_def b_def)
    moreover have "step_result (max start (vm_start (vmas s v))) (min stop (vm_end (vmas s v)))
      (\<lambda>a fl. vm_start (vmas s v) \<le> a \<and> a < vm_end (vmas s v) \<and> \<not> (start \<le> a \<and> a < stop) \<and> fl = vm_flags (vmas s v)) {v} m s m' s'"
      by (rule step_result_cong [OF conjunct2 [OF r]]) (use 2 v in \<open>auto simp: b_def\<close>)
    ultimately show ?thesis by blast
  next
    case 3
    then have u: "USER_ACCESS (vm_start (vmas s v)) (vm_end (vmas s v))" using v by (auto simp: USER_ACCESS_def)
    obtain pg p where r: "mm_unmap_range (vm_start (vmas s v)) (vm_end (vmas s v)) m s = Some (m\<lparr>pgdir := Some pg\<rparr>, set_phys p s)"
      "\<forall>la < 2 ^ 48. pte_at pg la = (if vm_start (vmas s v) \<le> la \<and> la < vm_end (vmas s v) then 0 else pte_in (pgdir m) la)"
      using mm_unmap_range_ok [OF u al' all_present_sub [OF pr 3], of s] by blast
    have "unmap_one start stop v m s = Some (m\<lparr>pgdir := Some pg\<rparr>, set_phys p s)"
      using 3 r(1) d'(4) by (simp add: unmap_one_def Let_def vma_destroy_def)
    moreover have "step_result (max start (vm_start (vmas s v))) (min stop (vm_end (vmas s v)))
      (\<lambda>a fl. vm_start (vmas s v) \<le> a \<and> a < vm_end (vmas s v) \<and> \<not> (start \<le> a \<and> a < stop) \<and> fl = vm_flags (vmas s v)) {v} m s
      (m\<lparr>pgdir := Some pg\<rparr>) (set_phys p s)"
      using inv 3 r(2) v by (auto simp: step_result_def mm_inv_def max_def min_def)
    ultimately show ?thesis by blast
  qed
qed

text \<open>The second loop of the code, over the areas taken off the list.\<close>

lemma detached_step:
  assumes "step_result p q K {v} m s m' s'" "detached start stop m s u" "u \<noteq> v" "disjoint_vmas (vmas s u) (vmas s v)"
  shows "detached start stop m' s' u" "vmas s' u = vmas s u"
proof -
  show e: "vmas s' u = vmas s u" using assms(1,3) by (simp add: step_result_def)
  have "vm_end (vmas s' w) \<le> vm_start (vmas s u) \<or> vm_end (vmas s u) \<le> vm_start (vmas s' w)" if "w \<in> set (mmap_list m')" for w
  proof (cases "w = v")
    case True
    then have "vm_start (vmas s v) \<le> vm_start (vmas s' v)" "vm_end (vmas s' v) \<le> vm_end (vmas s v)"
      using assms(1) that by (auto simp: step_result_def)
    then show ?thesis using True assms(4) by (auto simp: disjoint_vmas_def)
  next
    case False
    then have "w \<in> set (mmap_list m)" "vmas s' w = vmas s w" using assms(1) that by (auto simp: step_result_def)
    then show ?thesis using assms(2) by (auto simp: detached_def free_for_def)
  qed
  then have "free_for (vmas s') (mmap_list m') (vm_start (vmas s u)) (vm_end (vmas s u))" by (auto simp: free_for_def)
  moreover have "u \<notin> set (mmap_list m')" "kmalloc_calls (kmem s) \<le> kmalloc_calls (kmem s')"
    using assms by (auto simp: step_result_def detached_def)
  ultimately show "detached start stop m' s' u" using assms(2) e by (auto simp: detached_def)
qed

definition free_result :: "nat \<Rightarrow> nat \<Rightarrow> nat list \<Rightarrow> mm_struct \<Rightarrow> vms \<Rightarrow> mm_struct \<Rightarrow> vms \<Rightarrow> bool" where
  "free_result start stop L m s m' s' \<longleftrightarrow> mm_inv s' m' \<and> mm_id m' = mm_id m \<and> mm_count m' = mm_count m \<and>
    (\<forall>a fl. mapped s' m' a = Some fl \<longleftrightarrow> mapped s m a = Some fl \<or>
       (\<not> (start \<le> a \<and> a < stop) \<and> (\<exists>v \<in> set L. vm_start (vmas s v) \<le> a \<and> a < vm_end (vmas s v) \<and> vm_flags (vmas s v) = fl))) \<and>
    (\<forall>la < 2 ^ 48. pte_in (pgdir m') la =
       (if start \<le> la \<and> la < stop \<and> (\<exists>v \<in> set L. vm_start (vmas s v) \<le> la \<and> la < vm_end (vmas s v)) then 0 else pte_in (pgdir m) la))"

lemma unmap_free_ok:
  assumes "mm_inv s m" "\<forall>v \<in> set L. detached start stop m s v" "distinct L"
    "\<forall>u \<in> set L. \<forall>v \<in> set L. u \<noteq> v \<longrightarrow> disjoint_vmas (vmas s u) (vmas s v)"
    and al: "start mod PGSIZE = 0" "stop mod PGSIZE = 0" "stop \<le> USERTOP" and "all_present (pgdir m) start stop"
  shows "\<exists>m' s'. unmap_free start stop L m s = Some (m', s') \<and> free_result start stop L m s m' s'"
  using assms
proof (induction L arbitrary: m s)
  case (Cons v L)
  obtain m1 s1 where o: "unmap_one start stop v m s = Some (m1, s1)"
    and r: "step_result (max start (vm_start (vmas s v))) (min stop (vm_end (vmas s v)))
      (\<lambda>a fl. vm_start (vmas s v) \<le> a \<and> a < vm_end (vmas s v) \<and> \<not> (start \<le> a \<and> a < stop) \<and> fl = vm_flags (vmas s v)) {v} m s m1 s1"
    using unmap_one_ok [OF Cons.prems(1), of start stop v] Cons.prems by auto
  have L: "\<forall>u \<in> set L. detached start stop m1 s1 u \<and> vmas s1 u = vmas s u"
  proof
    fix u assume u: "u \<in> set L"
    then have "u \<noteq> v" "detached start stop m s u" "disjoint_vmas (vmas s u) (vmas s v)" using Cons.prems(2,3,4) by auto
    then show "detached start stop m1 s1 u \<and> vmas s1 u = vmas s u" using detached_step [OF r] by blast
  qed
  have pt: "\<forall>la < 2 ^ 48. pte_in (pgdir m1) la = (if start \<le> la \<and> la < stop \<and> vm_start (vmas s v) \<le> la \<and> la < vm_end (vmas s v)
      then 0 else pte_in (pgdir m) la)"
    using r by (auto simp: step_result_def)
  have pr: "all_present (pgdir m1) start stop" unfolding all_present_def
  proof (intro conjI allI impI)
    show "pgdir m1 \<noteq> None" using r by (simp add: step_result_def)
  next
    fix la assume "start \<le> la \<and> la < stop"
    moreover from this have "la < 2 ^ 48" using al(3) by (simp add: USERTOP_def)
    ultimately show "pte_in (pgdir m1) la = 0 \<or> pte_in (pgdir m1) la AND PTE_P \<noteq> 0" using pt Cons.prems(8) by (simp add: all_present_def)
  qed
  have r1: "mm_inv s1 m1" "mm_id m1 = mm_id m" "mm_count m1 = mm_count m"
    "\<forall>a fl. mapped s1 m1 a = Some fl \<longleftrightarrow> mapped s m a = Some fl \<or>
       (vm_start (vmas s v) \<le> a \<and> a < vm_end (vmas s v) \<and> \<not> (start \<le> a \<and> a < stop) \<and> fl = vm_flags (vmas s v))"
    using r by (simp_all add: step_result_def)
  have dj: "\<forall>u \<in> set L. \<forall>w \<in> set L. u \<noteq> w \<longrightarrow> disjoint_vmas (vmas s1 u) (vmas s1 w)" using L Cons.prems(4) by simp
  obtain m' s' where f: "unmap_free start stop L m1 s1 = Some (m', s')" and fr: "free_result start stop L m1 s1 m' s'"
    using Cons.IH [of s1 m1] r1(1) L Cons.prems(3) dj al pr by auto
  note fr = fr [unfolded free_result_def]
  have "mapped s' m' a = Some fl \<longleftrightarrow> mapped s m a = Some fl \<or>
       (\<not> (start \<le> a \<and> a < stop) \<and> (\<exists>v \<in> set (v # L). vm_start (vmas s v) \<le> a \<and> a < vm_end (vmas s v) \<and> vm_flags (vmas s v) = fl))" for a fl
    using fr r1(4) L by auto
  moreover have "pte_in (pgdir m') la =
       (if start \<le> la \<and> la < stop \<and> (\<exists>v \<in> set (v # L). vm_start (vmas s v) \<le> la \<and> la < vm_end (vmas s v)) then 0 else pte_in (pgdir m) la)"
    if "la < 2 ^ 48" for la
    using fr pt L that by auto
  ultimately have "free_result start stop (v # L) m s m' s'" unfolding free_result_def using fr r1(2,3) by auto
  then show ?case using o f by auto
qed (simp add: free_result_def)

section \<open>An area that contains the range\<close>

lemma ordered_unique:
  assumes "ordered V vs" "u \<in> set vs" "v \<in> set vs" "vm_start (V u) \<le> a" "a < vm_end (V u)" "vm_start (V v) \<le> a" "a < vm_end (V v)"
  shows "u = v"
  using first_above_hit [OF assms(1,2,4,5)] first_above_hit [OF assms(1,3,6,7)] by simp

lemma ordered_disjoint:
  assumes "ordered V vs" "u \<in> set vs" "v \<in> set vs" "u \<noteq> v"
  shows "disjoint_vmas (V u) (V v)"
proof -
  obtain xs ys where "vs = xs @ v # ys" using assms(3) by (meson split_list)
  then show ?thesis using assms by (auto simp: disjoint_vmas_def ordered_append ordered_Cons)
qed

lemma ordered_shrink:
  "ordered V vs \<Longrightarrow> \<forall>v \<in> set vs. vm_start (V v) \<le> vm_start (W v) \<and> vm_start (W v) < vm_end (W v) \<and> vm_end (W v) \<le> vm_end (V v) \<Longrightarrow> ordered W vs"
proof (induction vs)
  case (Cons v vs)
  have "vm_end (W v) \<le> vm_start (W u)" if "u \<in> set vs" for u
  proof -
    have "vm_end (W v) \<le> vm_end (V v)" "vm_end (V v) \<le> vm_start (V u)" "vm_start (V u) \<le> vm_start (W u)"
      using Cons.prems that by (auto simp: ordered_Cons)
    then show ?thesis by linarith
  qed
  then show ?case using Cons by (auto simp: ordered_Cons)
qed simp

lemma shrink_inv:
  assumes inv: "mm_inv s m" and v: "v \<in> set (mmap_list m)"
    and k: "vm_start (vmas s v) \<le> lo" "lo < hi" "hi \<le> vm_end (vmas s v)" "lo mod PGSIZE = 0" "hi mod PGSIZE = 0"
  defines "s' \<equiv> upd_vma v (\<lambda>x. x\<lparr>vm_start := lo, vm_end := hi\<rparr>) s"
  shows "mm_inv s' m"
    and "mapped s' m a = Some fl \<longleftrightarrow> mapped s m a = Some fl \<and> \<not> (vm_start (vmas s v) \<le> a \<and> a < vm_end (vmas s v) \<and> \<not> (lo \<le> a \<and> a < hi))"
proof -
  have o: "ordered (vmas s) (mmap_list m)" and ok: "\<forall>u \<in> set (mmap_list m). vma_ok (vmas s u)" using inv by (auto simp: mm_inv_def mm_ok_def)
  have W: "vmas s' = (vmas s)(v := (vmas s v)\<lparr>vm_start := lo, vm_end := hi\<rparr>)" by (simp add: s'_def)
  have o': "ordered (vmas s') (mmap_list m)" by (rule ordered_shrink [OF o]) (use k ok in \<open>auto simp: W vma_ok_def\<close>)
  have "vma_ok (vmas s v)" using ok v by blast
  then have "vma_ok (vmas s' v)" using k by (auto simp: W vma_ok_def)
  then show "mm_inv s' m" using inv o' by (auto simp: mm_inv_def mm_ok_def W s'_def upd_vma_def)
  have u: "u = v" if "u \<in> set (mmap_list m)" "vm_start (vmas s u) \<le> a" "a < vm_end (vmas s u)" "vm_start (vmas s v) \<le> a" "a < vm_end (vmas s v)" for u
    using ordered_unique [OF o that(1) v that(2-5)] .
  have key: "vm_start (vmas s' w) \<le> a \<and> a < vm_end (vmas s' w) \<and> vm_flags (vmas s' w) = fl \<longleftrightarrow>
      (vm_start (vmas s w) \<le> a \<and> a < vm_end (vmas s w) \<and> vm_flags (vmas s w) = fl) \<and>
      \<not> (vm_start (vmas s v) \<le> a \<and> a < vm_end (vmas s v) \<and> \<not> (lo \<le> a \<and> a < hi))" if "w \<in> set (mmap_list m)" for w
  proof (cases "w = v")
    case True
    then show ?thesis using k by (auto simp: W)
  next
    case False
    then show ?thesis using u [OF that] by (auto simp: W)
  qed
  show "mapped s' m a = Some fl \<longleftrightarrow> mapped s m a = Some fl \<and> \<not> (vm_start (vmas s v) \<le> a \<and> a < vm_end (vmas s v) \<and> \<not> (lo \<le> a \<and> a < hi))"
    unfolding flags_at_Some [OF o'] flags_at_Some [OF o] using key by blast
qed

lemma unmap_split_ok:
  assumes inv: "mm_inv s m" and v: "v \<in> set (mmap_list m)" "vm_flags (vmas s v) AND VM_SHARE = 0"
    and r: "vm_start (vmas s v) < start" "start < stop" "stop < vm_end (vmas s v)" and al: "start mod PGSIZE = 0" "stop mod PGSIZE = 0"
    and pr: "all_present (pgdir m) start stop"
    and c: "vma_create (vm_start (vmas s v)) start (vm_flags (vmas s v)) s = (Some nv, s1)"
  shows "\<exists>m' s'. (do { s \<leftarrow> vma_resize v stop (vm_end (vmas s1 v)) s1; (m, s) \<leftarrow> insert_vma_struct m nv s; mm_unmap_range start stop m s }) = Some (m', s') \<and>
    mm_inv s' m' \<and> mm_id m' = mm_id m \<and> mm_count m' = mm_count m \<and>
    (\<forall>a. mapped s' m' a = (if start \<le> a \<and> a < stop then None else mapped s m a)) \<and>
    (\<forall>la < 2 ^ 48. pte_in (pgdir m') la = (if start \<le> la \<and> la < stop then 0 else pte_in (pgdir m) la))"
proof -
  note cc = vma_create_cases [OF c] mm_inv_fresh [OF inv c]
  let ?b = "vm_start (vmas s v)" and ?e = "vm_end (vmas s v)" and ?s = "upd_vma v (\<lambda>x. x\<lparr>vm_start := stop, vm_end := vm_end (vmas s v)\<rparr>) s1"
  have nv: "nv = kmalloc_calls (kmem s)" "nv \<notin> set (mmap_list m)" "nv \<noteq> v" using cc(3) inv v(1) by (auto simp: mm_inv_def split: if_splits)
  have V: "vmas s1 v = vmas s v" using cc(4) nv(3) by simp
  have vok: "vma_ok (vmas s v)" using inv v(1) by (auto simp: mm_inv_def mm_ok_def)
  have ve: "?e mod PGSIZE = 0" "?b mod PGSIZE = 0" using vok by (simp_all add: vma_ok_def)
  have sh: "mm_inv ?s m" "\<And>a fl. mapped ?s m a = Some fl \<longleftrightarrow> mapped s m a = Some fl \<and> \<not> (?b \<le> a \<and> a < ?e \<and> \<not> (stop \<le> a \<and> a < ?e))"
    using shrink_inv [OF cc(5) v(1), of stop ?e] r al(2) ve V cc(6) by auto
  have n: "vm_start (vmas ?s nv) = ?b" "vm_end (vmas ?s nv) = start" "vm_flags (vmas ?s nv) = vm_flags (vmas s v)"
    using cc(4) nv(3) by simp_all
  have nok: "vma_ok (vmas ?s nv)" unfolding vma_ok_def n using vok r al by (auto simp: vma_ok_def)
  have fr: "free_for (vmas ?s) (mmap_list m) (vm_start (vmas ?s nv)) (vm_end (vmas ?s nv))"
    unfolding free_for_def n
  proof
    fix u assume u: "u \<in> set (mmap_list m)"
    show "vm_end (vmas ?s u) \<le> ?b \<or> start \<le> vm_start (vmas ?s u)"
    proof (cases "u = v")
      case False
      have "ordered (vmas s) (mmap_list m)" using inv by (simp add: mm_inv_def mm_ok_def)
      then have "disjoint_vmas (vmas s u) (vmas s v)" using ordered_disjoint u v(1) False by blast
      moreover have "vmas ?s u = vmas s u" using False u nv(2) cc(4) by auto
      ultimately show ?thesis using r by (auto simp: disjoint_vmas_def)
    qed (use r in simp)
  qed
  obtain m1 s2 where i: "insert_vma_struct m nv ?s = Some (m1, s2)" and ok1: "mm_ok (vmas s2) m1" and f: "vms_frame ?s s2"
    and set: "set (mmap_list m1) = insert nv (set (mmap_list m))"
    and same: "mm_id m1 = mm_id m" "pgdir m1 = pgdir m" "mm_count m1 = mm_count m"
    and fl: "\<forall>a. mapped s2 m1 a = (if vm_start (vmas ?s nv) \<le> a \<and> a < vm_end (vmas ?s nv) then Some (vm_flags (vmas ?s nv)) else mapped ?s m a)"
    using insert_vma_mm_ok [OF _ nv(2) nok fr] sh(1) unfolding mm_inv_def by blast
  have u: "USER_ACCESS start stop" using vok r unfolding vma_ok_def USER_ACCESS_def by linarith
  obtain pg ph where un: "mm_unmap_range start stop m1 s2 = Some (m1\<lparr>pgdir := Some pg\<rparr>, set_phys ph s2)"
    and pt: "\<forall>la < 2 ^ 48. pte_at pg la = (if start \<le> la \<and> la < stop then 0 else pte_in (pgdir m) la)"
    using mm_unmap_range_ok [OF u al, of m1 s2] pr same(2) by auto
  have "vma_resize v stop (vm_end (vmas s1 v)) s1 = Some ?s"
    using vma_resize_ok [of s1 v stop ?e] vok r al ve v(2) V by simp
  moreover have "mm_inv (set_phys ph s2) (m1\<lparr>pgdir := Some pg\<rparr>)"
    using ok1 set sh(1) f cc(2) nv(1) by (fastforce simp: mm_inv_def vms_frame_def upd_vma_def)
  moreover have "mapped s2 m1 a = (if start \<le> a \<and> a < stop then None else mapped s m a)" for a
  proof -
    consider "?b \<le> a" "a < start" | "start \<le> a" "a < stop" | "a < ?b \<or> stop \<le> a" by linarith
    then show ?thesis
    proof cases
      case 1
      have "mapped s m a = Some (vm_flags (vmas s v))"
        using flags_at_Some [of "vmas s" "mmap_list m" a] inv v(1) 1 r by (auto simp: mm_inv_def mm_ok_def)
      then show ?thesis using 1 fl n by simp
    next
      case 2
      then have "mapped ?s m a \<noteq> Some f" for f using sh(2) [of a f] r by auto
      then show ?thesis using 2 fl n by auto
    next
      case 3
      then have "mapped ?s m a = Some f \<longleftrightarrow> mapped s m a = Some f" for f using sh(2) [of a f] r by auto
      then have "mapped ?s m a = mapped s m a" by (metis not_None_eq)
      then show ?thesis using 3 fl n r by auto
    qed
  qed
  ultimately show ?thesis using i un pt same by (intro exI [of _ "m1\<lparr>pgdir := Some pg\<rparr>"] exI [of _ "set_phys ph s2"]) simp
qed

section \<open>The whole operation\<close>

lemma mapped_None: "mapped s m a = None \<longleftrightarrow> (\<forall>v \<in> set (mmap_list m). \<not> (vm_start (vmas s v) \<le> a \<and> a < vm_end (vmas s v)))"
  by (auto simp: flags_at_def find_None_iff)

lemma mapped_Some: "mm_inv s m \<Longrightarrow> mapped s m a = Some fl \<longleftrightarrow>
    (\<exists>v \<in> set (mmap_list m). vm_start (vmas s v) \<le> a \<and> a < vm_end (vmas s v) \<and> vm_flags (vmas s v) = fl)"
  using flags_at_Some [of "vmas s" "mmap_list m" a fl] by (auto simp: mm_inv_def mm_ok_def)

lemma ordered_dropWhile:
  assumes "ordered V vs" "u \<in> set (dropWhile (\<lambda>v. vm_start (V v) < stop) vs)"
  shows "stop \<le> vm_start (V u)"
  using assms
proof (induction vs)
  case (Cons v vs)
  then show ?case by (fastforce simp: ordered_Cons split: if_splits)
qed simp

text \<open>The range meets an area and none contains it on both sides.\<close>

lemma unmap_overlap_ok:
  assumes inv: "mm_inv s m" and L: "mmap_list m = A @ v # R" and A: "\<forall>u \<in> set A. vm_end (vmas s u) \<le> start"
    and v: "start < vm_end (vmas s v)" "start \<le> vm_start (vmas s v) \<or> vm_end (vmas s v) \<le> stop"
    and nosh: "private_in s m start stop"
    and al: "start mod PGSIZE = 0" "stop mod PGSIZE = 0" "stop \<le> USERTOP" and pr: "all_present (pgdir m) start stop"
  shows "\<exists>m' s'. (do { (m, fr) \<leftarrow> unmap_detach (v # R) stop m s []; unmap_free start stop fr m s }) = Some (m', s') \<and>
    mm_inv s' m' \<and> mm_id m' = mm_id m \<and> mm_count m' = mm_count m \<and>
    (\<forall>a. mapped s' m' a = (if start \<le> a \<and> a < stop then None else mapped s m a)) \<and>
    (\<forall>la < 2 ^ 48. pte_in (pgdir m') la = (if start \<le> la \<and> la < stop \<and> mapped s m la \<noteq> None then 0 else pte_in (pgdir m) la))"
proof -
  define B where "B = takeWhile (\<lambda>u. vm_start (vmas s u) < stop) (v # R)"
  define C where "C = dropWhile (\<lambda>u. vm_start (vmas s u) < stop) (v # R)"
  have BC: "v # R = B @ C" by (simp add: B_def C_def)
  have o: "ordered (vmas s) (A @ B @ C)" using inv L BC by (simp add: mm_inv_def mm_ok_def)
  have B: "vm_start (vmas s u) < stop" if "u \<in> set B" for u using set_takeWhileD that unfolding B_def by fastforce
  have C: "stop \<le> vm_start (vmas s u)" if "u \<in> set C" for u
  proof (rule ordered_dropWhile)
    show "ordered (vmas s) (v # R)" using o unfolding BC by (simp add: ordered_append)
    show "u \<in> set (dropWhile (\<lambda>v. vm_start (vmas s v) < stop) (v # R))" using that unfolding C_def .
  qed
  obtain m1 where d: "unmap_detach (v # R) stop m s [] = Some (m1, rev B)" and m1: "mm_ok (vmas s) m1" "mmap_list m1 = A @ C"
    and same: "pgdir m1 = pgdir m" "mm_id m1 = mm_id m" "mm_count m1 = mm_count m"
    using unmap_detach_ok [of s m A "v # R" stop "[]"] inv L unfolding B_def C_def mm_inv_def by auto
  have inv1: "mm_inv s m1" using m1 inv L BC by (auto simp: mm_inv_def)
  have lst: "set (mmap_list m) = set (A @ C) \<union> set B" using L BC by auto
  have dj: "disjoint_vmas (vmas s u) (vmas s w)" if "u \<in> set (A @ B @ C)" "w \<in> set (A @ B @ C)" "u \<noteq> w" for u w
    using ordered_disjoint [OF o] that by blast
  have dis: "distinct (A @ B @ C)" using o by (rule ordered_distinct)
  have det: "detached start stop m1 s u" if u: "u \<in> set B" for u
  proof -
    have um: "u \<in> set (mmap_list m)" using lst u by blast
    have e: "start < vm_end (vmas s u) \<and> (start \<le> vm_start (vmas s u) \<or> vm_end (vmas s u) \<le> stop)"
    proof (cases "u = v")
      case False
      then have "u \<in> set R" using u BC by (metis UnCI set_ConsD set_append)
      then have "vm_end (vmas s v) \<le> vm_start (vmas s u)" using inv L by (auto simp: mm_inv_def mm_ok_def ordered_append ordered_Cons)
      moreover have "vm_start (vmas s u) < vm_end (vmas s u)" using inv um by (auto simp: mm_inv_def mm_ok_def vma_ok_def)
      ultimately show ?thesis using v(1) by linarith
    qed (use v in simp)
    have "vm_flags (vmas s u) AND VM_SHARE = 0" using nosh um B [OF u] e by (simp add: private_in_def)
    moreover have "free_for (vmas s) (A @ C) (vm_start (vmas s u)) (vm_end (vmas s u))"
      unfolding free_for_def
    proof
      fix w assume w: "w \<in> set (A @ C)"
      then have "w \<noteq> u" using dis u by auto
      then show "vm_end (vmas s w) \<le> vm_start (vmas s u) \<or> vm_end (vmas s u) \<le> vm_start (vmas s w)"
        using dj [of w u] u w by (auto simp: disjoint_vmas_def)
    qed
    moreover have "u \<notin> set (A @ C)" using dis u by auto
    moreover have "vma_ok (vmas s u)" "u < kmalloc_calls (kmem s)" using inv um by (auto simp: mm_inv_def mm_ok_def)
    ultimately show ?thesis using B [OF u] e m1(2) unfolding detached_def by simp
  qed
  have in_none: "mapped s m1 a = None" if "start \<le> a" "a < stop" for a
    using A C that by (fastforce simp: flags_at_def find_None_iff m1(2))
  have fr: "\<forall>u \<in> set (rev B). detached start stop m1 s u" "distinct (rev B)"
    "\<forall>u \<in> set (rev B). \<forall>w \<in> set (rev B). u \<noteq> w \<longrightarrow> disjoint_vmas (vmas s u) (vmas s w)" using det dis dj by simp_all
  have pr1: "all_present (pgdir m1) start stop" using pr same(1) by simp
  obtain m' s' where f: "unmap_free start stop (rev B) m1 s = Some (m', s')" and r: "free_result start stop (rev B) m1 s m' s'"
    using unmap_free_ok [OF inv1 fr al pr1] by blast
  have r5: "mapped s' m' a = Some fl \<longleftrightarrow> mapped s m1 a = Some fl \<or>
       (\<not> (start \<le> a \<and> a < stop) \<and> (\<exists>v \<in> set B. vm_start (vmas s v) \<le> a \<and> a < vm_end (vmas s v) \<and> vm_flags (vmas s v) = fl))" for a fl
    using r by (simp add: free_result_def)
  have r6: "\<forall>la < 2 ^ 48. pte_in (pgdir m') la =
       (if start \<le> la \<and> la < stop \<and> (\<exists>v \<in> set B. vm_start (vmas s v) \<le> la \<and> la < vm_end (vmas s v)) then 0 else pte_in (pgdir m1) la)"
    using r by (simp add: free_result_def)
  have ex: "mapped s m a = Some fl \<longleftrightarrow> mapped s m1 a = Some fl \<or>
      (\<exists>v \<in> set B. vm_start (vmas s v) \<le> a \<and> a < vm_end (vmas s v) \<and> vm_flags (vmas s v) = fl)" for a fl
    by (simp only: mapped_Some [OF inv] mapped_Some [OF inv1, unfolded m1(2)] m1(2) lst bex_Un)
  have "mapped s' m' a = (if start \<le> a \<and> a < stop then None else mapped s m a)" for a
  proof (cases "start \<le> a \<and> a < stop")
    case True
    then have "mapped s' m' a \<noteq> Some fl" for fl using r5 in_none by auto
    then show ?thesis using True by auto
  next
    case False
    then have "mapped s' m' a = Some fl \<longleftrightarrow> mapped s m a = Some fl" for fl using r5 ex [of a fl] by auto
    then show ?thesis using False by (metis not_None_eq)
  qed
  moreover have m: "(\<exists>v \<in> set B. vm_start (vmas s v) \<le> la \<and> la < vm_end (vmas s v)) \<longleftrightarrow> mapped s m la \<noteq> None" if "start \<le> la" "la < stop" for la
    using ex [of la] in_none [OF that] by auto
  moreover have "\<forall>la < 2 ^ 48. pte_in (pgdir m') la = (if start \<le> la \<and> la < stop \<and> mapped s m la \<noteq> None then 0 else pte_in (pgdir m) la)"
    using r6 by (simp add: m same(1) cong: conj_cong)
  ultimately show ?thesis using d f r same by (intro exI [of _ m'] exI [of _ s']) (simp add: free_result_def)
qed

lemma mm_unmap_ok:
  assumes inv: "mm_inv s m" and st: "start = unat (page_down addr)" "stop = unat (page_up (addr + len))"
    and nosh: "private_in s m start stop" and pr: "all_present (pgdir m) start stop"
  shows "\<exists>ret m' s'. mm_unmap m addr len s = Some (ret, m', s') \<and> mm_inv s' m' \<and>
    ret = (if \<not> USER_ACCESS start stop then - E_INVAL
           else if (\<exists>v \<in> set (mmap_list m). vm_start (vmas s v) < start \<and> stop < vm_end (vmas s v)) \<and>
             \<not> kmalloc_ok (kmem s) (kmalloc_calls (kmem s)) then - E_NO_MEM else 0) \<and>
    (\<forall>a. mapped s' m' a = (if ret = 0 \<and> start \<le> a \<and> a < stop then None else mapped s m a)) \<and>
    (\<forall>la < 2 ^ 48. pte_in (pgdir m') la =
       (if ret = 0 \<and> start \<le> la \<and> la < stop \<and> mapped s m la \<noteq> None then 0 else pte_in (pgdir m) la))"
proof (cases "USER_ACCESS start stop")
  case False
  then show ?thesis using inv by (simp add: mm_unmap_def st Let_def)
next
  case True
  have al: "start mod PGSIZE = 0" "stop mod PGSIZE = 0" "stop \<le> USERTOP" "start < stop" using st True by (simp_all add: USER_ACCESS_def)
  obtain r m0 where f: "find_vma (vmas s) m start = (r, m0)" by fastforce
  have inv0: "mm_inv s m0" and r: "r = first_above (vmas s) start (mmap_list m)" using find_vma_inv [OF inv f] by auto
  note same = find_vma_same [OF f]
  have o: "ordered (vmas s) (mmap_list m)" using inv by (simp add: mm_inv_def mm_ok_def)
  have un: "mm_unmap m addr len s = (case r of
      None \<Rightarrow> Some (0, m0, s)
    | Some v \<Rightarrow>
        if stop \<le> vm_start (vmas s v) then Some (0, m0, s)
        else if vm_start (vmas s v) < start \<and> stop < vm_end (vmas s v) then
          (case vma_create (vm_start (vmas s v)) start (vm_flags (vmas s v)) s of
             (None, s) \<Rightarrow> Some (- E_NO_MEM, m0, s)
           | (Some nv, s) \<Rightarrow> do {
               s \<leftarrow> vma_resize v stop (vm_end (vmas s v)) s;
               (m, s) \<leftarrow> insert_vma_struct m0 nv s;
               (m, s) \<leftarrow> mm_unmap_range start stop m s;
               Some (0, m, s)
             })
        else do {
          (m, fr) \<leftarrow> unmap_detach (dropWhile (\<lambda>u. u \<noteq> v) (mmap_list m0)) stop m0 s [];
          (m, s) \<leftarrow> unmap_free start stop fr m s;
          Some (0, m, s)
        })"
    using True f by (simp add: mm_unmap_def st [symmetric] Let_def split: option.split)
  show ?thesis
  proof (cases "free_for (vmas s) (mmap_list m) start stop")
    case free: True
    then have "mm_unmap m addr len s = Some (0, m0, s)"
      using un free_for_first_above [OF o] r by (auto split: option.splits)
    moreover have "mapped s m a = None" if "start \<le> a" "a < stop" for a
      unfolding mapped_None using free that by (fastforce simp: free_for_def)
    moreover have "\<not> (\<exists>v \<in> set (mmap_list m). vm_start (vmas s v) < start \<and> stop < vm_end (vmas s v))"
      using free al(4) by (fastforce simp: free_for_def)
    ultimately show ?thesis using inv0 same True by auto
  next
    case False
    then obtain v where v: "r = Some v" "vm_start (vmas s v) < stop"
      using free_for_first_above [OF o, of start stop] r by (auto split: option.splits)
    obtain A R where L: "mmap_list m = A @ v # R" "\<forall>u \<in> set A. vm_end (vmas s u) \<le> start" "start < vm_end (vmas s v)"
      using v(1) r by (auto simp: first_above_split)
    have vm: "v \<in> set (mmap_list m0)" "v \<in> set (mmap_list m)" using L same by simp_all
    have uniq: "u = v" if u: "u \<in> set (mmap_list m)" "vm_start (vmas s u) < start" "stop < vm_end (vmas s u)" for u
    proof (rule ccontr)
      assume "u \<noteq> v"
      then consider "u \<in> set A" | "u \<in> set R" using u(1) L(1) by auto
      then show False
      proof cases
        case 1
        then show False using L(2) u(3) al(4) by fastforce
      next
        case 2
        then have "vm_end (vmas s v) \<le> vm_start (vmas s u)" using o L(1) by (simp add: ordered_append ordered_Cons)
        then show False using u(2) L(3) by linarith
      qed
    qed
    have nosh0: "private_in s m0 start stop" using nosh same by (simp add: private_in_def)
    have nv0: "vm_flags (vmas s v) AND VM_SHARE = 0" using nosh vm(2) v(2) L(3) by (simp add: private_in_def)
    have pr0: "all_present (pgdir m0) start stop" using pr same by simp
    show ?thesis
    proof (cases "vm_start (vmas s v) < start \<and> stop < vm_end (vmas s v)")
      case split: True
      then have ex: "\<exists>v \<in> set (mmap_list m). vm_start (vmas s v) < start \<and> stop < vm_end (vmas s v)" using vm by blast
      obtain c s1 where c: "vma_create (vm_start (vmas s v)) start (vm_flags (vmas s v)) s = (c, s1)" by fastforce
      show ?thesis
      proof (cases c)
        case None
        then have "mm_unmap m addr len s = Some (- E_NO_MEM, m0, s1)" "\<not> kmalloc_ok (kmem s) (kmalloc_calls (kmem s))"
          using un v split c vma_create_cases(3) [OF c] by (auto split: if_splits)
        then show ?thesis using mm_inv_fresh [OF inv0 c] same True ex by simp
      next
        case (Some nv)
        have ok: "kmalloc_ok (kmem s) (kmalloc_calls (kmem s))" using vma_create_cases(3) [OF c] Some by (simp split: if_splits)
        obtain m' s' where u: "(do { s \<leftarrow> vma_resize v stop (vm_end (vmas s1 v)) s1; (m, s) \<leftarrow> insert_vma_struct m0 nv s; mm_unmap_range start stop m s }) = Some (m', s')"
          and res: "mm_inv s' m'" "\<forall>a. mapped s' m' a = (if start \<le> a \<and> a < stop then None else mapped s m0 a)"
            "\<forall>la < 2 ^ 48. pte_in (pgdir m') la = (if start \<le> la \<and> la < stop then 0 else pte_in (pgdir m0) la)"
          using unmap_split_ok [OF inv0 vm(1) _ _ al(4) _ al(1,2) pr0, of nv s1] nv0 vm split c Some by blast
        have e: "mm_unmap m addr len s = Some (0, m', s')"
          using un v split c Some u by (auto simp: bind_eq_Some_conv)
        have mp: "mapped s m la \<noteq> None" if "start \<le> la" "la < stop" for la
          unfolding mapped_None using vm split that by (meson le_less_trans less_imp_le less_le_trans)
        have "\<forall>la < 2 ^ 48. pte_in (pgdir m') la = (if start \<le> la \<and> la < stop \<and> mapped s m la \<noteq> None then 0 else pte_in (pgdir m) la)"
          using res(3) mp same(2) by metis
        then show ?thesis using e res(1,2) same True ok by simp
      qed
    next
      case over: False
      have no: "\<not> (\<exists>v \<in> set (mmap_list m). vm_start (vmas s v) < start \<and> stop < vm_end (vmas s v))" using uniq over by blast
      have "v \<notin> set A" using ordered_distinct [OF o] L(1) by simp
      then have dw: "dropWhile (\<lambda>u. u \<noteq> v) (mmap_list m0) = v # R" using L(1) same by (simp add: dropWhile_append)
      have ov: "start \<le> vm_start (vmas s v) \<or> vm_end (vmas s v) \<le> stop" using over by linarith
      have L0: "mmap_list m0 = A @ v # R" using L same by simp
      obtain m' s' where u: "(do { (m, fr) \<leftarrow> unmap_detach (v # R) stop m0 s []; unmap_free start stop fr m s }) = Some (m', s')"
        and res: "mm_inv s' m'" "\<forall>a. mapped s' m' a = (if start \<le> a \<and> a < stop then None else mapped s m0 a)"
          "\<forall>la < 2 ^ 48. pte_in (pgdir m') la = (if start \<le> la \<and> la < stop \<and> mapped s m0 la \<noteq> None then 0 else pte_in (pgdir m0) la)"
        using unmap_overlap_ok [OF inv0 L0 L(2,3) ov nosh0 al(1-3) pr0] by blast
      have "mm_unmap m addr len s = Some (0, m', s')"
        using un v over dw u by (auto simp: bind_eq_Some_conv simp del: unmap_detach.simps)
      then show ?thesis using res same True no by auto
    qed
  qed
qed

section \<open>The heap\<close>

lemma page_down_id: "unat a mod 4096 = 0 \<Longrightarrow> page_down a = a"
  using unat_page_down [of a] by (simp add: unsigned_word_eqI)

lemma page_up_id:
  assumes "unat a mod 4096 = 0" "unat a + 4095 < 2 ^ 64"
  shows "page_up a = a"
proof -
  have e: "unat (a + 4096 - 1) = unat a + 4095"
  proof -
    have "a + 4096 - 1 = a + 4095" by simp
    then show ?thesis using assms(2) by (simp only: unat_word_ariths) simp
  qed
  obtain k where "unat a = 4096 * k" using assms(1) by (auto simp: mod_eq_0_iff_dvd dvd_def)
  then have "unat (page_up a) = unat a" unfolding page_up_def unat_page_down e by simp
  then show ?thesis by (simp add: unsigned_word_eqI)
qed

lemma extend_inv:
  assumes inv: "mm_inv s m" and v: "v \<in> set (mmap_list m)" and b: "start < stop" "stop mod PGSIZE = 0" "stop \<le> USERTOP"
    and e: "vm_end (vmas s v) = start" and fr: "free_for (vmas s) (mmap_list m) start stop"
  defines "s' \<equiv> upd_vma v (\<lambda>x. x\<lparr>vm_end := stop\<rparr>) s"
  shows "mm_inv s' m" and "mapped s' m a = (if start \<le> a \<and> a < stop then Some (vm_flags (vmas s v)) else mapped s m a)"
proof -
  have W: "vmas s' = (vmas s)(v := (vmas s v)\<lparr>vm_end := stop\<rparr>)" by (simp add: s'_def)
  obtain A R where L: "mmap_list m = A @ v # R" using v by (meson split_list)
  have o: "ordered (vmas s) (A @ v # R)" using inv L by (simp add: mm_inv_def mm_ok_def)
  have d: "distinct (A @ v # R)" using o by (rule ordered_distinct)
  have R: "stop \<le> vm_start (vmas s u)" if "u \<in> set R" for u
  proof -
    have "start \<le> vm_start (vmas s u)" "vm_start (vmas s u) < vm_end (vmas s u)"
      using o that e by (auto simp: ordered_def sorted_wrt_append)
    moreover have "vm_end (vmas s u) \<le> start \<or> stop \<le> vm_start (vmas s u)" using fr L that by (simp add: free_for_def)
    ultimately show ?thesis by linarith
  qed
  have same: "\<forall>u \<in> set (A @ R). vmas s' u = vmas s u" using d by (auto simp: W)
  have lt: "vm_start (vmas s v) < start" using o e by (auto simp: ordered_append ordered_Cons)
  have vs: "vm_start (vmas s v) < stop" using o e b by (auto simp: ordered_append ordered_Cons)
  have "ordered (vmas s') A" "ordered (vmas s') R"
    using o same ordered_cong [of A "vmas s" "vmas s'"] ordered_cong [of R "vmas s" "vmas s'"] by (auto simp: ordered_append ordered_Cons)
  moreover have "\<forall>u \<in> set A. vm_end (vmas s' u) \<le> vm_start (vmas s' v)" using o d by (auto simp: W ordered_append)
  moreover have "\<forall>u \<in> set A. \<forall>w \<in> set R. vm_end (vmas s' u) \<le> vm_start (vmas s' w)"
    using o d same by (auto simp: ordered_append)
  moreover have "\<forall>u \<in> set R. vm_end (vmas s' v) \<le> vm_start (vmas s' u)" using R d by (auto simp: W)
  ultimately have o': "ordered (vmas s') (mmap_list m)" using vs unfolding L by (auto simp: ordered_append ordered_Cons W)
  have "vma_ok (vmas s v)" using inv v by (auto simp: mm_inv_def mm_ok_def)
  then have "vma_ok (vmas s' v)" using b vs by (auto simp: W vma_ok_def)
  then show inv': "mm_inv s' m" using inv o' by (auto simp: mm_inv_def mm_ok_def W s'_def upd_vma_def)
  have "mapped s' m a = Some fl \<longleftrightarrow> (if start \<le> a \<and> a < stop then Some (vm_flags (vmas s v)) else mapped s m a) = Some fl" for fl
  proof (cases "start \<le> a \<and> a < stop")
    case True
    then have "mapped s' m a = Some (vm_flags (vmas s v))"
      unfolding mapped_Some [OF inv'] using v lt e by (intro bexI [of _ v]) (auto simp: W)
    then show ?thesis using True by simp
  next
    case False
    have "vm_start (vmas s' u) \<le> a \<and> a < vm_end (vmas s' u) \<and> vm_flags (vmas s' u) = fl \<longleftrightarrow>
        vm_start (vmas s u) \<le> a \<and> a < vm_end (vmas s u) \<and> vm_flags (vmas s u) = fl" for u
      using False e b by (auto simp: W)
    then show ?thesis by (simp add: if_not_P [OF False] mapped_Some [OF inv'] mapped_Some [OF inv])
  qed
  then show "mapped s' m a = (if start \<le> a \<and> a < stop then Some (vm_flags (vmas s v)) else mapped s m a)"
    by (metis not_None_eq)
qed

lemma mm_brk_ok:
  assumes inv: "mm_inv s m" and st: "start = unat (page_down addr)" "stop = unat (page_up (addr + len))"
    and nosh: "private_in s m start stop" and pr: "all_present (pgdir m) start stop"
  shows "\<exists>ret m' s'. mm_brk m addr len s = Some (ret, m', s') \<and> mm_inv s' m' \<and> (ret = - E_INVAL \<longleftrightarrow> \<not> USER_ACCESS start stop) \<and>
    ret \<in> {0, - E_INVAL, - E_NO_MEM} \<and>
    (ret = 0 \<longrightarrow> (\<forall>a. mapped s' m' a = (if start \<le> a \<and> a < stop then Some (VM_READ OR VM_WRITE) else mapped s m a))) \<and>
    (ret \<noteq> 0 \<longrightarrow> (\<forall>a. mapped s' m' a = mapped s m a \<or> (start \<le> a \<and> a < stop \<and> mapped s' m' a = None)))"
proof (cases "USER_ACCESS start stop")
  case False
  then show ?thesis using inv by (simp add: mm_brk_def st Let_def)
next
  case True
  let ?b = "page_down addr" and ?e = "page_up (addr + len)" and ?fl = "VM_READ OR VM_WRITE"
  have al: "start mod PGSIZE = 0" "stop mod PGSIZE = 0" "start < stop" "stop \<le> USERTOP" "USERBASE \<le> start"
    using st True by (simp_all add: USER_ACCESS_def)
  have pd: "page_down ?b = ?b" using al(1) st by (intro page_down_id) simp
  have pu: "page_up (?b + (?e - ?b)) = ?e" using page_up_id [of ?e] al(2,4) st by (simp add: USERTOP_def)
  have st': "start = unat (page_down ?b)" "stop = unat (page_up (?b + (?e - ?b)))" unfolding pd pu using st by simp_all
  obtain ret m1 s1 where u: "mm_unmap m ?b (?e - ?b) s = Some (ret, m1, s1)" and inv1: "mm_inv s1 m1"
    and rv: "ret = (if \<not> USER_ACCESS start stop then - E_INVAL
           else if (\<exists>v \<in> set (mmap_list m). vm_start (vmas s v) < start \<and> stop < vm_end (vmas s v)) \<and>
             \<not> kmalloc_ok (kmem s) (kmalloc_calls (kmem s)) then - E_NO_MEM else 0)"
    and mp: "\<forall>a. mapped s1 m1 a = (if ret = 0 \<and> start \<le> a \<and> a < stop then None else mapped s m a)"
    using mm_unmap_ok [OF inv st' nosh pr] by (elim exE conjE) (erule (3) that)
  have ret: "ret = 0 \<or> ret = - E_NO_MEM" using rv True by simp
  show ?thesis
  proof (cases "ret = 0")
    case False
    then show ?thesis using u inv1 ret True st mp by (simp add: mm_brk_def Let_def)
  next
    case r0: True
    obtain r m2 where f: "find_vma (vmas s1) m1 (unat (?b - 1)) = (r, m2)" by fastforce
    have inv2: "mm_inv s1 m2" and r: "r = first_above (vmas s1) (unat (?b - 1)) (mmap_list m1)" using find_vma_inv [OF inv1 f] by auto
    note same = find_vma_same [OF f]
    have fr: "free_for (vmas s1) (mmap_list m2) start stop" unfolding free_for_def same
    proof
      fix u assume u: "u \<in> set (mmap_list m1)"
      show "vm_end (vmas s1 u) \<le> start \<or> stop \<le> vm_start (vmas s1 u)"
      proof (rule ccontr)
        assume n: "\<not> ?thesis"
        let ?a = "max start (vm_start (vmas s1 u))"
        have "vm_start (vmas s1 u) < vm_end (vmas s1 u)" using inv1 u by (auto simp: mm_inv_def mm_ok_def vma_ok_def)
        then have "start \<le> ?a" "?a < stop" "vm_start (vmas s1 u) \<le> ?a" "?a < vm_end (vmas s1 u)" using n al(3) by auto
        moreover from this have "mapped s1 m1 ?a = None" using mp r0 by simp
        ultimately show False using u unfolding mapped_None by blast
      qed
    qed
    have b: "mm_brk m addr len s = (case (case r of Some v \<Rightarrow> if vm_end (vmas s1 v) = start \<and> vm_flags (vmas s1 v) = ?fl then Some v else None | None \<Rightarrow> None) of
        Some v \<Rightarrow> Some (0, m2, upd_vma v (\<lambda>x. x\<lparr>vm_end := stop\<rparr>) s1)
      | None \<Rightarrow> (case vma_create start stop ?fl s1 of
          (None, s) \<Rightarrow> Some (- E_NO_MEM, m2, s)
        | (Some v, s) \<Rightarrow> do { (m, s) \<leftarrow> insert_vma_struct m2 v s; Some (0, m, s) }))"
      using u f r0 True unfolding st by (simp add: mm_brk_def Let_def)
    show ?thesis
    proof (cases "case r of Some v \<Rightarrow> if vm_end (vmas s1 v) = start \<and> vm_flags (vmas s1 v) = ?fl then Some v else None | None \<Rightarrow> None")
      case (Some v)
      then have v: "r = Some v" "vm_end (vmas s1 v) = start" "vm_flags (vmas s1 v) = ?fl" by (auto split: option.splits if_splits)
      have vm: "v \<in> set (mmap_list m2)" using v(1) r same by (auto simp: first_above_split)
      have "mm_brk m addr len s = Some (0, m2, upd_vma v (\<lambda>x. x\<lparr>vm_end := stop\<rparr>) s1)" using b Some by simp
      moreover note extend_inv [OF inv2 vm al(3,2,4) v(2) fr]
      ultimately show ?thesis using mp r0 same True v(3) by auto
    next
      case None
      obtain c s2 where c: "vma_create start stop ?fl s1 = (c, s2)" by fastforce
      show ?thesis
      proof (cases c)
        case cN: None
        have "mm_brk m addr len s = Some (- E_NO_MEM, m2, s2)" using b None c cN by simp
        then show ?thesis using mm_inv_fresh [OF inv2 c] True mp r0 same by simp
      next
        case (Some v)
        obtain m3 s3 where i: "insert_vma_struct m2 v s2 = Some (m3, s3)" "mm_inv s3 m3"
          "\<forall>a. mapped s3 m3 a = (if start \<le> a \<and> a < stop then Some ?fl else mapped s1 m2 a)"
          using map_new_vma [OF inv2 True al(1,2) fr c [unfolded Some]] by blast
        have "mm_brk m addr len s = Some (0, m3, s3)" using b None c Some i(1) by simp
        then show ?thesis using i mp r0 same True by auto
      qed
    qed
  qed
qed

section \<open>Address spaces that the kernel can build\<close>

text \<open>
  What the kernel does to an address space: giving it a page directory, mapping, unmapping, moving the break, having ranges checked, and,
  between these, any change to the page tables and to physical memory (page faults and swapping). The ranges that are unmapped, also by
  moving the break, are those of an address space with a directory and hold no swapped-out page.
\<close>

definition in_memory :: "mm_struct \<Rightarrow> u64 \<Rightarrow> u64 \<Rightarrow> bool" where
  "in_memory m addr len \<longleftrightarrow> all_present (pgdir m) (unat (page_down addr)) (unat (page_up (addr + len)))"

inductive mm_reach :: "vms \<Rightarrow> mm_struct \<Rightarrow> bool" where
  create: "mm_create s = (Some m, s') \<Longrightarrow> mm_reach s' m"
| map_range: "mm_reach s m \<Longrightarrow> mm_map m addr len fl s = Some (ret, m', v, s') \<Longrightarrow> mm_reach s' m'"
| unmap: "mm_reach s m \<Longrightarrow> in_memory m addr len \<Longrightarrow> mm_unmap m addr len s = Some (ret, m', s') \<Longrightarrow> mm_reach s' m'"
| move_brk: "mm_reach s m \<Longrightarrow> in_memory m addr len \<Longrightarrow> mm_brk m addr len s = Some (ret, m', s') \<Longrightarrow> mm_reach s' m'"
| check: "mm_reach s m \<Longrightarrow> user_mem_check (vmas s) (Some m) addr len wr = Some (ok, Some m') \<Longrightarrow> mm_reach s m'"
| new_pgdir: "mm_reach s m \<Longrightarrow> setup_pgdir init_pg m s = (ret, m', s') \<Longrightarrow> mm_reach s' m'"
| tables: "mm_reach s m \<Longrightarrow> pgdir m \<noteq> None \<Longrightarrow> mm_reach (set_phys p s) (m\<lparr>pgdir := Some pg\<rparr>)"
| others: "mm_reach s m \<Longrightarrow> mm_reach (set_phys p s) m"

definition private_flags :: "vms \<Rightarrow> mm_struct \<Rightarrow> bool" where
  "private_flags s m \<longleftrightarrow> (\<forall>a fl. mapped s m a = Some fl \<longrightarrow> fl AND VM_SHARE = 0)"

lemma private_flags_list:
  assumes "mm_inv s m"
  shows "private_flags s m \<longleftrightarrow> (\<forall>v \<in> set (mmap_list m). vm_flags (vmas s v) AND VM_SHARE = 0)"
proof -
  have "\<forall>v \<in> set (mmap_list m). vm_start (vmas s v) < vm_end (vmas s v)" using assms by (auto simp: mm_inv_def mm_ok_def vma_ok_def)
  then show ?thesis unfolding private_flags_def mapped_Some [OF assms] by (metis order_refl)
qed

lemma private_flags_in: "mm_inv s m \<Longrightarrow> private_flags s m \<Longrightarrow> private_in s m start stop"
  by (simp add: private_flags_list private_in_def)

lemma vm_flags_and_not: "(fl AND NOT VM_SHARE) AND VM_SHARE = 0" "(VM_READ OR VM_WRITE) AND VM_SHARE = 0"
  by (simp_all add: and.assoc VM_READ_def VM_WRITE_def VM_SHARE_def)

lemma user_mem_check_inv:
  assumes "mm_inv s m" "user_mem_check (vmas s) (Some m) addr len wr = Some (ok, Some m')"
  shows "mm_inv s m'" "mmap_list m' = mmap_list m"
  using assms check_loop_ok [of "vmas s" m "unat addr" "unat (addr + len)" wr]
  by (auto simp: user_mem_check_def mm_inv_def split: if_splits)

lemma mm_reach_inv: "mm_reach s m \<Longrightarrow> mm_inv s m \<and> private_flags s m"
proof (induction rule: mm_reach.induct)
  case (create s m s')
  then show ?case
    by (auto simp: mm_create_def kmalloc_def Let_def mm_inv_def mm_ok_def tree_ok_def private_flags_def flags_at_def split: if_splits)
next
  case (map_range s m addr len fl ret m' v s')
  then show ?case using mm_map_ok [OF _ refl refl, of s m addr len fl] vm_flags_and_not(1) [of fl]
    by (auto simp: private_flags_def split: if_splits)
next
  case (unmap s m addr len ret m' s')
  then have p: "private_in s m a b" "mm_inv s m" for a b using private_flags_in by auto
  then show ?case using mm_unmap_ok [OF p(2) refl refl p(1), of addr len] unmap by (auto simp: in_memory_def private_flags_def split: if_splits)
next
  case (move_brk s m addr len ret m' s')
  then have p: "private_in s m a b" "mm_inv s m" for a b using private_flags_in by auto
  have "mm_inv s' m' \<and> (\<forall>a. mapped s' m' a = Some (VM_READ OR VM_WRITE) \<or> mapped s' m' a = mapped s m a \<or> mapped s' m' a = None)"
    using mm_brk_ok [OF p(2) refl refl p(1), of addr len] move_brk by (cases "ret = 0") (auto simp: in_memory_def)
  then show ?case using move_brk.IH vm_flags_and_not(2) unfolding private_flags_def by (metis option.distinct(1) option.inject)
next
  case (check s m addr len wr ok m')
  then show ?case using user_mem_check_inv [of s m addr len wr ok m'] by (auto simp: private_flags_def)
next
  case (new_pgdir s m init_pg ret m' s')
  then show ?case by (auto simp: setup_pgdir_def mm_inv_def private_flags_def split: prod.splits option.splits)
qed (simp_all add: mm_inv_def private_flags_def)

section \<open>Properties\<close>

text \<open>
  C15: in a well-formed address space that has a page directory, let a range meet no shared area and hold no swapped-out page. Then
  unmapping it returns, leaves the address space well-formed and removes exactly that range: every address in it is in no area afterwards,
  every other address keeps its flags, and the page table entries of what was mapped are cleared and no other. It fails only outside user space
  or when the area to be split cannot be copied, and then no address changes its flags or its entry.
\<close>

theorem mm_unmap_exact:
  fixes addr len :: u64
  assumes "mm_inv s m"
  defines "start \<equiv> unat (page_down addr)" and "stop \<equiv> unat (page_up (addr + len))"
  assumes "private_in s m start stop" "all_present (pgdir m) start stop"
  shows "\<exists>ret m' s'. mm_unmap m addr len s = Some (ret, m', s') \<and> mm_inv s' m' \<and>
    ret = (if \<not> USER_ACCESS start stop then - E_INVAL
           else if (\<exists>v \<in> set (mmap_list m). vm_start (vmas s v) < start \<and> stop < vm_end (vmas s v)) \<and>
             \<not> kmalloc_ok (kmem s) (kmalloc_calls (kmem s)) then - E_NO_MEM else 0) \<and>
    (\<forall>a. flags_at (vmas s') (mmap_list m') a =
       (if ret = 0 \<and> start \<le> a \<and> a < stop then None else flags_at (vmas s) (mmap_list m) a)) \<and>
    (\<forall>la < 2 ^ 48. pte_in (pgdir m') la =
       (if ret = 0 \<and> start \<le> la \<and> la < stop \<and> flags_at (vmas s) (mmap_list m) la \<noteq> None then 0 else pte_in (pgdir m) la))"
  unfolding start_def stop_def by (rule mm_unmap_ok [OF assms(1) refl refl assms(4,5) [unfolded start_def stop_def]])

theorem mm_unmap_exact_witness:
  "mm_inv demo_vms demo_mm \<and> (\<exists>m' s'. mm_unmap demo_mm 0x20001000 0x1000 demo_vms = Some (0, m', s') \<and> mm_inv s' m' \<and>
     flags_at (vmas s') (mmap_list m') 0x20001000 = None \<and>
     flags_at (vmas s') (mmap_list m') 0x20002000 = Some (VM_READ OR VM_WRITE OR VM_STACK))"
proof -
  have u: "unat (page_down 0x20001000) = 0x20001000" "unat (page_up (0x20001000 + 0x1000)) = 0x20002000"
    by (simp_all add: page_up_def page_down_def)
  have f: "USER_ACCESS 0x20001000 0x20002000" "kmalloc_ok (kmem demo_vms) (kmalloc_calls (kmem demo_vms))"
    "flags_at (vmas demo_vms) (mmap_list demo_mm) 0x20002000 = Some (VM_READ OR VM_WRITE OR VM_STACK)"
    by (simp_all add: USER_ACCESS_def USERBASE_def USERTOP_def demo_vms_def demo_vmas_def demo_mm_def flags_at_def)
  have p: "private_in demo_vms demo_mm a b" "all_present (pgdir demo_mm) a b" for a b
    by (simp_all add: private_in_def demo_vms_def demo_vmas_def demo_mm_def all_present_def pte_at_def VM_READ_def VM_WRITE_def VM_EXEC_def VM_STACK_def VM_SHARE_def)
  show ?thesis
    using mm_unmap_exact [OF demo_mm_inv p, of "0x20001000" "0x1000"] demo_mm_inv unfolding u by (auto simp: f)
qed

text \<open>
  C16: every address space that the kernel builds from a fresh one by giving it a directory, mapping private ranges, unmapping, moving the
  break and checking ranges is well-formed, whatever happens to its page tables in between, as long as what is unmapped has a
  directory and no swapped-out page: its areas are sorted, disjoint, page aligned and in user space, its count, cache and tree agree with the
  list. On such an address space mapping and checking fail no assertion, and under the same condition neither do unmapping and moving the break.
\<close>

theorem address_space_well_formed:
  assumes "mm_reach s m"
  shows "mm_ok (vmas s) m \<and> mm_map m addr len fl s \<noteq> None \<and> user_mem_check (vmas s) (Some m) addr len wr \<noteq> None \<and>
    (in_memory m addr len \<longrightarrow> mm_unmap m addr len s \<noteq> None \<and> mm_brk m addr len s \<noteq> None)"
proof -
  have inv: "mm_inv s m" and p: "private_in s m a b" for a b using mm_reach_inv [OF assms] private_flags_in by auto
  have "mm_map m addr len fl s \<noteq> None" using mm_map_ok [OF inv refl refl, of addr len fl] by auto
  moreover have "user_mem_check (vmas s) (Some m) addr len wr \<noteq> None"
    using check_loop_ok [of "vmas s" m "unat addr" "unat (addr + len)" wr] inv by (auto simp: user_mem_check_def mm_inv_def)
  moreover have "mm_unmap m addr len s \<noteq> None" "mm_brk m addr len s \<noteq> None" if "in_memory m addr len"
    using mm_unmap_ok [OF inv refl refl p, of addr len] mm_brk_ok [OF inv refl refl p, of addr len] that by (auto simp: in_memory_def)
  ultimately show ?thesis using inv by (auto simp: mm_inv_def)
qed

theorem address_space_well_formed_witness:
  "\<exists>s m. mm_reach s m \<and> mm_ok (vmas s) m \<and> in_memory m 0x10000000 0x1000 \<and> mm_brk m 0x10000000 0x1000 s \<noteq> None"
proof -
  obtain m0 s0 where m0: "mm_create demo_vms = (Some m0, s0)" and s0: "phys_of s0 = boot_phys"
    by (simp add: mm_create_def kmalloc_def demo_vms_def Let_def phys_of_def)
  obtain m s where m: "setup_pgdir (\<lambda>_. None) m0 s0 = (0, m, s)" and pg: "pgdir m = Some (\<lambda>_. None)"
    using s0 by (simp add: setup_pgdir_def alloc_page_def boot_phys_def)
  have r: "mm_reach s m" by (rule new_pgdir [OF create [OF m0] m])
  have "in_memory m 0x10000000 0x1000" by (simp add: in_memory_def all_present_def pte_at_def pg)
  then show ?thesis using address_space_well_formed [OF r, of "0x10000000" "0x1000"] r by blast
qed

lemma insert_vma_struct_list:
  assumes "insert_vma_struct m v s = Some (m', s')"
  shows "v \<in> set (mmap_list m')" "vmas s' = (vmas s)(v := (vmas s v)\<lparr>vm_mm := mm_id m\<rparr>)" "mm_count m' = mm_count m"
  using assms
  by (auto simp: insert_vma_struct_def insert_place_def insert_vma_rb_def Let_def bind_eq_Some_conv split: option.splits prod.splits if_splits)

lemma vma_destroy_vmas: "vma_destroy v s = Some s' \<Longrightarrow> vmas s' = vmas s"
  by (auto simp: vma_destroy_def upd_shmem_def set_phys_def Let_def bind_eq_Some_conv split: if_splits)

lemma destroy_vmas_null:
  assumes "v \<in> set vs" "vm_flags (vmas s v) AND VM_SHARE \<noteq> 0" "vm_shmem (vmas s v) = None"
  shows "destroy_vmas vs s = None"
  using assms
proof (induction vs arbitrary: s)
  case (Cons u vs)
  show ?case
  proof (cases "vma_destroy u s")
    case (Some s')
    have "u \<noteq> v" using Some Cons.prems(2,3) by (auto simp: vma_destroy_def)
    then show ?thesis using Cons.IH [of s'] Cons.prems vma_destroy_vmas [OF Some] Some by simp
  qed simp
qed simp

definition shared_vms :: vms where
  "shared_vms = demo_vms\<lparr>vmas := (\<lambda>_. \<lparr>vm_mm = 7, vm_start = 0x10000000, vm_end = 0x10004000, vm_flags = VM_READ OR VM_SHARE,
     vm_shmem = Some 3, shmem_off = 0\<rparr>)\<rparr>"

definition shared_mm :: mm_struct where
  "shared_mm = demo_mm\<lparr>mmap_list := [0], mmap_cache := None, map_count := 1\<rparr>"

text \<open>
  C40: unmapping a range strictly inside a shared area leaves a new area that is marked as shared but has no shared memory object (and
  the object's count is not raised): destroying the address space afterwards always follows a null pointer.
\<close>

theorem mm_unmap_split_shared_panics:
  fixes addr len :: u64
  assumes "mm_inv s m" "v \<in> set (mmap_list m)" "vm_flags (vmas s v) AND VM_SHARE \<noteq> 0"
    and "vm_start (vmas s v) < unat (page_down addr)" "unat (page_up (addr + len)) < vm_end (vmas s v)"
    and "unat (page_down addr) < unat (page_up (addr + len))" and "mm_unmap m addr len s = Some (0, m', s')"
  shows "mm_destroy m' s' = None"
proof -
  let ?start = "unat (page_down addr)" and ?stop = "unat (page_up (addr + len))"
  have inv: "vma_ok (vmas s v)" "ordered (vmas s) (mmap_list m)" using assms(1,2) by (auto simp: mm_inv_def mm_ok_def)
  have u: "USER_ACCESS ?start ?stop" using inv(1) assms(4,5,6) by (auto simp: vma_ok_def USER_ACCESS_def)
  obtain r m0 where f: "find_vma (vmas s) m ?start = (r, m0)" by fastforce
  have r: "r = Some v"
    using find_vma_inv(2) [OF assms(1) f] first_above_hit [OF inv(2) assms(2), of ?start] assms(4,5,6) by simp
  obtain c s1 where c: "vma_create (vm_start (vmas s v)) ?start (vm_flags (vmas s v)) s = (c, s1)" by fastforce
  have "c \<noteq> None" using assms(4-7) u f r c by (cases c) (auto simp: mm_unmap_def Let_def)
  then obtain nv where nv: "c = Some nv" by blast
  obtain s2 m2 s3 where b: "vma_resize v ?stop (vm_end (vmas s1 v)) s1 = Some s2" "insert_vma_struct m0 nv s2 = Some (m2, s3)"
    "mm_unmap_range ?start ?stop m2 s3 = Some (m', s')"
    using assms(4-7) u f r c nv by (auto simp: mm_unmap_def Let_def bind_eq_Some_conv)
  have "nv \<noteq> v" using vma_create_cases(3) [OF c] nv assms(1,2) by (auto simp: mm_inv_def split: if_splits)
  then have "vm_flags (vmas s2 nv) = vm_flags (vmas s v)" "vm_shmem (vmas s2 nv) = None"
    using b(1) vma_create_cases(4) [OF c] nv by (auto simp: vma_resize_def)
  moreover have "vmas s' = vmas s3" "mmap_list m' = mmap_list m2" using b(3) by (auto simp: mm_unmap_range_def bind_eq_Some_conv)
  ultimately have "destroy_vmas (mmap_list m') s' = None"
    using destroy_vmas_null [of nv "mmap_list m'" s'] insert_vma_struct_list [OF b(2)] assms(3) by simp
  then show ?thesis by (simp add: mm_destroy_def kassert_def)
qed

theorem mm_unmap_split_shared_panics_witness:
  "mm_inv shared_vms shared_mm \<and>
   (\<exists>m' s'. mm_unmap shared_mm 0x10001000 0x1000 shared_vms = Some (0, m', s') \<and> mm_destroy m' s' = None)"
proof -
  have u: "unat (page_down 0x10001000) = 0x10001000" "unat (page_up (0x10001000 + 0x1000)) = 0x10002000"
    by (simp_all add: page_up_def page_down_def)
  have inv: "mm_inv shared_vms shared_mm"
    by (simp add: mm_inv_def mm_ok_def ordered_def vma_ok_def tree_ok_def shared_vms_def shared_mm_def demo_vms_def demo_mm_def USERBASE_def USERTOP_def)
  have ua: "USER_ACCESS 0x10001000 0x10002000" by (simp add: USER_ACCESS_def USERBASE_def USERTOP_def)
  have pr: "all_present (Some (\<lambda>_. None)) a b" for a b by (simp add: all_present_def pte_at_def)
  have ur: "\<exists>m' s'. mm_unmap_range 0x10001000 0x10002000 m s = Some (m', s')" if "pgdir m = Some (\<lambda>_. None)" for m s
    using mm_unmap_range_ok [OF ua, of m s] that pr by auto
  obtain m1 s1 where i: "mm_unmap shared_mm 0x10001000 0x1000 shared_vms =
      (mm_unmap_range 0x10001000 0x10002000 m1 s1 \<bind> (\<lambda>(m, s). Some (0, m, s)))" "pgdir m1 = Some (\<lambda>_. None)"
    by (simp add: mm_unmap_def Let_def u(1) u(2) [simplified] ua find_vma_def vma_create_def kmalloc_def vma_resize_def insert_vma_struct_def insert_place_def
        check_neighbours_def check_vma_overlap_def shared_vms_def shared_mm_def demo_vms_def demo_mm_def upd_vma_def RB_MIN_MAP_COUNT_def)
  then obtain m' s' where un: "mm_unmap shared_mm 0x10001000 0x1000 shared_vms = Some (0, m', s')" using ur [of m1 s1] by auto
  have "mm_destroy m' s' = None"
    by (rule mm_unmap_split_shared_panics [OF inv _ _ _ _ _ un, of 0, unfolded u])
      (simp_all add: shared_vms_def shared_mm_def VM_READ_def VM_SHARE_def)
  then show ?thesis using inv un by blast
qed

end
