(* ===== verification/Pgfault.thy ===== *)
theory Pgfault
  imports Vmm_Unmap Sem
begin

text \<open>
  The page fault handler \<^verbatim>\<open>do_pgfault\<close> and the lock of an address space (\<^verbatim>\<open>mm/vmm.c\<close>): demand allocation, shared memory, swapping in and
  copy-on-write. The handler takes the lock, may sleep for it, and then works on the page tables; \<open>fault_body\<close> is this work, and
  \<^verbatim>\<open>do_pgfault\<close> and its continuation after \<^verbatim>\<open>schedule()\<close> run it under the lock. Whether a read from the swap device succeeds is an
  argument. A process is always running, so \<^verbatim>\<open>current\<close> is never NULL.
\<close>

section \<open>The code\<close>

subsection \<open>The lock\<close>

definition cur_pid :: "kern \<Rightarrow> int" where
  "cur_pid s = pid (procs s (current s))"

text \<open>\<open>False\<close>: the running process is on the queue of \<^verbatim>\<open>mm_sem\<close> and continues with \<open>lock_mm_resume\<close>.\<close>

definition lock_mm :: "wait_id \<Rightarrow> (semaphore \<times> mm_struct) option \<Rightarrow> kern \<Rightarrow> (bool \<times> (semaphore \<times> mm_struct) option \<times> kern) option" where
  "lock_mm w m s = (case m of
       None \<Rightarrow> Some (True, None, s)
     | Some (l, m) \<Rightarrow> do {
         (got, l, s) \<leftarrow> ksem_down w l s;
         Some (got, Some (l, if got then m\<lparr>locked_by := cur_pid s\<rparr> else m), s)
       })"

definition lock_mm_resume :: "wait_id \<Rightarrow> (semaphore \<times> mm_struct) option \<Rightarrow> kern \<Rightarrow> ((semaphore \<times> mm_struct) option \<times> kern) option" where
  "lock_mm_resume w m s = (case m of
       None \<Rightarrow> Some (None, s)
     | Some (l, m) \<Rightarrow> do { s \<leftarrow> ksem_resume w l s; Some (Some (l, m\<lparr>locked_by := cur_pid s\<rparr>), s) })"

definition unlock_mm :: "(semaphore \<times> mm_struct) option \<Rightarrow> kern \<Rightarrow> ((semaphore \<times> mm_struct) option \<times> kern) option" where
  "unlock_mm m s = (case m of
       None \<Rightarrow> Some (None, s)
     | Some (l, m) \<Rightarrow> do { (l, s) \<leftarrow> up l s; Some (Some (l, m\<lparr>locked_by := 0\<rparr>), s) })"

definition try_lock_mm :: "(semaphore \<times> mm_struct) option \<Rightarrow> kern \<Rightarrow> bool \<times> (semaphore \<times> mm_struct) option" where
  "try_lock_mm m s = (case m of
       None \<Rightarrow> (True, None)
     | Some (l, m) \<Rightarrow>
         (case try_down l of
            (False, l) \<Rightarrow> (False, Some (l, m))
          | (True, l) \<Rightarrow> (True, Some (l, m\<lparr>locked_by := cur_pid s\<rparr>))))"

subsection \<open>The fault\<close>

definition fault_allowed :: "vma \<Rightarrow> u64 \<Rightarrow> nat \<Rightarrow> bool" where
  "fault_allowed x ec addr \<longleftrightarrow> \<not> vm_start x > addr \<and>
     \<not> (vm_flags x AND VM_STACK \<noteq> 0 \<and> addr < vm_start x + PGSIZE) \<and>
     (if ec AND 3 = 1 then False
      else if ec AND 3 = 0 then vm_flags x AND (VM_READ OR VM_EXEC) \<noteq> 0
      else vm_flags x AND VM_WRITE \<noteq> 0)"

definition fault_perm :: "u32 \<Rightarrow> u64" where
  "fault_perm fl = (if fl AND VM_WRITE \<noteq> 0 then PTE_U OR PTE_W else PTE_U)"

text \<open>The branch \<^verbatim>\<open>*ptep == 0\<close>; \<open>pte\<close> is the value of \<^verbatim>\<open>*ptep\<close>.\<close>

definition fault_empty :: "vma \<Rightarrow> pte_t \<Rightarrow> nat \<Rightarrow> u64 \<Rightarrow> pgd \<Rightarrow> vms \<Rightarrow> (int \<times> pgd \<times> vms) option" where
  "fault_empty x pte addr perm pg v =
     (if vm_flags x AND VM_SHARE = 0 then do {
        (r, pg, s) \<leftarrow> pgdir_alloc_page pg addr perm (phys_of v);
        Some (if r = None then - E_NO_MEM else 0, pg, set_phys s v)
      }
      else do {
        i \<leftarrow> vm_shmem x;
        (e, sh, k) \<leftarrow> shmem_get_entry (addr - vm_start x + shmem_off x) True (shmems v i) (kmem v);
        let v = v\<lparr>kmem := k, shmems := (shmems v)(i := sh)\<rparr> in
        case e of
          None \<Rightarrow> Some (- E_NO_MEM, pg, v)
        | Some (n, idx) \<Rightarrow>
            (let sh_pte = shmn_entry (shmns sh n) idx in
             if sh_pte = 0 then Some (- E_NO_MEM, pg, v)
             else if sh_pte AND PTE_P \<noteq> 0 then do {
               f \<leftarrow> pte2page sh_pte;
               (_, pg, s) \<leftarrow> page_insert pg f addr perm (phys_of v);
               Some (0, pg, set_phys s v)
             }
             else do {
               s \<leftarrow> swap_duplicate pte (phys_of v);
               Some (0, set_pte pg addr sh_pte, set_phys s v)
             })
      })"

definition free_new :: "nat option \<Rightarrow> phys \<Rightarrow> phys" where
  "free_new n s = (case n of None \<Rightarrow> s | Some f \<Rightarrow> free_page f s)"

text \<open>The branch \<^verbatim>\<open>*ptep != 0\<close>.\<close>

definition fault_entry :: "bool \<Rightarrow> u32 \<Rightarrow> u64 \<Rightarrow> pte_t \<Rightarrow> nat \<Rightarrow> u64 \<Rightarrow> pgd \<Rightarrow> phys \<Rightarrow> (int \<times> pgd \<times> phys) option" where
  "fault_entry read_ok fl ec pte addr perm pg s =
     (let cow = (fl AND (VM_SHARE OR VM_WRITE) = VM_WRITE); present = (pte AND PTE_P \<noteq> 0); wr = (ec AND 2 \<noteq> 0) in do {
        kassert (\<not> present \<or> wr \<and> pte AND PTE_W = 0 \<and> cow);
        (newpage, s) \<leftarrow> Some (if cow then alloc_page s else (None, s));
        ((ret, page), s) \<leftarrow> (if present then do { f \<leftarrow> pte2page pte; Some ((- E_NO_MEM, Some f), s) }
          else swap_in_page read_ok pte s);
        case page of
          None \<Rightarrow> Some (ret, pg, free_new newpage s)
        | Some f \<Rightarrow>
            (let ro = (\<not> present \<and> \<not> wr \<and> cow); perm = (if ro then perm AND NOT PTE_W else perm) in do {
               shared \<leftarrow> (if cow \<and> \<not> ro then do { c \<leftarrow> swap_page_count f s; Some (page_ref (pages s f) + int c > 1) } else Some False);
               if shared then
                 (case newpage of
                    None \<Rightarrow> Some (ret, pg, s)
                  | Some n \<Rightarrow> do {
                      (_, pg, s) \<leftarrow> page_insert pg n addr perm (upd_page n (\<lambda>p. p\<lparr>pg_data := pg_data (pages s f)\<rparr>) s);
                      Some (0, pg, s)
                    })
               else do {
                 (_, pg, s) \<leftarrow> page_insert pg f addr perm s;
                 Some (0, pg, free_new newpage s)
               }
             })
      })"

definition fault_body :: "bool \<Rightarrow> u64 \<Rightarrow> nat \<Rightarrow> mm_struct \<Rightarrow> vms \<Rightarrow> (int \<times> mm_struct \<times> vms) option" where
  "fault_body read_ok ec addr m v =
     (let (r, m) = find_vma (vmas v) m addr in
      case r of
        None \<Rightarrow> Some (- E_INVAL, m, v)
      | Some a \<Rightarrow>
          if \<not> fault_allowed (vmas v a) ec addr then Some (- E_INVAL, m, v)
          else
            (let x = vmas v a; perm = fault_perm (vm_flags x); addr = addr div PGSIZE * PGSIZE in
             do {
               pg \<leftarrow> pgdir m;
               case get_pte pg addr True (phys_of v) of
                 ((None, pg), s) \<Rightarrow> Some (- E_NO_MEM, m\<lparr>pgdir := Some pg\<rparr>, set_phys s v)
               | ((Some pte, pg), s) \<Rightarrow>
                   if pte = 0 then do { (ret, pg, v) \<leftarrow> fault_empty x pte addr perm pg (set_phys s v); Some (ret, m\<lparr>pgdir := Some pg\<rparr>, v) }
                   else do {
                     (ret, pg, s) \<leftarrow> fault_entry read_ok (vm_flags x) ec pte addr perm pg s;
                     Some (ret, m\<lparr>pgdir := Some pg\<rparr>, set_phys s v)
                   }
             }))"

datatype fault_result = Returned int | Sleeping

definition fault_locked :: "bool \<Rightarrow> bool \<Rightarrow> u64 \<Rightarrow> nat \<Rightarrow> semaphore \<times> mm_struct \<Rightarrow> kern \<Rightarrow> vms \<Rightarrow>
    (fault_result \<times> (semaphore \<times> mm_struct) option \<times> kern \<times> vms) option" where
  "fault_locked need_unlock read_ok ec addr m s v = do {
     (ret, b, v) \<leftarrow> fault_body read_ok ec addr (snd m) v;
     (m, s) \<leftarrow> (if need_unlock then unlock_mm (Some (fst m, b)) s else Some (Some (fst m, b), s));
     Some (Returned ret, m, s, v)
   }"

definition do_pgfault :: "wait_id \<Rightarrow> bool \<Rightarrow> u64 \<Rightarrow> nat \<Rightarrow> (semaphore \<times> mm_struct) option \<Rightarrow> kern \<Rightarrow> vms \<Rightarrow>
    (fault_result \<times> (semaphore \<times> mm_struct) option \<times> kern \<times> vms) option" where
  "do_pgfault w read_ok ec addr m s v = do {
     kassert (m \<noteq> None);
     (case try_lock_mm m s of
        (True, m) \<Rightarrow> do { m \<leftarrow> m; fault_locked True read_ok ec addr m s v }
      | (False, m) \<Rightarrow> do {
          (l, b) \<leftarrow> m;
          if locked_by b = cur_pid s then fault_locked False read_ok ec addr (l, b) s v
          else do {
            (got, m, s) \<leftarrow> lock_mm w (Some (l, b)) s;
            if got then do { m \<leftarrow> m; fault_locked True read_ok ec addr m s v }
            else Some (Sleeping, m, s, v)
          }
        })
   }"

definition do_pgfault_resume :: "wait_id \<Rightarrow> bool \<Rightarrow> u64 \<Rightarrow> nat \<Rightarrow> (semaphore \<times> mm_struct) option \<Rightarrow> kern \<Rightarrow> vms \<Rightarrow>
    (fault_result \<times> (semaphore \<times> mm_struct) option \<times> kern \<times> vms) option" where
  "do_pgfault_resume w read_ok ec addr m s v = do {
     (m, s) \<leftarrow> lock_mm_resume w m s;
     m \<leftarrow> m;
     fault_locked True read_ok ec addr m s v
   }"

section \<open>Walking and changing the tables\<close>

text \<open>What allocating page tables does to the frames: some leave the pool, nothing else changes.\<close>

definition takes :: "phys \<Rightarrow> phys \<Rightarrow> bool" where
  "takes s s' \<longleftrightarrow> swap_inv {} {} s' \<and> set (pool s') \<subseteq> set (pool s) \<and> (\<forall>g. g \<notin> set (pool s) \<longrightarrow> pages s' g = pages s g) \<and>
     (\<forall>g. pg_swap (pages s' g) = pg_swap (pages s g)) \<and> mem_map s' = mem_map s \<and> max_swap_offset s' = max_swap_offset s \<and> disk s' = disk s"

lemma takes_refl: "swap_inv {} {} s \<Longrightarrow> takes s s"
  by (simp add: takes_def)

lemma takes_trans: "takes a b \<Longrightarrow> takes b c \<Longrightarrow> takes a c"
  by (auto simp: takes_def)

lemma takes_inv: "takes s s' \<Longrightarrow> swap_inv {} {} s'"
  by (simp add: takes_def)

lemma alloc_page_takes:
  assumes "swap_inv {} {} s"
  shows "case alloc_page s of
      (None, s') \<Rightarrow> pool s = [] \<and> s' = s
    | (Some f, s') \<Rightarrow> takes s s' \<and> length (pool s) = Suc (length (pool s')) \<and> f \<in> set (pool s) \<and> f \<notin> set (pool s') \<and>
        page_ref (pages s' f) = 0 \<and> \<not> pg_swap (pages s' f)"
proof (cases "pool s")
  case Nil
  then show ?thesis by (simp add: alloc_page_def)
next
  case (Cons f fs)
  define s' where "s' = upd_page f page_struct_alloc (s\<lparr>pool := fs\<rparr>)"
  have al: "alloc_page s = (Some f, s')" using Cons by (simp add: alloc_page_def s'_def)
  have "\<not> pg_swap (pages s f)" using Cons assms by (simp add: swap_inv_def pool_ok_def)
  then have "\<forall>g. pg_swap (pages s' g) = pg_swap (pages s g)" by (simp add: s'_def upd_page_def page_struct_alloc_def)
  then show ?thesis using alloc_page_ok [OF assms al] al Cons by (auto simp: takes_def s'_def)
qed

lemma alloc_table_takes:
  assumes "swap_inv {} {} s"
  shows "case alloc_table c s of
      (None, s') \<Rightarrow> pool s = [] \<and> s' = s
    | (Some (f, t), s') \<Rightarrow> takes s s' \<and> length (pool s) = Suc (length (pool s')) \<and> t = c"
proof (cases "alloc_page s")
  case (Pair r s1)
  show ?thesis
  proof (cases r)
    case None
    then show ?thesis using alloc_page_takes [OF assms] Pair by (simp add: alloc_table_def)
  next
    case (Some f)
    have t: "takes s s1" "length (pool s) = Suc (length (pool s1))" "f \<in> set (pool s)"
      using alloc_page_takes [OF assms] Pair Some by simp_all
    have "swap_inv {} {} (upd_page f (\<lambda>p. p\<lparr>page_ref := 1\<rparr>) s1)" by (rule upd_page_ok [OF takes_inv [OF t(1)]]) simp_all
    then have "takes s (upd_page f (\<lambda>p. p\<lparr>page_ref := 1\<rparr>) s1)" using t(1,3) by (auto simp: takes_def upd_page_def)
    then show ?thesis using Pair Some t(2) by (simp add: alloc_table_def upd_page_def)
  qed
qed

text \<open>All the tables on the way to the entry of \<open>la\<close> exist.\<close>

definition has_pte :: "pgd \<Rightarrow> nat \<Rightarrow> bool" where
  "has_pte pg la \<longleftrightarrow> (\<exists>f1 pud f2 pmd f3 pt. pg (PGX la) = Some (f1, pud) \<and> pud (PUX la) = Some (f2, pmd) \<and> pmd (PMX la) = Some (f3, pt))"

lemma get_pte_has: "has_pte pg la \<Longrightarrow> get_pte pg la c s = ((Some (pte_at pg la), pg), s)"
  by (auto simp: has_pte_def get_pte_def get_pmd_def get_pud_def pte_at_def)

lemma set_pte_has: "has_pte pg la \<Longrightarrow> has_pte (set_pte pg la v) la"
  by (auto simp: has_pte_def set_pte_def set_pmd_def set_pud_def)

lemma digits_eq:
  fixes a b :: nat
  assumes "a < 512 * PUSIZE" "b < 512 * PUSIZE" "PGX a = PGX b" "PUX a = PUX b" "PMX a = PMX b" "PTX a = PTX b"
  shows "a div PGSIZE = b div PGSIZE"
proof -
  have d: "x div (512 * n) = y div (512 * n) \<Longrightarrow> x div n mod 512 = y div n mod 512 \<Longrightarrow> x div n = y div n" for x y n :: nat
  proof -
    assume "x div (512 * n) = y div (512 * n)" and m: "x div n mod 512 = y div n mod 512"
    then have "x div n div 512 = y div n div 512" by (simp add: div_mult2_eq mult.commute)
    then show "x div n = y div n" using m by (metis div_mult_mod_eq)
  qed
  have "a div (512 * PUSIZE) = b div (512 * PUSIZE)" using assms(1,2) by simp
  then have "a div PUSIZE = b div PUSIZE" using assms(3) d [of a PUSIZE b] by (simp add: PGX_def)
  then have "a div PMSIZE = b div PMSIZE" using assms(4) d [of a PMSIZE b] by (simp add: PUX_def PUSIZE_def)
  then have "a div PTSIZE = b div PTSIZE" using assms(5) d [of a PTSIZE b] by (simp add: PMX_def PMSIZE_def)
  then show ?thesis using assms(6) d [of a PGSIZE b] unfolding PTX_def PTSIZE_def by simp
qed

lemma page_digits:
  assumes "a div PGSIZE = b div PGSIZE"
  shows "PGX a = PGX b \<and> PUX a = PUX b \<and> PMX a = PMX b \<and> PTX a = PTX b"
proof -
  have "x div PUSIZE = x div PGSIZE div (512 * 512 * 512)" "x div PMSIZE = x div PGSIZE div (512 * 512)"
    "x div PTSIZE = x div PGSIZE div 512" for x :: nat
    by (simp_all add: PUSIZE_def PMSIZE_def PTSIZE_def flip: div_mult2_eq)
  then show ?thesis using assms unfolding PGX_def PUX_def PMX_def PTX_def by metis
qed

lemma pte_at_set:
  assumes "has_pte pg la" "la < 512 * PUSIZE" "a < 512 * PUSIZE"
  shows "pte_at (set_pte pg la v) a = (if a div PGSIZE = la div PGSIZE then v else pte_at pg a)"
proof (cases "a div PGSIZE = la div PGSIZE")
  case True
  then show ?thesis using page_digits [OF True] assms(1)
    by (auto simp: has_pte_def pte_at_def set_pte_def set_pmd_def set_pud_def)
next
  case False
  then have "PGX a \<noteq> PGX la \<or> PUX a \<noteq> PUX la \<or> PMX a \<noteq> PMX la \<or> PTX a \<noteq> PTX la" using digits_eq assms(2,3) by blast
  then show ?thesis using False assms(1)
    by (auto simp: has_pte_def pte_at_def set_pte_def set_pmd_def set_pud_def)
qed

lemma get_pud_create:
  assumes "swap_inv {} {} s"
  shows "\<exists>r pg s'. get_pud pg0 la True s = ((r, pg), s') \<and> takes s s' \<and> (\<forall>a. pte_at pg a = pte_at pg0 a) \<and>
    (case r of None \<Rightarrow> length (pool s) < 1
     | Some t \<Rightarrow> (\<exists>f. pg (PGX la) = Some (f, t)) \<and> length (pool s) \<le> length (pool s') + 1)"
proof (cases "pg0 (PGX la)")
  case (Some x)
  then show ?thesis using takes_refl [OF assms] by (cases x) (auto simp: get_pud_def)
next
  case None
  obtain r s1 where al: "alloc_table (\<lambda>i. None) s = (r :: (nat \<times> pud) option, s1)" by (metis surj_pair)
  show ?thesis
  proof (cases r)
    case n: None
    then show ?thesis using None al alloc_table_takes [OF assms, of "(\<lambda>i. None) :: pud"] takes_refl [OF assms] by (auto simp: get_pud_def)
  next
    case (Some x)
    obtain f t where x: "x = (f, t)" by (cases x)
    have "takes s s1" "length (pool s) = Suc (length (pool s1))" "t = (\<lambda>i. None)"
      using alloc_table_takes [OF assms, of "(\<lambda>i. None) :: pud"] al Some x by simp_all
    then show ?thesis using None al Some x by (auto simp: get_pud_def pte_at_def)
  qed
qed

lemma get_pmd_create:
  assumes "swap_inv {} {} s"
  shows "\<exists>r pg s'. get_pmd pg0 la True s = ((r, pg), s') \<and> takes s s' \<and> (\<forall>a. pte_at pg a = pte_at pg0 a) \<and>
    (case r of None \<Rightarrow> length (pool s) < 2
     | Some t \<Rightarrow> (\<exists>f1 pud f2. pg (PGX la) = Some (f1, pud) \<and> pud (PUX la) = Some (f2, t)) \<and> length (pool s) \<le> length (pool s') + 2)"
proof -
  obtain r pg s1 where u: "get_pud pg0 la True s = ((r, pg), s1)" "takes s s1" "\<forall>a. pte_at pg a = pte_at pg0 a"
    "case r of None \<Rightarrow> length (pool s) < 1 | Some t \<Rightarrow> (\<exists>f. pg (PGX la) = Some (f, t)) \<and> length (pool s) \<le> length (pool s1) + 1"
    using get_pud_create [OF assms] by blast
  show ?thesis
  proof (cases r)
    case None
    then show ?thesis using u by (auto simp: get_pmd_def)
  next
    case (Some pud)
    obtain f1 where f1: "pg (PGX la) = Some (f1, pud)" "length (pool s) \<le> length (pool s1) + 1" using u(4) Some by auto
    show ?thesis
    proof (cases "pud (PUX la)")
      case s: (Some x)
      then show ?thesis using u(1-3) f1 Some by (cases x) (auto simp: get_pmd_def)
    next
      case None
      obtain r2 s2 where al: "alloc_table (\<lambda>i. None) s1 = (r2 :: (nat \<times> pmd) option, s2)" by (metis surj_pair)
      note at = alloc_table_takes [OF takes_inv [OF u(2)], of "(\<lambda>i. None) :: pmd"]
      show ?thesis
      proof (cases r2)
        case n: None
        then show ?thesis using None Some al at u(1-3) f1 by (auto simp: get_pmd_def)
      next
        case s2: (Some x)
        obtain f t where x: "x = (f, t)" by (cases x)
        have t: "takes s1 s2" "length (pool s1) = Suc (length (pool s2))" "t = (\<lambda>i. None)" using at al s2 x by simp_all
        let ?pg = "set_pud pg la (pud(PUX la := Some (f, t)))"
        have "get_pmd pg0 la True s = ((Some t, ?pg), s2)" using u(1) Some None al s2 x by (simp add: get_pmd_def)
        moreover have "pte_at ?pg a = pte_at pg a" for a using f1(1) None t(3) by (simp add: set_pud_def pte_at_def)
        then have "\<forall>a. pte_at ?pg a = pte_at pg0 a" using u(3) by simp
        moreover have "takes s s2" by (rule takes_trans [OF u(2) t(1)])
        ultimately show ?thesis using f1 t(2) by (auto simp: set_pud_def)
      qed
    qed
  qed
qed

lemma get_pte_create:
  assumes "swap_inv {} {} s"
  shows "\<exists>r pg s'. get_pte pg0 la True s = ((r, pg), s') \<and> takes s s' \<and> (\<forall>a. pte_at pg a = pte_at pg0 a) \<and>
    (case r of None \<Rightarrow> length (pool s) < 3
     | Some v \<Rightarrow> v = pte_at pg0 la \<and> has_pte pg la \<and> length (pool s) \<le> length (pool s') + 3)"
proof -
  obtain r pg s1 where u: "get_pmd pg0 la True s = ((r, pg), s1)" "takes s s1" "\<forall>a. pte_at pg a = pte_at pg0 a"
    "case r of None \<Rightarrow> length (pool s) < 2
     | Some t \<Rightarrow> (\<exists>f1 pud f2. pg (PGX la) = Some (f1, pud) \<and> pud (PUX la) = Some (f2, t)) \<and> length (pool s) \<le> length (pool s1) + 2"
    using get_pmd_create [OF assms] by blast
  show ?thesis
  proof (cases r)
    case None
    then show ?thesis using u by (auto simp: get_pte_def)
  next
    case (Some pmd)
    obtain f1 pud f2 where f1: "pg (PGX la) = Some (f1, pud)" "pud (PUX la) = Some (f2, pmd)" "length (pool s) \<le> length (pool s1) + 2"
      using u(4) Some by auto
    have at: "pte_at pg la = pte_at pg0 la" using u(3) by blast
    show ?thesis
    proof (cases "pmd (PMX la)")
      case s: (Some x)
      obtain f3 pt where x: "x = (f3, pt)" by (cases x)
      have "get_pte pg0 la True s = ((Some (pte_at pg0 la), pg), s1)" using u(1) s f1 Some x at by (simp add: get_pte_def pte_at_def)
      moreover have "has_pte pg la" using f1 s x by (auto simp: has_pte_def)
      ultimately show ?thesis using u(2,3) f1(3) by auto
    next
      case None
      obtain r2 s2 where al: "alloc_table (\<lambda>i. 0) s1 = (r2 :: (nat \<times> ptab) option, s2)" by (metis surj_pair)
      note atk = alloc_table_takes [OF takes_inv [OF u(2)], of "(\<lambda>i. 0) :: ptab"]
      show ?thesis
      proof (cases r2)
        case n: None
        then show ?thesis using None Some al atk u(1-3) f1 by (auto simp: get_pte_def)
      next
        case s2: (Some x)
        obtain f t where x: "x = (f, t)" by (cases x)
        have t: "takes s1 s2" "length (pool s1) = Suc (length (pool s2))" "t = (\<lambda>i. 0)" using atk al s2 x by simp_all
        let ?pg = "set_pmd pg la (pmd(PMX la := Some (f, t)))"
        have "get_pte pg0 la True s = ((Some 0, ?pg), s2)" using u(1) Some None al s2 x t(3) by (simp add: get_pte_def)
        moreover have "pte_at pg0 la = 0" using at f1 None by (simp add: pte_at_def)
        moreover have "pte_at ?pg a = pte_at pg a" for a using f1 None t(3) by (simp add: set_pmd_def set_pud_def pte_at_def)
        then have "\<forall>a. pte_at ?pg a = pte_at pg0 a" using u(3) by simp
        moreover have "has_pte ?pg la" using f1 by (auto simp: has_pte_def set_pmd_def set_pud_def)
        moreover have "takes s s2" by (rule takes_trans [OF u(2) t(1)])
        ultimately show ?thesis using f1 t(2) by auto
      qed
    qed
  qed
qed

section \<open>What an entry denotes\<close>

definition frame_of :: "pte_t \<Rightarrow> nat" where
  "frame_of v = unat (drop_bit 12 v)"

text \<open>The contents of the page an entry stands for: its frame, the cached copy of a swapped-out page, or the swap device.\<close>

definition page_contents :: "phys \<Rightarrow> pte_t \<Rightarrow> pdata" where
  "page_contents s v =
     (if v AND PTE_P \<noteq> 0 then pg_data (pages s (frame_of v))
      else case swap_hash_find v s of Some f \<Rightarrow> pg_data (pages s f) | None \<Rightarrow> disk s (unat (drop_bit 8 v)))"

text \<open>An entry in use holds a reference: to a frame that is not free, or to a swap entry that counts it.\<close>

definition pte_ok :: "phys \<Rightarrow> pte_t \<Rightarrow> bool" where
  "pte_ok s v \<longleftrightarrow> (if v AND PTE_P \<noteq> 0 then frame_of v \<notin> set (pool s) \<and> 1 \<le> page_ref (pages s (frame_of v))
     else \<exists>off. 0 < off \<and> off < max_swap_offset s \<and> v = swap_entry off \<and> 0 < mem_map s off \<and> mem_map s off \<le> MAX_SWAP_REF)"

text \<open>A change of the frames that no entry in use notices.\<close>

definition keeps :: "phys \<Rightarrow> phys \<Rightarrow> bool" where
  "keeps s s' \<longleftrightarrow> swap_inv {} {} s' \<and> max_swap_offset s' = max_swap_offset s \<and> disk s' = disk s \<and>
     (\<forall>g. g \<notin> set (pool s) \<longrightarrow> g \<notin> set (pool s') \<and> pg_data (pages s' g) = pg_data (pages s g)) \<and>
     (\<forall>g. pg_swap (pages s g) \<longrightarrow> pg_swap (pages s' g) \<and> pg_index (pages s' g) = pg_index (pages s g)) \<and>
     (\<forall>g. pg_swap (pages s' g) \<longrightarrow> pg_swap (pages s g) \<or>
        (\<exists>off. 0 < off \<and> off < max_swap_offset s \<and> pg_index (pages s' g) = swap_entry off \<and> pg_data (pages s' g) = disk s off))"

lemma keeps_inv: "keeps s s' \<Longrightarrow> swap_inv {} {} s'"
  by (simp add: keeps_def)

lemma swap_not_pool: "swap_inv X Z s \<Longrightarrow> pg_swap (pages s g) \<Longrightarrow> g \<notin> set (pool s)"
  by (auto simp: swap_inv_def pool_ok_def)

lemma keeps_trans: "keeps a b \<Longrightarrow> keeps b c \<Longrightarrow> keeps a c"
  using swap_not_pool [of "{}" "{}" b] unfolding keeps_def by (metis (no_types, lifting))

lemma takes_keeps: "swap_inv {} {} s \<Longrightarrow> takes s s' \<Longrightarrow> keeps s s'"
  using swap_not_pool [of "{}" "{}" s] unfolding keeps_def takes_def by (metis (no_types, lifting) subsetD)

lemma keeps_refl: "swap_inv {} {} s \<Longrightarrow> keeps s s"
  using takes_keeps takes_refl by blast

lemma keeps_upd:
  assumes "keeps s0 s" "pg_swap (g (pages s f)) = pg_swap (pages s f)" "pg_index (g (pages s f)) = pg_index (pages s f)"
    "pg_active (g (pages s f)) = pg_active (pages s f)"
    "pg_data (g (pages s f)) = pg_data (pages s f) \<or> f \<in> set (pool s0) \<and> \<not> pg_swap (pages s f)"
  shows "keeps s0 (upd_page f g s)"
proof -
  have "swap_inv {} {} (upd_page f g s)" by (rule upd_page_ok [OF keeps_inv [OF assms(1)]]) (use assms(2-4) in simp_all)
  then show ?thesis using assms(1-3,5) unfolding keeps_def by (auto simp: upd_page_def) (metis neq0_conv)
qed

lemma keeps_mem_map:
  "keeps s0 s \<Longrightarrow> swap_inv {} {} (s\<lparr>mem_map := mc\<rparr>) \<Longrightarrow> keeps s0 (s\<lparr>mem_map := mc\<rparr>)"
  by (simp add: keeps_def)

lemma keeps_free_new:
  assumes "keeps s0 s" "\<forall>f. n = Some f \<longrightarrow> f \<in> set (pool s0) \<and> f \<notin> set (pool s) \<and> \<not> pg_swap (pages s f)"
  shows "keeps s0 (free_new n s)"
proof (cases n)
  case None
  then show ?thesis using assms by (simp add: free_new_def)
next
  case (Some f)
  then have "swap_inv {} {} (free_page f s)" using assms by (intro free_page_ok [OF keeps_inv]) auto
  then show ?thesis using assms Some unfolding keeps_def free_new_def by (auto simp: free_page_def)
qed

lemma swap_page_count_ok:
  assumes "swap_inv {} {} s"
  shows "\<exists>c. swap_page_count f s = Some c \<and> (\<not> pg_swap (pages s f) \<longrightarrow> c = 0) \<and>
    (\<forall>off. pg_swap (pages s f) \<and> off < max_swap_offset s \<and> pg_index (pages s f) = swap_entry off \<longrightarrow> c = mem_map s off)"
proof (cases "pg_swap (pages s f)")
  case True
  then obtain off where "off < max_swap_offset s" "pg_index (pages s f) = swap_entry off" "swap_offset (pg_index (pages s f)) s = Some off"
    using swap_page_offset [OF assms] by metis
  then show ?thesis using True swap_entry_inj [OF assms] by (auto simp: swap_page_count_def)
qed (simp add: swap_page_count_def)

lemma swap_entry_absent: "swap_inv {} {} s \<Longrightarrow> off < max_swap_offset s \<Longrightarrow> swap_entry off AND PTE_P = 0"
proof -
  have "\<not> bit (push_bit 8 (of_nat off) :: u64) 0" by (simp add: bit_push_bit_iff)
  then show ?thesis unfolding swap_entry_def PTE_P_def by (simp add: and_exp_eq_0_iff_not_bit [of _ 0, simplified] bit_0)
qed

lemma keeps_contents:
  assumes inv: "swap_inv {} {} s" and k: "keeps s s'" and v: "pte_ok s v"
  shows "page_contents s' v = page_contents s v"
proof (cases "v AND PTE_P \<noteq> 0")
  case True
  then show ?thesis using k v by (simp add: keeps_def pte_ok_def page_contents_def)
next
  case False
  then obtain off where off: "off < max_swap_offset s" "v = swap_entry off" using v by (auto simp: pte_ok_def)
  note i = swap_hash_find_iff [OF inv] and i' = swap_hash_find_iff [OF keeps_inv [OF k]]
  have d: "disk s' = disk s" using k by (simp add: keeps_def)
  have u: "unat (drop_bit 8 v) = off"
    using swap_entry_offset [of off] off inv by (simp add: swap_inv_def geo_ok_def)
  show ?thesis
  proof (cases "swap_hash_find v s")
    case (Some f)
    then have f: "pg_swap (pages s f)" "pg_index (pages s f) = v" using i(1) by blast+
    then have "swap_hash_find v s' = Some f" using k i'(1) unfolding keeps_def by metis
    then show ?thesis using False Some k swap_not_pool [OF inv f(1)] by (simp add: page_contents_def keeps_def)
  next
    case None
    have "pg_data (pages s' f) = disk s off" if "swap_hash_find v s' = Some f" for f
    proof -
      have f: "pg_swap (pages s' f)" "pg_index (pages s' f) = v" using i'(1) that by blast+
      moreover have "\<not> pg_swap (pages s f)"
        using None i(2) [of v] f k unfolding keeps_def by metis
      ultimately obtain o2 where "o2 < max_swap_offset s" "pg_index (pages s' f) = swap_entry o2" "pg_data (pages s' f) = disk s o2"
        using k unfolding keeps_def by blast
      then show ?thesis using f off swap_entry_inj [OF inv] by metis
    qed
    then show ?thesis using False None u d by (simp add: page_contents_def split: option.split)
  qed
qed

lemma swap_entry_nonzero: "swap_inv X Z s \<Longrightarrow> 0 < off \<Longrightarrow> off < max_swap_offset s \<Longrightarrow> swap_entry off \<noteq> 0"
  using swap_inv_offset [of X Z s off] by (auto simp: swap_offset_def Let_def split: if_splits)

lemma swap_in_page_pool:
  assumes "swap_in_page rd e s = Some ((ret, pg), s')" "e \<noteq> 0"
  shows "set (pool s') \<subseteq> set (pool s)" "disk s' = disk s" "max_swap_offset s' = max_swap_offset s" "length (pool s) \<le> length (pool s') + 1"
  using assms by (auto simp: swap_in_page_def alloc_page_def free_page_def swapfs_read_def swap_page_add_def swap_active_list_add_def
      upd_page_def Let_def split: option.splits list.splits if_splits elim!: bind_SomeE)

lemma swap_in_page_keeps:
  assumes inv: "swap_inv {} {} s" and off: "0 < off" "off < max_swap_offset s" "mem_map s off \<noteq> SWAP_UNUSED"
  shows "\<exists>ret pg s'. swap_in_page rd (swap_entry off) s = Some ((ret, pg), s') \<and> keeps s s' \<and> mem_map s' = mem_map s \<and>
    set (pool s') \<subseteq> set (pool s) \<and>
    (\<forall>g. \<not> pg_swap (pages s g) \<and> g \<notin> set (pool s) \<longrightarrow> pages s' g = pages s g) \<and>
    (case pg of
       Some f \<Rightarrow> ret = 0 \<and> pg_swap (pages s' f) \<and> pg_index (pages s' f) = swap_entry off \<and> (\<forall>g. g \<noteq> f \<longrightarrow> pages s' g = pages s g) \<and>
         (pg_swap (pages s f) \<and> s' = s \<or> f \<in> set (pool s) \<and> page_ref (pages s' f) = 0)
     | None \<Rightarrow> ret < 0 \<and> (rd \<longrightarrow> pool s = []))"
proof -
  obtain ret pg s' where sw: "swap_in_page rd (swap_entry off) s = Some ((ret, pg), s')" "swap_inv {} {} s'" "mem_map s' = mem_map s"
    "case pg of
       Some f \<Rightarrow> ret = 0 \<and> pg_swap (pages s' f) \<and> pg_index (pages s' f) = swap_entry off \<and> (\<forall>g. g \<noteq> f \<longrightarrow> pages s' g = pages s g) \<and>
         (if pg_swap (pages s f) then s' = s else rd \<and> f \<in> set (pool s) \<and> pg_data (pages s' f) = disk s off \<and> page_ref (pages s' f) = 0)
     | None \<Rightarrow> swap_hash_find (swap_entry off) s = None \<and> ret = (if pool s = [] then - E_NO_MEM else - E_SWAP_FAULT) \<and> (pool s \<noteq> [] \<longrightarrow> \<not> rd)"
    using swap_in_page_ok [OF inv off] by blast
  note p = swap_in_page_pool [OF sw(1) swap_entry_nonzero [OF inv off(1,2)]]
  show ?thesis
  proof (cases pg)
    case None
    have o: "swap_offset (swap_entry off) s = Some off" by (rule swap_inv_offset [OF inv off(1,2)])
    have h: "swap_hash_find (swap_entry off) s = None" using sw(4) None by simp
    have e: "pg_data (pages s' g) = pg_data (pages s g) \<and> pg_index (pages s' g) = pg_index (pages s g)"
      "g \<notin> set (pool s) \<longrightarrow> pages s' g = pages s g" for g
      using sw(1) None o h by (auto simp: swap_in_page_def alloc_page_def free_page_def upd_page_def page_struct_alloc_def
          split: list.splits if_splits elim!: bind_SomeE)
    have "pg_swap (pages s' g) = pg_swap (pages s g)" for g
      using sw(1) None o h inv by (auto simp: swap_in_page_def alloc_page_def free_page_def upd_page_def page_struct_alloc_def
          swap_inv_def pool_ok_def split: list.splits if_splits elim!: bind_SomeE)
    then have "keeps s s'" using sw(2) p e by (auto simp: keeps_def)
    then show ?thesis using sw p(1) None e by auto
  next
    case (Some f)
    then have f: "ret = 0" "pg_swap (pages s' f)" "pg_index (pages s' f) = swap_entry off" "\<forall>g. g \<noteq> f \<longrightarrow> pages s' g = pages s g"
      "if pg_swap (pages s f) then s' = s else rd \<and> f \<in> set (pool s) \<and> pg_data (pages s' f) = disk s off \<and> page_ref (pages s' f) = 0"
      using sw(4) by simp_all
    have "keeps s s'"
    proof (cases "pg_swap (pages s f)")
      case True
      then show ?thesis using f(5) keeps_refl [OF inv] by simp
    next
      case False
      then have d: "f \<in> set (pool s)" "pg_data (pages s' f) = disk s off" using f(5) by simp_all
      have "pg_data (pages s' g) = pg_data (pages s g)" if "g \<notin> set (pool s)" for g using f(4) d(1) that by metis
      moreover have "pg_swap (pages s' g) \<and> pg_index (pages s' g) = pg_index (pages s g)" if "pg_swap (pages s g)" for g
        using f(4) that False by metis
      moreover have "pg_swap (pages s g) \<or> (\<exists>o2. 0 < o2 \<and> o2 < max_swap_offset s \<and> pg_index (pages s' g) = swap_entry o2 \<and> pg_data (pages s' g) = disk s o2)"
        if "pg_swap (pages s' g)" for g
        using f(3,4) that d off(1,2) by metis
      ultimately show ?thesis using sw(2) p by (auto simp: keeps_def)
    qed
    moreover have "pages s' g = pages s g" if "\<not> pg_swap (pages s g)" "g \<notin> set (pool s)" for g
      using f(4,5) that by (metis (full_types))
    ultimately show ?thesis using sw(1,3) p(1) f Some by (auto split: if_splits)
  qed
qed

text \<open>Dropping a reference to a swap entry whose page is mapped or which has further references.\<close>

lemma swap_remove_cached:
  assumes inv: "swap_inv {} {} s" and off: "0 < off" "off < max_swap_offset s" "0 < mem_map s off" "mem_map s off \<le> MAX_SWAP_REF"
    and f: "pg_swap (pages s f)" "pg_index (pages s f) = swap_entry off" and c: "page_ref (pages s f) \<noteq> 0 \<or> 1 < mem_map s off"
  shows "swap_remove_entry (swap_entry off) s = Some (s\<lparr>mem_map := (mem_map s)(off := mem_map s off - 1)\<rparr>)" (is "_ = Some ?s")
    "swap_inv {} {} (s\<lparr>mem_map := (mem_map s)(off := mem_map s off - 1)\<rparr>)"
proof -
  have "swap_hash_find (swap_entry off) ?s = Some f" using swap_hash_find_iff(1) [OF inv] f by (simp add: swap_hash_find_def)
  then show "swap_remove_entry (swap_entry off) s = Some ?s"
    using swap_inv_offset [OF inv off(1,2)] off(3) c by (auto simp: swap_remove_entry_def Let_def)
  show "swap_inv {} {} ?s"
    by (rule mem_map_ok [OF inv]) (use off f in \<open>auto simp: MAX_SWAP_REF_def SWAP_UNUSED_def\<close>)
qed

text \<open>The entry that \<^verbatim>\<open>page_insert\<close> writes.\<close>

lemma new_entry:
  assumes "f < 2 ^ 52" "perm = PTE_U \<or> perm = PTE_U OR PTE_W"
  defines "v \<equiv> page2pa f OR PTE_P OR perm"
  shows "v AND PTE_P \<noteq> 0" "v AND PTE_U \<noteq> 0" "(v AND PTE_W \<noteq> 0) = (perm = PTE_U OR PTE_W)" "frame_of v = f" "pte2page v = Some f"
proof -
  have low: "\<not> bit (page2pa f) n" if "n < 12" for n using that by (simp add: page2pa_def bit_push_bit_iff)
  have c: "PTE_P = 2 ^ 0" "PTE_W = 2 ^ 1" "PTE_U = 2 ^ 2" by (simp_all add: PTE_P_def PTE_W_def PTE_U_def)
  have b: "bit v 0" "bit v 2" "bit v 1 = (perm = PTE_U OR PTE_W)"
    using assms(2) low [of 1] by (auto simp: v_def bit_or_iff c bit_exp_iff)
  show p: "v AND PTE_P \<noteq> 0" "v AND PTE_U \<noteq> 0" "(v AND PTE_W \<noteq> 0) = (perm = PTE_U OR PTE_W)"
    using b unfolding c and_exp_eq_0_iff_not_bit by simp_all
  have "drop_bit 12 PTE_P = 0" "drop_bit 12 perm = 0" using assms(2) by (auto simp: PTE_P_def PTE_U_def PTE_W_def)
  then have "drop_bit 12 v = drop_bit 12 (page2pa f)" by (simp add: v_def)
  also have "\<dots> = (of_nat f :: u64)"
  proof (rule bit_word_eqI)
    fix n assume n: "n < LENGTH(64)"
    have "bit (of_nat f :: u64) n = bit f n" using n assms(1) bit_unsigned_iff [of "of_nat f :: u64" n, where 'a = nat]
      by (simp add: unat_of_nat_less)
    moreover have "\<not> bit f n" if "52 \<le> n"
      using assms(1) that power_increasing [of 52 n "2 :: nat"] by (simp add: bit_iff_odd)
    ultimately have "bit (of_nat f :: u64) n \<longrightarrow> n < 52" using not_less by blast
    then show "bit (drop_bit 12 (page2pa f)) n = bit (of_nat f :: u64) n"
      using n by (auto simp: bit_drop_bit_eq page2pa_def bit_push_bit_iff)
  qed
  finally show "frame_of v = f" using assms(1) by (simp add: frame_of_def unat_of_nat_less)
  then show "pte2page v = Some f" using p(1) by (simp add: pte2page_def frame_of_def)
qed

section \<open>Installing a frame\<close>

lemma insert_same:
  assumes "has_pte pg la" "pte_at pg la AND PTE_P \<noteq> 0"
  shows "page_insert pg (frame_of (pte_at pg la)) la perm s = Some (0, set_pte pg la (page2pa (frame_of (pte_at pg la)) OR PTE_P OR perm), s)"
proof -
  have "pte_at pg la \<noteq> 0" using assms(2) by auto
  then show ?thesis using assms get_pte_has [OF assms(1)]
    by (simp add: page_insert_def pte2page_def frame_of_def upd_page_def)
qed

lemma insert_over_frame:
  assumes "has_pte pg la" "pte_at pg la AND PTE_P \<noteq> 0" and k: "keeps s0 s" and n: "frame_of (pte_at pg la) \<noteq> n"
    and free: "\<not> pg_swap (pages s (frame_of (pte_at pg la))) \<longrightarrow> 1 < page_ref (pages s (frame_of (pte_at pg la)))"
  shows "\<exists>s'. page_insert pg n la perm s = Some (0, set_pte pg la (page2pa n OR PTE_P OR perm), s') \<and> keeps s0 s' \<and>
    pages s' n = (pages s n)\<lparr>page_ref := page_ref (pages s n) + 1\<rparr>"
proof -
  let ?g = "frame_of (pte_at pg la)"
  let ?s1 = "upd_page n (\<lambda>p. p\<lparr>page_ref := page_ref p + 1\<rparr>) s"
  have k1: "keeps s0 ?s1" by (rule keeps_upd [OF k]) simp_all
  have g: "pte2page (pte_at pg la) = Some ?g" "pte_at pg la \<noteq> 0" using assms(2) by (auto simp: pte2page_def frame_of_def)
  have "\<exists>s'. page_remove_pte (pte_at pg la) ?s1 = Some s' \<and> keeps s0 s' \<and> pages s' n = pages ?s1 n"
  proof (cases "pg_swap (pages s ?g)")
    case False
    let ?s2 = "upd_page ?g (\<lambda>p. p\<lparr>page_ref := page_ref p - 1\<rparr>) ?s1"
    have "keeps s0 ?s2" by (rule keeps_upd [OF k1]) simp_all
    moreover have "page_remove_pte (pte_at pg la) ?s1 = Some ?s2" using assms(2) g(1) n False free by (simp add: page_remove_pte_def Let_def)
    ultimately show ?thesis using n by auto
  next
    case True
    let ?d = "if pte_at pg la AND PTE_D \<noteq> 0 then upd_page ?g (\<lambda>p. p\<lparr>pg_dirty := True\<rparr>) ?s1 else ?s1"
    let ?s2 = "upd_page ?g (\<lambda>p. p\<lparr>page_ref := page_ref p - 1\<rparr>) ?d"
    have "keeps s0 ?d" using keeps_upd [OF k1, of "\<lambda>p. p\<lparr>pg_dirty := True\<rparr>" ?g] k1 by simp
    then have "keeps s0 ?s2" by (rule keeps_upd) simp_all
    moreover have "page_remove_pte (pte_at pg la) ?s1 = Some ?s2" using assms(2) g(1) n True by (simp add: page_remove_pte_def Let_def)
    ultimately show ?thesis using n by auto
  qed
  then show ?thesis using get_pte_has [OF assms(1)] assms(2) g n by (auto simp: page_insert_def)
qed

lemma insert_over_swap:
  assumes "has_pte pg la" "pte_at pg la = swap_entry off" and k: "keeps s0 s"
    and off: "0 < off" "off < max_swap_offset s" "0 < mem_map s off" "mem_map s off \<le> MAX_SWAP_REF"
    and h: "pg_swap (pages s h)" "pg_index (pages s h) = swap_entry off" and c: "0 \<le> page_ref (pages s h)" "f = h \<or> 0 < page_ref (pages s h) \<or> 1 < mem_map s off"
  shows "\<exists>s'. page_insert pg f la perm s = Some (0, set_pte pg la (page2pa f OR PTE_P OR perm), s') \<and> keeps s0 s' \<and>
    pages s' f = (pages s f)\<lparr>page_ref := page_ref (pages s f) + 1\<rparr> \<and> mem_map s' = (mem_map s)(off := mem_map s off - 1) \<and>
    max_swap_offset s' = max_swap_offset s \<and> pool s' = pool s \<and> (\<forall>g. g \<noteq> f \<longrightarrow> pages s' g = pages s g)"
proof -
  let ?s1 = "upd_page f (\<lambda>p. p\<lparr>page_ref := page_ref p + 1\<rparr>) s"
  have k1: "keeps s0 ?s1" by (rule keeps_upd [OF k]) simp_all
  have e: "pte_at pg la AND PTE_P = 0" "pte_at pg la \<noteq> 0"
    using swap_entry_absent [OF keeps_inv [OF k] off(2)] swap_entry_nonzero [OF keeps_inv [OF k] off(1,2)] assms(2) by simp_all
  have "mem_map ?s1 = mem_map s" "max_swap_offset ?s1 = max_swap_offset s" by (simp_all add: upd_page_def)
  moreover have "pg_swap (pages ?s1 h)" "pg_index (pages ?s1 h) = swap_entry off" "page_ref (pages ?s1 h) \<noteq> 0 \<or> 1 < mem_map s off"
    using h c by auto
  ultimately have r: "swap_remove_entry (swap_entry off) ?s1 = Some (?s1\<lparr>mem_map := (mem_map s)(off := mem_map s off - 1)\<rparr>)"
    "swap_inv {} {} (?s1\<lparr>mem_map := (mem_map s)(off := mem_map s off - 1)\<rparr>)"
    using swap_remove_cached [OF keeps_inv [OF k1], of off h] off by simp_all
  have "keeps s0 (?s1\<lparr>mem_map := (mem_map s)(off := mem_map s off - 1)\<rparr>)" by (rule keeps_mem_map [OF k1 r(2)])
  then show ?thesis using get_pte_has [OF assms(1)] assms(2) e r(1)
    by (simp add: page_insert_def page_remove_pte_def)
qed

section \<open>A fault in a private area\<close>

text \<open>The entry is the only reference to its frame, counting those of the swap entry.\<close>

definition sole_owner :: "phys \<Rightarrow> nat \<Rightarrow> bool" where
  "sole_owner s f \<longleftrightarrow> (\<exists>c. swap_page_count f s = Some c \<and> page_ref (pages s f) + int c = 1)"

definition resolved :: "phys \<Rightarrow> pte_t \<Rightarrow> bool \<Rightarrow> phys \<Rightarrow> pte_t \<Rightarrow> bool" where
  "resolved s old wr s' new \<longleftrightarrow> new AND PTE_P \<noteq> 0 \<and> new AND PTE_U \<noteq> 0 \<and> (wr \<longrightarrow> new AND PTE_W \<noteq> 0) \<and>
     (new AND PTE_W \<noteq> 0 \<longrightarrow> sole_owner s' (frame_of new)) \<and> (old \<noteq> 0 \<longrightarrow> page_contents s' new = page_contents s old)"

definition frames_ok :: "phys \<Rightarrow> bool" where
  "frames_ok s \<longleftrightarrow> swap_inv {} {} s \<and>
     (\<forall>f. f \<in> set (pool s) \<or> pg_swap (pages s f) \<longrightarrow> f < 2 ^ 52) \<and> (\<forall>f. pg_swap (pages s f) \<longrightarrow> 0 \<le> page_ref (pages s f))"

lemma free_new_simps [simp]: "pages (free_new n s) = pages s" "swap_page_count f (free_new n s) = swap_page_count f s"
  by (cases n; simp add: free_new_def free_page_def swap_page_count_def swap_offset_def)+

lemma private_cow:
  assumes "fl AND VM_SHARE = 0"
  shows "(fl AND (VM_SHARE OR VM_WRITE) = VM_WRITE) = (fl AND VM_WRITE \<noteq> 0)"
proof -
  have "fl AND VM_WRITE = (if bit fl 1 then VM_WRITE else 0)"
    using and_exp_eq_0_iff_not_bit [of fl 1] by (auto simp: VM_WRITE_def bit_simps intro!: bit_word_eqI)
  then show ?thesis using assms by (auto simp: bit.conj_disj_distrib VM_WRITE_def)
qed

lemma frame_of_small: "frame_of v < 2 ^ 52"
proof -
  have "unat v < 2 ^ 64" using unat_lt2p [of v] by simp
  then show ?thesis by (simp add: frame_of_def drop_bit_eq_div unat_div less_mult_imp_div_less)
qed

lemma fault_perm_cases:
  "fault_perm fl = (if fl AND VM_WRITE \<noteq> 0 then PTE_U OR PTE_W else PTE_U)" "(PTE_U OR PTE_W) AND NOT PTE_W = PTE_U" "PTE_U AND NOT PTE_W = PTE_U"
  by (simp_all add: fault_perm_def PTE_U_def PTE_W_def)

lemma resolvedI:
  assumes "f < 2 ^ 52" "perm = PTE_U \<or> perm = PTE_U OR PTE_W" "wr \<longrightarrow> perm = PTE_U OR PTE_W"
    "perm = PTE_U OR PTE_W \<longrightarrow> sole_owner s' f" "old \<noteq> 0 \<longrightarrow> pg_data (pages s' f) = page_contents s old"
  shows "resolved s old wr s' (page2pa f OR PTE_P OR perm)"
  using new_entry [OF assms(1,2)] assms(3-5) by (auto simp: resolved_def page_contents_def)

text \<open>Either the fault is resolved, or the tables are as before and memory or the device has failed.\<close>

definition fault_outcome :: "bool \<Rightarrow> bool \<Rightarrow> nat \<Rightarrow> pte_t \<Rightarrow> pgd \<Rightarrow> phys \<Rightarrow> int \<times> pgd \<times> phys \<Rightarrow> bool" where
  "fault_outcome rd wr la old pg s r = (case r of (ret, pg', s') \<Rightarrow> keeps s s' \<and>
     ((\<exists>new. ret = 0 \<and> pg' = set_pte pg la new \<and> resolved s old wr s' new) \<or> pg' = pg \<and> \<not> (rd \<and> 2 \<le> length (pool s))))"

lemma cow_alloc:
  assumes "swap_inv {} {} s"
  obtains n s1 where "(if cow then alloc_page s else (None, s)) = (n, s1)" "takes s s1" "length (pool s) \<le> length (pool s1) + 1"
    "\<forall>f. n = Some f \<longrightarrow> f \<in> set (pool s) \<and> f \<notin> set (pool s1) \<and> page_ref (pages s1 f) = 0 \<and> \<not> pg_swap (pages s1 f)"
    "cow \<and> n = None \<longrightarrow> pool s = []"
proof (cases cow)
  case False
  then show ?thesis using that [of None s] takes_refl [OF assms] by simp
next
  case True
  obtain n s1 where al: "alloc_page s = (n, s1)" by (metis surj_pair)
  then show ?thesis using alloc_page_takes [OF assms] takes_refl [OF assms] True that [of n s1] by (cases n) auto
qed

lemma fault_present_ok:
  assumes ok: "frames_ok s" and pg: "has_pte pg la" "pte_at pg la AND PTE_P \<noteq> 0" "pte_at pg la AND PTE_W = 0" and v: "pte_ok s (pte_at pg la)"
    and fl: "fl AND VM_SHARE = 0" "fl AND VM_WRITE \<noteq> 0" and wr: "ec AND 2 \<noteq> 0"
  shows "\<exists>r. fault_entry rd fl ec (pte_at pg la) la (fault_perm fl) pg s = Some r \<and> fault_outcome rd True la (pte_at pg la) pg s r"
proof -
  let ?v = "pte_at pg la" let ?f = "frame_of ?v"
  have inv: "swap_inv {} {} s" using ok by (simp add: frames_ok_def)
  obtain n s1 where n: "alloc_page s = (n, s1)" "takes s s1" "length (pool s) \<le> length (pool s1) + 1"
    "\<forall>f. n = Some f \<longrightarrow> f \<in> set (pool s) \<and> f \<notin> set (pool s1) \<and> page_ref (pages s1 f) = 0 \<and> \<not> pg_swap (pages s1 f)" "n = None \<longrightarrow> pool s = []"
    using cow_alloc [OF inv, of True] by auto
  have k1: "keeps s s1" by (rule takes_keeps [OF inv n(2)])
  obtain c where c: "swap_page_count ?f s1 = Some c" "\<not> pg_swap (pages s1 ?f) \<longrightarrow> c = 0" using swap_page_count_ok [OF keeps_inv [OF k1], of ?f] by blast
  have f: "?f \<notin> set (pool s)" "pages s1 ?f = pages s ?f" using v pg(2) n(2) by (simp_all add: pte_ok_def takes_def)
  have d: "pg_data (pages s ?f) = page_contents s ?v" using pg(2) by (simp add: page_contents_def)
  have cow: "fl AND (VM_SHARE OR VM_WRITE) = VM_WRITE" using private_cow [OF fl(1)] fl(2) by simp
  have perm: "fault_perm fl = PTE_U OR PTE_W" using fl(2) by (simp add: fault_perm_def)
  have e: "pte2page ?v = Some ?f" using pg(2) by (simp add: pte2page_def frame_of_def)
  note fe = fault_entry_def [of rd fl ec ?v la "PTE_U OR PTE_W" pg s]
  show ?thesis
  proof (cases "page_ref (pages s1 ?f) + int c > 1")
    case False
    let ?s2 = "free_new n s1"
    have "keeps s ?s2" by (rule keeps_free_new [OF k1]) (use n(4) in blast)
    moreover have "sole_owner ?s2 ?f"
    proof -
      have "1 \<le> page_ref (pages s ?f)" using v pg(2) by (simp add: pte_ok_def)
      then have "page_ref (pages s1 ?f) + int c = 1" using False f(2) by simp
      then show ?thesis using c(1) by (simp add: sole_owner_def)
    qed
    moreover have "pg_data (pages ?s2 ?f) = page_contents s ?v" using f(2) d by simp
    ultimately have "fault_outcome rd True la ?v pg s (0, set_pte pg la (page2pa ?f OR PTE_P OR (PTE_U OR PTE_W)), ?s2)"
      unfolding fault_outcome_def using resolvedI [OF frame_of_small, of "PTE_U OR PTE_W" True ?s2 ?v ?v s] by auto
    then show ?thesis unfolding perm fe
      using pg cow wr n(1) e c(1) False insert_same [OF pg(1,2)] by simp
  next
    case True
    show ?thesis
    proof (cases n)
      case None
      then have "fault_outcome rd True la ?v pg s (- E_NO_MEM, pg, s1)" using k1 n(5) by (simp add: fault_outcome_def)
      then show ?thesis unfolding perm fe using pg cow wr n(1) e c(1) True None by simp
    next
      case (Some m)
      let ?s2 = "upd_page m (\<lambda>p. p\<lparr>pg_data := pg_data (pages s1 ?f)\<rparr>) s1"
      have m: "m \<in> set (pool s)" "page_ref (pages s1 m) = 0" "\<not> pg_swap (pages s1 m)" using n(4) Some by blast+
      then have mf: "?f \<noteq> m" using f(1) by auto
      have k2: "keeps s ?s2" by (rule keeps_upd [OF k1]) (use m in auto)
      have "\<not> pg_swap (pages ?s2 ?f) \<longrightarrow> 1 < page_ref (pages ?s2 ?f)" using True c(2) mf by auto
      then obtain s3 where s3: "page_insert pg m la (PTE_U OR PTE_W) ?s2 = Some (0, set_pte pg la (page2pa m OR PTE_P OR (PTE_U OR PTE_W)), s3)"
        "keeps s s3" "pages s3 m = (pages ?s2 m)\<lparr>page_ref := page_ref (pages ?s2 m) + 1\<rparr>"
        using insert_over_frame [OF pg(1,2) k2 mf] by blast
      have "sole_owner s3 m" using s3(3) m by (simp add: sole_owner_def swap_page_count_def)
      moreover have "m < 2 ^ 52" using ok m(1) by (simp add: frames_ok_def)
      ultimately have "fault_outcome rd True la ?v pg s (0, set_pte pg la (page2pa m OR PTE_P OR (PTE_U OR PTE_W)), s3)"
        unfolding fault_outcome_def using resolvedI [of m "PTE_U OR PTE_W" True s3 ?v s] s3 f(2) d by auto
      then show ?thesis unfolding perm fe using pg cow wr n(1) e c(1) True Some s3(1) by simp
    qed
  qed
qed

lemma fault_swapped_ok:
  assumes ok: "frames_ok s" and pg: "has_pte pg la" "pte_at pg la AND PTE_P = 0" and v: "pte_ok s (pte_at pg la)"
    and fl: "fl AND VM_SHARE = 0" and wr: "ec AND 2 \<noteq> 0 \<longrightarrow> fl AND VM_WRITE \<noteq> 0"
  shows "\<exists>r. fault_entry rd fl ec (pte_at pg la) la (fault_perm fl) pg s = Some r \<and> fault_outcome rd (ec AND 2 \<noteq> 0) la (pte_at pg la) pg s r"
proof -
  let ?v = "pte_at pg la" let ?cow = "fl AND VM_WRITE \<noteq> 0" let ?wr = "ec AND 2 \<noteq> 0"
  have inv: "swap_inv {} {} s" using ok by (simp add: frames_ok_def)
  obtain off where off: "0 < off" "off < max_swap_offset s" "?v = swap_entry off" "0 < mem_map s off" "mem_map s off \<le> MAX_SWAP_REF"
    using v pg(2) by (auto simp: pte_ok_def)
  obtain n s1 where n: "(if ?cow then alloc_page s else (None, s)) = (n, s1)" "takes s s1" "length (pool s) \<le> length (pool s1) + 1"
    "\<forall>f. n = Some f \<longrightarrow> f \<in> set (pool s) \<and> f \<notin> set (pool s1) \<and> page_ref (pages s1 f) = 0 \<and> \<not> pg_swap (pages s1 f)" "?cow \<and> n = None \<longrightarrow> pool s = []"
    using cow_alloc [OF inv, of ?cow] by blast
  have k1: "keeps s s1" by (rule takes_keeps [OF inv n(2)])
  have o1: "off < max_swap_offset s1" "mem_map s1 off \<noteq> SWAP_UNUSED" "mem_map s1 = mem_map s" "max_swap_offset s1 = max_swap_offset s"
    using off n(2) by (auto simp: takes_def SWAP_UNUSED_def MAX_SWAP_REF_def)
  obtain ret page s2 where sw: "swap_in_page rd ?v s1 = Some ((ret, page), s2)" "keeps s1 s2" "mem_map s2 = mem_map s1" "set (pool s2) \<subseteq> set (pool s1)"
    "\<forall>g. \<not> pg_swap (pages s1 g) \<and> g \<notin> set (pool s1) \<longrightarrow> pages s2 g = pages s1 g"
    "case page of
       Some f \<Rightarrow> ret = 0 \<and> pg_swap (pages s2 f) \<and> pg_index (pages s2 f) = swap_entry off \<and> (\<forall>g. g \<noteq> f \<longrightarrow> pages s2 g = pages s1 g) \<and>
         (pg_swap (pages s1 f) \<and> s2 = s1 \<or> f \<in> set (pool s1) \<and> page_ref (pages s2 f) = 0)
     | None \<Rightarrow> ret < 0 \<and> (rd \<longrightarrow> pool s1 = [])"
    using swap_in_page_keeps [OF keeps_inv [OF k1] off(1) o1(1,2), of rd] off(3) by auto
  have k2: "keeps s s2" by (rule keeps_trans [OF k1 sw(2)])
  have n2: "\<forall>m. n = Some m \<longrightarrow> m \<in> set (pool s) \<and> m \<notin> set (pool s2) \<and> page_ref (pages s2 m) = 0 \<and> \<not> pg_swap (pages s2 m)"
    using n(4) sw(4,5) by auto
  have cow: "(fl AND (VM_SHARE OR VM_WRITE) = VM_WRITE) = ?cow" by (rule private_cow [OF fl])
  note fe = fault_entry_def [of rd fl ec ?v la "fault_perm fl" pg s]
  show ?thesis
  proof (cases page)
    case None
    have "keeps s (free_new n s2)" by (rule keeps_free_new [OF k2]) (use n2 in blast)
    moreover have "\<not> (rd \<and> 2 \<le> length (pool s))" using sw(6) None n(3) by auto
    ultimately show ?thesis unfolding fe cow using pg n(1) sw(1) None by (simp add: fault_outcome_def)
  next
    case (Some f)
    have f: "ret = 0" "pg_swap (pages s2 f)" "pg_index (pages s2 f) = swap_entry off"
      "pg_swap (pages s1 f) \<and> s2 = s1 \<or> f \<in> set (pool s1) \<and> page_ref (pages s2 f) = 0" using sw(6) Some by simp_all
    have small: "f < 2 ^ 52" and ref: "0 \<le> page_ref (pages s2 f)"
      using f(4) ok n(2) swap_not_pool [OF inv, of f] unfolding frames_ok_def takes_def by (metis order_refl subsetD)+
    have "swap_hash_find ?v s2 = Some f" using f(2,3) off(3) swap_hash_find_iff(1) [OF keeps_inv [OF k2]] by simp
    then have d: "pg_data (pages s2 f) = page_contents s ?v"
      using keeps_contents [OF inv k2 v] pg(2) by (simp add: page_contents_def)
    have o2: "off < max_swap_offset s2" "0 < mem_map s2 off" "mem_map s2 off \<le> MAX_SWAP_REF" using off k2 sw(3) o1(3) by (simp_all add: keeps_def)
    have ins: "\<exists>s3. page_insert pg f la perm s2 = Some (0, set_pte pg la (page2pa f OR PTE_P OR perm), s3) \<and> keeps s s3 \<and>
        pages s3 f = (pages s2 f)\<lparr>page_ref := page_ref (pages s2 f) + 1\<rparr> \<and> mem_map s3 = (mem_map s2)(off := mem_map s2 off - 1) \<and>
        max_swap_offset s3 = max_swap_offset s2 \<and> pool s3 = pool s2 \<and> (\<forall>g. g \<noteq> f \<longrightarrow> pages s3 g = pages s2 g)" for perm
      using insert_over_swap [OF pg(1) off(3) k2 off(1) o2 f(2,3) ref, of f perm] by blast
    have fin: "fault_outcome rd ?wr la ?v pg s (0, set_pte pg la (page2pa f OR PTE_P OR perm), free_new n s3)"
      if "keeps s s3" "pages s3 f = (pages s2 f)\<lparr>page_ref := page_ref (pages s2 f) + 1\<rparr>" "pool s3 = pool s2" "\<forall>g. g \<noteq> f \<longrightarrow> pages s3 g = pages s2 g"
        "perm = PTE_U \<or> perm = PTE_U OR PTE_W" "?wr \<longrightarrow> perm = PTE_U OR PTE_W" "perm = PTE_U OR PTE_W \<longrightarrow> sole_owner s3 f" for perm s3
    proof -
      have "\<forall>m. n = Some m \<longrightarrow> \<not> pg_swap (pages s3 m)" using n2 f(2) that(4) by metis
      then have "keeps s (free_new n s3)" by (intro keeps_free_new [OF that(1)]) (use n2 that(3) in auto)
      then show ?thesis unfolding fault_outcome_def using resolvedI [OF small that(5,6), of "free_new n s3" ?v s] that(2,7) d by (auto simp: sole_owner_def)
    qed
    show ?thesis
    proof (cases "?cow \<and> ?wr")
      case False
      let ?p = "PTE_U"
      have p: "(if \<not> ?wr \<and> ?cow then fault_perm fl AND NOT PTE_W else fault_perm fl) = PTE_U" using False wr by (auto simp: fault_perm_cases)
      obtain s3 where s3: "page_insert pg f la PTE_U s2 = Some (0, set_pte pg la (page2pa f OR PTE_P OR PTE_U), s3)" "keeps s s3"
        "pages s3 f = (pages s2 f)\<lparr>page_ref := page_ref (pages s2 f) + 1\<rparr>" "pool s3 = pool s2" "\<forall>g. g \<noteq> f \<longrightarrow> pages s3 g = pages s2 g"
        using ins [of PTE_U] by blast
      have "PTE_U \<noteq> PTE_U OR PTE_W" "\<not> ?wr" using False wr by (auto simp: PTE_U_def PTE_W_def)
      then show ?thesis unfolding fe cow Let_def using pg n(1) sw(1) Some p s3(1) False wr fin [OF s3(2-5), of PTE_U] by simp
    next
      case True
      have p: "fault_perm fl = PTE_U OR PTE_W" using True by (simp add: fault_perm_def)
      have c: "swap_page_count f s2 = Some (mem_map s2 off)"
        using swap_page_count_ok [OF keeps_inv [OF k2], of f] f(2,3) o2(1) by auto
      show ?thesis
      proof (cases "page_ref (pages s2 f) + int (mem_map s2 off) > 1")
        case False
        obtain s3 where s3: "page_insert pg f la (PTE_U OR PTE_W) s2 = Some (0, set_pte pg la (page2pa f OR PTE_P OR (PTE_U OR PTE_W)), s3)" "keeps s s3"
          "pages s3 f = (pages s2 f)\<lparr>page_ref := page_ref (pages s2 f) + 1\<rparr>" "pool s3 = pool s2" "\<forall>g. g \<noteq> f \<longrightarrow> pages s3 g = pages s2 g"
          "mem_map s3 = (mem_map s2)(off := mem_map s2 off - 1)" "max_swap_offset s3 = max_swap_offset s2"
          using ins [of "PTE_U OR PTE_W"] by blast
        have "swap_page_count f s3 = Some 0"
          using swap_page_count_ok [OF keeps_inv [OF s3(2)], of f] s3(3,6,7) f(2,3) o2 False ref by auto
        then have "sole_owner s3 f" using False ref o2(2) s3(3) by (simp add: sole_owner_def)
        then show ?thesis unfolding fe [unfolded p] p cow Let_def using pg n(1) sw(1) Some s3(1) c False True fin [OF s3(2-5), of "PTE_U OR PTE_W"] by simp
      next
        case sh: True
        show ?thesis
        proof (cases n)
          case None
          then have "fault_outcome rd ?wr la ?v pg s (ret, pg, s2)" using k2 n(5) True by (simp add: fault_outcome_def)
          then show ?thesis unfolding fe [unfolded p] p cow Let_def using pg n(1) sw(1) Some c sh True None by simp
        next
          case m: (Some m)
          let ?s2 = "upd_page m (\<lambda>p. p\<lparr>pg_data := pg_data (pages s2 f)\<rparr>) s2"
          have m2: "m \<in> set (pool s)" "page_ref (pages s2 m) = 0" "\<not> pg_swap (pages s2 m)" "m \<noteq> f" using n2 m f(2) by auto
          have k3: "keeps s ?s2" by (rule keeps_upd [OF k2]) (use m2 in auto)
          have sh2: "0 < page_ref (pages s2 f) \<or> 1 < mem_map s2 off" using sh ref by auto
          have "\<exists>s3. page_insert pg m la (PTE_U OR PTE_W) ?s2 = Some (0, set_pte pg la (page2pa m OR PTE_P OR (PTE_U OR PTE_W)), s3) \<and> keeps s s3 \<and>
            pages s3 m = (pages ?s2 m)\<lparr>page_ref := page_ref (pages ?s2 m) + 1\<rparr>"
            using insert_over_swap [OF pg(1) off(3) k3 off(1), of f m "PTE_U OR PTE_W"] o2 f(2,3) ref sh2 m2(4) by (auto simp: upd_page_def)
          then obtain s3 where s3: "page_insert pg m la (PTE_U OR PTE_W) ?s2 = Some (0, set_pte pg la (page2pa m OR PTE_P OR (PTE_U OR PTE_W)), s3)" "keeps s s3"
            "pages s3 m = (pages ?s2 m)\<lparr>page_ref := page_ref (pages ?s2 m) + 1\<rparr>" by blast
          have "sole_owner s3 m" using s3(3) m2 by (simp add: sole_owner_def swap_page_count_def)
          moreover have "m < 2 ^ 52" using ok m2(1) by (simp add: frames_ok_def)
          ultimately have "fault_outcome rd ?wr la ?v pg s (0, set_pte pg la (page2pa m OR PTE_P OR (PTE_U OR PTE_W)), s3)"
            unfolding fault_outcome_def using resolvedI [of m "PTE_U OR PTE_W" ?wr s3 ?v s] s3 d by auto
          then show ?thesis unfolding fe [unfolded p] p cow Let_def using pg n(1) sw(1) Some c sh True m s3(1) by simp
        qed
      qed
    qed
  qed
qed

lemma fault_empty_ok:
  assumes ok: "frames_ok (phys_of v)" and pg: "has_pte pg la" "pte_at pg la = 0"
    and x: "vm_flags x AND VM_SHARE = 0" and wr: "wr \<longrightarrow> vm_flags x AND VM_WRITE \<noteq> 0"
  shows "\<exists>ret pg' s'. fault_empty x 0 la (fault_perm (vm_flags x)) pg v = Some (ret, pg', set_phys s' v) \<and>
    fault_outcome rd wr la 0 pg (phys_of v) (ret, pg', s')"
proof -
  let ?s = "phys_of v" let ?p = "fault_perm (vm_flags x)"
  have inv: "swap_inv {} {} ?s" using ok by (simp add: frames_ok_def)
  obtain n s1 where n: "alloc_page ?s = (n, s1)" "takes ?s s1" "length (pool ?s) \<le> length (pool s1) + 1"
    "\<forall>f. n = Some f \<longrightarrow> f \<in> set (pool ?s) \<and> f \<notin> set (pool s1) \<and> page_ref (pages s1 f) = 0 \<and> \<not> pg_swap (pages s1 f)" "n = None \<longrightarrow> pool ?s = []"
    using cow_alloc [OF inv, of True] by auto
  have k1: "keeps ?s s1" by (rule takes_keeps [OF inv n(2)])
  show ?thesis
  proof (cases n)
    case None
    then have "fault_outcome rd wr la 0 pg ?s (- E_NO_MEM, pg, s1)" using k1 n(5) by (simp add: fault_outcome_def)
    then show ?thesis using n(1) None x by (auto simp: fault_empty_def pgdir_alloc_page_def)
  next
    case (Some f)
    let ?s2 = "upd_page f (\<lambda>p. p\<lparr>page_ref := page_ref p + 1\<rparr>) s1"
    have f: "f \<in> set (pool ?s)" "page_ref (pages s1 f) = 0" "\<not> pg_swap (pages s1 f)" using n(4) Some by blast+
    have "keeps ?s ?s2" by (rule keeps_upd [OF k1]) simp_all
    moreover have "sole_owner ?s2 f" using f by (simp add: sole_owner_def swap_page_count_def)
    moreover have "f < 2 ^ 52" using ok f(1) by (simp add: frames_ok_def)
    moreover have "?p = PTE_U \<or> ?p = PTE_U OR PTE_W" "wr \<longrightarrow> ?p = PTE_U OR PTE_W" using wr by (auto simp: fault_perm_def)
    ultimately have "fault_outcome rd wr la 0 pg ?s (0, set_pte pg la (page2pa f OR PTE_P OR ?p), ?s2)"
      unfolding fault_outcome_def using resolvedI [of f ?p wr ?s2 0 ?s] by auto
    then show ?thesis using n(1) Some x get_pte_has [OF pg(1)] pg(2) by (auto simp: fault_empty_def pgdir_alloc_page_def page_insert_def)
  qed
qed

lemma takes_pte_ok: "takes s s' \<Longrightarrow> pte_ok s v \<Longrightarrow> pte_ok s' v"
  by (auto simp: takes_def pte_ok_def)

lemma takes_frames_ok:
  assumes "takes s s'" "frames_ok s"
  shows "frames_ok s'"
  using assms swap_not_pool [of "{}" "{}" s] unfolding takes_def frames_ok_def by (metis (no_types, lifting) subsetD)

lemma phys_of_set [simp]: "phys_of (set_phys p v) = p" "set_phys p (set_phys q v) = set_phys p v" "mm_inv (set_phys p v) m = mm_inv v m"
  "set_phys (phys_of v) v = v"
  by (simp_all add: phys_of_def set_phys_def mm_inv_def)

lemma mm_inv_fields [simp]: "mm_inv v (m\<lparr>pgdir := pg\<rparr>) = mm_inv v m" "mm_inv v (m\<lparr>locked_by := p\<rparr>) = mm_inv v m"
  by (simp_all add: mm_inv_def mm_ok_def)

text \<open>The whole body, in an area that does not share memory.\<close>

definition fault_area :: "vms \<Rightarrow> mm_struct \<Rightarrow> nat \<Rightarrow> nat option" where
  "fault_area v m addr = find (\<lambda>a. vm_start (vmas v a) \<le> addr \<and> addr < vm_end (vmas v a)) (mmap_list m)"

definition may_fault :: "vms \<Rightarrow> mm_struct \<Rightarrow> u64 \<Rightarrow> nat \<Rightarrow> bool" where
  "may_fault v m ec addr = (case fault_area v m addr of None \<Rightarrow> False | Some a \<Rightarrow> fault_allowed (vmas v a) ec addr)"

lemma fault_area_first:
  assumes "mm_inv v m"
  shows "first_above (vmas v) addr (mmap_list m) = Some a \<Longrightarrow> vm_start (vmas v a) \<le> addr \<Longrightarrow> fault_area v m addr = Some a"
    and "first_above (vmas v) addr (mmap_list m) = Some a \<Longrightarrow> addr < vm_start (vmas v a) \<Longrightarrow> fault_area v m addr = None"
    and "first_above (vmas v) addr (mmap_list m) = None \<Longrightarrow> fault_area v m addr = None"
proof -
  have o: "ordered (vmas v) (mmap_list m)" using assms by (simp add: mm_inv_def mm_ok_def)
  show "first_above (vmas v) addr (mmap_list m) = None \<Longrightarrow> fault_area v m addr = None"
    by (auto simp: first_above_None fault_area_def find_None_iff)
  assume f: "first_above (vmas v) addr (mmap_list m) = Some a"
  then obtain xs ys where l: "mmap_list m = xs @ a # ys" "\<forall>u \<in> set xs. vm_end (vmas v u) \<le> addr" "addr < vm_end (vmas v a)"
    using first_above_split [of "vmas v" addr "mmap_list m" a] by blast
  show "fault_area v m addr = Some a" if "vm_start (vmas v a) \<le> addr"
    using l that by (auto simp: fault_area_def find_Some_iff nth_append not_less [symmetric] intro!: exI [of _ "length xs"])
  show "fault_area v m addr = None" if "addr < vm_start (vmas v a)"
    using l that o by (auto simp: fault_area_def find_None_iff ordered_append ordered_Cons not_less dest: order_less_le_trans)
qed

lemma pte_at_page: "a div PGSIZE = b div PGSIZE \<Longrightarrow> pte_at pg a = pte_at pg b"
  using page_digits [of a b] by (simp add: pte_at_def split: option.split)

lemma resolved_from:
  assumes "swap_inv {} {} s" "keeps s s1" "old = 0 \<or> pte_ok s old" "resolved s1 old wr s2 new"
  shows "resolved s old wr s2 new"
  using assms keeps_contents [OF assms(1,2), of old] by (auto simp: resolved_def)

lemma write_fault_allowed:
  assumes "fault_allowed x ec addr" "ec AND 2 \<noteq> 0"
  shows "vm_flags x AND VM_WRITE \<noteq> 0"
proof -
  have "(ec AND 3) AND 2 = ec AND 2" by (simp add: and.assoc)
  then have "ec AND 3 \<noteq> 0 \<and> ec AND 3 \<noteq> 1" using assms(2) by auto
  then show ?thesis using assms(1) by (simp add: fault_allowed_def)
qed

text \<open>What \<open>fault_body\<close> does to the page of the fault, after the entry has been found.\<close>

lemma fault_entry_private:
  assumes ok: "frames_ok s" and pg: "has_pte pg la" "pte_at pg la \<noteq> 0" and v: "pte_ok s (pte_at pg la)"
    and x: "fault_allowed x ec addr" "vm_flags x AND VM_SHARE = 0"
    and gen: "pte_at pg la AND PTE_P \<noteq> 0 \<longrightarrow> ec AND 2 \<noteq> 0 \<and> pte_at pg la AND PTE_W = 0"
  shows "\<exists>r. fault_entry rd (vm_flags x) ec (pte_at pg la) la (fault_perm (vm_flags x)) pg s = Some r \<and>
    fault_outcome rd (ec AND 2 \<noteq> 0) la (pte_at pg la) pg s r"
proof (cases "pte_at pg la AND PTE_P = 0")
  case True
  then show ?thesis using fault_swapped_ok [OF ok pg(1) True v x(2)] write_fault_allowed [OF x(1)] by blast
next
  case False
  then show ?thesis using fault_present_ok [OF ok pg(1) False _ v x(2)] gen write_fault_allowed [OF x(1)] by simp
qed

lemma outcome_tables:
  assumes "fault_outcome rd wr la old pg s (ret, pg', s')" "has_pte pg la" "la < 512 * PUSIZE"
  shows "keeps s s'" "\<forall>a < 512 * PUSIZE. a div PGSIZE \<noteq> la div PGSIZE \<longrightarrow> pte_at pg' a = pte_at pg a"
    "rd \<and> 2 \<le> length (pool s) \<longrightarrow> ret = 0 \<and> resolved s old wr s' (pte_at pg' la)"
  using assms pte_at_set [OF assms(2,3)] by (auto simp: fault_outcome_def)

text \<open>
  What stops an access that the area permits: there is no directory to walk, or the entry is present and the access is not a write to a
  read-only page.
\<close>

definition fault_asserts :: "mm_struct \<Rightarrow> u64 \<Rightarrow> nat \<Rightarrow> bool" where
  "fault_asserts m ec addr \<longleftrightarrow> pgdir m = None \<or>
     pte_in (pgdir m) addr AND PTE_P \<noteq> 0 \<and> \<not> (ec AND 2 \<noteq> 0 \<and> pte_in (pgdir m) addr AND PTE_W = 0)"

lemma pte_has: "pte_at pg la \<noteq> 0 \<Longrightarrow> has_pte pg la"
  by (auto simp: pte_at_def has_pte_def split: option.splits)

lemma may_fault_find:
  assumes "mm_inv v m" "may_fault v m ec addr"
  obtains a m1 where "find_vma (vmas v) m addr = (Some a, m1)" "fault_allowed (vmas v a) ec addr"
proof -
  obtain r m1 where f: "find_vma (vmas v) m addr = (r, m1)" by (metis surj_pair)
  have "r = first_above (vmas v) addr (mmap_list m)" using find_vma_inv [OF assms(1) f] by simp
  then show thesis using f assms fault_area_first [OF assms(1), of addr] that
    by (cases r) (auto simp: may_fault_def fault_allowed_def not_less split: option.splits; metis not_less)+
qed

lemma fault_body_asserts:
  assumes "mm_inv v m" "may_fault v m ec addr" "fault_asserts m ec addr"
  shows "fault_body rd ec addr m v = None"
proof -
  obtain a m1 where f: "find_vma (vmas v) m addr = (Some a, m1)" "fault_allowed (vmas v a) ec addr" using may_fault_find [OF assms(1,2)] by blast
  have pg: "pgdir m1 = pgdir m" using find_vma_same [OF f(1)] by simp
  show ?thesis
  proof (cases "pgdir m")
    case None
    then show ?thesis using f pg by (simp add: fault_body_def Let_def)
  next
    case (Some d)
    define la where "la = addr div PGSIZE * PGSIZE"
    have "pte_at d la = pte_at d addr" by (rule pte_at_page) (simp add: la_def)
    then have e: "pte_at d la AND PTE_P \<noteq> 0" "\<not> (ec AND 2 \<noteq> 0 \<and> pte_at d la AND PTE_W = 0)" using assms(3) Some by (simp_all add: fault_asserts_def)
    then have "pte_at d la \<noteq> 0" by auto
    moreover have "fault_entry rd (vm_flags (vmas v a)) ec (pte_at d la) la p d s = None" for p s using e by (auto simp: fault_entry_def Let_def kassert_def)
    ultimately show ?thesis using f pg Some get_pte_has [OF pte_has, of d la True "phys_of v"]
      unfolding fault_body_def la_def [symmetric] by (simp add: la_def [symmetric] Let_def)
  qed
qed

lemma fault_body_ok:
  assumes mm: "mm_inv v m" and ok: "frames_ok (phys_of v)" and priv: "private_in v m addr (addr + 1)"
    and pte: "pte_in (pgdir m) addr = 0 \<or> pte_ok (phys_of v) (pte_in (pgdir m) addr)"
    and gen: "\<not> (may_fault v m ec addr \<and> fault_asserts m ec addr)"
  shows "\<exists>ret m' v'. fault_body rd ec addr m v = Some (ret, m', v') \<and> mm_inv v' m' \<and> vmas v' = vmas v \<and> mmap_list m' = mmap_list m \<and>
    keeps (phys_of v) (phys_of v') \<and> (\<forall>a < 512 * PUSIZE. a div PGSIZE \<noteq> addr div PGSIZE \<longrightarrow> pte_in (pgdir m') a = pte_in (pgdir m) a) \<and>
    (if may_fault v m ec addr then rd \<and> 5 \<le> length (pool (phys_of v)) \<longrightarrow>
       ret = 0 \<and> resolved (phys_of v) (pte_in (pgdir m) addr) (ec AND 2 \<noteq> 0) (phys_of v') (pte_in (pgdir m') addr)
     else ret = - E_INVAL \<and> pgdir m' = pgdir m \<and> v' = v)"
proof -
  obtain r m1 where f: "find_vma (vmas v) m addr = (r, m1)" by (metis surj_pair)
  have m1: "mm_inv v m1" "mmap_list m1 = mmap_list m" "pgdir m1 = pgdir m" and r: "r = first_above (vmas v) addr (mmap_list m)"
    using find_vma_inv [OF mm f] find_vma_same [OF f] by simp_all
  have inv: "swap_inv {} {} (phys_of v)" using ok by (simp add: frames_ok_def)
  show ?thesis
  proof (cases "may_fault v m ec addr")
    case False
    then have "fault_body rd ec addr m v = Some (- E_INVAL, m1, v)"
      using f r fault_area_first [OF mm, of addr] by (cases r) (auto simp: fault_body_def may_fault_def fault_allowed_def not_less split: option.splits)
    then show ?thesis using False m1 keeps_refl [OF inv] by simp
  next
    case True
    then obtain a where a: "r = Some a" "fault_allowed (vmas v a) ec addr"
      using r fault_area_first [OF mm, of addr] by (cases r) (auto simp: may_fault_def fault_allowed_def not_less split: option.splits; metis not_less)+
    have al: "a \<in> set (mmap_list m)" "addr < vm_end (vmas v a)"
      using a(1) r first_above_split [of "vmas v" addr "mmap_list m" a] by auto
    obtain d where d: "pgdir m = Some d" using gen True by (auto simp: fault_asserts_def)
    have gen': "pte_at d addr AND PTE_P \<noteq> 0 \<longrightarrow> ec AND 2 \<noteq> 0 \<and> pte_at d addr AND PTE_W = 0" using gen True d by (auto simp: fault_asserts_def)
    have pte': "pte_at d addr = 0 \<or> pte_ok (phys_of v) (pte_at d addr)" using pte d by simp
    define la where "la = addr div PGSIZE * PGSIZE"
    have pgl: "la div PGSIZE = addr div PGSIZE" by (simp add: la_def)
    have "vm_end (vmas v a) \<le> USERTOP" using mm al(1) by (auto simp: mm_inv_def mm_ok_def vma_ok_def)
    then have lal: "la < 512 * PUSIZE" using al(2) by (simp add: la_def USERTOP_def PUSIZE_def PMSIZE_def PTSIZE_def)
    have x: "vm_flags (vmas v a) AND VM_SHARE = 0" using priv al a(2) by (simp add: private_in_def fault_allowed_def not_less)
    have pla: "pte_at d la = pte_at d addr" by (rule pte_at_page [OF pgl])
    obtain p pg s1 where g: "get_pte d la True (phys_of v) = ((p, pg), s1)" "takes (phys_of v) s1" "\<forall>a. pte_at pg a = pte_at d a"
      "case p of None \<Rightarrow> length (pool (phys_of v)) < 3
       | Some u \<Rightarrow> u = pte_at d la \<and> has_pte pg la \<and> length (pool (phys_of v)) \<le> length (pool s1) + 3"
      using get_pte_create [OF inv] by blast
    have k1: "keeps (phys_of v) s1" by (rule takes_keeps [OF inv g(2)])
    have pp: "pte_at pg la = pte_at d addr" using g(3) pla by simp
    have body: "fault_body rd ec addr m v = (case p of
        None \<Rightarrow> Some (- E_NO_MEM, m1\<lparr>pgdir := Some pg\<rparr>, set_phys s1 v)
      | Some u \<Rightarrow>
          if u = 0 then do { (ret, pg, v) \<leftarrow> fault_empty (vmas v a) u la (fault_perm (vm_flags (vmas v a))) pg (set_phys s1 v); Some (ret, m1\<lparr>pgdir := Some pg\<rparr>, v) }
          else do {
            (ret, pg, s) \<leftarrow> fault_entry rd (vm_flags (vmas v a)) ec u la (fault_perm (vm_flags (vmas v a))) pg s1;
            Some (ret, m1\<lparr>pgdir := Some pg\<rparr>, set_phys s v)
          })"
      using f a g(1) m1(3) d unfolding fault_body_def la_def [symmetric] by (simp add: Let_def split: option.split)
    show ?thesis
    proof (cases p)
      case None
      then show ?thesis using body g(3,4) k1 m1 True d by simp
    next
      case (Some u)
      have u: "u = pte_at pg la" "has_pte pg la" "length (pool (phys_of v)) \<le> length (pool s1) + 3" using g(3,4) Some by simp_all
      have "\<exists>ret pg' s'. fault_body rd ec addr m v = Some (ret, m1\<lparr>pgdir := Some pg'\<rparr>, set_phys s' v) \<and>
        fault_outcome rd (ec AND 2 \<noteq> 0) la (pte_at pg la) pg s1 (ret, pg', s')"
      proof (cases "u = 0")
        case z: True
        then show ?thesis using fault_empty_ok [of "set_phys s1 v" pg la "vmas v a" "ec AND 2 \<noteq> 0" rd] takes_frames_ok [OF g(2) ok] u x
            write_fault_allowed [OF a(2)] body Some by auto blast
      next
        case nz: False
        have "pte_ok s1 (pte_at pg la)" using pte' nz u(1) pp takes_pte_ok [OF g(2)] by simp
        then show ?thesis
          using fault_entry_private [OF takes_frames_ok [OF g(2) ok] u(2) _ _ a(2) x, of rd] nz u(1) pp gen' body Some by auto blast+
      qed
      then obtain ret pg' s' where out: "fault_body rd ec addr m v = Some (ret, m1\<lparr>pgdir := Some pg'\<rparr>, set_phys s' v)"
        "fault_outcome rd (ec AND 2 \<noteq> 0) la (pte_at pg la) pg s1 (ret, pg', s')" by blast
      note t = outcome_tables [OF out(2) u(2) lal]
      have "keeps (phys_of v) s'" by (rule keeps_trans [OF k1 t(1)])
      moreover have "rd \<and> 5 \<le> length (pool (phys_of v)) \<longrightarrow>
        ret = 0 \<and> resolved (phys_of v) (pte_at d addr) (ec AND 2 \<noteq> 0) s' (pte_at pg' addr)"
        using t(3) u(3) resolved_from [OF inv k1 pte'] pp pte_at_page [OF pgl, of pg'] by simp
      ultimately show ?thesis using out(1) t(2) g(3) m1 True pgl d by simp
    qed
  qed
qed

section \<open>Properties\<close>

lemma lock_free_unlock:
  assumes "sem_valid l" "queues s (sem_queue l) = []"
  shows "unlock_mm (Some (l\<lparr>sem_value := sem_value l - 1\<rparr>, m)) s = Some (Some (l, m\<lparr>locked_by := 0\<rparr>), s)"
  using assms by (simp add: unlock_mm_def up_def up_on_def wait_queue_first_def)

text \<open>The handler finds the lock free, or the running process holds it already and keeps it.\<close>

definition may_lock :: "semaphore \<Rightarrow> mm_struct \<Rightarrow> kern \<Rightarrow> bool" where
  "may_lock l m s \<longleftrightarrow> (if 0 < sem_value l then sem_valid l \<and> queues s (sem_queue l) = [] else locked_by m = cur_pid s)"

lemma do_pgfault_locked:
  assumes "may_lock l m s"
  shows "do_pgfault w rd ec addr (Some (l, m)) s v =
    map_option (\<lambda>(ret, m', v'). (Returned ret, Some (l, if 0 < sem_value l then m'\<lparr>locked_by := 0\<rparr> else m'), s, v'))
      (fault_body rd ec addr (m\<lparr>locked_by := cur_pid s\<rparr>) v)"
proof (cases "0 < sem_value l")
  case True
  then show ?thesis using assms lock_free_unlock [of l s]
    by (cases "fault_body rd ec addr (m\<lparr>locked_by := cur_pid s\<rparr>) v") (auto simp: may_lock_def do_pgfault_def try_lock_mm_def try_down_def fault_locked_def)
next
  case False
  then have u: "m\<lparr>locked_by := cur_pid s\<rparr> = m" using assms by (simp add: may_lock_def)
  show ?thesis unfolding u using False assms
    by (cases "fault_body rd ec addr m v") (auto simp: may_lock_def do_pgfault_def try_lock_mm_def try_down_def fault_locked_def)
qed

text \<open>
  C3: Let the lock of a well-formed address space be free, or held by the running process already, let the faulting address be in no
  shared area, and let the entry of its page be empty or refer to a page in use. An access outside every area, in the guard page of a
  stack or against the protection of its area is refused with \<^verbatim>\<open>-E_INVAL\<close> and changes neither tables nor memory. An access that the area permits
  panics exactly when there is no page directory or the entry is present and the access is not a write to a read-only page. In all other
  cases the handler returns, the lock is as before, every entry in use of any address space denotes the same contents as before and no other
  entry of this one changes. If moreover the swap device works and five frames are free (three for the tables, one for the page read in, one for a copy),
  then the result is 0 and the page is present for the user, writable if the access was a write, with the contents it had
  before in memory or on the swap device; an entry is made writable only when it is the sole reference to its frame. Without these frames the result
  is not described: it can be 0 although the page is not mapped.
\<close>

theorem do_pgfault_resolves:
  assumes "mm_inv v m" "frames_ok (phys_of v)" "private_in v m addr (addr + 1)"
    and "pte_in (pgdir m) addr = 0 \<or> pte_ok (phys_of v) (pte_in (pgdir m) addr)" and lock: "may_lock l m s"
  shows "if may_fault v m ec addr \<and> fault_asserts m ec addr then do_pgfault w rd ec addr (Some (l, m)) s v = None
    else \<exists>ret m' v'. do_pgfault w rd ec addr (Some (l, m)) s v = Some (Returned ret, Some (l, m'), s, v') \<and>
      mm_inv v' m' \<and> mapped v' m' = mapped v m \<and> swap_inv {} {} (phys_of v') \<and>
      (\<forall>u. pte_ok (phys_of v) u \<longrightarrow> page_contents (phys_of v') u = page_contents (phys_of v) u) \<and>
      (\<forall>a < 512 * PUSIZE. a div PGSIZE \<noteq> addr div PGSIZE \<longrightarrow> pte_in (pgdir m') a = pte_in (pgdir m) a) \<and>
      (if may_fault v m ec addr then rd \<and> 5 \<le> length (pool (phys_of v)) \<longrightarrow>
         ret = 0 \<and> resolved (phys_of v) (pte_in (pgdir m) addr) (ec AND 2 \<noteq> 0) (phys_of v') (pte_in (pgdir m') addr)
       else ret = - E_INVAL \<and> pgdir m' = pgdir m \<and> v' = v)"
proof -
  let ?m = "m\<lparr>locked_by := cur_pid s\<rparr>"
  have e: "private_in v ?m addr (addr + 1)" "may_fault v ?m ec addr = may_fault v m ec addr" "fault_asserts ?m ec addr = fault_asserts m ec addr"
    using assms(3) by (simp_all add: private_in_def may_fault_def fault_area_def fault_asserts_def)
  note run = do_pgfault_locked [OF lock, of w rd ec addr v]
  show ?thesis
  proof (cases "may_fault v m ec addr \<and> fault_asserts m ec addr")
    case True
    then show ?thesis using run fault_body_asserts [of v ?m ec addr rd] e assms(1) by simp
  next
    case False
    obtain ret m' v' where b: "fault_body rd ec addr ?m v = Some (ret, m', v')" "mm_inv v' m'" "vmas v' = vmas v" "mmap_list m' = mmap_list m"
      "keeps (phys_of v) (phys_of v')" "\<forall>a < 512 * PUSIZE. a div PGSIZE \<noteq> addr div PGSIZE \<longrightarrow> pte_in (pgdir m') a = pte_in (pgdir m) a"
      "if may_fault v m ec addr then rd \<and> 5 \<le> length (pool (phys_of v)) \<longrightarrow>
         ret = 0 \<and> resolved (phys_of v) (pte_in (pgdir m) addr) (ec AND 2 \<noteq> 0) (phys_of v') (pte_in (pgdir m') addr)
       else ret = - E_INVAL \<and> pgdir m' = pgdir m \<and> v' = v"
      using fault_body_ok [of v ?m addr ec rd] assms(1-4) e False by auto
    have inv: "swap_inv {} {} (phys_of v)" using assms(2) by (simp add: frames_ok_def)
    let ?m' = "if 0 < sem_value l then m'\<lparr>locked_by := 0\<rparr> else m'"
    have "do_pgfault w rd ec addr (Some (l, m)) s v = Some (Returned ret, Some (l, ?m'), s, v')" using run b(1) by simp
    moreover have "mm_inv v' ?m'" "mapped v' ?m' = mapped v m" "pgdir ?m' = pgdir m'" using b(2-4) by auto
    ultimately show ?thesis unfolding if_not_P [OF False]
      using b(5-7) keeps_contents [OF inv b(5)] keeps_inv [OF b(5)] by (intro exI [of _ ret] exI [of _ ?m'] exI [of _ v']) simp
  qed
qed

text \<open>Tables in which every page has the same entry.\<close>

definition uniform_pgdir :: "pte_t \<Rightarrow> pgd" where
  "uniform_pgdir e = (\<lambda>_. Some (1, \<lambda>_. Some (2, \<lambda>_. Some (3, \<lambda>_. e))))"

lemma uniform_pgdir_simps [simp]: "has_pte (uniform_pgdir e) la" "pte_at (uniform_pgdir e) la = e"
  by (simp_all add: uniform_pgdir_def has_pte_def pte_at_def)

text \<open>A stack page that two address spaces share after a fork, about to be written.\<close>

definition cow_phys :: phys where
  "cow_phys = boot_phys\<lparr>pool := [1, 2, 3, 4, 5], pages := (pages boot_phys)(9 := (pages boot_phys 9)\<lparr>page_ref := 2, pg_data := (\<lambda>i. 7)\<rparr>)\<rparr>"

definition free_lock :: semaphore where
  "free_lock = \<lparr>sem_value = 1, sem_valid = True, sem_count = 0, sem_queue = 7\<rparr>"

lemma cow_phys_ok: "frames_ok cow_phys"
proof -
  have "swap_inv {} {} cow_phys"
    by (simp add: cow_phys_def boot_phys_def swap_inv_def geo_ok_def hash_ok_def index_ok_def lists_ok_def zero_ok_def pool_ok_def
        swap_list_init_def SWAP_UNUSED_def)
  moreover have "\<not> pg_swap (pages cow_phys f)" for f by (simp add: cow_phys_def boot_phys_def)
  moreover have "f \<in> set (pool cow_phys) \<longrightarrow> f < 2 ^ 52" for f by (auto simp: cow_phys_def)
  ultimately show ?thesis by (auto simp: frames_ok_def)
qed

theorem do_pgfault_resolves_witness:
  "\<exists>m' v'. do_pgfault 0 True 3 0x20002000 (Some (free_lock, demo_mm\<lparr>pgdir := Some (uniform_pgdir 0x9005)\<rparr>)) boot_kern (set_phys cow_phys demo_vms) =
      Some (Returned 0, Some (free_lock, m'), boot_kern, v') \<and> pte_in (pgdir m') 0x20002000 AND PTE_W \<noteq> 0 \<and>
      page_contents (phys_of v') (pte_in (pgdir m') 0x20002000) = (\<lambda>i. 7) \<and> page_contents (phys_of v') 0x9005 = (\<lambda>i. 7)"
proof -
  let ?m = "demo_mm\<lparr>pgdir := Some (uniform_pgdir 0x9005)\<rparr>" and ?v = "set_phys cow_phys demo_vms"
  have mm: "mm_inv ?v ?m" using demo_mm_inv by simp
  have fl: "demo_vmas 0 = \<lparr>vm_mm = 7, vm_start = 0x10000000, vm_end = 0x10002000, vm_flags = 5, vm_shmem = None, shmem_off = 0\<rparr>"
    "demo_vmas 2 = \<lparr>vm_mm = 7, vm_start = 0x20000000, vm_end = 0x20004000, vm_flags = 11, vm_shmem = None, shmem_off = 0\<rparr>"
    by (simp_all add: demo_vmas_def VM_READ_def VM_EXEC_def VM_WRITE_def VM_STACK_def)
  have v: "vmas demo_vms = demo_vmas" "mmap_list demo_mm = [0, 2]" by (simp_all add: demo_vms_def demo_mm_def)
  have pf: "private_in ?v ?m a b" for a b by (simp add: private_in_def v fl VM_SHARE_def)
  have ok: "pte_ok cow_phys 0x9005" by (simp add: pte_ok_def PTE_P_def frame_of_def cow_phys_def)
  have mf: "may_fault ?v ?m 3 0x20002000"
    by (simp add: may_fault_def fault_area_def v fl fault_allowed_def VM_STACK_def VM_WRITE_def)
  have c: "page_contents cow_phys 0x9005 = (\<lambda>i. 7)" by (simp add: page_contents_def PTE_P_def frame_of_def cow_phys_def)
  have na: "\<not> fault_asserts ?m 3 0x20002000" by (simp add: fault_asserts_def PTE_W_def)
  have lock: "may_lock free_lock ?m boot_kern"
    by (simp add: may_lock_def free_lock_def boot_kern_def sched_init_def)
  have len: "5 \<le> length (pool cow_phys)" by (simp add: cow_phys_def)
  show ?thesis
    using do_pgfault_resolves [OF mm _ pf _ lock, of "0x20002000" 3 0 True] cow_phys_ok ok mf na c len
    by (auto simp: resolved_def PTE_W_def)
qed

lemma swap_duplicate_0 [simp]: "swap_duplicate 0 s = None"
  by (simp add: swap_duplicate_def swap_offset_def)

text \<open>
  When a shared page has been swapped out, the first access to it through an area that has not mapped it yet panics: the handler passes
  its own empty entry to \<^verbatim>\<open>swap_duplicate\<close> instead of the entry of the shared object.
\<close>

theorem fault_shared_swapped_panics:
  assumes "fst (find_vma (vmas v) m addr) = Some a" "fault_allowed (vmas v a) ec addr" "vm_flags (vmas v a) AND VM_SHARE \<noteq> 0"
    and "vm_shmem (vmas v a) = Some i" and la: "la = addr div PGSIZE * PGSIZE" and d: "pgdir m = Some d" "has_pte d la" "pte_at d la = 0"
    and sa: "sa = la - vm_start (vmas v a) + shmem_off (vmas v a)" "sa < shmem_len (shmems v i)" "sa mod PGSIZE = 0"
    and n: "find_shmn sa (shmems v i) = (Some n, sh)" "shmn_has sa (shmns sh n)"
    and e: "shmn_entry (shmns sh n) ((sa - shmn_start (shmns sh n)) div PGSIZE) = e" "e \<noteq> 0" "e AND PTE_P = 0"
  shows "fault_body rd ec addr m v = None"
proof -
  obtain m1 where f: "find_vma (vmas v) m addr = (Some a, m1)" using assms(1) by (cases "find_vma (vmas v) m addr") auto
  have "sa div PGSIZE * PGSIZE = sa" using sa(3) by auto
  then have "shmem_get_entry sa True (shmems v i) k = Some (Some (n, (sa - shmn_start (shmns sh n)) div PGSIZE), sh, k)" for k
    using sa(2) n e by (simp add: shmem_get_entry_def)
  then have "fault_empty (vmas v a) 0 la p d v = None" for p
    using assms(3,4) sa(1) e by (simp add: fault_empty_def)
  then show ?thesis using f assms(2) d find_vma_same(2) [OF f] get_pte_has [of d la True "phys_of v"] unfolding fault_body_def la [symmetric]
    by (simp add: la [symmetric] Let_def)
qed

definition swapped_shm_vms :: vms where
  "swapped_shm_vms = demo_vms\<lparr>
     vmas := (\<lambda>_. \<lparr>vm_mm = 7, vm_start = 0x10000000, vm_end = 0x10004000, vm_flags = VM_READ OR VM_SHARE, vm_shmem = Some 0, shmem_off = 0\<rparr>),
     shmems := (\<lambda>_. \<lparr>shmn_list = [3], shmns = (\<lambda>_. \<lparr>shmn_start = 0, shmn_end = 0x200000, shmn_entry = (\<lambda>_. 0x200), shmn_page = 8\<rparr>),
       shmn_cache = None, shmem_len = 0x4000, shmem_ref = 1\<rparr>)\<rparr>"

theorem fault_shared_swapped_panics_witness:
  "fault_body True 0 0x10001000 (demo_mm\<lparr>mmap_list := [0], mmap_cache := None, map_count := 1, pgdir := Some (uniform_pgdir 0)\<rparr>) swapped_shm_vms = None"
proof -
  let ?m = "demo_mm\<lparr>mmap_list := [0], mmap_cache := None, map_count := 1, pgdir := Some (uniform_pgdir 0)\<rparr>"
  have "fst (find_vma (vmas swapped_shm_vms) ?m 0x10001000) = Some 0" by (simp add: find_vma_def demo_mm_def swapped_shm_vms_def Let_def)
  then show ?thesis
    by (rule fault_shared_swapped_panics [of _ _ _ 0 0 0 "0x10001000" "uniform_pgdir 0" "0x1000" 3 "(shmems swapped_shm_vms 0)\<lparr>shmn_cache := Some 3\<rparr>" "0x200"])
      (simp_all add: swapped_shm_vms_def fault_allowed_def VM_STACK_def VM_READ_def VM_EXEC_def VM_SHARE_def find_shmn_def shmn_has_def PTE_P_def Let_def)
qed

text \<open>
  When a page must be copied before it is written and no frame is left, the handler nevertheless returns 0 for a swapped-out page whose
  contents are still in memory: \<^verbatim>\<open>ret\<close> keeps the success of \<^verbatim>\<open>swap_in_page\<close>, and the page stays unmapped.
\<close>

theorem fault_reports_success_without_memory:
  assumes "fst (find_vma (vmas v) m addr) = Some a" "fault_allowed (vmas v a) ec addr" "ec AND 2 \<noteq> 0" "vm_flags (vmas v a) AND VM_SHARE = 0"
    and la: "la = addr div PGSIZE * PGSIZE" and pg: "pgdir m = Some d" "has_pte d la" "pte_at d la = e" and e: "e \<noteq> 0" "e AND PTE_P = 0"
    and s: "pool (phys_of v) = []" "swap_offset e (phys_of v) \<noteq> None" "swap_hash_find e (phys_of v) = Some f"
    and c: "swap_page_count f (phys_of v) = Some c" "1 < page_ref (pages (phys_of v) f) + int c"
  shows "\<exists>m'. fault_body rd ec addr m v = Some (0, m', v) \<and> pgdir m' = pgdir m"
proof -
  obtain m1 where f: "find_vma (vmas v) m addr = (Some a, m1)" using assms(1) by (cases "find_vma (vmas v) m addr") auto
  have w: "vm_flags (vmas v a) AND VM_WRITE \<noteq> 0" by (rule write_fault_allowed [OF assms(2,3)])
  have sw: "swap_in_page rd e (phys_of v) = Some ((0, Some f), phys_of v)" using s(2,3) by (auto simp: swap_in_page_def)
  have "alloc_page (phys_of v) = (None, phys_of v)" using s(1) by (simp add: alloc_page_def)
  then have "fault_entry rd (vm_flags (vmas v a)) ec e la p d (phys_of v) = Some (0, d, phys_of v)" for p
    using sw e assms(3) private_cow [OF assms(4)] w c unfolding fault_entry_def by simp
  then show ?thesis using f assms(2) pg e(1) find_vma_same(2) [OF f] get_pte_has [OF pg(2), of True "phys_of v"] unfolding fault_body_def la [symmetric]
    by (simp add: la [symmetric] Let_def)
qed

definition full_phys :: phys where
  "full_phys = dirty_phys\<lparr>pool := [], pages := (pages dirty_phys)(0 := (pages dirty_phys 0)\<lparr>page_ref := 1\<rparr>)\<rparr>"

theorem fault_reports_success_without_memory_witness:
  "\<exists>m'. fault_body True 2 0x20002000 (demo_mm\<lparr>pgdir := Some (uniform_pgdir (swap_entry 2))\<rparr>) (set_phys full_phys demo_vms) =
      Some (0, m', set_phys full_phys demo_vms) \<and> pte_in (pgdir m') 0x20002000 AND PTE_P = 0"
proof -
  let ?m = "demo_mm\<lparr>pgdir := Some (uniform_pgdir (swap_entry 2))\<rparr>" and ?v = "set_phys full_phys demo_vms"
  have e: "swap_entry 2 \<noteq> 0" "swap_entry 2 AND PTE_P = 0" by (simp_all add: swap_entry_def PTE_P_def)
  have o: "swap_offset (swap_entry 2) full_phys = Some 2"
    using swap_entry_offset [of 2] by (simp add: swap_offset_def Let_def full_phys_def dirty_phys_def boot_phys_def)
  have h: "swap_hash_find (swap_entry 2) full_phys = Some 0" by (simp add: swap_hash_find_def full_phys_def dirty_phys_def)
  have c: "swap_page_count 0 full_phys = Some 1" using o by (simp add: swap_page_count_def full_phys_def dirty_phys_def)
  have "fst (find_vma (vmas ?v) ?m 0x20002000) = Some 2" by (simp add: find_vma_def demo_mm_def demo_vms_def demo_vmas_def Let_def)
  then have "\<exists>m'. fault_body True 2 0x20002000 ?m ?v = Some (0, m', ?v) \<and> pgdir m' = pgdir ?m"
    by (rule fault_reports_success_without_memory [of _ _ _ 2 2 "0x20002000" "uniform_pgdir (swap_entry 2)" "swap_entry 2" 0 1])
      (use e o h c in \<open>simp_all add: demo_vms_def demo_vmas_def fault_allowed_def VM_STACK_def VM_READ_def VM_WRITE_def VM_SHARE_def full_phys_def dirty_phys_def\<close>)
  then show ?thesis using e by auto
qed

end
