(* ===== verification/Sfs_Block.thy ===== *)
theory Sfs_Block
  imports Bitmap
begin

text \<open>
  Blocks and block maps of the simple file system (\<^verbatim>\<open>fs/sfs/sfs_io.c\<close>, \<^verbatim>\<open>fs/sfs/sfs_inode.c\<close>): reading and writing blocks and parts of
  them, allocation of blocks from the free map, and the map from the block numbers of a file to blocks of the device through direct,
  indirect and doubly indirect blocks. The device is a function from byte offsets to blocks; what its \<open>n\<close>-th transfer returns is part of the
  state (\<open>0\<close> for success), and a failed transfer changes no block. \<^verbatim>\<open>io_sem\<close>, which serialises the users of \<^verbatim>\<open>sfs_buffer\<close>, has no effect
  on one call.
\<close>

section \<open>The code\<close>

type_synonym blk = "nat \<Rightarrow> u8"
type_synonym u16 = "16 word"

definition SFS_BLKSIZE :: nat where [simp]: "SFS_BLKSIZE = 4096"
definition SFS_NDIRECT :: nat where [simp]: "SFS_NDIRECT = 12"
definition SFS_BLK_NENTRY :: nat where [simp]: "SFS_BLK_NENTRY = 1024"

record sfs_fs =
  super_blocks :: u32
  super_unused :: u32
  super_dirty :: bool
  freemap :: bitmap
  dev :: "u32 \<Rightarrow> blk"
  io_ret :: "nat \<Rightarrow> int"
  io_calls :: nat

record sfs_disk_inode =
  size_or_slots :: u32
  parent :: u32
  di_type :: u16
  nlinks :: u16
  di_blocks :: u32
  direct :: "u32 list"
  indirect :: u32
  db_indirect :: u32

record sfs_inode =
  din :: sfs_disk_inode
  ino :: u32
  sin_removed :: bool
  sin_dirty :: bool
  reclaim_count :: int

subsection \<open>\<^verbatim>\<open>sfs_io.c\<close>\<close>

text \<open>The byte offset of a block, computed in 32 bits.\<close>

definition blk_addr :: "u32 \<Rightarrow> u32" where
  "blk_addr blkno = blkno * 4096"

text \<open>A transfer: \<open>Some b\<close> writes \<open>b\<close>, \<open>None\<close> reads. The block returned is the buffer afterwards.\<close>

definition sfs_rwblock_nolock :: "blk option \<Rightarrow> u32 \<Rightarrow> bool \<Rightarrow> sfs_fs \<Rightarrow> (int \<times> blk \<times> sfs_fs) option" where
  "sfs_rwblock_nolock w blkno check fs = do {
     kassert ((blkno \<noteq> 0 \<or> \<not> check) \<and> blkno < super_blocks fs);
     let ret = io_ret fs (io_calls fs); fs = fs\<lparr>io_calls := io_calls fs + 1\<rparr> in
     Some (case w of
         None \<Rightarrow> (ret, dev fs (blk_addr blkno), fs)
       | Some b \<Rightarrow> (ret, b, if ret = 0 then fs\<lparr>dev := (dev fs)(blk_addr blkno := b)\<rparr> else fs))
   }"

fun sfs_rblock :: "u32 \<Rightarrow> nat \<Rightarrow> sfs_fs \<Rightarrow> (int \<times> blk list \<times> sfs_fs) option" where
  "sfs_rblock blkno 0 fs = Some (0, [], fs)"
| "sfs_rblock blkno (Suc nblks) fs = do {
     (ret, b, fs) \<leftarrow> sfs_rwblock_nolock None blkno True fs;
     if ret \<noteq> 0 then Some (ret, [], fs)
     else do { (ret, bs, fs) \<leftarrow> sfs_rblock (blkno + 1) nblks fs; Some (ret, b # bs, fs) }
   }"

fun sfs_wblock :: "blk list \<Rightarrow> u32 \<Rightarrow> sfs_fs \<Rightarrow> (int \<times> sfs_fs) option" where
  "sfs_wblock [] blkno fs = Some (0, fs)"
| "sfs_wblock (b # bs) blkno fs = do {
     (ret, _, fs) \<leftarrow> sfs_rwblock_nolock (Some b) blkno True fs;
     if ret \<noteq> 0 then Some (ret, fs) else sfs_wblock bs (blkno + 1) fs
   }"

definition sfs_rbuf :: "nat \<Rightarrow> u32 \<Rightarrow> nat \<Rightarrow> sfs_fs \<Rightarrow> (int \<times> u8 list \<times> sfs_fs) option" where
  "sfs_rbuf len blkno offset fs = do {
     kassert (offset < SFS_BLKSIZE \<and> offset + len \<le> SFS_BLKSIZE);
     (ret, b, fs) \<leftarrow> sfs_rwblock_nolock None blkno True fs;
     Some (ret, map b [offset..<offset + len], fs)
   }"

definition patch :: "u8 list \<Rightarrow> nat \<Rightarrow> blk \<Rightarrow> blk" where
  "patch bs offset b = (\<lambda>i. if offset \<le> i \<and> i < offset + length bs then bs ! (i - offset) else b i)"

definition sfs_wbuf :: "u8 list \<Rightarrow> u32 \<Rightarrow> nat \<Rightarrow> sfs_fs \<Rightarrow> (int \<times> sfs_fs) option" where
  "sfs_wbuf bs blkno offset fs = do {
     kassert (offset < SFS_BLKSIZE \<and> offset + length bs \<le> SFS_BLKSIZE);
     (ret, b, fs) \<leftarrow> sfs_rwblock_nolock None blkno True fs;
     if ret = 0 then do {
       (ret, _, fs) \<leftarrow> sfs_rwblock_nolock (Some (patch bs offset b)) blkno True fs;
       Some (ret, fs)
     }
     else Some (ret, fs)
   }"

text \<open>\<^verbatim>\<open>ret\<close> is uninitialised before the first block.\<close>

fun sfs_clear_block :: "int \<Rightarrow> u32 \<Rightarrow> nat \<Rightarrow> sfs_fs \<Rightarrow> (int \<times> sfs_fs) option" where
  "sfs_clear_block ret blkno 0 fs = Some (ret, fs)"
| "sfs_clear_block ret blkno (Suc nblks) fs = do {
     (ret, _, fs) \<leftarrow> sfs_rwblock_nolock (Some (\<lambda>i. 0)) blkno True fs;
     if ret \<noteq> 0 then Some (ret, fs) else sfs_clear_block ret (blkno + 1) nblks fs
   }"

subsection \<open>Allocation of blocks\<close>

definition sfs_block_inuse :: "u32 \<Rightarrow> sfs_fs \<Rightarrow> bool option" where
  "sfs_block_inuse b fs = do {
     kassert (b \<noteq> 0 \<and> b < super_blocks fs);
     free \<leftarrow> bitmap_test (freemap fs) b;
     Some (\<not> free)
   }"

definition sfs_block_alloc :: "sfs_fs \<Rightarrow> (int \<times> u32 \<times> sfs_fs) option" where
  "sfs_block_alloc fs = do {
     (ret, b, bm) \<leftarrow> bitmap_alloc (freemap fs);
     if ret \<noteq> 0 then Some (ret, 0, fs\<lparr>freemap := bm\<rparr>)
     else do {
       b \<leftarrow> b;
       kassert (super_unused fs > 0);
       fs \<leftarrow> Some (fs\<lparr>freemap := bm, super_unused := super_unused fs - 1, super_dirty := True\<rparr>);
       used \<leftarrow> sfs_block_inuse b fs;
       kassert used;
       (ret, fs) \<leftarrow> sfs_clear_block 0 b 1 fs;
       Some (ret, b, fs)
     }
   }"

definition sfs_block_free :: "u32 \<Rightarrow> sfs_fs \<Rightarrow> sfs_fs option" where
  "sfs_block_free b fs = do {
     used \<leftarrow> sfs_block_inuse b fs;
     kassert used;
     bm \<leftarrow> bitmap_free (freemap fs) b;
     Some (fs\<lparr>freemap := bm, super_unused := super_unused fs + 1, super_dirty := True\<rparr>)
   }"

subsection \<open>Block maps\<close>

text \<open>A 32-bit number in the byte order of the device.\<close>

definition bytes4 :: "u32 \<Rightarrow> u8 list" where
  "bytes4 v = [ucast v, ucast (drop_bit 8 v), ucast (drop_bit 16 v), ucast (drop_bit 24 v)]"

definition word4 :: "u8 list \<Rightarrow> u32" where
  "word4 bs = ucast (bs ! 0) OR push_bit 8 (ucast (bs ! 1)) OR push_bit 16 (ucast (bs ! 2)) OR push_bit 24 (ucast (bs ! 3))"

text \<open>\<^verbatim>\<open>failed_cleanup\<close>: \<open>old\<close> is \<^verbatim>\<open>*entp\<close>.\<close>

definition bmap_cleanup :: "u32 \<Rightarrow> u32 \<Rightarrow> sfs_fs \<Rightarrow> sfs_fs option" where
  "bmap_cleanup old ent fs = (if ent \<noteq> old then sfs_block_free ent fs else Some fs)"

text \<open>The part after the branch on \<^verbatim>\<open>*entp\<close>: a new block is entered at \<open>index\<close> of block \<open>ent\<close>.\<close>

definition bmap_enter :: "u32 \<Rightarrow> u32 \<Rightarrow> nat \<Rightarrow> sfs_fs \<Rightarrow> (int \<times> u32 \<times> u32 \<times> sfs_fs) option" where
  "bmap_enter old ent index fs = do {
     (ret, b, fs) \<leftarrow> sfs_block_alloc fs;
     if ret \<noteq> 0 then do { fs \<leftarrow> bmap_cleanup old ent fs; Some (ret, old, 0, fs) }
     else do {
       (ret, fs) \<leftarrow> sfs_wbuf (bytes4 b) ent (index * 4) fs;
       if ret \<noteq> 0 then do {
         fs \<leftarrow> sfs_block_free b fs;
         fs \<leftarrow> bmap_cleanup old ent fs;
         Some (ret, old, 0, fs)
       }
       else Some (0, ent, b, fs)
     }
   }"

text \<open>The results are the error code, \<^verbatim>\<open>*entp\<close>, \<^verbatim>\<open>*ino_store\<close> and the file system.\<close>

definition sfs_bmap_get_sub_nolock :: "u32 \<Rightarrow> nat \<Rightarrow> bool \<Rightarrow> sfs_fs \<Rightarrow> (int \<times> u32 \<times> u32 \<times> sfs_fs) option" where
  "sfs_bmap_get_sub_nolock ent index create fs = do {
     kassert (index < SFS_BLK_NENTRY);
     if ent \<noteq> 0 then do {
       (ret, bs, fs) \<leftarrow> sfs_rbuf 4 ent (index * 4) fs;
       if ret \<noteq> 0 then Some (ret, ent, 0, fs)
       else if word4 bs \<noteq> 0 \<or> \<not> create then Some (0, ent, word4 bs, fs)
       else bmap_enter ent ent index fs
     }
     else if \<not> create then Some (0, ent, 0, fs)
     else do {
       (ret, b, fs) \<leftarrow> sfs_block_alloc fs;
       if ret \<noteq> 0 then Some (ret, ent, 0, fs) else bmap_enter ent b index fs
     }
   }"

definition bmap_out :: "u32 \<Rightarrow> sfs_inode \<Rightarrow> sfs_fs \<Rightarrow> (int \<times> u32 \<times> sfs_inode \<times> sfs_fs) option" where
  "bmap_out b sin fs = do {
     ok \<leftarrow> (if b = 0 then Some True else sfs_block_inuse b fs);
     kassert ok;
     Some (0, b, sin, fs)
   }"

definition sfs_bmap_get_nolock :: "sfs_inode \<Rightarrow> nat \<Rightarrow> bool \<Rightarrow> sfs_fs \<Rightarrow> (int \<times> u32 \<times> sfs_inode \<times> sfs_fs) option" where
  "sfs_bmap_get_nolock sin index create fs =
     (let d = din sin in
      if index < SFS_NDIRECT then
        if direct d ! index = 0 \<and> create then do {
          (ret, b, fs) \<leftarrow> sfs_block_alloc fs;
          if ret \<noteq> 0 then Some (ret, 0, sin, fs)
          else bmap_out b (sin\<lparr>din := d\<lparr>direct := (direct d)[index := b]\<rparr>, sin_dirty := True\<rparr>) fs
        }
        else bmap_out (direct d ! index) sin fs
      else let index = index - SFS_NDIRECT in
      if index < SFS_BLK_NENTRY then do {
        (ret, ent, b, fs) \<leftarrow> sfs_bmap_get_sub_nolock (indirect d) index create fs;
        if ret \<noteq> 0 then Some (ret, 0, sin, fs)
        else if ent \<noteq> indirect d then do {
          kassert (indirect d = 0);
          bmap_out b (sin\<lparr>din := d\<lparr>indirect := ent\<rparr>, sin_dirty := True\<rparr>) fs
        }
        else bmap_out b sin fs
      }
      else let index = index - SFS_BLK_NENTRY in do {
        (ret, ent, b, fs) \<leftarrow> sfs_bmap_get_sub_nolock (db_indirect d) (index div SFS_BLK_NENTRY) create fs;
        if ret \<noteq> 0 then Some (ret, 0, sin, fs)
        else do {
          sin \<leftarrow> (if ent \<noteq> db_indirect d then do {
              kassert (db_indirect d = 0);
              Some (sin\<lparr>din := d\<lparr>db_indirect := ent\<rparr>, sin_dirty := True\<rparr>)
            } else Some sin);
          if b \<noteq> 0 then do {
            (ret, _, b, fs) \<leftarrow> sfs_bmap_get_sub_nolock b (index mod SFS_BLK_NENTRY) create fs;
            if ret \<noteq> 0 then Some (ret, 0, sin, fs) else bmap_out b sin fs
          }
          else bmap_out b sin fs
        }
      })"

definition sfs_bmap_free_sub_nolock :: "u32 \<Rightarrow> nat \<Rightarrow> sfs_fs \<Rightarrow> (int \<times> sfs_fs) option" where
  "sfs_bmap_free_sub_nolock ent index fs = do {
     used \<leftarrow> sfs_block_inuse ent fs;
     kassert (used \<and> index < SFS_BLK_NENTRY);
     (ret, bs, fs) \<leftarrow> sfs_rbuf 4 ent (index * 4) fs;
     if ret \<noteq> 0 then Some (ret, fs)
     else if word4 bs \<noteq> 0 then do {
       (ret, fs) \<leftarrow> sfs_wbuf (bytes4 0) ent (index * 4) fs;
       if ret \<noteq> 0 then Some (ret, fs)
       else do { fs \<leftarrow> sfs_block_free (word4 bs) fs; Some (0, fs) }
     }
     else Some (0, fs)
   }"

definition sfs_bmap_free_nolock :: "sfs_inode \<Rightarrow> nat \<Rightarrow> sfs_fs \<Rightarrow> (int \<times> sfs_inode \<times> sfs_fs) option" where
  "sfs_bmap_free_nolock sin index fs =
     (let d = din sin in
      if index < SFS_NDIRECT then
        if direct d ! index \<noteq> 0 then do {
          fs \<leftarrow> sfs_block_free (direct d ! index) fs;
          Some (0, sin\<lparr>din := d\<lparr>direct := (direct d)[index := 0]\<rparr>, sin_dirty := True\<rparr>, fs)
        }
        else Some (0, sin, fs)
      else let index = index - SFS_NDIRECT in
      if index < SFS_BLK_NENTRY then
        if indirect d \<noteq> 0 then do { (ret, fs) \<leftarrow> sfs_bmap_free_sub_nolock (indirect d) index fs; Some (ret, sin, fs) }
        else Some (0, sin, fs)
      else let index = index - SFS_BLK_NENTRY in
      if db_indirect d \<noteq> 0 then do {
        (ret, _, b, fs) \<leftarrow> sfs_bmap_get_sub_nolock (db_indirect d) (index div SFS_BLK_NENTRY) False fs;
        if ret \<noteq> 0 then Some (ret, sin, fs)
        else if b \<noteq> 0 then do { (ret, fs) \<leftarrow> sfs_bmap_free_sub_nolock b (index mod SFS_BLK_NENTRY) fs; Some (ret, sin, fs) }
        else Some (0, sin, fs)
      }
      else Some (0, sin, fs))"

definition sfs_bmap_load_nolock :: "sfs_inode \<Rightarrow> nat \<Rightarrow> sfs_fs \<Rightarrow> (int \<times> u32 \<times> sfs_inode \<times> sfs_fs) option" where
  "sfs_bmap_load_nolock sin index fs = do {
     kassert (index \<le> unat (di_blocks (din sin)));
     let create = (index = unat (di_blocks (din sin))) in do {
     (ret, b, sin, fs) \<leftarrow> sfs_bmap_get_nolock sin index create fs;
     if ret \<noteq> 0 then Some (ret, 0, sin, fs)
     else do {
       used \<leftarrow> sfs_block_inuse b fs;
       kassert used;
       Some (0, b, if create then sin\<lparr>din := (din sin)\<lparr>di_blocks := di_blocks (din sin) + 1\<rparr>\<rparr> else sin, fs)
     }
   }}"

definition sfs_bmap_truncate_nolock :: "sfs_inode \<Rightarrow> sfs_fs \<Rightarrow> (int \<times> sfs_inode \<times> sfs_fs) option" where
  "sfs_bmap_truncate_nolock sin fs = do {
     kassert (di_blocks (din sin) \<noteq> 0);
     (ret, sin, fs) \<leftarrow> sfs_bmap_free_nolock sin (unat (di_blocks (din sin)) - 1) fs;
     if ret \<noteq> 0 then Some (ret, sin, fs)
     else Some (0, sin\<lparr>din := (din sin)\<lparr>di_blocks := di_blocks (din sin) - 1\<rparr>, sin_dirty := True\<rparr>, fs)
   }"

section \<open>The file system and its blocks\<close>

abbreviation avail :: "sfs_fs \<Rightarrow> u32 set" where "avail fs \<equiv> free_indices (freemap fs)"

definition blk_of :: "sfs_fs \<Rightarrow> u32 \<Rightarrow> blk" where
  "blk_of fs b = dev fs (blk_addr b)"

definition in_use :: "sfs_fs \<Rightarrow> u32 \<Rightarrow> bool" where
  "in_use fs b \<longleftrightarrow> b \<noteq> 0 \<and> b < super_blocks fs \<and> b \<notin> avail fs"

text \<open>Byte offsets are 32-bit numbers, so that a file system has at most \<open>2 ^ 20\<close> blocks.\<close>

definition fs_ok :: "sfs_fs \<Rightarrow> bool" where
  "fs_ok fs \<longleftrightarrow> bitmap_inv (freemap fs) \<and> super_blocks fs \<le> nbits (freemap fs) \<and> super_blocks fs \<le> 0x100000 \<and>
     (\<forall>b \<in> avail fs. b \<noteq> 0 \<and> b < super_blocks fs) \<and> unat (super_unused fs) = card (avail fs)"

lemma finite_avail [simp]: "finite (avail fs)"
  by (rule finite_subset [OF subset_UNIV]) simp

lemma blk_addr_inj:
  assumes "a < 0x100000" "b < 0x100000"
  shows "(blk_addr a = blk_addr b) = (a = b)"
proof -
  have "unat (blk_addr c) = unat c * 4096" if "c < 0x100000" for c
    using that unat_mult_lem [of c "4096 :: u32"] by (simp add: blk_addr_def word_less_nat_alt)
  then show ?thesis using assms by (metis mult_right_cancel word_unat_eq_iff zero_neq_numeral)
qed

lemma fs_ok_addr: "fs_ok fs \<Longrightarrow> a < super_blocks fs \<Longrightarrow> b < super_blocks fs \<Longrightarrow> (blk_addr a = blk_addr b) = (a = b)"
  by (rule blk_addr_inj) (auto simp: fs_ok_def)

definition tick :: "sfs_fs \<Rightarrow> sfs_fs" where
  "tick fs = fs\<lparr>io_calls := io_calls fs + 1\<rparr>"

definition put_blk :: "u32 \<Rightarrow> blk \<Rightarrow> sfs_fs \<Rightarrow> sfs_fs" where
  "put_blk b x fs = fs\<lparr>dev := (dev fs)(blk_addr b := x)\<rparr>"

lemma tick_simps [simp]: "super_blocks (tick fs) = super_blocks fs" "freemap (tick fs) = freemap fs" "super_unused (tick fs) = super_unused fs"
  "io_ret (tick fs) = io_ret fs" "blk_of (tick fs) = blk_of fs" "fs_ok (tick fs) = fs_ok fs" "in_use (tick fs) = in_use fs"
  by (simp_all add: tick_def blk_of_def fs_ok_def in_use_def fun_eq_iff)

lemma put_blk_simps [simp]: "super_blocks (put_blk b x fs) = super_blocks fs" "freemap (put_blk b x fs) = freemap fs"
  "super_unused (put_blk b x fs) = super_unused fs" "io_ret (put_blk b x fs) = io_ret fs" "fs_ok (put_blk b x fs) = fs_ok fs"
  "in_use (put_blk b x fs) = in_use fs"
  by (simp_all add: put_blk_def fs_ok_def in_use_def fun_eq_iff)

lemma blk_of_put: "fs_ok fs \<Longrightarrow> b < super_blocks fs \<Longrightarrow> c < super_blocks fs \<Longrightarrow> blk_of (put_blk b x fs) c = (if c = b then x else blk_of fs c)"
  using fs_ok_addr [of fs c b] by (simp add: blk_of_def put_blk_def)

lemma read_block:
  assumes "in_use fs b"
  shows "sfs_rwblock_nolock None b True fs = Some (io_ret fs (io_calls fs), blk_of fs b, tick fs)"
  using assms by (simp add: sfs_rwblock_nolock_def in_use_def tick_def blk_of_def Let_def)

lemma write_block:
  assumes "in_use fs b"
  shows "sfs_rwblock_nolock (Some x) b True fs =
    Some (io_ret fs (io_calls fs), x, if io_ret fs (io_calls fs) = 0 then put_blk b x (tick fs) else tick fs)"
  using assms by (simp add: sfs_rwblock_nolock_def in_use_def tick_def put_blk_def Let_def)

lemma block_inuse:
  assumes "fs_ok fs" "in_use fs b"
  shows "sfs_block_inuse b fs = Some True"
proof -
  have "b < nbits (freemap fs)" using assms by (auto simp: fs_ok_def in_use_def)
  then show ?thesis using assms bmp.test_iff [of b "freemap fs"] by (simp add: sfs_block_inuse_def in_use_def)
qed

text \<open>
  What an operation may change: it keeps the file system consistent and the blocks in use outside \<open>W\<close>, and takes blocks only from the free ones.
\<close>

definition step :: "u32 set \<Rightarrow> sfs_fs \<Rightarrow> sfs_fs \<Rightarrow> bool" where
  "step W fs fs' \<longleftrightarrow> fs_ok fs' \<and> super_blocks fs' = super_blocks fs \<and> io_ret fs' = io_ret fs \<and> avail fs' \<subseteq> avail fs \<and>
     (\<forall>b. in_use fs b \<and> b \<notin> W \<longrightarrow> blk_of fs' b = blk_of fs b)"

lemma step_in_use: "step W fs fs' \<Longrightarrow> in_use fs b \<Longrightarrow> in_use fs' b"
  by (auto simp: step_def in_use_def)

lemma step_ok: "step W fs fs' \<Longrightarrow> fs_ok fs'"
  by (simp add: step_def)

lemma step_trans:
  assumes "step W a b" "step V b c" "\<forall>x \<in> V. in_use a x \<longrightarrow> x \<in> W"
  shows "step W a c"
  using assms step_in_use [OF assms(1)] unfolding step_def by (metis subset_trans)

lemma step_mono: "step W a b \<Longrightarrow> W \<subseteq> V \<Longrightarrow> step V a b"
  by (auto simp: step_def)

lemma step_tick: "fs_ok fs \<Longrightarrow> step {} fs (tick fs)"
  by (simp add: step_def)

lemma step_blk: "step W fs fs' \<Longrightarrow> in_use fs b \<Longrightarrow> b \<notin> W \<Longrightarrow> blk_of fs' b = blk_of fs b"
  by (simp add: step_def)

lemma rbuf_ok:
  assumes "in_use fs b" "offset < 4096" "offset + len \<le> 4096"
  shows "sfs_rbuf len b offset fs = Some (io_ret fs (io_calls fs), map (blk_of fs b) [offset..<offset + len], tick fs)"
  using assms read_block [OF assms(1)] by (simp add: sfs_rbuf_def)

lemma wbuf_ok:
  assumes "fs_ok fs" "in_use fs b" "offset < 4096" "offset + length bs \<le> 4096"
  shows "\<exists>ret fs'. sfs_wbuf bs b offset fs = Some (ret, fs') \<and> step {b} fs fs' \<and> freemap fs' = freemap fs \<and>
    (ret = 0 \<longrightarrow> blk_of fs' b = patch bs offset (blk_of fs b)) \<and> (ret \<noteq> 0 \<longrightarrow> blk_of fs' b = blk_of fs b \<and> (\<exists>n. io_ret fs n \<noteq> 0))"
proof -
  let ?p = "put_blk b (patch bs offset (blk_of fs b)) (tick (tick fs))"
  have b: "b < super_blocks fs" using assms(2) by (simp add: in_use_def)
  have p: "step {b} fs ?p" "blk_of ?p b = patch bs offset (blk_of fs b)"
    using assms(1) b blk_of_put [of "tick (tick fs)" b] by (auto simp: step_def in_use_def)
  have t: "step {b} fs (tick fs)" "step {b} fs (tick (tick fs))" using assms(1) by (simp_all add: step_def)
  have w: "sfs_rwblock_nolock (Some x) b True (tick fs) = Some (io_ret fs (io_calls (tick fs)), x,
      if io_ret fs (io_calls (tick fs)) = 0 then put_blk b x (tick (tick fs)) else tick (tick fs))" for x
    using write_block [of "tick fs" b x] assms(2) by simp
  show ?thesis unfolding sfs_wbuf_def using assms(2-4) read_block [OF assms(2)] w p t by auto
qed

lemma block_alloc_ok:
  assumes "fs_ok fs"
  shows "\<exists>ret b fs'. sfs_block_alloc fs = Some (ret, b, fs') \<and> step {} fs fs' \<and>
    (if ret = 0 then b \<in> avail fs \<and> avail fs' = avail fs - {b} \<and> in_use fs' b \<and> \<not> in_use fs b \<and> blk_of fs' b = (\<lambda>i. 0)
     else avail fs = {} \<and> ret = - E_NO_MEM \<or> (\<exists>n. io_ret fs n \<noteq> 0))"
proof (cases "avail fs = {}")
  case True
  then have "bitmap_alloc (freemap fs) = Some (- E_NO_MEM, None, freemap fs)" using assms bmp.alloc_empty by (simp add: fs_ok_def)
  then have "sfs_block_alloc fs = Some (- E_NO_MEM, 0, fs)" by (simp add: sfs_block_alloc_def)
  then show ?thesis using True assms by (auto simp: step_def)
next
  case False
  then obtain b bm where a: "bitmap_alloc (freemap fs) = Some (0, Some b, bm)" "bitmap_inv bm" "nbits bm = nbits (freemap fs)"
    "b \<in> avail fs" "free_indices bm = avail fs - {b}"
    using bmp.alloc_some [of "freemap fs"] assms by (auto simp: fs_ok_def)
  let ?f = "fs\<lparr>freemap := bm, super_unused := super_unused fs - 1, super_dirty := True\<rparr>"
  have b: "b \<noteq> 0" "b < super_blocks fs" using assms a(4) by (auto simp: fs_ok_def)
  have c: "unat (super_unused fs) = card (avail fs)" "card (avail fs) > 0" using assms False by (simp_all add: fs_ok_def card_gt_0_iff)
  then have un: "0 < super_unused fs" by (simp add: word_less_nat_alt)
  then have "unat (super_unused fs - 1) = card (avail fs - {b})" using c a(4) by (simp add: unat_minus_one)
  then have f: "fs_ok ?f" using assms a by (auto simp: fs_ok_def)
  have iu: "in_use ?f b" using b a by (simp add: in_use_def)
  have sf: "step {} fs ?f" using f a(5) by (auto simp: step_def blk_of_def)
  have ni: "\<not> in_use fs b" using a(4) by (simp add: in_use_def)
  define r where "r = io_ret fs (io_calls fs)"
  have cl: "sfs_clear_block 0 b 1 ?f = Some (r, if r = 0 then put_blk b (\<lambda>i. 0) (tick ?f) else tick ?f)"
    using write_block [OF iu, of "\<lambda>i. 0"] by (simp add: r_def)
  have eq: "sfs_block_alloc fs = Some (r, b, if r = 0 then put_blk b (\<lambda>i. 0) (tick ?f) else tick ?f)"
    using a(1) un block_inuse [OF f iu] cl by (simp add: sfs_block_alloc_def del: sfs_clear_block.simps)
  show ?thesis
  proof (cases "r = 0")
    case True
    have "blk_of (put_blk b (\<lambda>i. 0) (tick ?f)) b = (\<lambda>i. 0)" using blk_of_put [of "tick ?f" b b] f b by simp
    moreover have "step {} fs (put_blk b (\<lambda>i. 0) (tick ?f))"
      using sf f ni blk_of_put [of "tick ?f" b] b unfolding step_def by (auto simp: in_use_def)
    ultimately show ?thesis using eq True a iu ni by (intro exI [of _ r] exI [of _ b] exI [of _ "put_blk b (\<lambda>i. 0) (tick ?f)"]) auto
  next
    case False
    have "step {} fs (tick ?f)" using sf by (simp add: step_def)
    then show ?thesis using eq False r_def by auto
  qed
qed

lemma block_free_ok:
  assumes "fs_ok fs" "in_use fs b"
  shows "\<exists>fs'. sfs_block_free b fs = Some fs' \<and> fs_ok fs' \<and> super_blocks fs' = super_blocks fs \<and> io_ret fs' = io_ret fs \<and>
    avail fs' = insert b (avail fs) \<and> blk_of fs' = blk_of fs"
proof -
  have b: "b < nbits (freemap fs)" "b \<notin> avail fs" using assms by (auto simp: fs_ok_def in_use_def)
  then obtain bm where bm: "bitmap_free (freemap fs) b = Some bm" "bitmap_inv bm" "nbits bm = nbits (freemap fs)" "free_indices bm = insert b (avail fs)"
    using bmp.free_used [of "freemap fs" b] assms(1) by (auto simp: fs_ok_def)
  let ?f = "fs\<lparr>freemap := bm, super_unused := super_unused fs + 1, super_dirty := True\<rparr>"
  have "card (insert b (avail fs)) = card (unat ` insert b (avail fs))"
    by (rule card_image [symmetric]) (simp add: inj_on_def word_unat_eq_iff)
  also have "\<dots> \<le> card {..<(0x100000 :: nat)}"
    using assms by (intro card_mono) (auto simp: fs_ok_def in_use_def word_less_nat_alt word_le_nat_alt)
  finally have "unat (super_unused fs) + 1 < 2 ^ 32" using assms(1) b(2) by (simp add: fs_ok_def)
  then have "unat (super_unused fs + 1) = card (insert b (avail fs))"
    using assms(1) b(2) by (simp add: fs_ok_def unat_word_ariths)
  then have "fs_ok ?f" using assms bm by (auto simp: fs_ok_def in_use_def)
  then show ?thesis using block_inuse [OF assms] bm by (simp add: sfs_block_free_def blk_of_def fun_eq_iff)
qed

section \<open>Entries of an indirect block\<close>

definition blk_ent :: "blk \<Rightarrow> nat \<Rightarrow> u32" where
  "blk_ent x i = word4 (map x [i * 4..<i * 4 + 4])"

text \<open>Entry \<open>i\<close> of the block \<open>e\<close>, 0 when there is no block.\<close>

definition sub_ent :: "sfs_fs \<Rightarrow> u32 \<Rightarrow> nat \<Rightarrow> u32" where
  "sub_ent fs e i = (if e = 0 then 0 else blk_ent (blk_of fs e) i)"

lemma sub_ent_0 [simp]: "sub_ent fs 0 i = 0"
  by (simp add: sub_ent_def)

lemma word4_bytes4 [simp]: "word4 (bytes4 v) = v"
proof (rule bit_word_eqI)
  fix n assume "n < LENGTH(32)"
  then consider "n < 8" | "8 \<le> n" "n < 16" | "16 \<le> n" "n < 24" | "24 \<le> n" "n < 32" by (simp add: not_less) linarith
  then show "bit (word4 (bytes4 v)) n = bit v n"
    by cases (auto simp: word4_def bytes4_def bit_or_iff bit_push_bit_iff bit_ucast_iff bit_drop_bit_eq)
qed

lemma blk_ent_upt: "[i * 4..<i * 4 + 4] = [i * 4, i * 4 + 1, i * 4 + 2, i * 4 + 3]"
  by (simp add: upt_rec)

lemma blk_ent_zero [simp]: "blk_ent (\<lambda>i. 0) i = 0"
  unfolding blk_ent_def blk_ent_upt by (simp add: word4_def)

lemma length_bytes4 [simp]: "length (bytes4 v) = 4"
  by (simp add: bytes4_def)

lemma blk_ent_patch: "blk_ent (patch (bytes4 v) (i * 4) x) j = (if j = i then v else blk_ent x j)"
proof (cases "j = i")
  case True
  have "map (patch (bytes4 v) (i * 4) x) [i * 4..<i * 4 + 4] = bytes4 v"
    unfolding blk_ent_upt by (simp add: patch_def bytes4_def)
  then show ?thesis using True by (simp add: blk_ent_def)
next
  case False
  then have "map (patch (bytes4 v) (i * 4) x) [j * 4..<j * 4 + 4] = map x [j * 4..<j * 4 + 4]"
    unfolding blk_ent_upt by (auto simp: patch_def)
  then show ?thesis using False unfolding blk_ent_def by argo
qed

lemma rbuf_ent:
  assumes "in_use fs e" "i < 1024"
  shows "\<exists>ret bs. sfs_rbuf 4 e (i * 4) fs = Some (ret, bs, tick fs) \<and> word4 bs = sub_ent fs e i \<and> (ret \<noteq> 0 \<longrightarrow> (\<exists>n. io_ret fs n \<noteq> 0))"
  using assms rbuf_ok [of fs e "i * 4" 4] by (auto simp: sub_ent_def blk_ent_def in_use_def)

lemma sub_ent_step: "step W fs fs' \<Longrightarrow> in_use fs e \<Longrightarrow> e \<notin> W \<Longrightarrow> sub_ent fs' e i = sub_ent fs e i"
  by (simp add: sub_ent_def step_blk)

lemma sub_ent_tick [simp]: "sub_ent (tick fs) = sub_ent fs"
  by (simp add: sub_ent_def fun_eq_iff)

definition io_failed :: "sfs_fs \<Rightarrow> bool" where
  "io_failed fs \<longleftrightarrow> (\<exists>n. io_ret fs n \<noteq> 0)"

lemma io_failed_step: "step W fs fs' \<Longrightarrow> io_failed fs' = io_failed fs"
  by (simp add: io_failed_def step_def)

text \<open>Entering a new block; the error exits give back what was allocated.\<close>

lemma free_back:
  assumes "step W fs fs'" "b \<in> avail fs" "in_use fs' b"
  shows "\<exists>f. sfs_block_free b fs' = Some f \<and> step W fs f \<and> avail f = insert b (avail fs') \<and> blk_of f = blk_of fs'"
  using block_free_ok [OF step_ok [OF assms(1)] assms(3)] assms(1,2) by (auto simp: step_def)

lemma bmap_enter_ok:
  assumes st: "step {} f0 fs" and e: "in_use fs e" and i: "i < 1024" and old: "old = e \<or> old = 0 \<and> e \<in> avail f0"
  shows "\<exists>ret e' b fs'. bmap_enter old e i fs = Some (ret, e', b, fs') \<and> step {old} f0 fs' \<and>
    (if ret = 0 then e' = e \<and> b \<in> avail fs \<and> avail fs' = avail fs - {b} \<and> blk_of fs' b = (\<lambda>i. 0) \<and> in_use fs' b \<and>
       blk_of fs' e = patch (bytes4 b) (i * 4) (blk_of fs e) \<and> step {e} fs fs'
     else e' = old \<and> step {} f0 fs' \<and> (avail fs = {} \<or> io_failed fs))"
proof -
  obtain ret b f1 where al: "sfs_block_alloc fs = Some (ret, b, f1)" "step {} fs f1"
    "if ret = 0 then b \<in> avail fs \<and> avail f1 = avail fs - {b} \<and> in_use f1 b \<and> \<not> in_use fs b \<and> blk_of f1 b = (\<lambda>i. 0)
     else avail fs = {} \<and> ret = - E_NO_MEM \<or> (\<exists>n. io_ret fs n \<noteq> 0)"
    using block_alloc_ok [OF step_ok [OF st]] by blast
  have s1: "step {} f0 f1" by (rule step_trans [OF st al(2)]) simp
  have cl: "\<exists>f'. bmap_cleanup old e f = Some f' \<and> step {} f0 f'" if "step {} f0 f" "in_use f e" for f
  proof (cases "e = old")
    case True
    then show ?thesis using that by (simp add: bmap_cleanup_def)
  next
    case False
    then have "e \<in> avail f0" using old by simp
    then show ?thesis using free_back [OF that(1) _ that(2)] False by (auto simp: bmap_cleanup_def)
  qed
  have m: "step {} f0 f \<Longrightarrow> step {old} f0 f" for f by (erule step_mono) simp
  show ?thesis
  proof (cases "ret = 0")
    case False
    obtain f' where "bmap_cleanup old e f1 = Some f'" "step {} f0 f'" using cl [OF s1 step_in_use [OF al(2) e]] by blast
    then show ?thesis using al(1,3) False m by (auto simp: bmap_enter_def io_failed_def)
  next
    case True
    then have b: "b \<in> avail fs" "avail f1 = avail fs - {b}" "in_use f1 b" "\<not> in_use fs b" "blk_of f1 b = (\<lambda>i. 0)" using al(3) by simp_all
    have e1: "in_use f1 e" "e \<noteq> b" using step_in_use [OF al(2) e] b(4) e by auto
    have be: "blk_of f1 e = blk_of fs e" using step_blk [OF al(2) e] by simp
    obtain r2 f2 where w: "sfs_wbuf (bytes4 b) e (i * 4) f1 = Some (r2, f2)" "step {e} f1 f2" "freemap f2 = freemap f1"
      "r2 = 0 \<longrightarrow> blk_of f2 e = patch (bytes4 b) (i * 4) (blk_of f1 e)" "r2 \<noteq> 0 \<longrightarrow> blk_of f2 e = blk_of f1 e \<and> (\<exists>n. io_ret f1 n \<noteq> 0)"
      using wbuf_ok [OF step_ok [OF al(2)] e1(1), of "i * 4" "bytes4 b"] i by auto
    show ?thesis
    proof (cases "r2 = 0")
      case r2: True
      have sf: "step {e} fs f2" using step_trans [OF step_mono [OF al(2)] w(2), of "{e}"] by simp
      have "step {old} f0 f2" using step_trans [OF m [OF s1] w(2)] old st by (auto simp: in_use_def step_def)
      moreover have "blk_of f2 b = (\<lambda>i. 0)" using step_blk [OF w(2) b(3)] e1(2) b(5) by auto
      moreover have "in_use f2 b" by (rule step_in_use [OF w(2) b(3)])
      ultimately show ?thesis using al(1) True w r2 b sf be by (simp add: bmap_enter_def)
    next
      case False
      have "step {} f1 f2" using w(2,5) False unfolding step_def by auto
      then have s2: "step {} f0 f2" using step_trans [OF s1] by blast
      have bf: "b \<in> avail f0" using b(1) st by (auto simp: step_def)
      obtain f3 where f3: "sfs_block_free b f2 = Some f3" "step {} f0 f3" "avail f3 = insert b (avail f2)"
        using free_back [OF s2 bf step_in_use [OF w(2) b(3)]] by blast
      have "in_use f3 e" using step_in_use [OF w(2) e1(1)] f3(2,3) s2 e1(2) by (auto simp: in_use_def step_def)
      then obtain f4 where "bmap_cleanup old e f3 = Some f4" "step {} f0 f4" using cl [OF f3(2)] by blast
      moreover have "io_failed fs" using w(5) False io_failed_step [OF al(2)] by (simp add: io_failed_def)
      ultimately show ?thesis using al(1) True w(1) False f3(1) m by (auto simp: bmap_enter_def)
    qed
  qed
qed

lemma get_sub_read:
  assumes "e = 0 \<or> in_use fs e" "i < 1024" "\<not> create \<or> sub_ent fs e i \<noteq> 0"
  shows "\<exists>ret b fs'. sfs_bmap_get_sub_nolock e i create fs = Some (ret, e, b, fs') \<and> (fs' = fs \<or> fs' = tick fs) \<and>
    (if ret = 0 then b = sub_ent fs e i else io_failed fs)"
proof (cases "e = 0")
  case True
  then show ?thesis using assms by (simp add: sfs_bmap_get_sub_nolock_def sub_ent_def)
next
  case False
  then obtain ret bs where "sfs_rbuf 4 e (i * 4) fs = Some (ret, bs, tick fs)" "word4 bs = sub_ent fs e i" "ret \<noteq> 0 \<longrightarrow> io_failed fs"
    using rbuf_ent [of fs e i] assms(1,2) by (auto simp: io_failed_def)
  then show ?thesis using False assms(2,3) by (auto simp: sfs_bmap_get_sub_nolock_def)
qed

lemma get_sub_create:
  assumes ok: "fs_ok fs" and e: "e = 0 \<or> in_use fs e" and i: "i < 1024" and z: "sub_ent fs e i = 0"
  shows "\<exists>ret e' b fs'. sfs_bmap_get_sub_nolock e i True fs = Some (ret, e', b, fs') \<and> step {e} fs fs' \<and>
    (if ret = 0 then b \<in> avail fs \<and> in_use fs' b \<and> blk_of fs' b = (\<lambda>i. 0) \<and> b \<noteq> e' \<and> in_use fs' e' \<and>
       (if e = 0 then e' \<in> avail fs \<and> avail fs' = avail fs - {b, e'} else e' = e \<and> avail fs' = avail fs - {b}) \<and>
       (\<forall>k. sub_ent fs' e' k = (if k = i then b else sub_ent fs e k))
     else e' = e \<and> step {} fs fs' \<and> (card (avail fs) \<le> 1 \<or> io_failed fs))"
proof (cases "e = 0")
  case False
  then have iu: "in_use fs e" using e by simp
  have st: "step {} fs (tick fs)" using ok by (rule step_tick)
  obtain ret bs where r: "sfs_rbuf 4 e (i * 4) fs = Some (ret, bs, tick fs)" "word4 bs = 0" "ret \<noteq> 0 \<longrightarrow> io_failed fs"
    using rbuf_ent [OF iu i] z by (auto simp: io_failed_def)
  show ?thesis
  proof (cases "ret = 0")
    case n: False
    then show ?thesis using r False i st step_mono [OF st, of "{e}"] by (simp add: sfs_bmap_get_sub_nolock_def)
  next
    case True
    obtain r2 e' b fs' where en: "bmap_enter e e i (tick fs) = Some (r2, e', b, fs')" "step {e} fs fs'"
      "if r2 = 0 then e' = e \<and> b \<in> avail (tick fs) \<and> avail fs' = avail (tick fs) - {b} \<and> blk_of fs' b = (\<lambda>i. 0) \<and> in_use fs' b \<and>
         blk_of fs' e = patch (bytes4 b) (i * 4) (blk_of (tick fs) e) \<and> step {e} (tick fs) fs'
       else e' = e \<and> step {} fs fs' \<and> (avail (tick fs) = {} \<or> io_failed (tick fs))"
      using bmap_enter_ok [OF st, of e i e] iu i by auto
    have "sfs_bmap_get_sub_nolock e i True fs = Some (r2, e', b, fs')" using r True False i en(1) by (simp add: sfs_bmap_get_sub_nolock_def)
    moreover have "b \<in> avail fs \<longrightarrow> b \<noteq> e" using iu by (auto simp: in_use_def)
    ultimately show ?thesis using en(2,3) False step_in_use [OF en(2) iu] by (auto simp: sub_ent_def blk_ent_patch io_failed_def)
  qed
next
  case True
  obtain ret x f1 where al: "sfs_block_alloc fs = Some (ret, x, f1)" "step {} fs f1"
    "if ret = 0 then x \<in> avail fs \<and> avail f1 = avail fs - {x} \<and> in_use f1 x \<and> \<not> in_use fs x \<and> blk_of f1 x = (\<lambda>i. 0)
     else avail fs = {} \<and> ret = - E_NO_MEM \<or> (\<exists>n. io_ret fs n \<noteq> 0)"
    using block_alloc_ok [OF ok] by blast
  show ?thesis
  proof (cases "ret = 0")
    case False
    then show ?thesis using True i al step_mono [OF al(2), of "{e}"] by (auto simp: sfs_bmap_get_sub_nolock_def io_failed_def)
  next
    case r: True
    then have x: "x \<in> avail fs" "avail f1 = avail fs - {x}" "in_use f1 x" "blk_of f1 x = (\<lambda>i. 0)" using al(3) by simp_all
    obtain r2 e' b fs' where en: "bmap_enter 0 x i f1 = Some (r2, e', b, fs')" "step {0} fs fs'"
      "if r2 = 0 then e' = x \<and> b \<in> avail f1 \<and> avail fs' = avail f1 - {b} \<and> blk_of fs' b = (\<lambda>i. 0) \<and> in_use fs' b \<and>
         blk_of fs' x = patch (bytes4 b) (i * 4) (blk_of f1 x) \<and> step {x} f1 fs'
       else e' = 0 \<and> step {} fs fs' \<and> (avail f1 = {} \<or> io_failed f1)"
      using bmap_enter_ok [OF al(2) x(3) i, of 0] x(1) by auto
    have eq: "sfs_bmap_get_sub_nolock e i True fs = Some (r2, e', b, fs')" using True i al(1) r en(1) by (simp add: sfs_bmap_get_sub_nolock_def)
    show ?thesis
    proof (cases "r2 = 0")
      case r2: True
      have nz: "x \<noteq> 0" using x(3) by (simp add: in_use_def)
      have "in_use fs' x" using step_in_use [OF _ x(3)] en(3) r2 by auto
      moreover have "avail fs' = avail fs - {b, x}" using en(3) r2 x(2) by auto
      ultimately show ?thesis using eq en r2 x True nz by (auto simp: sub_ent_def blk_ent_patch)
    next
      case False
      have "avail f1 = {} \<longrightarrow> card (avail fs) \<le> 1" using x(1,2) by (metis card.empty card_Suc_Diff1 finite_avail le_refl One_nat_def)
      then show ?thesis using eq en(2,3) False True io_failed_step [OF al(2)] by auto
    qed
  qed
qed

end
