(* ===== verification/Sfs_Map.thy ===== *)
theory Sfs_Map
  imports Sfs_Block
begin

text \<open>
  Correctness of the block maps: the pointers of an inode and of its indirect blocks are places (\<open>slot\<close>), each block of the inode is held by
  one place, and \<^verbatim>\<open>sfs_bmap_load_nolock\<close> and \<^verbatim>\<open>sfs_bmap_truncate_nolock\<close> append and remove the last block of the file without touching any other.
\<close>

section \<open>The places that hold block numbers\<close>

datatype slot = Direct nat | Ind | IndE nat | Db | DbE nat | DbEE nat nat

fun slot_ok :: "slot \<Rightarrow> bool" where
  "slot_ok (Direct i) = (i < 12)"
| "slot_ok (IndE i) = (i < 1024)"
| "slot_ok (DbE i) = (i < 1024)"
| "slot_ok (DbEE i j) = (i < 1024 \<and> j < 1024)"
| "slot_ok _ = True"

fun ptr :: "sfs_fs \<Rightarrow> sfs_disk_inode \<Rightarrow> slot \<Rightarrow> u32" where
  "ptr fs d (Direct i) = direct d ! i"
| "ptr fs d Ind = indirect d"
| "ptr fs d (IndE i) = sub_ent fs (indirect d) i"
| "ptr fs d Db = db_indirect d"
| "ptr fs d (DbE i) = sub_ent fs (db_indirect d) i"
| "ptr fs d (DbEE i j) = sub_ent fs (sub_ent fs (db_indirect d) i) j"

fun is_meta :: "slot \<Rightarrow> bool" where
  "is_meta Ind = True"
| "is_meta Db = True"
| "is_meta (DbE i) = True"
| "is_meta _ = False"

definition meta :: "sfs_fs \<Rightarrow> sfs_disk_inode \<Rightarrow> u32 set" where
  "meta fs d = {ptr fs d s | s. slot_ok s \<and> is_meta s}"

definition din_ok :: "sfs_fs \<Rightarrow> sfs_disk_inode \<Rightarrow> bool" where
  "din_ok fs d \<longleftrightarrow> length (direct d) = 12 \<and> (\<forall>s. slot_ok s \<and> ptr fs d s \<noteq> 0 \<longrightarrow> in_use fs (ptr fs d s)) \<and>
     (\<forall>s t. slot_ok s \<and> slot_ok t \<and> ptr fs d s \<noteq> 0 \<and> ptr fs d s = ptr fs d t \<longrightarrow> s = t)"

lemma din_ok_use: "din_ok fs d \<Longrightarrow> slot_ok s \<Longrightarrow> ptr fs d s = 0 \<or> in_use fs (ptr fs d s)"
  by (auto simp: din_ok_def)

lemma din_ok_inj: "din_ok fs d \<Longrightarrow> slot_ok s \<Longrightarrow> slot_ok t \<Longrightarrow> ptr fs d s \<noteq> 0 \<Longrightarrow> ptr fs d s = ptr fs d t \<Longrightarrow> s = t"
  by (simp add: din_ok_def)

lemma meta_in: "slot_ok s \<Longrightarrow> is_meta s \<Longrightarrow> ptr fs d s \<in> meta fs d"
  by (auto simp: meta_def)

text \<open>A block outside \<open>W\<close> that a place holds still has the entries it had.\<close>

lemma entry_kept:
  assumes "din_ok fs d" "step W fs fs'" "slot_ok s" "ptr fs d s \<notin> W \<or> ptr fs d s = 0"
  shows "sub_ent fs' (ptr fs d s) i = sub_ent fs (ptr fs d s) i"
  using din_ok_use [OF assms(1,3)] assms(2,4) sub_ent_step by auto

lemma ptr_kept:
  assumes d: "din_ok fs d" and st: "step W fs fs'" and W: "\<forall>s. slot_ok s \<and> is_meta s \<and> ptr fs d s \<noteq> 0 \<longrightarrow> ptr fs d s \<notin> W" and s: "slot_ok s"
  shows "ptr fs' d s = ptr fs d s"
proof -
  have i: "sub_ent fs' (indirect d) k = sub_ent fs (indirect d) k" for k using entry_kept [OF d st, of Ind k] W [rule_format, of Ind] by auto
  have b: "sub_ent fs' (db_indirect d) k = sub_ent fs (db_indirect d) k" for k using entry_kept [OF d st, of Db k] W [rule_format, of Db] by auto
  have e: "sub_ent fs' (sub_ent fs (db_indirect d) k) j = sub_ent fs (sub_ent fs (db_indirect d) k) j" if "k < 1024" for k j
    using entry_kept [OF d st, of "DbE k" j] W [rule_format, of "DbE k"] that by auto
  show ?thesis using s i b e by (cases s) auto
qed

text \<open>New blocks enter free places: the map stays one-to-one.\<close>

lemma din_ok_enter:
  assumes d: "din_ok fs d" and st: "step W fs fs'" and len: "length (direct d') = 12"
    and new: "\<And>s. slot_ok s \<Longrightarrow> ptr fs' d' s = ptr fs d s \<or> ptr fs' d' s \<in> avail fs \<and> in_use fs' (ptr fs' d' s)"
    and inj: "\<And>s t. slot_ok s \<Longrightarrow> slot_ok t \<Longrightarrow> ptr fs' d' s \<in> avail fs \<Longrightarrow> ptr fs' d' s = ptr fs' d' t \<Longrightarrow> s = t"
  shows "din_ok fs' d'"
  unfolding din_ok_def
proof (intro conjI allI impI)
  show "length (direct d') = 12" by (rule len)
  show "in_use fs' (ptr fs' d' s)" if "slot_ok s \<and> ptr fs' d' s \<noteq> 0" for s
    using new [of s] that din_ok_use [OF d, of s] step_in_use [OF st] by auto
  show "s = t" if h: "slot_ok s \<and> slot_ok t \<and> ptr fs' d' s \<noteq> 0 \<and> ptr fs' d' s = ptr fs' d' t" for s t
  proof (cases "ptr fs' d' s \<in> avail fs")
    case True
    then show ?thesis using inj [of s t] h by blast
  next
    case False
    then have "ptr fs' d' s = ptr fs d s" "ptr fs' d' t = ptr fs d t" using new [of s] new [of t] h by metis+
    then show ?thesis using h din_ok_inj [OF d, of s t] by metis
  qed
qed

lemma ptr_not_avail: "din_ok fs d \<Longrightarrow> slot_ok s \<Longrightarrow> fs_ok fs \<Longrightarrow> ptr fs d s \<notin> avail fs"
  using din_ok_use [of fs d s] by (auto simp: in_use_def fs_ok_def)

text \<open>The pointers after one entry of an indirect block has changed.\<close>

lemma ptr_ind:
  assumes d: "din_ok fs d" and st: "step {indirect d} fs fs'" and s: "slot_ok s"
    and e: "\<forall>k. sub_ent fs' e k = (if k = i then b else sub_ent fs (indirect d) k)"
  shows "ptr fs' (d\<lparr>indirect := e\<rparr>) s = (if s = Ind then e else if s = IndE i then b else ptr fs d s)"
proof -
  have "db_indirect d \<noteq> 0 \<longrightarrow> db_indirect d \<noteq> indirect d" using din_ok_inj [OF d, of Db Ind] by auto
  then have b1: "sub_ent fs' (db_indirect d) k = sub_ent fs (db_indirect d) k" for k using entry_kept [OF d st, of Db k] by auto
  have "sub_ent fs (db_indirect d) k \<noteq> 0 \<longrightarrow> sub_ent fs (db_indirect d) k \<noteq> indirect d" if "k < 1024" for k
    using din_ok_inj [OF d, of "DbE k" Ind] that by auto
  then have b2: "sub_ent fs' (sub_ent fs (db_indirect d) k) j = sub_ent fs (sub_ent fs (db_indirect d) k) j" if "k < 1024" for k j
    using entry_kept [OF d st, of "DbE k" j] that by fastforce
  show ?thesis using s e b1 b2 by (cases s) auto
qed

lemma ptr_db:
  assumes d: "din_ok fs d" and st: "step {db_indirect d} fs fs'" and s: "slot_ok s"
    and e: "\<forall>k. sub_ent fs' e k = (if k = i then b else sub_ent fs (db_indirect d) k)"
    and b: "sub_ent fs (db_indirect d) i = 0" "\<forall>k. sub_ent fs' b k = 0"
  shows "ptr fs' (d\<lparr>db_indirect := e\<rparr>) s = (if s = Db then e else if s = DbE i then b else ptr fs d s)"
proof -
  have "indirect d \<noteq> 0 \<longrightarrow> indirect d \<noteq> db_indirect d" using din_ok_inj [OF d, of Ind Db] by auto
  then have b1: "sub_ent fs' (indirect d) k = sub_ent fs (indirect d) k" for k using entry_kept [OF d st, of Ind k] by auto
  have "sub_ent fs (db_indirect d) k \<noteq> 0 \<longrightarrow> sub_ent fs (db_indirect d) k \<noteq> db_indirect d" if "k < 1024" for k
    using din_ok_inj [OF d, of "DbE k" Db] that by auto
  then have b2: "sub_ent fs' (sub_ent fs (db_indirect d) k) j = sub_ent fs (sub_ent fs (db_indirect d) k) j" if "k < 1024" for k j
    using entry_kept [OF d st, of "DbE k" j] that by fastforce
  show ?thesis using s e b b1 b2 by (cases s) auto
qed

lemma ptr_dbe:
  assumes d: "din_ok fs d" and st: "step {sub_ent fs (db_indirect d) a} fs fs'" and s: "slot_ok s" and a: "a < 1024" "sub_ent fs (db_indirect d) a \<noteq> 0"
    and e: "\<forall>k. sub_ent fs' (sub_ent fs (db_indirect d) a) k = (if k = i then b else sub_ent fs (sub_ent fs (db_indirect d) a) k)"
  shows "ptr fs' d s = (if s = DbEE a i then b else ptr fs d s)"
proof -
  let ?x = "sub_ent fs (db_indirect d) a"
  have "indirect d \<noteq> ?x" "db_indirect d \<noteq> ?x" using din_ok_inj [OF d, of "DbE a" Ind] din_ok_inj [OF d, of "DbE a" Db] a by auto
  then have b1: "sub_ent fs' (indirect d) k = sub_ent fs (indirect d) k" "sub_ent fs' (db_indirect d) k = sub_ent fs (db_indirect d) k" for k
    using entry_kept [OF d st, of Ind k] entry_kept [OF d st, of Db k] by auto
  have "sub_ent fs (db_indirect d) k \<noteq> ?x" if "k < 1024" "k \<noteq> a" for k
    using din_ok_inj [OF d, of "DbE a" "DbE k"] that a by auto
  then have b2: "sub_ent fs' (sub_ent fs (db_indirect d) k) j = sub_ent fs (sub_ent fs (db_indirect d) k) j" if "k < 1024" "k \<noteq> a" for k j
    using entry_kept [OF d st, of "DbE k" j] that by auto
  have "sub_ent fs' (sub_ent fs (db_indirect d) k) j = (if k = a \<and> j = i then b else sub_ent fs (sub_ent fs (db_indirect d) k) j)"
    if "k < 1024" for k j using b2 [OF that] e by (cases "k = a") auto
  then show ?thesis using s b1 by (cases s) auto
qed

section \<open>The blocks of a file\<close>

definition data_slot :: "nat \<Rightarrow> slot" where
  "data_slot n = (if n < 12 then Direct n else if n - 12 < 1024 then IndE (n - 12) else DbEE ((n - 1036) div 1024) ((n - 1036) mod 1024))"

definition MAX_BLOCKS :: nat where "MAX_BLOCKS = 12 + 1024 + 1024 * 1024"

definition fblk :: "sfs_fs \<Rightarrow> sfs_disk_inode \<Rightarrow> nat \<Rightarrow> u32" where
  "fblk fs d n = ptr fs d (data_slot n)"

lemma data_slot_ok: "n < MAX_BLOCKS \<Longrightarrow> slot_ok (data_slot n)"
  by (auto simp: data_slot_def MAX_BLOCKS_def)

lemma data_slot_inj:
  assumes "m < MAX_BLOCKS" "n < MAX_BLOCKS"
  shows "(data_slot m = data_slot n) = (m = n)"
proof
  assume h: "data_slot m = data_slot n"
  have "(m - 1036) div 1024 = (n - 1036) div 1024 \<Longrightarrow> (m - 1036) mod 1024 = (n - 1036) mod 1024 \<Longrightarrow> m - 1036 = n - 1036"
    by (metis div_mult_mod_eq)
  then show "m = n" using h by (auto simp: data_slot_def split: if_splits)
qed simp

lemma data_slot_not_meta [simp]: "\<not> is_meta (data_slot n)"
  by (simp add: data_slot_def)

definition same_file :: "sfs_inode \<Rightarrow> sfs_inode \<Rightarrow> bool" where
  "same_file x y \<longleftrightarrow> ino y = ino x \<and> sin_removed y = sin_removed x \<and> reclaim_count y = reclaim_count x \<and>
     size_or_slots (din y) = size_or_slots (din x) \<and> parent (din y) = parent (din x) \<and> di_type (din y) = di_type (din x) \<and>
     nlinks (din y) = nlinks (din x) \<and> di_blocks (din y) = di_blocks (din x)"

lemma same_file_refl [simp]: "same_file x x"
  by (simp add: same_file_def)

text \<open>Only the count of transfers differs.\<close>

definition ticked :: "sfs_fs \<Rightarrow> sfs_fs \<Rightarrow> bool" where
  "ticked fs fs' \<longleftrightarrow> (\<exists>k. fs' = fs\<lparr>io_calls := k\<rparr>)"

lemma ticked_refl [simp]: "ticked fs fs"
  unfolding ticked_def by (rule exI [of _ "io_calls fs"]) simp

lemma ticked_tick [simp]: "ticked fs (tick fs)"
  by (auto simp: ticked_def tick_def)

lemma ticked_trans: "ticked a b \<Longrightarrow> ticked b c \<Longrightarrow> ticked a c"
  by (auto simp: ticked_def)

lemma ticked_same:
  assumes "ticked fs fs'"
  shows "blk_of fs' = blk_of fs" "freemap fs' = freemap fs" "super_blocks fs' = super_blocks fs" "io_ret fs' = io_ret fs" "fs_ok fs' = fs_ok fs"
    "in_use fs' = in_use fs" "sub_ent fs' = sub_ent fs" "ptr fs' = ptr fs" "din_ok fs' = din_ok fs" "fblk fs' = fblk fs"
proof -
  obtain k where k: "fs' = fs\<lparr>io_calls := k\<rparr>" using assms by (auto simp: ticked_def)
  show b: "blk_of fs' = blk_of fs" "freemap fs' = freemap fs" "super_blocks fs' = super_blocks fs" "io_ret fs' = io_ret fs" "fs_ok fs' = fs_ok fs"
    by (simp_all add: k blk_of_def fs_ok_def fun_eq_iff)
  show u: "in_use fs' = in_use fs" using b by (simp add: in_use_def fun_eq_iff)
  show e: "sub_ent fs' = sub_ent fs" unfolding sub_ent_def [abs_def] b(1) ..
  show p: "ptr fs' = ptr fs"
  proof (intro ext)
    show "ptr fs' d s = ptr fs d s" for d s by (cases s) (simp_all add: e)
  qed
  show "din_ok fs' = din_ok fs" "fblk fs' = fblk fs" using u p by (simp_all add: din_ok_def fblk_def fun_eq_iff)
qed

lemma step_ticked: "fs_ok fs \<Longrightarrow> ticked fs fs' \<Longrightarrow> step {} fs fs'"
  using ticked_same [of fs fs'] by (simp add: step_def)

lemma bmap_out_ok: "fs_ok fs \<Longrightarrow> b = 0 \<or> in_use fs b \<Longrightarrow> bmap_out b sin fs = Some (0, b, sin, fs)"
  using block_inuse [of fs b] by (auto simp: bmap_out_def)

lemma get_sub_ticked:
  assumes "e = 0 \<or> in_use fs e" "i < 1024" "\<not> create \<or> sub_ent fs e i \<noteq> 0"
  shows "\<exists>ret b fs'. sfs_bmap_get_sub_nolock e i create fs = Some (ret, e, b, fs') \<and> ticked fs fs' \<and>
    (if ret = 0 then b = sub_ent fs e i else io_failed fs)"
  using get_sub_read [OF assms] by (elim exE conjE disjE) auto

lemma bmap_get_read:
  assumes ok: "fs_ok fs" and d: "din_ok fs (din sin)" and n: "n < MAX_BLOCKS" and c: "\<not> create \<or> fblk fs (din sin) n \<noteq> 0"
  shows "\<exists>ret b fs'. sfs_bmap_get_nolock sin n create fs = Some (ret, b, sin, fs') \<and> ticked fs fs' \<and>
    (if ret = 0 then b = fblk fs (din sin) n else io_failed fs)"
proof -
  let ?d = "din sin"
  have b: "fblk fs ?d n = 0 \<or> in_use fs (fblk fs ?d n)" using din_ok_use [OF d data_slot_ok [OF n]] by (simp add: fblk_def)
  consider "n < 12" | "12 \<le> n" "n - 12 < 1024" | "12 \<le> n" "\<not> n - 12 < 1024" by linarith
  then show ?thesis
  proof cases
    case 1
    then show ?thesis using b c bmap_out_ok [OF ok] by (auto simp: sfs_bmap_get_nolock_def fblk_def data_slot_def Let_def)
  next
    case 2
    have f: "fblk fs ?d n = sub_ent fs (indirect ?d) (n - 12)" using 2 by (simp add: fblk_def data_slot_def)
    obtain ret x fs' where g: "sfs_bmap_get_sub_nolock (indirect ?d) (n - 12) create fs = Some (ret, indirect ?d, x, fs')" "ticked fs fs'"
      "if ret = 0 then x = fblk fs ?d n else io_failed fs"
      using get_sub_ticked [of "indirect ?d" fs "n - 12" create] din_ok_use [OF d, of Ind] 2 c f by auto
    show ?thesis using 2 g b bmap_out_ok [of fs' x sin] ok ticked_same [OF g(2)] by (auto simp: sfs_bmap_get_nolock_def Let_def)
  next
    case 3
    define i j where "i = (n - 1036) div 1024" and "j = (n - 1036) mod 1024"
    have ij: "i < 1024" "j < 1024" using n 3 by (auto simp: i_def j_def MAX_BLOCKS_def)
    have f: "fblk fs ?d n = sub_ent fs (sub_ent fs (db_indirect ?d) i) j" using 3 by (simp add: fblk_def data_slot_def i_def j_def)
    have nd: "n - 12 - 1024 = n - 1036" by simp
    obtain ret x f1 where g: "sfs_bmap_get_sub_nolock (db_indirect ?d) i create fs = Some (ret, db_indirect ?d, x, f1)" "ticked fs f1"
      "if ret = 0 then x = sub_ent fs (db_indirect ?d) i else io_failed fs"
      using get_sub_ticked [of "db_indirect ?d" fs i create] din_ok_use [OF d, of Db] ij c f by force
    show ?thesis
    proof (cases "ret = 0 \<and> x \<noteq> 0")
      case False
      then show ?thesis using 3 g f bmap_out_ok [of f1 0 sin] ok ticked_same [OF g(2)]
        by (auto simp: sfs_bmap_get_nolock_def Let_def nd i_def [symmetric] j_def [symmetric])
    next
      case True
      then have x: "x = sub_ent fs (db_indirect ?d) i" "x \<noteq> 0" "in_use fs x" using g(3) din_ok_use [OF d, of "DbE i"] ij by auto
      obtain r2 y f2 where h: "sfs_bmap_get_sub_nolock x j create f1 = Some (r2, x, y, f2)" "ticked f1 f2"
        "if r2 = 0 then y = sub_ent f1 x j else io_failed f1"
        using get_sub_ticked [of x f1 j create] x ij c f ticked_same [OF g(2)] by force
      have t: "ticked fs f2" by (rule ticked_trans [OF g(2) h(2)])
      show ?thesis using 3 g(1) True h(1,3) t x(1) b f bmap_out_ok [of f2 y sin] ok ticked_same [OF t] ticked_same [OF g(2)]
        by (auto simp: sfs_bmap_get_nolock_def Let_def nd i_def [symmetric] j_def [symmetric] io_failed_def)
    qed
  qed
qed

text \<open>Pointers are only added, and only to blocks that were free.\<close>

definition extends :: "sfs_fs \<Rightarrow> sfs_disk_inode \<Rightarrow> sfs_fs \<Rightarrow> sfs_disk_inode \<Rightarrow> bool" where
  "extends fs d fs' d' \<longleftrightarrow> (\<forall>s. slot_ok s \<longrightarrow> ptr fs' d' s = ptr fs d s \<or> ptr fs d s = 0 \<and> ptr fs' d' s \<in> avail fs)"

definition same_blocks :: "sfs_fs \<Rightarrow> sfs_disk_inode \<Rightarrow> sfs_fs \<Rightarrow> sfs_disk_inode \<Rightarrow> bool" where
  "same_blocks fs d fs' d' \<longleftrightarrow> (\<forall>m < MAX_BLOCKS. fblk fs' d' m = fblk fs d m)"

definition added :: "sfs_fs \<Rightarrow> sfs_disk_inode \<Rightarrow> nat \<Rightarrow> u32 \<Rightarrow> sfs_fs \<Rightarrow> sfs_disk_inode \<Rightarrow> bool" where
  "added fs d n b fs' d' \<longleftrightarrow> b \<in> avail fs \<and> in_use fs' b \<and> blk_of fs' b = (\<lambda>i. 0) \<and>
     (\<forall>m < MAX_BLOCKS. fblk fs' d' m = (if m = n then b else fblk fs d m))"

lemma extends_same: "same_blocks fs d fs d" "extends fs d fs d"
  by (simp_all add: same_blocks_def extends_def)

lemma extends_meta: "extends fs d fs' d' \<Longrightarrow> x \<in> meta fs' d' \<Longrightarrow> in_use fs x \<Longrightarrow> x \<in> meta fs d"
  unfolding extends_def meta_def in_use_def by force

lemma extends_trans:
  assumes "extends a d b e" "extends b e c f" "avail b \<subseteq> avail a"
  shows "extends a d c f"
  using assms unfolding extends_def by (metis subsetD)

lemma step_meta_trans:
  assumes "step (meta a d) a b" "extends a d b e" "step (meta b e) b c"
  shows "step (meta a d) a c"
  by (rule step_trans [OF assms(1,3)]) (use extends_meta [OF assms(2)] in blast)

lemma step_to_meta: "step {x} fs fs' \<Longrightarrow> x \<in> meta fs d \<or> x = 0 \<Longrightarrow> step (meta fs d) fs fs'"
  by (auto simp: step_def in_use_def)

lemma bmap_create_direct:
  assumes ok: "fs_ok fs" and d: "din_ok fs (din sin)" and n: "n < 12" and z: "fblk fs (din sin) n = 0"
  shows "\<exists>ret b sin' fs'. sfs_bmap_get_nolock sin n True fs = Some (ret, b, sin', fs') \<and> same_file sin sin' \<and> din_ok fs' (din sin') \<and>
    step (meta fs (din sin)) fs fs' \<and> extends fs (din sin) fs' (din sin') \<and>
    (if ret = 0 then added fs (din sin) n b fs' (din sin') else same_blocks fs (din sin) fs' (din sin') \<and> (card (avail fs) \<le> 2 \<or> io_failed fs))"
proof -
  let ?d = "din sin"
  obtain ret b f1 where al: "sfs_block_alloc fs = Some (ret, b, f1)" "step {} fs f1"
    "if ret = 0 then b \<in> avail fs \<and> avail f1 = avail fs - {b} \<and> in_use f1 b \<and> \<not> in_use fs b \<and> blk_of f1 b = (\<lambda>i. 0)
     else avail fs = {} \<and> ret = - E_NO_MEM \<or> (\<exists>n. io_ret fs n \<noteq> 0)"
    using block_alloc_ok [OF ok] by blast
  have zd: "direct ?d ! n = 0" using z n by (simp add: fblk_def data_slot_def)
  have p: "ptr f1 ?d s = ptr fs ?d s" if "slot_ok s" for s by (rule ptr_kept [OF d al(2) _ that]) simp
  have m: "step (meta fs ?d) fs f1" using step_mono [OF al(2)] by blast
  show ?thesis
  proof (cases "ret = 0")
    case False
    have "din_ok f1 ?d" by (rule din_ok_enter [OF d al(2)]) (use d p ptr_not_avail [OF d _ ok] in \<open>auto simp: din_ok_def\<close>)
    moreover have "same_blocks fs ?d f1 ?d" "extends fs ?d f1 ?d" using p data_slot_ok by (auto simp: same_blocks_def extends_def fblk_def)
    ultimately show ?thesis using n zd al(1,3) False m by (auto simp: sfs_bmap_get_nolock_def Let_def io_failed_def)
  next
    case True
    then have b: "b \<in> avail fs" "in_use f1 b" "blk_of f1 b = (\<lambda>i. 0)" using al(3) by simp_all
    let ?e = "?d\<lparr>direct := (direct ?d)[n := b]\<rparr>"
    have len: "length (direct ?d) = 12" using d by (simp add: din_ok_def)
    have q: "ptr f1 ?e s = (if s = Direct n then b else ptr fs ?d s)" if "slot_ok s" for s
      using p [OF that] len n that by (cases s) (auto simp: nth_list_update)
    have "din_ok f1 ?e"
      by (rule din_ok_enter [OF d al(2)]) (use len q b ptr_not_avail [OF d _ ok] in \<open>auto split: if_splits\<close>)
    moreover have "extends fs ?d f1 ?e" using q b z n by (auto simp: extends_def fblk_def data_slot_def)
    moreover have "added fs ?d n b f1 ?e"
      unfolding added_def using b q data_slot_ok data_slot_inj [of _ n] n by (auto simp: fblk_def data_slot_def MAX_BLOCKS_def)
    moreover have "bmap_out b (sin\<lparr>din := ?e, sin_dirty := True\<rparr>) f1 = Some (0, b, sin\<lparr>din := ?e, sin_dirty := True\<rparr>, f1)"
      using bmap_out_ok [OF step_ok [OF al(2)]] b(2) by blast
    ultimately show ?thesis using n zd al(1) True m by (simp add: sfs_bmap_get_nolock_def Let_def same_file_def)
  qed
qed

lemma bmap_create_indirect:
  assumes ok: "fs_ok fs" and d: "din_ok fs (din sin)" and n: "12 \<le> n" "n - 12 < 1024" and z: "fblk fs (din sin) n = 0"
  shows "\<exists>ret b sin' fs'. sfs_bmap_get_nolock sin n True fs = Some (ret, b, sin', fs') \<and> same_file sin sin' \<and> din_ok fs' (din sin') \<and>
    step (meta fs (din sin)) fs fs' \<and> extends fs (din sin) fs' (din sin') \<and>
    (if ret = 0 then added fs (din sin) n b fs' (din sin') else same_blocks fs (din sin) fs' (din sin') \<and> (card (avail fs) \<le> 2 \<or> io_failed fs))"
proof -
  let ?d = "din sin" let ?i = "n - 12"
  have sl: "data_slot n = IndE ?i" using n by (simp add: data_slot_def)
  have ze: "sub_ent fs (indirect ?d) ?i = 0" using z sl by (simp add: fblk_def)
  obtain ret e b f1 where g: "sfs_bmap_get_sub_nolock (indirect ?d) ?i True fs = Some (ret, e, b, f1)" "step {indirect ?d} fs f1"
    "if ret = 0 then b \<in> avail fs \<and> in_use f1 b \<and> blk_of f1 b = (\<lambda>i. 0) \<and> b \<noteq> e \<and> in_use f1 e \<and>
       (if indirect ?d = 0 then e \<in> avail fs \<and> avail f1 = avail fs - {b, e} else e = indirect ?d \<and> avail f1 = avail fs - {b}) \<and>
       (\<forall>k. sub_ent f1 e k = (if k = ?i then b else sub_ent fs (indirect ?d) k))
     else e = indirect ?d \<and> step {} fs f1 \<and> (card (avail fs) \<le> 1 \<or> io_failed fs)"
    using get_sub_create [OF ok _ n(2) ze] din_ok_use [OF d, of Ind] by auto
  have len: "length (direct ?d) = 12" using d by (simp add: din_ok_def)
  have m: "step (meta fs ?d) fs f1" using step_to_meta [OF g(2)] meta_in [of Ind fs ?d] by simp
  show ?thesis
  proof (cases "ret = 0")
    case False
    then have s: "step {} fs f1" "card (avail fs) \<le> 1 \<or> io_failed fs" using g(3) by simp_all
    have p: "ptr f1 ?d s = ptr fs ?d s" if "slot_ok s" for s by (rule ptr_kept [OF d s(1) _ that]) simp
    have "din_ok f1 ?d" by (rule din_ok_enter [OF d s(1)]) (use len p ptr_not_avail [OF d _ ok] in auto)
    moreover have "same_blocks fs ?d f1 ?d" "extends fs ?d f1 ?d" using p data_slot_ok by (auto simp: same_blocks_def extends_def fblk_def)
    ultimately show ?thesis using n g(1) False m s(2) by (auto simp: sfs_bmap_get_nolock_def Let_def)
  next
    case True
    then have b: "b \<in> avail fs" "in_use f1 b" "blk_of f1 b = (\<lambda>i. 0)" "b \<noteq> e" "in_use f1 e"
      and e: "if indirect ?d = 0 then e \<in> avail fs \<and> avail f1 = avail fs - {b, e} else e = indirect ?d \<and> avail f1 = avail fs - {b}"
      and k: "\<forall>k. sub_ent f1 e k = (if k = ?i then b else sub_ent fs (indirect ?d) k)" using g(3) by simp_all
    let ?e = "?d\<lparr>indirect := e\<rparr>"
    have q: "ptr f1 ?e s = (if s = Ind then e else if s = IndE ?i then b else ptr fs ?d s)" if "slot_ok s" for s
      by (rule ptr_ind [OF d g(2) that k])
    have ne: "e = indirect ?d \<or> indirect ?d = 0 \<and> e \<in> avail fs" using e by (simp split: if_splits)
    have "din_ok f1 ?e"
    proof (rule din_ok_enter [OF d g(2)])
      show "length (direct ?e) = 12" using len by simp
      show "ptr f1 ?e s = ptr fs ?d s \<or> ptr f1 ?e s \<in> avail fs \<and> in_use f1 (ptr f1 ?e s)" if "slot_ok s" for s
        using q [OF that] b ne by auto
      show "s = t" if "slot_ok s" "slot_ok t" "ptr f1 ?e s \<in> avail fs" "ptr f1 ?e s = ptr f1 ?e t" for s t
        using that(3,4) b(1,4) ptr_not_avail [OF d that(1) ok] ptr_not_avail [OF d that(2) ok] unfolding q [OF that(1)] q [OF that(2)] by (auto split: if_splits)
    qed
    moreover have "extends fs ?d f1 ?e" using q b ne ze by (auto simp: extends_def)
    moreover have "added fs ?d n b f1 ?e"
      unfolding added_def using b q data_slot_ok data_slot_inj [of _ n] n sl by (auto simp: fblk_def MAX_BLOCKS_def) (metis data_slot_not_meta is_meta.simps(1))+
    moreover have "bmap_out b x f1 = Some (0, b, x, f1)" for x using bmap_out_ok [OF step_ok [OF g(2)]] b(2) by blast
    moreover have "e \<noteq> 0" using b(5) by (simp add: in_use_def)
    ultimately show ?thesis using n g(1) True m ne by (auto simp: sfs_bmap_get_nolock_def Let_def same_file_def)
  qed
qed

text \<open>The block of the first level of a doubly indirect access, entered when it is missing.\<close>

lemma bmap_first_level:
  assumes ok: "fs_ok fs" and d: "din_ok fs (din sin)" and i: "i < 1024"
  shows "\<exists>ret e x f1. sfs_bmap_get_sub_nolock (db_indirect (din sin)) i True fs = Some (ret, e, x, f1) \<and>
    (e = db_indirect (din sin) \<or> db_indirect (din sin) = 0) \<and> din_ok f1 ((din sin)\<lparr>db_indirect := e\<rparr>) \<and> step (meta fs (din sin)) fs f1 \<and>
    extends fs (din sin) f1 ((din sin)\<lparr>db_indirect := e\<rparr>) \<and> same_blocks fs (din sin) f1 ((din sin)\<lparr>db_indirect := e\<rparr>) \<and>
    (if ret = 0 then x \<noteq> 0 \<and> sub_ent f1 e i = x \<and> card (avail fs) \<le> card (avail f1) + 2 else e = db_indirect (din sin) \<and> (card (avail fs) \<le> 2 \<or> io_failed fs))"
proof -
  let ?d = "din sin" let ?e = "db_indirect (din sin)"
  have eu: "?e = 0 \<or> in_use fs ?e" using din_ok_use [OF d, of Db] by simp
  have len: "length (direct ?d) = 12" using d by (simp add: din_ok_def)
  show ?thesis
  proof (cases "sub_ent fs ?e i = 0")
    case False
    obtain ret x f1 where g: "sfs_bmap_get_sub_nolock ?e i True fs = Some (ret, ?e, x, f1)" "ticked fs f1"
      "if ret = 0 then x = sub_ent fs ?e i else io_failed fs" using get_sub_ticked [OF eu i, of True] False by blast
    have "step (meta fs ?d) fs f1" using step_mono [OF step_ticked [OF ok g(2)]] by blast
    moreover have "extends fs ?d f1 ?d" "same_blocks fs ?d f1 ?d" using ticked_same [OF g(2)] by (simp_all add: extends_def same_blocks_def)
    ultimately show ?thesis using g False d ticked_same [OF g(2)]
      by (intro exI [of _ ret] exI [of _ ?e] exI [of _ x] exI [of _ f1]) (simp split: if_splits)
  next
    case z: True
    obtain ret e b f1 where g: "sfs_bmap_get_sub_nolock ?e i True fs = Some (ret, e, b, f1)" "step {?e} fs f1"
      "if ret = 0 then b \<in> avail fs \<and> in_use f1 b \<and> blk_of f1 b = (\<lambda>i. 0) \<and> b \<noteq> e \<and> in_use f1 e \<and>
         (if ?e = 0 then e \<in> avail fs \<and> avail f1 = avail fs - {b, e} else e = ?e \<and> avail f1 = avail fs - {b}) \<and>
         (\<forall>k. sub_ent f1 e k = (if k = i then b else sub_ent fs ?e k))
       else e = ?e \<and> step {} fs f1 \<and> (card (avail fs) \<le> 1 \<or> io_failed fs)"
      using get_sub_create [OF ok eu i z] by blast
    have m: "step (meta fs ?d) fs f1" using step_to_meta [OF g(2)] meta_in [of Db fs ?d] by simp
    show ?thesis
    proof (cases "ret = 0")
      case False
      then have s: "e = ?e" "step {} fs f1" "card (avail fs) \<le> 1 \<or> io_failed fs" using g(3) by simp_all
      have p: "ptr f1 ?d s = ptr fs ?d s" if "slot_ok s" for s by (rule ptr_kept [OF d s(2) _ that]) simp
      have "din_ok f1 ?d" by (rule din_ok_enter [OF d s(2)]) (use len p ptr_not_avail [OF d _ ok] in auto)
      moreover have "same_blocks fs ?d f1 ?d" "extends fs ?d f1 ?d" using p data_slot_ok by (auto simp: same_blocks_def extends_def fblk_def)
      ultimately show ?thesis using g(1) s False m by auto
    next
      case True
      then have b: "b \<in> avail fs" "in_use f1 b" "blk_of f1 b = (\<lambda>i. 0)" "b \<noteq> e" "in_use f1 e"
        and e: "if ?e = 0 then e \<in> avail fs \<and> avail f1 = avail fs - {b, e} else e = ?e \<and> avail f1 = avail fs - {b}"
        and k: "\<forall>k. sub_ent f1 e k = (if k = i then b else sub_ent fs ?e k)" using g(3) by simp_all
      let ?n = "?d\<lparr>db_indirect := e\<rparr>"
      have bz: "\<forall>k. sub_ent f1 b k = 0" using b(3) by (simp add: sub_ent_def)
      have q: "ptr f1 ?n s = (if s = Db then e else if s = DbE i then b else ptr fs ?d s)" if "slot_ok s" for s
        by (rule ptr_db [OF d g(2) that k z bz])
      have ne: "e = ?e \<or> ?e = 0 \<and> e \<in> avail fs" using e by (simp split: if_splits)
      have "din_ok f1 ?n"
      proof (rule din_ok_enter [OF d g(2)])
        show "length (direct ?n) = 12" using len by simp
        show "ptr f1 ?n s = ptr fs ?d s \<or> ptr f1 ?n s \<in> avail fs \<and> in_use f1 (ptr f1 ?n s)" if "slot_ok s" for s
          using q [OF that] b ne by auto
        show "s = t" if "slot_ok s" "slot_ok t" "ptr f1 ?n s \<in> avail fs" "ptr f1 ?n s = ptr f1 ?n t" for s t
          using that(3,4) b(1,4) ptr_not_avail [OF d that(1) ok] ptr_not_avail [OF d that(2) ok] unfolding q [OF that(1)] q [OF that(2)] by (auto split: if_splits)
      qed
      moreover have "extends fs ?d f1 ?n" using q b ne z by (auto simp: extends_def)
      moreover have "same_blocks fs ?d f1 ?n"
        unfolding same_blocks_def using q data_slot_ok by (auto simp: fblk_def) (metis data_slot_not_meta is_meta.simps(2,3))+
      moreover have "b \<noteq> 0" using b(2) by (simp add: in_use_def)
      moreover have "card (avail fs) \<le> card (avail f1) + 2"
      proof -
        have "avail fs \<subseteq> insert b (insert e (avail f1))" using e by (auto split: if_splits)
        then have "card (avail fs) \<le> card (insert b (insert e (avail f1)))" by (intro card_mono) simp_all
        then show ?thesis using card_insert_if [of "insert e (avail f1)" b] card_insert_if [of "avail f1" e]
          by (simp split: if_splits)
      qed
      ultimately show ?thesis using g(1) True m k ne
        by (intro exI [of _ ret] exI [of _ e] exI [of _ b] exI [of _ f1]) auto
    qed
  qed
qed

lemma bmap_create_double:
  assumes ok: "fs_ok fs" and d: "din_ok fs (din sin)" and n: "1036 \<le> n" "n < MAX_BLOCKS" and z: "fblk fs (din sin) n = 0"
  shows "\<exists>ret b sin' fs'. sfs_bmap_get_nolock sin n True fs = Some (ret, b, sin', fs') \<and> same_file sin sin' \<and> din_ok fs' (din sin') \<and>
    step (meta fs (din sin)) fs fs' \<and> extends fs (din sin) fs' (din sin') \<and>
    (if ret = 0 then added fs (din sin) n b fs' (din sin') else same_blocks fs (din sin) fs' (din sin') \<and> (card (avail fs) \<le> 3 \<or> io_failed fs))"
proof -
  let ?d = "din sin"
  define i j where "i = (n - 1036) div 1024" and "j = (n - 1036) mod 1024"
  have ij: "i < 1024" "j < 1024" using n by (auto simp: i_def j_def MAX_BLOCKS_def)
  have sl: "data_slot n = DbEE i j" using n(1) by (simp add: data_slot_def i_def j_def)
  have nd: "\<not> n < 12" "\<not> n - 12 < 1024" "n - 12 - 1024 = n - 1036" using n(1) by simp_all
  obtain r1 e x f1 where g: "sfs_bmap_get_sub_nolock (db_indirect ?d) i True fs = Some (r1, e, x, f1)" "e = db_indirect ?d \<or> db_indirect ?d = 0"
    "din_ok f1 (?d\<lparr>db_indirect := e\<rparr>)" "step (meta fs ?d) fs f1" "extends fs ?d f1 (?d\<lparr>db_indirect := e\<rparr>)" "same_blocks fs ?d f1 (?d\<lparr>db_indirect := e\<rparr>)"
    "if r1 = 0 then x \<noteq> 0 \<and> sub_ent f1 e i = x \<and> card (avail fs) \<le> card (avail f1) + 2 else e = db_indirect ?d \<and> (card (avail fs) \<le> 2 \<or> io_failed fs)"
    using bmap_first_level [OF ok d ij(1)] by auto
  note unf = sfs_bmap_get_nolock_def [of sin n True fs] Let_def nd [simplified] i_def [symmetric] j_def [symmetric]
  show ?thesis
  proof (cases "r1 = 0")
    case False
    then show ?thesis using g nd by (auto simp: unf)
  next
    case True
    define sin1 where "sin1 = (if e \<noteq> db_indirect ?d then sin\<lparr>din := ?d\<lparr>db_indirect := e\<rparr>, sin_dirty := True\<rparr> else sin)"
    have d1: "din sin1 = ?d\<lparr>db_indirect := e\<rparr>" by (simp add: sin1_def)
    have sf: "same_file sin sin1" by (simp add: sin1_def same_file_def)
    have x: "x \<noteq> 0" "sub_ent f1 (db_indirect (din sin1)) i = x" "card (avail fs) \<le> card (avail f1) + 2" using g(7) True d1 by simp_all
    have dk: "din_ok f1 (din sin1)" using g(3) d1 by simp
    have xu: "in_use f1 x" using din_ok_use [OF dk, of "DbE i"] x ij by auto
    have "fblk f1 (din sin1) n = 0" using g(6) n(2) z d1 unfolding same_blocks_def by metis
    then have zx: "sub_ent f1 x j = 0" using sl x(2) by (simp add: fblk_def)
    obtain r2 e2 b f2 where h: "sfs_bmap_get_sub_nolock x j True f1 = Some (r2, e2, b, f2)" "step {x} f1 f2"
      "if r2 = 0 then b \<in> avail f1 \<and> in_use f2 b \<and> blk_of f2 b = (\<lambda>i. 0) \<and> b \<noteq> e2 \<and> in_use f2 e2 \<and>
         (if x = 0 then e2 \<in> avail f1 \<and> avail f2 = avail f1 - {b, e2} else e2 = x \<and> avail f2 = avail f1 - {b}) \<and>
         (\<forall>k. sub_ent f2 e2 k = (if k = j then b else sub_ent f1 x k))
       else e2 = x \<and> step {} f1 f2 \<and> (card (avail f1) \<le> 1 \<or> io_failed f1)"
      using get_sub_create [OF step_ok [OF g(4)] _ ij(2) zx] xu by blast
    have eq: "sfs_bmap_get_nolock sin n True fs = (if r2 \<noteq> 0 then Some (r2, 0, sin1, f2) else bmap_out b sin1 f2)"
      using g(1,2) True x(1) h(1) nd by (auto simp: unf sin1_def)
    have a1: "avail f1 \<subseteq> avail fs" using g(4) by (simp add: step_def)
    have ex1: "extends fs ?d f1 (din sin1)" "same_blocks fs ?d f1 (din sin1)" using g(5,6) d1 by simp_all
    have m: "step (meta fs ?d) fs f2"
      by (rule step_meta_trans [OF g(4) ex1(1)]) (use step_to_meta [OF h(2)] meta_in [of "DbE i" f1 "din sin1"] x(2) ij in auto)
    have len: "length (direct (din sin1)) = 12" using dk by (simp add: din_ok_def)
    show ?thesis
    proof (cases "r2 = 0")
      case False
      then have s: "step {} f1 f2" "card (avail f1) \<le> 1 \<or> io_failed f1" using h(3) by simp_all
      have p: "ptr f2 (din sin1) s = ptr f1 (din sin1) s" if "slot_ok s" for s by (rule ptr_kept [OF dk s(1) _ that]) simp
      have "din_ok f2 (din sin1)" by (rule din_ok_enter [OF dk s(1)]) (use len p ptr_not_avail [OF dk _ step_ok [OF g(4)]] in auto)
      moreover have "same_blocks fs ?d f2 (din sin1)" "extends fs ?d f2 (din sin1)"
        using p data_slot_ok ex1 by (auto simp: same_blocks_def extends_def fblk_def)
      moreover have "card (avail fs) \<le> 3 \<or> io_failed fs" using s(2) x(3) io_failed_step [OF g(4)] by auto
      ultimately show ?thesis using eq False m sf by auto
    next
      case r2: True
      then have b: "b \<in> avail f1" "in_use f2 b" "blk_of f2 b = (\<lambda>i. 0)" and e2: "e2 = x"
        and k: "\<forall>k. sub_ent f2 x k = (if k = j then b else sub_ent f1 x k)" using h(3) x(1) by auto
      have q: "ptr f2 (din sin1) s = (if s = DbEE i j then b else ptr f1 (din sin1) s)" if "slot_ok s" for s
        using ptr_dbe [OF dk, of i f2 s j b] h(2) that ij(1) x(1,2) k by simp
      have "din_ok f2 (din sin1)"
        by (rule din_ok_enter [OF dk h(2) len]) (use q b ptr_not_avail [OF dk _ step_ok [OF g(4)]] in \<open>auto split: if_splits\<close>)
      moreover have "extends f1 (din sin1) f2 (din sin1)" using q b zx x(2) by (auto simp: extends_def)
      then have "extends fs ?d f2 (din sin1)" by (rule extends_trans [OF ex1(1) _ a1])
      moreover have "added fs ?d n b f2 (din sin1)"
        unfolding added_def using b a1 q data_slot_ok data_slot_inj [of _ n] n(2) sl ex1(2) by (auto simp: fblk_def same_blocks_def)
      moreover have "bmap_out b sin1 f2 = Some (0, b, sin1, f2)" using bmap_out_ok [OF step_ok [OF h(2)]] b(2) by blast
      ultimately show ?thesis using eq r2 m sf by simp
    qed
  qed
qed


text \<open>An unmapped block of a file gets a cleared block that was free, and nothing else of the file changes; the only reasons to fail are a full
  device (up to three blocks are needed) and a failed transfer, and then the file is as before.\<close>

lemma bmap_get_create:
  assumes ok: "fs_ok fs" and d: "din_ok fs (din sin)" and n: "n < MAX_BLOCKS" and z: "fblk fs (din sin) n = 0"
  shows "\<exists>ret b sin' fs'. sfs_bmap_get_nolock sin n True fs = Some (ret, b, sin', fs') \<and> same_file sin sin' \<and> din_ok fs' (din sin') \<and>
    step (meta fs (din sin)) fs fs' \<and> extends fs (din sin) fs' (din sin') \<and>
    (if ret = 0 then added fs (din sin) n b fs' (din sin') else same_blocks fs (din sin) fs' (din sin') \<and> (card (avail fs) \<le> 3 \<or> io_failed fs))"
proof -
  consider "n < 12" | "12 \<le> n" "n - 12 < 1024" | "1036 \<le> n" by linarith
  then show ?thesis
  proof cases
    case 1
    show ?thesis using bmap_create_direct [OF ok d 1 z] by (elim exE conjE) (auto split: if_splits)
  next
    case 2
    show ?thesis using bmap_create_indirect [OF ok d 2 z] by (elim exE conjE) (auto split: if_splits)
  next
    case 3
    show ?thesis by (rule bmap_create_double [OF ok d 3 n z])
  qed
qed

end
