(* ===== verification/Sfs_Inode.thy ===== *)
theory Sfs_Inode
  imports Sfs_Map
begin

text \<open>
  Files as lists of blocks: \<^verbatim>\<open>sfs_bmap_load_nolock\<close> finds a block of a file or appends a cleared one, and \<^verbatim>\<open>sfs_bmap_truncate_nolock\<close>
  removes the last one.
\<close>

section \<open>Files\<close>

text \<open>A file has the blocks \<open>0, \<dots>, di_blocks - 1\<close>, of at most the largest size (\<^verbatim>\<open>SFS_MAX_FILE_SIZE\<close>), and its inode is in a block of its own.\<close>

abbreviation nblocks :: "sfs_inode \<Rightarrow> nat" where "nblocks sin \<equiv> unat (di_blocks (din sin))"

definition file_ok :: "sfs_fs \<Rightarrow> sfs_inode \<Rightarrow> bool" where
  "file_ok fs sin \<longleftrightarrow> fs_ok fs \<and> din_ok fs (din sin) \<and> nblocks sin \<le> 32768 \<and>
     (\<forall>m < MAX_BLOCKS. (fblk fs (din sin) m \<noteq> 0) = (m < nblocks sin)) \<and>
     in_use fs (ino sin) \<and> (\<forall>s. slot_ok s \<longrightarrow> ptr fs (din sin) s \<noteq> ino sin)"

definition owned :: "sfs_fs \<Rightarrow> sfs_disk_inode \<Rightarrow> u32 set" where
  "owned fs d = {ptr fs d s | s. slot_ok s}"

text \<open>The byte of a file at a position below \<open>4096 * nblocks\<close>.\<close>

definition fbyte :: "sfs_fs \<Rightarrow> sfs_inode \<Rightarrow> nat \<Rightarrow> u8" where
  "fbyte fs sin i = blk_of fs (fblk fs (din sin) (i div 4096)) (i mod 4096)"

lemma file_ok_fs: "file_ok fs sin \<Longrightarrow> fs_ok fs"
  by (simp add: file_ok_def)

lemma file_ok_blk:
  assumes "file_ok fs sin" "m < nblocks sin"
  shows "in_use fs (fblk fs (din sin) m)" "fblk fs (din sin) m \<notin> meta fs (din sin)" "m < MAX_BLOCKS"
proof -
  show m: "m < MAX_BLOCKS" using assms by (simp add: file_ok_def MAX_BLOCKS_def)
  have z: "fblk fs (din sin) m \<noteq> 0" and d: "din_ok fs (din sin)" using assms m by (simp_all add: file_ok_def)
  then show "in_use fs (fblk fs (din sin) m)" using din_ok_use [OF d data_slot_ok [OF m]] by (simp add: fblk_def)
  show "fblk fs (din sin) m \<notin> meta fs (din sin)"
    using din_ok_inj [OF d data_slot_ok [OF m]] z data_slot_not_meta [of m] unfolding meta_def fblk_def by fastforce
qed

lemma fblk_inj:
  assumes "file_ok fs sin" "m < nblocks sin" "n < nblocks sin"
  shows "(fblk fs (din sin) m = fblk fs (din sin) n) = (m = n)"
proof
  have d: "din_ok fs (din sin)" "fblk fs (din sin) m \<noteq> 0" using assms file_ok_blk(3) [OF assms(1,2)] by (simp_all add: file_ok_def)
  note k = file_ok_blk(3) [OF assms(1,2)] file_ok_blk(3) [OF assms(1,3)]
  show "m = n" if "fblk fs (din sin) m = fblk fs (din sin) n"
    using din_ok_inj [OF d(1) data_slot_ok [OF k(1)] data_slot_ok [OF k(2)]] d(2) that data_slot_inj [OF k] by (simp add: fblk_def)
qed simp

text \<open>
  An operation on the file \<open>sin\<close> that leaves it \<open>sin'\<close>: the file stays well formed and grows at most, its attributes other than the count of
  blocks are as before, it takes free blocks only, and no block of anyone else changes.
\<close>

definition same_attr :: "sfs_inode \<Rightarrow> sfs_inode \<Rightarrow> bool" where
  "same_attr x y \<longleftrightarrow> ino y = ino x \<and> sin_removed y = sin_removed x \<and> reclaim_count y = reclaim_count x \<and>
     size_or_slots (din y) = size_or_slots (din x) \<and> parent (din y) = parent (din x) \<and> di_type (din y) = di_type (din x) \<and>
     nlinks (din y) = nlinks (din x)"

definition fop :: "sfs_fs \<Rightarrow> sfs_inode \<Rightarrow> sfs_fs \<Rightarrow> sfs_inode \<Rightarrow> bool" where
  "fop fs sin fs' sin' \<longleftrightarrow> file_ok fs' sin' \<and> same_attr sin sin' \<and> nblocks sin \<le> nblocks sin' \<and>
     step (owned fs (din sin)) fs fs' \<and> extends fs (din sin) fs' (din sin')"

lemma fop_refl: "file_ok fs sin \<Longrightarrow> fop fs sin fs sin"
  by (auto simp: fop_def same_attr_def extends_same step_def file_ok_def)

lemma fop_trans:
  assumes "fop a s b t" "fop b t c u"
  shows "fop a s c u"
proof -
  have "x \<in> owned a (din s)" if "x \<in> owned b (din t)" "in_use a x" for x
    using that assms(1) unfolding fop_def extends_def owned_def in_use_def by force
  then have "step (owned a (din s)) a c" using step_trans [of "owned a (din s)" a b "owned b (din t)" c] assms by (auto simp: fop_def)
  moreover have "extends a (din s) c (din u)" using extends_trans assms unfolding fop_def step_def by blast
  ultimately show ?thesis using assms by (auto simp: fop_def same_attr_def)
qed

lemma fop_ticked:
  assumes "file_ok fs sin" "ticked fs fs'"
  shows "fop fs sin fs' sin" "fbyte fs' sin = fbyte fs sin"
proof -
  note t = ticked_same [OF assms(2)]
  have "step (owned fs (din sin)) fs fs'" using step_mono [OF step_ticked [OF file_ok_fs [OF assms(1)] assms(2)]] by blast
  then show "fop fs sin fs' sin" using assms(1) t by (auto simp: fop_def same_attr_def extends_def file_ok_def)
  show "fbyte fs' sin = fbyte fs sin" using t by (simp add: fbyte_def fun_eq_iff)
qed

definition out_of_space :: "sfs_fs \<Rightarrow> bool" where
  "out_of_space fs \<longleftrightarrow> card (avail fs) \<le> 3 \<or> io_failed fs"

lemma grow_ok:
  assumes ok: "file_ok fs sin" and d: "din_ok fs' (din sin')" and st: "step (meta fs (din sin)) fs fs'" and ex: "extends fs (din sin) fs' (din sin')"
    and at: "same_attr sin sin'" and le: "nblocks sin \<le> nblocks sin'" "nblocks sin' \<le> 32768"
    and bl: "\<forall>m < MAX_BLOCKS. (fblk fs' (din sin') m \<noteq> 0) = (m < nblocks sin')"
  shows "fop fs sin fs' sin' \<and> (\<forall>m < nblocks sin. blk_of fs' (fblk fs' (din sin') m) = blk_of fs (fblk fs (din sin) m))"
proof (intro conjI allI impI)
  have i: "ino sin' = ino sin" "in_use fs (ino sin)" using at ok by (simp_all add: same_attr_def file_ok_def)
  have "ptr fs' (din sin') s \<noteq> ino sin" if "slot_ok s" for s
    using ex that i(2) ok unfolding extends_def in_use_def file_ok_def by metis
  then have "file_ok fs' sin'" using step_ok [OF st] d le bl i step_in_use [OF st i(2)] by (simp add: file_ok_def)
  moreover have "step (owned fs (din sin)) fs fs'" by (rule step_mono [OF st]) (auto simp: meta_def owned_def)
  ultimately show "fop fs sin fs' sin'" using at le ex by (simp add: fop_def)
  fix m assume m: "m < nblocks sin"
  note k = file_ok_blk [OF ok m]
  have "fblk fs' (din sin') m = fblk fs (din sin) m" using ex data_slot_ok [OF k(3)] k(1) unfolding extends_def fblk_def in_use_def by metis
  then show "blk_of fs' (fblk fs' (din sin') m) = blk_of fs (fblk fs (din sin) m)" using step_blk [OF st k(1,2)] by simp
qed

lemma ptr_blocks [simp]: "ptr fs (d\<lparr>di_blocks := x\<rparr>) = ptr fs d"
proof
  show "ptr fs (d\<lparr>di_blocks := x\<rparr>) s = ptr fs d s" for s by (cases s) simp_all
qed

lemma din_ok_blocks [simp]: "din_ok fs (d\<lparr>di_blocks := x\<rparr>) = din_ok fs d" "fblk fs (d\<lparr>di_blocks := x\<rparr>) = fblk fs d"
  "extends fs d0 fs' (d\<lparr>di_blocks := x\<rparr>) = extends fs d0 fs' d"
  by (simp_all add: din_ok_def fblk_def extends_def fun_eq_iff)

text \<open>The next block: when the file has it, it is found; otherwise a cleared block is appended.\<close>

lemma bmap_load_ok:
  assumes ok: "file_ok fs sin" and n: "n \<le> nblocks sin" "n < 32768"
  shows "\<exists>ret b sin' fs'. sfs_bmap_load_nolock sin n fs = Some (ret, b, sin', fs') \<and> fop fs sin fs' sin' \<and>
    (\<forall>m < nblocks sin. blk_of fs' (fblk fs' (din sin') m) = blk_of fs (fblk fs (din sin) m)) \<and>
    (if ret = 0 then b = fblk fs' (din sin') n \<and> nblocks sin' = max (nblocks sin) (Suc n) \<and> (n = nblocks sin \<longrightarrow> blk_of fs' b = (\<lambda>i. 0)) \<and>
       (n < nblocks sin \<longrightarrow> sin' = sin \<and> ticked fs fs')
     else nblocks sin' = nblocks sin \<and> out_of_space fs \<and> (n < nblocks sin \<longrightarrow> sin' = sin \<and> ticked fs fs' \<and> io_failed fs))"
proof (cases "n < nblocks sin")
  case True
  note k = file_ok_blk [OF ok True]
  obtain ret b fs' where g: "sfs_bmap_get_nolock sin n False fs = Some (ret, b, sin, fs')" "ticked fs fs'" "if ret = 0 then b = fblk fs (din sin) n else io_failed fs"
    using bmap_get_read [of fs sin n False] k(3) ok by (auto simp: file_ok_def)
  have "sfs_block_inuse (fblk fs (din sin) n) fs' = Some True" using block_inuse [of fs'] k(1) ticked_same [OF g(2)] file_ok_fs [OF ok] by simp
  then show ?thesis using True g fop_ticked [OF ok g(2)] ticked_same [OF g(2)] by (auto simp: sfs_bmap_load_nolock_def out_of_space_def max_def)
next
  case False
  then have n0: "n = nblocks sin" "n < MAX_BLOCKS" using n by (simp_all add: MAX_BLOCKS_def)
  then have z: "fblk fs (din sin) n = 0" "fs_ok fs" "din_ok fs (din sin)" using ok by (auto simp: file_ok_def)
  obtain ret b s' fs' where g: "sfs_bmap_get_nolock sin n True fs = Some (ret, b, s', fs')" "same_file sin s'" "din_ok fs' (din s')"
      "step (meta fs (din sin)) fs fs'" "extends fs (din sin) fs' (din s')"
      "if ret = 0 then added fs (din sin) n b fs' (din s') else same_blocks fs (din sin) fs' (din s') \<and> (card (avail fs) \<le> 3 \<or> io_failed fs)"
    using bmap_get_create [OF z(2,3) n0(2) z(1)] by blast
  have nb: "nblocks s' = nblocks sin" and at: "same_attr sin s'" using g(2) by (simp_all add: same_file_def same_attr_def)
  have old: "(fblk fs (din sin) m \<noteq> 0) = (m < n)" if "m < MAX_BLOCKS" for m using ok that n0(1) by (simp add: file_ok_def)
  show ?thesis
  proof (cases "ret = 0")
    case True
    then have a: "b \<in> avail fs" "in_use fs' b" "blk_of fs' b = (\<lambda>i. 0)" "\<And>m. m < MAX_BLOCKS \<Longrightarrow> fblk fs' (din s') m = (if m = n then b else fblk fs (din sin) m)"
      using g(6) by (simp_all add: added_def)
    define s2 where "s2 = s'\<lparr>din := (din s')\<lparr>di_blocks := di_blocks (din s') + 1\<rparr>\<rparr>"
    have n2: "nblocks s2 = Suc n" using nb n0 n(2) by (simp add: s2_def unat_word_ariths)
    have d2: "din s2 = (din s')\<lparr>di_blocks := di_blocks (din s') + 1\<rparr>" by (simp add: s2_def)
    have b0: "b \<noteq> 0" using a(2) by (simp add: in_use_def)
    have "\<forall>m < MAX_BLOCKS. (fblk fs' (din s2) m \<noteq> 0) = (m < nblocks s2)" using a(4) old b0 n2 unfolding d2 by (auto simp: less_Suc_eq)
    moreover have "same_attr sin s2" using at by (simp add: s2_def same_attr_def)
    ultimately have "fop fs sin fs' s2 \<and> (\<forall>m < nblocks sin. blk_of fs' (fblk fs' (din s2) m) = blk_of fs (fblk fs (din sin) m))"
      using g(3-5) n2 n0 n(2) by (intro grow_ok [OF ok]) (simp_all add: d2)
    moreover have "sfs_bmap_load_nolock sin n fs = Some (0, b, s2, fs')"
      using g(1) True n0(1) block_inuse [OF step_ok [OF g(4)] a(2)] by (simp add: sfs_bmap_load_nolock_def s2_def)
    ultimately show ?thesis using a(3,4) n0 n2 d2 by (auto simp: max_def)
  next
    case False
    then have s: "same_blocks fs (din sin) fs' (din s')" "out_of_space fs" using g(6) by (simp_all add: out_of_space_def)
    have "\<forall>m < MAX_BLOCKS. (fblk fs' (din s') m \<noteq> 0) = (m < nblocks s')" using s(1) old nb n0(1) by (simp add: same_blocks_def)
    then have "fop fs sin fs' s' \<and> (\<forall>m < nblocks sin. blk_of fs' (fblk fs' (din s') m) = blk_of fs (fblk fs (din sin) m))"
      using g(3-5) nb n0 n(2) at by (intro grow_ok [OF ok]) simp_all
    moreover have "sfs_bmap_load_nolock sin n fs = Some (ret, 0, s', fs')"
      using g(1) False n0(1) by (simp add: sfs_bmap_load_nolock_def)
    ultimately show ?thesis using s(2) False nb n0(1) by auto
  qed
qed


section \<open>Removing the last block\<close>

lemma ptr_cong: "blk_of fs' = blk_of fs \<Longrightarrow> ptr fs' = ptr fs"
proof (intro ext)
  fix d s assume "blk_of fs' = blk_of fs"
  then have "sub_ent fs' = sub_ent fs" unfolding sub_ent_def [abs_def] by metis
  then show "ptr fs' d s = ptr fs d s" by (cases s) simp_all
qed

text \<open>The block \<open>b\<close> becomes free; blocks outside \<open>W\<close> are as before.\<close>

definition dropped :: "u32 set \<Rightarrow> u32 \<Rightarrow> sfs_fs \<Rightarrow> sfs_fs \<Rightarrow> bool" where
  "dropped W b fs fs' \<longleftrightarrow> fs_ok fs' \<and> super_blocks fs' = super_blocks fs \<and> io_ret fs' = io_ret fs \<and> avail fs' = insert b (avail fs) \<and>
     (\<forall>c. in_use fs c \<and> c \<notin> W \<longrightarrow> blk_of fs' c = blk_of fs c)"

lemma free_sub_ok:
  assumes ok: "fs_ok fs" and e: "in_use fs e" and i: "i < 1024" and b: "in_use fs (sub_ent fs e i)"
  shows "\<exists>ret fs'. sfs_bmap_free_sub_nolock e i fs = Some (ret, fs') \<and>
    (if ret = 0 then dropped {e} (sub_ent fs e i) fs fs' \<and>
       (\<exists>f. step {e} fs f \<and> blk_of fs' = blk_of f \<and> (\<forall>k. sub_ent f e k = (if k = i then 0 else sub_ent fs e k)))
     else step {} fs fs' \<and> io_failed fs)"
proof -
  let ?b = "sub_ent fs e i"
  have e0: "e \<noteq> 0" and b0: "?b \<noteq> 0" using e b by (auto simp: in_use_def)
  obtain r1 bs where r: "sfs_rbuf 4 e (i * 4) fs = Some (r1, bs, tick fs)" "word4 bs = ?b" "r1 \<noteq> 0 \<longrightarrow> io_failed fs"
    using rbuf_ent [OF e i] by (auto simp: io_failed_def)
  have u: "in_use (tick fs) e" "fs_ok (tick fs)" using e ok by simp_all
  obtain r2 f where w: "sfs_wbuf (bytes4 0) e (i * 4) (tick fs) = Some (r2, f)" "step {e} (tick fs) f" "freemap f = freemap fs"
    "r2 = 0 \<longrightarrow> blk_of f e = patch (bytes4 0) (i * 4) (blk_of fs e)" "r2 \<noteq> 0 \<longrightarrow> blk_of f e = blk_of fs e \<and> io_failed fs"
    using wbuf_ok [OF u(2,1), of "i * 4" "bytes4 0"] i by (auto simp: io_failed_def)
  have st: "step {e} fs f" using w(2) by (simp add: step_def)
  note unf = sfs_bmap_free_sub_nolock_def [of e i fs] block_inuse [OF ok e] r(1,2)
  show ?thesis
  proof (cases "r1 = 0 \<and> r2 = 0")
    case True
    obtain fs' where f: "sfs_block_free ?b f = Some fs'" "fs_ok fs'" "super_blocks fs' = super_blocks f" "io_ret fs' = io_ret f"
      "avail fs' = insert ?b (avail f)" "blk_of fs' = blk_of f"
      using block_free_ok [OF step_ok [OF st] step_in_use [OF st b]] by blast
    have d: "dropped {e} ?b fs fs'" using f w(3) st by (auto simp: dropped_def step_def)
    have "sub_ent f e k = (if k = i then 0 else sub_ent fs e k)" for k
      using w(4) True e0 blk_ent_patch [of 0 i "blk_of fs e" k] by (simp add: sub_ent_def)
    then have "\<exists>f. step {e} fs f \<and> blk_of fs' = blk_of f \<and> (\<forall>k. sub_ent f e k = (if k = i then 0 else sub_ent fs e k))" using f(6) st by blast
    then show ?thesis using d True b0 i w(1) f(1) by (auto simp: unf)
  next
    case False
    have "step {} fs f" if "r2 \<noteq> 0" using st w(5) that unfolding step_def by (metis empty_iff insertE)
    then show ?thesis using False b0 i w(1,5) r(3) step_tick [OF ok] by (auto simp: unf)
  qed
qed

definition keeps_ptr :: "sfs_fs \<Rightarrow> sfs_disk_inode \<Rightarrow> slot \<Rightarrow> sfs_fs \<Rightarrow> sfs_disk_inode \<Rightarrow> bool" where
  "keeps_ptr fs d t fs' d' \<longleftrightarrow> length (direct d') = 12 \<and> (\<forall>s. slot_ok s \<longrightarrow> ptr fs' d' s = (if s = t then 0 else ptr fs d s))"

lemma bmap_free_ok:
  assumes ok: "file_ok fs sin" and n: "n < nblocks sin"
  shows "\<exists>ret sin' fs'. sfs_bmap_free_nolock sin n fs = Some (ret, sin', fs') \<and> same_file sin sin' \<and>
    (if ret = 0 then dropped (meta fs (din sin)) (fblk fs (din sin) n) fs fs' \<and> keeps_ptr fs (din sin) (data_slot n) fs' (din sin')
     else sin' = sin \<and> step {} fs fs' \<and> io_failed fs)"
proof -
  let ?d = "din sin"
  note k = file_ok_blk [OF ok n]
  have fd: "fs_ok fs" "din_ok fs ?d" using ok by (simp_all add: file_ok_def)
  have len: "length (direct ?d) = 12" using fd by (simp add: din_ok_def)
  have sub: "dropped (meta fs ?d) b fs fs'" if "dropped {ptr fs ?d s} b fs fs'" "slot_ok s" "is_meta s" for b fs' s
    using that meta_in [of s fs ?d] by (auto simp: dropped_def)
  consider "n < 12" | "12 \<le> n" "n - 12 < 1024" | "12 \<le> n" "\<not> n - 12 < 1024" by linarith
  then show ?thesis
  proof cases
    case 1
    then have f: "fblk fs ?d n = direct ?d ! n" "direct ?d ! n \<noteq> 0" "data_slot n = Direct n" using k(1) by (auto simp: fblk_def data_slot_def in_use_def)
    obtain fs' where g: "sfs_block_free (direct ?d ! n) fs = Some fs'" "fs_ok fs'" "super_blocks fs' = super_blocks fs" "io_ret fs' = io_ret fs"
      "avail fs' = insert (direct ?d ! n) (avail fs)" "blk_of fs' = blk_of fs"
      using block_free_ok [OF fd(1) k(1)] f by auto
    have "ptr fs (?d\<lparr>direct := (direct ?d)[n := 0]\<rparr>) s = (if s = Direct n then 0 else ptr fs ?d s)" if "slot_ok s" for s
      using that len by (cases s) (auto simp: nth_list_update)
    then show ?thesis using 1 g f len ptr_cong [OF g(6)] by (auto simp: sfs_bmap_free_nolock_def Let_def same_file_def dropped_def keeps_ptr_def)
  next
    case 2
    have f: "fblk fs ?d n = sub_ent fs (indirect ?d) (n - 12)" "data_slot n = IndE (n - 12)" using 2 by (simp_all add: fblk_def data_slot_def)
    then have i: "indirect ?d \<noteq> 0" "in_use fs (indirect ?d)" using k(1) din_ok_use [OF fd(2), of Ind] by (auto simp: sub_ent_def in_use_def)
    obtain ret fs' where g: "sfs_bmap_free_sub_nolock (indirect ?d) (n - 12) fs = Some (ret, fs')"
      "if ret = 0 then dropped {indirect ?d} (sub_ent fs (indirect ?d) (n - 12)) fs fs' \<and>
         (\<exists>f. step {indirect ?d} fs f \<and> blk_of fs' = blk_of f \<and> (\<forall>k. sub_ent f (indirect ?d) k = (if k = n - 12 then 0 else sub_ent fs (indirect ?d) k)))
       else step {} fs fs' \<and> io_failed fs"
      using free_sub_ok [OF fd(1) i(2) 2(2)] k(1) f(1) by auto
    have "keeps_ptr fs ?d (IndE (n - 12)) fs' ?d" if r: "ret = 0"
    proof -
      obtain f where "step {indirect ?d} fs f" "blk_of fs' = blk_of f" "\<forall>k. sub_ent f (indirect ?d) k = (if k = n - 12 then 0 else sub_ent fs (indirect ?d) k)"
        using g(2) r by auto
      then show ?thesis using ptr_ind [OF fd(2), of f _ "indirect ?d" "n - 12" 0] len ptr_cong [of fs' f] by (auto simp: keeps_ptr_def)
    qed
    then show ?thesis using 2 g i f sub [of Ind] by (auto simp: sfs_bmap_free_nolock_def Let_def)
  next
    case 3
    define i j where "i = (n - 1036) div 1024" and "j = (n - 1036) mod 1024"
    have ij: "i < 1024" "j < 1024" using k(3) 3 by (auto simp: i_def j_def MAX_BLOCKS_def)
    define x where "x = sub_ent fs (db_indirect ?d) i"
    have f: "fblk fs ?d n = sub_ent fs x j" "data_slot n = DbEE i j" using 3 by (simp_all add: fblk_def data_slot_def i_def j_def x_def)
    have x: "x \<noteq> 0" "in_use fs x" using k(1) f(1) din_ok_use [OF fd(2), of "DbE i"] ij by (auto simp: x_def [symmetric] in_use_def)
    have db: "db_indirect ?d \<noteq> 0" "in_use fs (db_indirect ?d)" using x(1) din_ok_use [OF fd(2), of Db] by (auto simp: x_def)
    obtain r1 y f1 where g1: "sfs_bmap_get_sub_nolock (db_indirect ?d) i False fs = Some (r1, db_indirect ?d, y, f1)" "ticked fs f1"
      "if r1 = 0 then y = x else io_failed fs"
      using get_sub_ticked [of "db_indirect ?d" fs i False] db ij by (auto simp: x_def)
    note t = ticked_same [OF g1(2)]
    obtain ret fs' where g: "sfs_bmap_free_sub_nolock x j f1 = Some (ret, fs')"
      "if ret = 0 then dropped {x} (sub_ent f1 x j) f1 fs' \<and>
         (\<exists>f. step {x} f1 f \<and> blk_of fs' = blk_of f \<and> (\<forall>k. sub_ent f x k = (if k = j then 0 else sub_ent f1 x k)))
       else step {} f1 fs' \<and> io_failed f1"
      using free_sub_ok [of f1 x j] fd(1) x(2) ij k(1) f(1) t by auto
    have dr: "dropped {x} b f1 fs' = dropped {x} b fs fs'" "step W f1 f = step W fs f" for b W f using t by (simp_all add: dropped_def step_def)
    have "keeps_ptr fs ?d (DbEE i j) fs' ?d" if r: "ret = 0"
    proof -
      obtain f where "step {x} fs f" "blk_of fs' = blk_of f" "\<forall>k. sub_ent f x k = (if k = j then 0 else sub_ent fs x k)"
        using g(2) r dr t by auto
      then show ?thesis using ptr_dbe [OF fd(2), of i f _ j 0] ij x len ptr_cong [of fs' f] by (auto simp: keeps_ptr_def x_def)
    qed
    moreover have "dropped (meta fs ?d) (fblk fs ?d n) fs fs'" if "ret = 0" using g(2) that dr t f(1) sub [of "DbE i"] ij by (simp add: x_def)
    moreover have "step {} fs f1" "io_failed f1 = io_failed fs" using step_ticked [OF fd(1) g1(2)] t by (simp_all add: io_failed_def)
    ultimately show ?thesis using 3 g1 g db x f dr(2)
      by (auto simp: sfs_bmap_free_nolock_def Let_def i_def [symmetric] j_def [symmetric])
  qed
qed

text \<open>The blocks of everyone else stay in use, as they were, and do not become blocks of the file.\<close>

definition others_kept :: "sfs_fs \<Rightarrow> sfs_inode \<Rightarrow> sfs_fs \<Rightarrow> sfs_inode \<Rightarrow> bool" where
  "others_kept fs sin fs' sin' \<longleftrightarrow> super_blocks fs' = super_blocks fs \<and> io_ret fs' = io_ret fs \<and>
     (\<forall>b. in_use fs b \<and> b \<notin> owned fs (din sin) \<longrightarrow> in_use fs' b \<and> b \<notin> owned fs' (din sin') \<and> blk_of fs' b = blk_of fs b)"

lemma others_kept_trans: "others_kept a s b t \<Longrightarrow> others_kept b t c u \<Longrightarrow> others_kept a s c u"
  by (simp add: others_kept_def)

lemma fop_others:
  assumes "fop fs sin fs' sin'"
  shows "others_kept fs sin fs' sin'"
proof -
  have s: "step (owned fs (din sin)) fs fs'" using assms by (simp add: fop_def)
  have "b \<notin> owned fs' (din sin')" if "in_use fs b" "b \<notin> owned fs (din sin)" for b
    using that assms unfolding fop_def extends_def owned_def in_use_def by force
  then show ?thesis using s step_in_use [OF s] by (simp add: others_kept_def step_def)
qed

lemma din_ok_drop:
  assumes d: "din_ok fs d" and len: "length (direct d') = 12" and p: "\<And>s. slot_ok s \<Longrightarrow> ptr fs' d' s = (if s = t then 0 else ptr fs d s)"
    and kept: "\<And>s. slot_ok s \<Longrightarrow> ptr fs d s \<noteq> 0 \<Longrightarrow> s \<noteq> t \<Longrightarrow> in_use fs' (ptr fs d s)"
  shows "din_ok fs' d'"
  unfolding din_ok_def
proof (intro conjI allI impI)
  show "length (direct d') = 12" by (rule len)
  show "in_use fs' (ptr fs' d' s)" if "slot_ok s \<and> ptr fs' d' s \<noteq> 0" for s using that p [of s] kept [of s] by (auto split: if_splits)
  show "s = u" if h: "slot_ok s \<and> slot_ok u \<and> ptr fs' d' s \<noteq> 0 \<and> ptr fs' d' s = ptr fs' d' u" for s u
  proof -
    have "ptr fs' d' v = ptr fs d v" if "slot_ok v" "ptr fs' d' v \<noteq> 0" for v using p that by metis
    then show ?thesis using h din_ok_inj [OF d, of s u] by metis
  qed
qed

lemma bmap_truncate_ok:
  assumes ok: "file_ok fs sin" and n: "0 < nblocks sin"
  shows "\<exists>ret sin' fs'. sfs_bmap_truncate_nolock sin fs = Some (ret, sin', fs') \<and> file_ok fs' sin' \<and> same_attr sin sin' \<and> others_kept fs sin fs' sin' \<and>
    (\<forall>m < nblocks sin'. blk_of fs' (fblk fs' (din sin') m) = blk_of fs (fblk fs (din sin) m)) \<and>
    (if ret = 0 then nblocks sin' = nblocks sin - 1 \<and> sin_dirty sin' \<and> avail fs' = insert (fblk fs (din sin) (nblocks sin - 1)) (avail fs) \<and>
       (\<forall>m < nblocks sin - 1. fblk fs' (din sin') m = fblk fs (din sin) m)
     else nblocks sin' = nblocks sin \<and> io_failed fs)"
proof -
  let ?d = "din sin" let ?n = "nblocks sin - 1"
  have l: "?n < nblocks sin" using n by simp
  have nz: "di_blocks ?d \<noteq> 0" using n by auto
  note k = file_ok_blk [OF ok l]
  have fd: "fs_ok fs" "din_ok fs ?d" using ok by (simp_all add: file_ok_def)
  obtain ret s' fs' where g: "sfs_bmap_free_nolock sin ?n fs = Some (ret, s', fs')" "same_file sin s'"
    "if ret = 0 then dropped (meta fs ?d) (fblk fs ?d ?n) fs fs' \<and> keeps_ptr fs ?d (data_slot ?n) fs' (din s') else s' = sin \<and> step {} fs fs' \<and> io_failed fs"
    using bmap_free_ok [OF ok l] by blast
  show ?thesis
  proof (cases "ret = 0")
    case True
    define s2 where "s2 = s'\<lparr>din := (din s')\<lparr>di_blocks := di_blocks (din s') - 1\<rparr>, sin_dirty := True\<rparr>"
    have d2: "din s2 = (din s')\<lparr>di_blocks := di_blocks (din s') - 1\<rparr>" by (simp add: s2_def)
    have n2: "nblocks s2 = ?n" using g(2) nz by (simp add: s2_def same_file_def unat_minus_one)
    have dr: "dropped (meta fs ?d) (fblk fs ?d ?n) fs fs'" and p: "\<And>s. slot_ok s \<Longrightarrow> ptr fs' (din s2) s = (if s = data_slot ?n then 0 else ptr fs ?d s)"
      and len: "length (direct (din s2)) = 12"
      using g(3) True by (simp_all add: keeps_ptr_def d2)
    have kept: "in_use fs' (ptr fs ?d s)" if "slot_ok s" "ptr fs ?d s \<noteq> 0" "s \<noteq> data_slot ?n" for s
      using din_ok_use [OF fd(2) that(1)] din_ok_inj [OF fd(2) that(1) data_slot_ok [OF k(3)] that(2)] that dr by (auto simp: dropped_def in_use_def fblk_def)
    have "din_ok fs' (din s2)" using len p kept by (rule din_ok_drop [OF fd(2)])
    moreover have fb: "fblk fs' (din s2) m = (if m = ?n then 0 else fblk fs ?d m)" if "m < MAX_BLOCKS" for m
      using p [OF data_slot_ok [OF that]] data_slot_inj [OF that k(3)] by (simp add: fblk_def)
    have "\<forall>m < MAX_BLOCKS. (fblk fs' (din s2) m \<noteq> 0) = (m < nblocks s2)" using fb ok l unfolding file_ok_def n2 by auto
    moreover have "in_use fs' (ino sin)" using ok dr data_slot_ok [OF k(3)] unfolding file_ok_def dropped_def in_use_def fblk_def by auto
    moreover have at: "same_attr sin s2" using g(2) by (simp add: s2_def same_file_def same_attr_def)
    ultimately have f2: "file_ok fs' s2" using ok p dr n2 unfolding file_ok_def dropped_def same_attr_def by (auto simp: in_use_def)
    have "in_use fs' b \<and> b \<notin> owned fs' (din s2) \<and> blk_of fs' b = blk_of fs b" if b: "in_use fs b" "b \<notin> owned fs ?d" for b
    proof -
      have "b \<noteq> fblk fs ?d ?n" "b \<notin> meta fs ?d" using b(2) data_slot_ok [OF k(3)] by (auto simp: owned_def fblk_def meta_def)
      moreover have "b \<notin> owned fs' (din s2)" using b p unfolding owned_def in_use_def by (auto split: if_splits)
      ultimately show ?thesis using dr b by (auto simp: dropped_def in_use_def)
    qed
    then have "others_kept fs sin fs' s2" using dr by (simp add: others_kept_def dropped_def)
    moreover have "blk_of fs' (fblk fs' (din s2) m) = blk_of fs (fblk fs ?d m)" if m: "m < ?n" for m
      using file_ok_blk [OF ok, of m] fb [of m] m dr by (simp add: dropped_def)
    moreover have "sfs_bmap_truncate_nolock sin fs = Some (0, s2, fs')" using g(1) True nz by (simp add: sfs_bmap_truncate_nolock_def s2_def)
    moreover have "sin_dirty s2" "avail fs' = insert (fblk fs ?d ?n) (avail fs)" using dr by (simp_all add: s2_def dropped_def)
    moreover have "\<forall>m < ?n. fblk fs' (din s2) m = fblk fs ?d m" using fb k(3) by simp
    ultimately show ?thesis using f2 at n2 by auto
  next
    case False
    then have s: "s' = sin" "step {} fs fs'" "io_failed fs" using g(3) by simp_all
    have p: "ptr fs' ?d s = ptr fs ?d s" if "slot_ok s" for s by (rule ptr_kept [OF fd(2) s(2) _ that]) simp
    have "din_ok fs' ?d" by (rule din_ok_enter [OF fd(2) s(2)]) (use fd p ptr_not_avail [OF fd(2) _ fd(1)] in \<open>auto simp: din_ok_def\<close>)
    then have "fop fs sin fs' sin \<and> (\<forall>m < nblocks sin. blk_of fs' (fblk fs' ?d m) = blk_of fs (fblk fs ?d m))"
      using step_mono [OF s(2)] p ok data_slot_ok by (intro grow_ok [OF ok]) (auto simp: same_attr_def extends_def file_ok_def fblk_def)
    moreover from this have "others_kept fs sin fs' sin" "file_ok fs' sin" using fop_others by (auto simp: fop_def)
    moreover have "sfs_bmap_truncate_nolock sin fs = Some (ret, sin, fs')" using g(1) False s(1) nz by (simp add: sfs_bmap_truncate_nolock_def)
    ultimately show ?thesis using False s(3) by (auto simp: same_attr_def)
  qed
qed

end
