(* ===== verification/Sfs_File.thy ===== *)
theory Sfs_File
  imports Sfs_Inode
begin

text \<open>
  Files of the simple file system (\<^verbatim>\<open>fs/sfs/sfs_inode.c\<close>, \<^verbatim>\<open>fs/iobuf.c\<close>): reading, writing, seeking, truncating and writing back the inode.
  Operations that lock the inode are modelled from the point where they hold \<^verbatim>\<open>sin->sem\<close>. The theorems say that a file is an array of bytes: a
  write replaces a range of it and a read returns one.
\<close>

section \<open>Buffers of a transfer\<close>

text \<open>\<^verbatim>\<open>io_base\<close> is an index of the buffer \<open>io_buf\<close> that the structure was initialised with.\<close>

record iobuf =
  io_buf :: "u8 list"
  io_base :: nat
  io_offset :: u64
  io_len :: u64
  io_resid :: u64

definition iobuf_init :: "u8 list \<Rightarrow> u64 \<Rightarrow> u64 \<Rightarrow> iobuf" where
  "iobuf_init base len offset = \<lparr>io_buf = base, io_base = 0, io_offset = offset, io_len = len, io_resid = len\<rparr>"

definition iobuf_skip :: "iobuf \<Rightarrow> u64 \<Rightarrow> iobuf option" where
  "iobuf_skip iob n = do {
     kassert (io_resid iob \<ge> n);
     Some (iob\<lparr>io_base := io_base iob + unat n, io_offset := io_offset iob + n, io_resid := io_resid iob - n\<rparr>)
   }"

definition put_bytes :: "u8 list \<Rightarrow> nat \<Rightarrow> u8 list \<Rightarrow> u8 list" where
  "put_bytes bs base buf = take base buf @ bs @ drop (base + length bs) buf"

text \<open>The results are the error code, \<open>data\<close> afterwards, the number of bytes copied and the buffer.\<close>

definition iobuf_move :: "iobuf \<Rightarrow> u8 list \<Rightarrow> u64 \<Rightarrow> bool \<Rightarrow> (int \<times> u8 list \<times> u64 \<times> iobuf) option" where
  "iobuf_move iob data len m2b =
     (let alen = (if io_resid iob > len then len else io_resid iob); n = unat alen in
      if alen > 0 then do {
        iob2 \<leftarrow> Some (if m2b then iob\<lparr>io_buf := put_bytes (take n data) (io_base iob) (io_buf iob)\<rparr> else iob);
        data \<leftarrow> Some (if m2b then data else put_bytes (take n (drop (io_base iob) (io_buf iob))) 0 data);
        iob \<leftarrow> iobuf_skip iob2 alen;
        Some (if len - alen = 0 then 0 else - E_NO_MEM, data, alen, iob)
      }
      else Some (if len = 0 then 0 else - E_NO_MEM, data, alen, iob))"

definition iobuf_move_zeros :: "iobuf \<Rightarrow> u64 \<Rightarrow> (int \<times> u64 \<times> iobuf) option" where
  "iobuf_move_zeros iob len =
     (let alen = (if io_resid iob > len then len else io_resid iob) in
      if alen > 0 then do {
        iob \<leftarrow> iobuf_skip (iob\<lparr>io_buf := put_bytes (replicate (unat alen) 0) (io_base iob) (io_buf iob)\<rparr>) alen;
        Some (if len - alen = 0 then 0 else - E_NO_MEM, alen, iob)
      }
      else Some (if len = 0 then 0 else - E_NO_MEM, alen, iob))"

definition iobuf_used :: "iobuf \<Rightarrow> u64" where
  "iobuf_used iob = io_len iob - io_resid iob"

section \<open>Reading and writing\<close>

definition E_ISDIR :: int where [simp]: "E_ISDIR = 17"

definition SFS_TYPE_FILE :: u16 where [simp]: "SFS_TYPE_FILE = 1"
definition SFS_TYPE_DIR :: u16 where [simp]: "SFS_TYPE_DIR = 2"
definition SFS_TYPE_LINK :: u16 where [simp]: "SFS_TYPE_LINK = 3"
definition SFS_MAX_FILE_SIZE :: nat where [simp]: "SFS_MAX_FILE_SIZE = 1024 * 1024 * 128"

text \<open>The test of \<^verbatim>\<open>SFS_removed\<close> with the lock held.\<close>

definition trylock_sin :: "sfs_inode \<Rightarrow> int" where
  "trylock_sin sin = (if sin_removed sin then - E_NOENT else 0)"

text \<open>A part of block \<open>blkno\<close> of the file: \<^verbatim>\<open>sfs_bmap_load_nolock\<close> and \<^verbatim>\<open>sfs_buf_op\<close>. The bytes returned are those read.\<close>

definition io_part :: "bool \<Rightarrow> u8 list \<Rightarrow> nat \<Rightarrow> nat \<Rightarrow> nat \<Rightarrow> sfs_inode \<Rightarrow> sfs_fs \<Rightarrow> (int \<times> u8 list \<times> sfs_inode \<times> sfs_fs) option" where
  "io_part write buf sz blkno blkoff sin fs = do {
     (ret, b, sin, fs) \<leftarrow> sfs_bmap_load_nolock sin blkno fs;
     if ret \<noteq> 0 then Some (ret, [], sin, fs)
     else if write then do { (ret, fs) \<leftarrow> sfs_wbuf (take sz buf) b blkoff fs; Some (ret, [], sin, fs) }
     else do { (ret, bs, fs) \<leftarrow> sfs_rbuf sz b blkoff fs; Some (ret, bs, sin, fs) }
   }"

text \<open>A whole block: \<^verbatim>\<open>sfs_bmap_load_nolock\<close> and \<^verbatim>\<open>sfs_block_op\<close>.\<close>

definition io_block :: "bool \<Rightarrow> u8 list \<Rightarrow> nat \<Rightarrow> sfs_inode \<Rightarrow> sfs_fs \<Rightarrow> (int \<times> u8 list \<times> sfs_inode \<times> sfs_fs) option" where
  "io_block write buf blkno sin fs = do {
     (ret, b, sin, fs) \<leftarrow> sfs_bmap_load_nolock sin blkno fs;
     if ret \<noteq> 0 then Some (ret, [], sin, fs)
     else if write then do { (ret, fs) \<leftarrow> sfs_wblock [\<lambda>i. if i < SFS_BLKSIZE then buf ! i else 0] b fs; Some (ret, [], sin, fs) }
     else do { (ret, bs, fs) \<leftarrow> sfs_rblock b 1 fs; Some (ret, concat (map (\<lambda>x. map x [0..<SFS_BLKSIZE]) bs), sin, fs) }
   }"

fun io_blocks :: "bool \<Rightarrow> nat \<Rightarrow> u8 list \<Rightarrow> nat \<Rightarrow> sfs_inode \<Rightarrow> sfs_fs \<Rightarrow> (int \<times> u8 list \<times> nat \<times> sfs_inode \<times> sfs_fs) option" where
  "io_blocks write 0 buf blkno sin fs = Some (0, [], 0, sin, fs)"
| "io_blocks write (Suc nblks) buf blkno sin fs = do {
     (ret, bs, sin, fs) \<leftarrow> io_block write buf blkno sin fs;
     if ret \<noteq> 0 then Some (ret, [], 0, sin, fs)
     else do {
       (ret, bs', alen, sin, fs) \<leftarrow> io_blocks write nblks (drop SFS_BLKSIZE buf) (blkno + 1) sin fs;
       Some (ret, bs @ bs', SFS_BLKSIZE + alen, sin, fs)
     }
   }"

text \<open>The label \<^verbatim>\<open>out\<close>.\<close>

definition io_out :: "int \<Rightarrow> u8 list \<Rightarrow> nat \<Rightarrow> nat \<Rightarrow> sfs_inode \<Rightarrow> sfs_fs \<Rightarrow> int \<times> u8 list \<times> nat \<times> sfs_inode \<times> sfs_fs" where
  "io_out ret bs offset alen sin fs =
     (ret, bs, alen,
      if offset + alen > unat (size_or_slots (din sin)) then sin\<lparr>din := (din sin)\<lparr>size_or_slots := of_nat (offset + alen)\<rparr>, sin_dirty := True\<rparr> else sin, fs)"

text \<open>From the first whole block on; \<open>d0\<close> are the bytes read before and \<open>cnt\<close> is \<^verbatim>\<open>alen\<close>.\<close>

definition io_tail :: "bool \<Rightarrow> u8 list \<Rightarrow> nat \<Rightarrow> nat \<Rightarrow> nat \<Rightarrow> nat \<Rightarrow> u8 list \<Rightarrow> nat \<Rightarrow> sfs_inode \<Rightarrow> sfs_fs
    \<Rightarrow> (int \<times> u8 list \<times> nat \<times> sfs_inode \<times> sfs_fs) option" where
  "io_tail write buf offset endpos blkno nblks d0 cnt sin fs = do {
     (ret, d1, alen, sin, fs) \<leftarrow> io_blocks write nblks buf blkno sin fs;
     if ret \<noteq> 0 then Some (io_out ret (d0 @ d1) offset (cnt + alen) sin fs)
     else if endpos mod SFS_BLKSIZE \<noteq> 0 then do {
       (ret, d2, sin, fs) \<leftarrow> io_part write (drop alen buf) (endpos mod SFS_BLKSIZE) (blkno + nblks) 0 sin fs;
       if ret \<noteq> 0 then Some (io_out ret (d0 @ d1) offset (cnt + alen) sin fs)
       else Some (io_out 0 (d0 @ d1 @ d2) offset (cnt + alen + endpos mod SFS_BLKSIZE) sin fs)
     }
     else Some (io_out 0 (d0 @ d1) offset (cnt + alen) sin fs)
   }"

definition io_range :: "bool \<Rightarrow> u8 list \<Rightarrow> nat \<Rightarrow> nat \<Rightarrow> sfs_inode \<Rightarrow> sfs_fs \<Rightarrow> (int \<times> u8 list \<times> nat \<times> sfs_inode \<times> sfs_fs) option" where
  "io_range write buf offset endpos sin fs =
     (let blkno = offset div SFS_BLKSIZE; nblks = endpos div SFS_BLKSIZE - blkno; blkoff = offset mod SFS_BLKSIZE in
      if blkoff \<noteq> 0 then let sz = (if nblks \<noteq> 0 then SFS_BLKSIZE - blkoff else endpos - offset) in do {
        (ret, d0, sin, fs) \<leftarrow> io_part write buf sz blkno blkoff sin fs;
        if ret \<noteq> 0 then Some (io_out ret [] offset 0 sin fs)
        else if nblks = 0 then Some (io_out 0 d0 offset sz sin fs)
        else io_tail write (drop sz buf) offset endpos (blkno + 1) (nblks - 1) d0 sz sin fs
      }
      else io_tail write buf offset endpos blkno nblks [] 0 sin fs)"

text \<open>The results are the error code, the bytes read, the number of bytes moved, the inode and the file system.\<close>

definition sfs_io_nolock :: "sfs_inode \<Rightarrow> u8 list \<Rightarrow> u64 \<Rightarrow> u64 \<Rightarrow> bool \<Rightarrow> sfs_fs \<Rightarrow> (int \<times> u8 list \<times> nat \<times> sfs_inode \<times> sfs_fs) option" where
  "sfs_io_nolock sin buf offset len write fs = do {
     kassert (di_type (din sin) \<noteq> SFS_TYPE_DIR);
     let endpos = offset + len in
     if offset <s 0 \<or> unat offset \<ge> SFS_MAX_FILE_SIZE \<or> endpos <s offset then Some (- E_INVAL, [], 0, sin, fs)
     else if offset = endpos then Some (0, [], 0, sin, fs)
     else let endpos = min (unat endpos) SFS_MAX_FILE_SIZE; sz = unat (size_or_slots (din sin)) in
     if \<not> write \<and> unat offset \<ge> sz then Some (0, [], 0, sin, fs)
     else io_range write buf (unat offset) (if write then endpos else min endpos sz) sin fs
   }"

definition sfs_io :: "sfs_inode \<Rightarrow> iobuf \<Rightarrow> bool \<Rightarrow> sfs_fs \<Rightarrow> (int \<times> iobuf \<times> sfs_inode \<times> sfs_fs) option" where
  "sfs_io sin iob write fs =
     (if trylock_sin sin \<noteq> 0 then Some (trylock_sin sin, iob, sin, fs)
      else do {
        (ret, bs, alen, sin, fs) \<leftarrow> sfs_io_nolock sin (drop (io_base iob) (io_buf iob)) (io_offset iob) (io_resid iob) write fs;
        iob \<leftarrow> Some (if write then iob else iob\<lparr>io_buf := put_bytes bs (io_base iob) (io_buf iob)\<rparr>);
        iob \<leftarrow> (if alen \<noteq> 0 then iobuf_skip iob (of_nat alen) else Some iob);
        Some (ret, iob, sin, fs)
      })"

definition sfs_read :: "sfs_inode \<Rightarrow> iobuf \<Rightarrow> sfs_fs \<Rightarrow> (int \<times> iobuf \<times> sfs_inode \<times> sfs_fs) option" where
  "sfs_read sin iob fs = sfs_io sin iob False fs"

definition sfs_write :: "sfs_inode \<Rightarrow> iobuf \<Rightarrow> sfs_fs \<Rightarrow> (int \<times> iobuf \<times> sfs_inode \<times> sfs_fs) option" where
  "sfs_write sin iob fs = sfs_io sin iob True fs"

section \<open>Truncation, seeking and the inode\<close>

fun trunc_grow :: "nat \<Rightarrow> nat \<Rightarrow> sfs_inode \<Rightarrow> sfs_fs \<Rightarrow> (int \<times> sfs_inode \<times> sfs_fs) option" where
  "trunc_grow 0 nblks sin fs = Some (0, sin, fs)"
| "trunc_grow (Suc k) nblks sin fs = do {
     (ret, _, sin, fs) \<leftarrow> sfs_bmap_load_nolock sin nblks fs;
     if ret \<noteq> 0 then Some (ret, sin, fs) else trunc_grow k (nblks + 1) sin fs
   }"

fun trunc_shrink :: "nat \<Rightarrow> sfs_inode \<Rightarrow> sfs_fs \<Rightarrow> (int \<times> sfs_inode \<times> sfs_fs) option" where
  "trunc_shrink 0 sin fs = Some (0, sin, fs)"
| "trunc_shrink (Suc k) sin fs = do {
     (ret, sin, fs) \<leftarrow> sfs_bmap_truncate_nolock sin fs;
     if ret \<noteq> 0 then Some (ret, sin, fs) else trunc_shrink k sin fs
   }"

definition sfs_truncfile :: "sfs_inode \<Rightarrow> u64 \<Rightarrow> sfs_fs \<Rightarrow> (int \<times> sfs_inode \<times> sfs_fs) option" where
  "sfs_truncfile sin len fs =
     (if len <s 0 \<or> unat len > SFS_MAX_FILE_SIZE then Some (- E_INVAL, sin, fs)
      else do {
        kassert (di_type (din sin) \<noteq> SFS_TYPE_DIR);
        let tblks = (unat len + SFS_BLKSIZE - 1) div SFS_BLKSIZE; nblks = unat (di_blocks (din sin)) in
        if unat (size_or_slots (din sin)) = unat len then do {
          kassert (tblks = nblks);
          Some (0, sin, fs)
        }
        else if trylock_sin sin \<noteq> 0 then Some (trylock_sin sin, sin, fs)
        else do {
          (ret, sin, fs) \<leftarrow> (if nblks < tblks then trunc_grow (tblks - nblks) nblks sin fs else trunc_shrink (nblks - tblks) sin fs);
          if ret \<noteq> 0 then Some (ret, sin, fs)
          else do {
            kassert (unat (di_blocks (din sin)) = tblks);
            Some (0, sin\<lparr>din := (din sin)\<lparr>size_or_slots := ucast len\<rparr>, sin_dirty := True\<rparr>, fs)
          }
        }
      })"

definition sfs_tryseek :: "sfs_inode \<Rightarrow> u64 \<Rightarrow> sfs_fs \<Rightarrow> (int \<times> sfs_inode \<times> sfs_fs) option" where
  "sfs_tryseek sin pos fs =
     (if pos <s 0 \<or> unat pos \<ge> SFS_MAX_FILE_SIZE then Some (- E_INVAL, sin, fs)
      else if unat pos > unat (size_or_slots (din sin)) then sfs_truncfile sin pos fs
      else Some (0, sin, fs))"

definition sfs_gettype :: "sfs_inode \<Rightarrow> u32 option" where
  "sfs_gettype sin =
     (if di_type (din sin) = SFS_TYPE_DIR then Some 0x2000
      else if di_type (din sin) = SFS_TYPE_FILE then Some 0x1000
      else if di_type (din sin) = SFS_TYPE_LINK then Some 0x3000
      else None)"

record fstat =
  st_mode :: u32
  st_nlinks :: u64
  st_blocks :: u64
  st_size :: u64

definition sfs_fstat :: "sfs_inode \<Rightarrow> (int \<times> fstat) option" where
  "sfs_fstat sin = do {
     mode \<leftarrow> sfs_gettype sin;
     Some (0, \<lparr>st_mode = mode, st_nlinks = ucast (nlinks (din sin)), st_blocks = ucast (di_blocks (din sin)),
       st_size = (if di_type (din sin) \<noteq> SFS_TYPE_DIR then ucast (size_or_slots (din sin)) else ucast (size_or_slots (din sin) + 2) * 256)\<rparr>)
   }"

definition sfs_nlinks_inc_nolock :: "sfs_inode \<Rightarrow> sfs_inode" where
  "sfs_nlinks_inc_nolock sin = sin\<lparr>sin_dirty := True, din := (din sin)\<lparr>nlinks := nlinks (din sin) + 1\<rparr>\<rparr>"

definition sfs_nlinks_dec_nolock :: "sfs_inode \<Rightarrow> sfs_inode option" where
  "sfs_nlinks_dec_nolock sin = do {
     kassert (nlinks (din sin) \<noteq> 0);
     Some (sin\<lparr>sin_dirty := True, din := (din sin)\<lparr>nlinks := nlinks (din sin) - 1\<rparr>\<rparr>)
   }"

text \<open>The inode as it is on the device: \<^verbatim>\<open>struct sfs_disk_inode\<close> in memory order.\<close>

definition bytes2 :: "u16 \<Rightarrow> u8 list" where
  "bytes2 v = [ucast v, ucast (drop_bit 8 v)]"

definition word2 :: "u8 list \<Rightarrow> u16" where
  "word2 bs = ucast (bs ! 0) OR push_bit 8 (ucast (bs ! 1))"

definition din_bytes :: "sfs_disk_inode \<Rightarrow> u8 list" where
  "din_bytes d = bytes4 (size_or_slots d) @ bytes4 (parent d) @ bytes2 (di_type d) @ bytes2 (nlinks d) @ bytes4 (di_blocks d) @
     concat (map bytes4 (direct d)) @ bytes4 (indirect d) @ bytes4 (db_indirect d)"

definition bytes_din :: "u8 list \<Rightarrow> sfs_disk_inode" where
  "bytes_din bs = \<lparr>size_or_slots = word4 bs, parent = word4 (drop 4 bs), di_type = word2 (drop 8 bs), nlinks = word2 (drop 10 bs),
     di_blocks = word4 (drop 12 bs), direct = map (\<lambda>i. word4 (drop (16 + 4 * i) bs)) [0..<SFS_NDIRECT], indirect = word4 (drop 64 bs), db_indirect = word4 (drop 68 bs)\<rparr>"

definition sfs_fsync :: "sfs_inode \<Rightarrow> sfs_fs \<Rightarrow> (int \<times> sfs_inode \<times> sfs_fs) option" where
  "sfs_fsync sin fs =
     (if nlinks (din sin) = 0 \<or> \<not> sin_dirty sin then Some (0, sin, fs)
      else if trylock_sin sin \<noteq> 0 then Some (trylock_sin sin, sin, fs)
      else do {
        (ret, fs) \<leftarrow> sfs_wbuf (din_bytes (din sin)) (ino sin) 0 fs;
        Some (ret, sin\<lparr>sin_dirty := (ret \<noteq> 0)\<rparr>, fs)
      })"

definition sfs_close :: "sfs_inode \<Rightarrow> sfs_fs \<Rightarrow> (int \<times> sfs_inode \<times> sfs_fs) option" where
  "sfs_close sin fs = sfs_fsync sin fs"

definition sfs_opendir :: "u32 \<Rightarrow> int" where
  "sfs_opendir open_flags = (if open_flags AND 3 \<noteq> 0 \<or> open_flags AND 0x20 \<noteq> 0 then - E_ISDIR else 0)"

definition sfs_openfile :: "u32 \<Rightarrow> int" where
  "sfs_openfile open_flags = 0"

end
