(* ===== verification/Sfs_Bytes.thy ===== *)
theory Sfs_Bytes
  imports Sfs_File
begin

text \<open>
  Files as arrays of bytes: what \<^verbatim>\<open>sfs_io_nolock\<close> and \<^verbatim>\<open>sfs_truncfile\<close> do to the bytes of a file, with any sequence of failed transfers
  and a device that may run full, and that they touch no block of another file.
\<close>

section \<open>One block\<close>

lemma data_step:
  assumes ok: "file_ok fs sin" and m: "m < nblocks sin" and st: "step {fblk fs (din sin) m} fs fs'"
  shows "fop fs sin fs' sin" "\<And>k. k < nblocks sin \<Longrightarrow> fblk fs' (din sin) k = fblk fs (din sin) k"
    "\<And>k. k < nblocks sin \<Longrightarrow> k \<noteq> m \<Longrightarrow> blk_of fs' (fblk fs' (din sin) k) = blk_of fs (fblk fs (din sin) k)"
proof -
  let ?d = "din sin"
  have d: "din_ok fs ?d" "fs_ok fs" using ok by (simp_all add: file_ok_def)
  note k = file_ok_blk [OF ok m]
  have p: "ptr fs' ?d s = ptr fs ?d s" if "slot_ok s" for s
    by (rule ptr_kept [OF d(1) st _ that]) (use k(2) in \<open>auto simp: meta_def\<close>)
  then show fb: "fblk fs' ?d k = fblk fs ?d k" if "k < nblocks sin" for k
    using data_slot_ok [OF file_ok_blk(3) [OF ok that]] by (simp add: fblk_def)
  have "din_ok fs' ?d" by (rule din_ok_enter [OF d(1) st]) (use d p ptr_not_avail [OF d(1) _ d(2)] in \<open>auto simp: din_ok_def\<close>)
  then have "file_ok fs' sin" using ok p step_ok [OF st] step_in_use [OF st] data_slot_ok unfolding file_ok_def fblk_def by simp
  moreover have "step (owned fs ?d) fs fs'" by (rule step_mono [OF st]) (use data_slot_ok [OF k(3)] in \<open>auto simp: owned_def fblk_def\<close>)
  ultimately show "fop fs sin fs' sin" using p by (auto simp: fop_def same_attr_def extends_def)
  show "blk_of fs' (fblk fs' ?d k) = blk_of fs (fblk fs ?d k)" if k: "k < nblocks sin" "k \<noteq> m" for k
    using fb [OF k(1)] step_blk [OF st file_ok_blk(1) [OF ok k(1)]] fblk_inj [OF ok k(1) m] k(2) by simp
qed

text \<open>The bytes \<open>bs\<close> are written at position \<open>pos\<close>; the rest is as before, and new blocks read 0.\<close>

definition wrote :: "sfs_fs \<Rightarrow> sfs_inode \<Rightarrow> nat \<Rightarrow> u8 list \<Rightarrow> sfs_fs \<Rightarrow> sfs_inode \<Rightarrow> bool" where
  "wrote fs sin pos bs fs' sin' \<longleftrightarrow> fop fs sin fs' sin' \<and>
     (\<forall>i < 4096 * nblocks sin'. fbyte fs' sin' i =
        (if pos \<le> i \<and> i < pos + length bs then bs ! (i - pos) else if i < 4096 * nblocks sin then fbyte fs sin i else 0))"

lemma wrote_nil: "file_ok fs sin \<Longrightarrow> wrote fs sin pos [] fs sin"
  by (auto simp: wrote_def fop_refl)

lemma wrote_append:
  assumes "wrote a s pos xs b t" "wrote b t (pos + length xs) ys c u" and le: "pos + length xs \<le> 4096 * nblocks t \<or> xs = []"
  shows "wrote a s pos (xs @ ys) c u"
proof -
  have f: "fop a s b t" "fop b t c u" using assms(1,2) by (simp_all add: wrote_def)
  then have n: "nblocks s \<le> nblocks t" "nblocks t \<le> nblocks u" "fop a s c u" using fop_trans [OF f] by (simp_all add: fop_def)
  have "fbyte c u i = (if pos \<le> i \<and> i < pos + length (xs @ ys) then (xs @ ys) ! (i - pos) else if i < 4096 * nblocks s then fbyte a s i else 0)"
    if i: "i < 4096 * nblocks u" for i
  proof (cases "pos + length xs \<le> i \<and> i < pos + length xs + length ys")
    case True
    then have "fbyte c u i = ys ! (i - (pos + length xs))" using assms(2) i by (simp add: wrote_def)
    then show ?thesis using True by (auto simp: nth_append)
  next
    case False
    then have c: "fbyte c u i = (if i < 4096 * nblocks t then fbyte b t i else 0)" using assms(2) i unfolding wrote_def by presburger
    show ?thesis
    proof (cases "i < 4096 * nblocks t")
      case True
      then show ?thesis using c False assms(1) by (auto simp: wrote_def nth_append)
    next
      case f: False
      then have "\<not> i < 4096 * nblocks s" "\<not> (pos \<le> i \<and> i < pos + length xs)" using n(1) le by auto
      then show ?thesis using c f False by auto
    qed
  qed
  then show ?thesis using n by (simp add: wrote_def)
qed

lemma div_mod_4096: "(4096 * k + j) div 4096 = k" "(4096 * k + j) mod 4096 = j" if "j < 4096" for k j :: nat
  using that by simp_all

text \<open>From blocks to bytes.\<close>

lemma bytes_of_blocks:
  assumes f: "fop fs sin fs' sin'" and m: "m < nblocks sin'" and off: "off + length bs \<le> 4096"
    and old: "\<And>k. k < nblocks sin' \<Longrightarrow> k \<noteq> m \<Longrightarrow> blk_of fs' (fblk fs' (din sin') k) = (if k < nblocks sin then blk_of fs (fblk fs (din sin) k) else (\<lambda>i. 0))"
    and new: "\<And>i. i < 4096 \<Longrightarrow> blk_of fs' (fblk fs' (din sin') m) i =
      (if off \<le> i \<and> i < off + length bs then bs ! (i - off) else if m < nblocks sin then blk_of fs (fblk fs (din sin) m) i else 0)"
  shows "wrote fs sin (4096 * m + off) bs fs' sin'"
proof -
  have "fbyte fs' sin' i = (if 4096 * m + off \<le> i \<and> i < 4096 * m + off + length bs then bs ! (i - (4096 * m + off))
      else if i < 4096 * nblocks sin then fbyte fs sin i else 0)" if i: "i < 4096 * nblocks sin'" for i
  proof -
    define k j where "k = i div 4096" and "j = i mod 4096"
    have kj: "i = 4096 * k + j" "j < 4096" by (simp_all add: k_def j_def)
    have lt: "(i < 4096 * n) = (k < n)" for n using kj by (metis add_lessD1 k_def less_mult_imp_div_less mult.commute div_less_iff_less_mult zero_less_numeral)
    show ?thesis
    proof (cases "k = m")
      case True
      have "(4096 * m + off \<le> i) = (off \<le> j)" "(i < 4096 * m + off + length bs) = (j < off + length bs)" "i - (4096 * m + off) = j - off"
        using kj True by simp_all
      then show ?thesis using new [OF kj(2)] True lt unfolding fbyte_def k_def [symmetric] j_def [symmetric] by simp
    next
      case False
      then have "\<not> (4096 * m + off \<le> i \<and> i < 4096 * m + off + length bs)" using kj off by (cases "k < m") auto
      then show ?thesis using old [OF _ False] i lt unfolding fbyte_def k_def [symmetric] j_def [symmetric] by auto
    qed
  qed
  then show ?thesis using f by (simp add: wrote_def)
qed

lemma wblock_ok:
  assumes "fs_ok fs" "in_use fs b"
  shows "\<exists>ret fs'. sfs_wblock [x] b fs = Some (ret, fs') \<and> step {b} fs fs' \<and> (ret = 0 \<longrightarrow> blk_of fs' b = x) \<and> (ret \<noteq> 0 \<longrightarrow> blk_of fs' b = blk_of fs b \<and> io_failed fs)"
proof -
  have b: "b < super_blocks fs" using assms(2) by (simp add: in_use_def)
  then have "step {b} fs (put_blk b x (tick fs))" "blk_of (put_blk b x (tick fs)) b = x" "step {b} fs (tick fs)"
    using assms(1) blk_of_put [of "tick fs" b] by (auto simp: step_def in_use_def)
  then show ?thesis using write_block [OF assms(2), of x] by (auto simp: io_failed_def)
qed

lemma rblock_ok:
  assumes "in_use fs b"
  shows "\<exists>ret. sfs_rblock b 1 fs = Some (ret, if ret = 0 then [blk_of fs b] else [], tick fs) \<and> (ret \<noteq> 0 \<longrightarrow> io_failed fs)"
  using read_block [OF assms] by (auto simp: io_failed_def)

text \<open>Reading a part of a block, or all of it, returns the bytes of the file and changes nothing; writing replaces them.\<close>

definition chunk_read :: "sfs_fs \<Rightarrow> sfs_inode \<Rightarrow> nat \<Rightarrow> nat \<Rightarrow> (int \<times> u8 list \<times> sfs_inode \<times> sfs_fs) option \<Rightarrow> bool" where
  "chunk_read fs sin pos sz r \<longleftrightarrow> (\<exists>ret bs fs'. r = Some (ret, bs, sin, fs') \<and> ticked fs fs' \<and>
     (if ret = 0 then bs = map (fbyte fs sin) [pos..<pos + sz] else io_failed fs))"

definition chunk_write :: "sfs_fs \<Rightarrow> sfs_inode \<Rightarrow> nat \<Rightarrow> u8 list \<Rightarrow> (int \<times> u8 list \<times> sfs_inode \<times> sfs_fs) option \<Rightarrow> bool" where
  "chunk_write fs sin pos bs r \<longleftrightarrow> (\<exists>ret sin' fs'. r = Some (ret, [], sin', fs') \<and>
     (if ret = 0 then wrote fs sin pos bs fs' sin' \<and> pos + length bs \<le> 4096 * nblocks sin'
      else wrote fs sin pos [] fs' sin' \<and> out_of_space fs))"

lemma fbyte_map:
  assumes "off + sz \<le> 4096"
  shows "map (blk_of fs (fblk fs (din sin) m)) [off..<off + sz] = map (fbyte fs sin) [4096 * m + off..<4096 * m + off + sz]"
proof (rule nth_equalityI)
  fix i assume "i < length (map (blk_of fs (fblk fs (din sin) m)) [off..<off + sz])"
  then have "i < sz" "(4096 * m + (off + i)) div 4096 = m" "(4096 * m + (off + i)) mod 4096 = off + i" using assms by simp_all
  then show "map (blk_of fs (fblk fs (din sin) m)) [off..<off + sz] ! i = map (fbyte fs sin) [4096 * m + off..<4096 * m + off + sz] ! i"
    by (simp add: fbyte_def add.assoc)
qed simp

lemma ticked_in_use: "ticked fs fs' \<Longrightarrow> in_use fs b \<Longrightarrow> in_use fs' b"
  by (simp add: ticked_same)

lemma chunk_read_ok:
  assumes ok: "file_ok fs sin" and m: "m < nblocks sin"
  shows "off + sz \<le> 4096 \<Longrightarrow> off < 4096 \<Longrightarrow> chunk_read fs sin (4096 * m + off) sz (io_part False buf sz m off sin fs)"
    "chunk_read fs sin (4096 * m) 4096 (io_block False buf m sin fs)"
proof -
  note k = file_ok_blk [OF ok m]
  have m2: "m \<le> nblocks sin" "m < 32768" using ok m by (auto simp: file_ok_def)
  obtain r b s1 f1 where l0: "sfs_bmap_load_nolock sin m fs = Some (r, b, s1, f1)"
    and c: "if r = 0 then b = fblk f1 (din s1) m \<and> nblocks s1 = max (nblocks sin) (Suc m) \<and> (m = nblocks sin \<longrightarrow> blk_of f1 b = (\<lambda>i. 0)) \<and>
         (m < nblocks sin \<longrightarrow> s1 = sin \<and> ticked fs f1)
       else nblocks s1 = nblocks sin \<and> out_of_space fs \<and> (m < nblocks sin \<longrightarrow> s1 = sin \<and> ticked fs f1 \<and> io_failed fs)"
    using bmap_load_ok [OF ok m2] by blast
  have "s1 = sin \<and> ticked fs f1" using c m by (cases "r = 0") simp_all
  then have l: "sfs_bmap_load_nolock sin m fs = Some (r, b, sin, f1)" "ticked fs f1" "r = 0 \<longrightarrow> b = fblk fs (din sin) m" "r \<noteq> 0 \<longrightarrow> io_failed fs"
    using c m l0 ticked_same(10) [of fs f1] by auto
  note t = ticked_same [OF l(2)]
  have iu: "in_use f1 (fblk fs (din sin) m)" using k(1) t by simp
  have tt: "ticked fs (tick f1)" by (rule ticked_trans [OF l(2) ticked_tick])
  have io: "io_ret f1 n \<noteq> 0 \<Longrightarrow> io_failed fs" for n using t by (auto simp: io_failed_def)
  show "chunk_read fs sin (4096 * m + off) sz (io_part False buf sz m off sin fs)" if o: "off + sz \<le> 4096" "off < 4096"
  proof (cases "r = 0")
    case True
    then show ?thesis using l(1,3) rbuf_ok [OF iu o(2,1)] tt io fbyte_map [OF o(1), of fs sin m] t by (auto simp: io_part_def chunk_read_def)
  next
    case False
    then show ?thesis using l by (auto simp: io_part_def chunk_read_def)
  qed
  show "chunk_read fs sin (4096 * m) 4096 (io_block False buf m sin fs)"
  proof (cases "r = 0")
    case True
    obtain r2 where "sfs_rblock (fblk fs (din sin) m) 1 f1 = Some (r2, if r2 = 0 then [blk_of f1 (fblk fs (din sin) m)] else [], tick f1)" "r2 \<noteq> 0 \<longrightarrow> io_failed f1"
      using rblock_ok [OF iu] by blast
    then show ?thesis using True l(1,3) tt io fbyte_map [of 0 4096 fs sin m] t
      by (auto simp: io_block_def chunk_read_def io_failed_def simp del: sfs_rblock.simps One_nat_def)
  next
    case False
    then show ?thesis using l by (auto simp: io_block_def chunk_read_def)
  qed
qed

lemma wrote_same:
  assumes f: "fop fs sin fs' sin'" and n: "nblocks sin' = nblocks sin"
    and b: "\<forall>m < nblocks sin. blk_of fs' (fblk fs' (din sin') m) = blk_of fs (fblk fs (din sin) m)"
  shows "wrote fs sin pos [] fs' sin'"
proof -
  have "fbyte fs' sin' i = fbyte fs sin i" if "i < 4096 * nblocks sin" for i
    using b that by (simp add: fbyte_def less_mult_imp_div_less mult.commute)
  then show ?thesis using f n by (auto simp: wrote_def)
qed

lemma write_loaded:
  assumes f: "fop fs sin f1 s1" and old: "\<forall>k < nblocks sin. blk_of f1 (fblk f1 (din s1) k) = blk_of fs (fblk fs (din sin) k)" and m: "m \<le> nblocks sin"
    and b: "b = fblk f1 (din s1) m" "nblocks s1 = max (nblocks sin) (Suc m)" "m = nblocks sin \<longrightarrow> blk_of f1 b = (\<lambda>i. 0)"
    and st: "step {b} f1 f2" and off: "off + length bs \<le> 4096"
    and new: "\<And>i. i < 4096 \<Longrightarrow> blk_of f2 b i = (if off \<le> i \<and> i < off + length bs then bs ! (i - off) else blk_of f1 b i)"
  shows "wrote fs sin (4096 * m + off) bs f2 s1 \<and> 4096 * m + off + length bs \<le> 4096 * nblocks s1"
proof -
  have ok: "file_ok f1 s1" using f by (simp add: fop_def)
  have m1: "m < nblocks s1" using b(2) by simp
  note d = data_step [OF ok m1 st [unfolded b(1)]]
  have fm: "fblk f2 (din s1) m = b" using d(2) [OF m1] b(1) by simp
  have "wrote fs sin (4096 * m + off) bs f2 s1"
  proof (rule bytes_of_blocks [OF fop_trans [OF f d(1)] m1 off])
    fix k assume k: "k < nblocks s1" "k \<noteq> m"
    then have "k < nblocks sin" using m b(2) by auto
    then show "blk_of f2 (fblk f2 (din s1) k) = (if k < nblocks sin then blk_of fs (fblk fs (din sin) k) else (\<lambda>i. 0))"
      using d(3) [OF k] old by simp
  next
    fix i :: nat assume i: "i < 4096"
    have "blk_of f1 b i = (if m < nblocks sin then blk_of fs (fblk fs (din sin) m) i else 0)" using old b m by auto
    then show "blk_of f2 (fblk f2 (din s1) m) i = (if off \<le> i \<and> i < off + length bs then bs ! (i - off) else if m < nblocks sin then blk_of fs (fblk fs (din sin) m) i else 0)"
      using new [OF i] fm by simp
  qed
  moreover have "4096 * Suc m \<le> 4096 * nblocks s1" using m1 by (intro mult_le_mono) simp_all
  ultimately show ?thesis using off by simp
qed

lemma chunk_write_ok:
  assumes ok: "file_ok fs sin" and m: "m \<le> nblocks sin" "m < 32768"
  shows "off + sz \<le> 4096 \<Longrightarrow> off < 4096 \<Longrightarrow> sz \<le> length buf \<Longrightarrow> chunk_write fs sin (4096 * m + off) (take sz buf) (io_part True buf sz m off sin fs)"
    "4096 \<le> length buf \<Longrightarrow> chunk_write fs sin (4096 * m) (take 4096 buf) (io_block True buf m sin fs)"
proof -
  obtain r b s1 f1 where l: "sfs_bmap_load_nolock sin m fs = Some (r, b, s1, f1)" "fop fs sin f1 s1"
      "\<forall>k < nblocks sin. blk_of f1 (fblk f1 (din s1) k) = blk_of fs (fblk fs (din sin) k)"
    and c: "if r = 0 then b = fblk f1 (din s1) m \<and> nblocks s1 = max (nblocks sin) (Suc m) \<and> (m = nblocks sin \<longrightarrow> blk_of f1 b = (\<lambda>i. 0)) \<and>
         (m < nblocks sin \<longrightarrow> s1 = sin \<and> ticked fs f1)
       else nblocks s1 = nblocks sin \<and> out_of_space fs \<and> (m < nblocks sin \<longrightarrow> s1 = sin \<and> ticked fs f1 \<and> io_failed fs)"
    using bmap_load_ok [OF ok m] by blast
  have ok1: "file_ok f1 s1" "io_failed f1 = io_failed fs" using l(2) io_failed_step by (auto simp: fop_def)
  have io: "io_failed fs \<Longrightarrow> out_of_space fs" by (simp add: out_of_space_def)
  have fail: "wrote fs sin pos [] f1 s1 \<and> out_of_space fs" if "r \<noteq> 0" for pos using wrote_same [OF l(2)] l(3) c that by simp
  have b: "b = fblk f1 (din s1) m" "nblocks s1 = max (nblocks sin) (Suc m)" "m = nblocks sin \<longrightarrow> blk_of f1 b = (\<lambda>i. 0)" "in_use f1 b" if "r = 0"
  proof -
    show b: "b = fblk f1 (din s1) m" "nblocks s1 = max (nblocks sin) (Suc m)" "m = nblocks sin \<longrightarrow> blk_of f1 b = (\<lambda>i. 0)" using c that by auto
    have "m < nblocks s1" using b(2) by simp
    then show "in_use f1 b" using file_ok_blk(1) [OF ok1(1)] b(1) by simp
  qed
  note wl = write_loaded [OF l(2,3) m(1) b(1-3)]
  show "chunk_write fs sin (4096 * m + off) (take sz buf) (io_part True buf sz m off sin fs)" if o: "off + sz \<le> 4096" "off < 4096" "sz \<le> length buf"
  proof (cases "r = 0")
    case True
    have len: "length (take sz buf) = sz" using o(3) by simp
    obtain r2 f2 where w: "sfs_wbuf (take sz buf) b off f1 = Some (r2, f2)" "step {b} f1 f2" "r2 = 0 \<longrightarrow> blk_of f2 b = patch (take sz buf) off (blk_of f1 b)"
      "r2 \<noteq> 0 \<longrightarrow> blk_of f2 b = blk_of f1 b \<and> io_failed f1"
      using wbuf_ok [OF file_ok_fs [OF ok1(1)] b(4) [OF True] o(2), of "take sz buf"] o by (auto simp: io_failed_def)
    have "wrote fs sin (4096 * m + off) (take sz buf) f2 s1 \<and> 4096 * m + off + length (take sz buf) \<le> 4096 * nblocks s1" if "r2 = 0"
      by (rule wl [OF True True True w(2)]) (use w(3) that o len in \<open>auto simp: patch_def\<close>)
    moreover have "wrote fs sin (4096 * m + off) [] f2 s1 \<and> 4096 * m + off + length ([] :: u8 list) \<le> 4096 * nblocks s1" if "r2 \<noteq> 0"
      by (rule wl [OF True True True w(2)]) (use w(4) that o in auto)
    ultimately show ?thesis using l(1) True w(1,4) io ok1(2) by (cases "r2 = 0") (auto simp: io_part_def chunk_write_def)
  next
    case False
    then show ?thesis using l(1) fail by (auto simp: io_part_def chunk_write_def)
  qed
  show "chunk_write fs sin (4096 * m) (take 4096 buf) (io_block True buf m sin fs)" if o: "4096 \<le> length buf"
  proof (cases "r = 0")
    case True
    let ?x = "\<lambda>i. if i < SFS_BLKSIZE then buf ! i else 0"
    obtain r2 f2 where w: "sfs_wblock [?x] b f1 = Some (r2, f2)" "step {b} f1 f2" "r2 = 0 \<longrightarrow> blk_of f2 b = ?x" "r2 \<noteq> 0 \<longrightarrow> blk_of f2 b = blk_of f1 b \<and> io_failed f1"
      using wblock_ok [OF file_ok_fs [OF ok1(1)] b(4) [OF True], of ?x] by blast
    have "wrote fs sin (4096 * m + 0) (take 4096 buf) f2 s1 \<and> 4096 * m + 0 + length (take 4096 buf) \<le> 4096 * nblocks s1" if "r2 = 0"
      by (rule wl [OF True True True w(2)]) (use w(3) that o in auto)
    moreover have "wrote fs sin (4096 * m + 0) [] f2 s1 \<and> 4096 * m + 0 + length ([] :: u8 list) \<le> 4096 * nblocks s1" if "r2 \<noteq> 0"
      by (rule wl [OF True True True w(2)]) (use w(4) that o in auto)
    ultimately show ?thesis using l(1) True w(1,4) io ok1(2) by (cases "r2 = 0") (auto simp: io_block_def chunk_write_def simp del: sfs_wblock.simps)
  next
    case False
    then show ?thesis using l(1) fail by (auto simp: io_block_def chunk_write_def)
  qed
qed

section \<open>Ranges\<close>

lemma out_of_space_step: "step W fs fs' \<Longrightarrow> out_of_space fs \<Longrightarrow> out_of_space fs'"
  using card_mono [OF finite_avail, of "avail fs'" fs] io_failed_step [of W fs fs'] by (auto simp: out_of_space_def step_def)

lemma wrote_ok: "wrote fs sin pos bs fs' sin' \<Longrightarrow> file_ok fs' sin'" "wrote fs sin pos bs fs' sin' \<Longrightarrow> nblocks sin \<le> nblocks sin'"
  "wrote fs sin pos bs fs' sin' \<Longrightarrow> out_of_space fs \<Longrightarrow> out_of_space fs'"
  using out_of_space_step by (auto simp: wrote_def fop_def)

definition range_read :: "sfs_fs \<Rightarrow> sfs_inode \<Rightarrow> nat \<Rightarrow> nat \<Rightarrow> (int \<times> u8 list \<times> nat \<times> sfs_inode \<times> sfs_fs) option \<Rightarrow> bool" where
  "range_read fs sin pos sz r \<longleftrightarrow> (\<exists>ret bs alen fs'. r = Some (ret, bs, alen, sin, fs') \<and> ticked fs fs' \<and>
     bs = map (fbyte fs sin) [pos..<pos + alen] \<and> alen \<le> sz \<and> (ret = 0 \<longrightarrow> alen = sz) \<and> (ret \<noteq> 0 \<longrightarrow> io_failed fs))"

definition range_write :: "sfs_fs \<Rightarrow> sfs_inode \<Rightarrow> nat \<Rightarrow> nat \<Rightarrow> u8 list \<Rightarrow> (int \<times> u8 list \<times> nat \<times> sfs_inode \<times> sfs_fs) option \<Rightarrow> bool" where
  "range_write fs sin pos sz buf r \<longleftrightarrow> (\<exists>ret alen sin' fs'. r = Some (ret, [], alen, sin', fs') \<and> wrote fs sin pos (take alen buf) fs' sin' \<and>
     alen \<le> sz \<and> (alen = 0 \<or> pos + alen \<le> 4096 * nblocks sin') \<and> (ret = 0 \<longrightarrow> alen = sz) \<and> (ret \<noteq> 0 \<longrightarrow> out_of_space fs'))"

lemma ticked_read:
  assumes "ticked fs fs'" "file_ok fs sin"
  shows "file_ok fs' sin" "fbyte fs' sin = fbyte fs sin" "io_failed fs' = io_failed fs"
  using fop_ticked [OF assms(2,1)] ticked_same [OF assms(1)] by (auto simp: fop_def io_failed_def)

lemma map_upt_append: "map f [a..<a + b] @ map f [a + b..<a + b + c] = map f [a..<a + (b + c)]"
  by (metis add.assoc map_append upt_add_eq_append le_add1)

lemma blocks_read: "file_ok fs sin \<Longrightarrow> m + n \<le> nblocks sin \<Longrightarrow> range_read fs sin (4096 * m) (4096 * n) (io_blocks False n buf m sin fs)"
proof (induction n arbitrary: m buf fs)
  case 0
  then show ?case by (simp add: range_read_def)
next
  case (Suc n)
  obtain r bs f1 where a: "io_block False buf m sin fs = Some (r, bs, sin, f1)" "ticked fs f1" "if r = 0 then bs = map (fbyte fs sin) [4096 * m..<4096 * m + 4096] else io_failed fs"
    using chunk_read_ok(2) [OF Suc.prems(1), of m buf] Suc.prems(2) unfolding chunk_read_def by auto
  note t = ticked_read [OF a(2) Suc.prems(1)]
  obtain r2 bs2 al f2 where b: "io_blocks False n (drop 4096 buf) (m + 1) sin f1 = Some (r2, bs2, al, sin, f2)" "ticked f1 f2"
    "bs2 = map (fbyte fs sin) [4096 * (m + 1)..<4096 * (m + 1) + al]" "al \<le> 4096 * n" "r2 = 0 \<longrightarrow> al = 4096 * n" "r2 \<noteq> 0 \<longrightarrow> io_failed fs"
    using Suc.IH [OF t(1), of "m + 1" "drop 4096 buf"] Suc.prems(2) t unfolding range_read_def by auto
  show ?case
  proof (cases "r = 0")
    case True
    then have "bs @ bs2 = map (fbyte fs sin) [4096 * m..<4096 * m + (4096 + al)]"
      using a(3) b(3) map_upt_append [of "fbyte fs sin" "4096 * m" 4096 al] by (simp add: algebra_simps)
    then show ?thesis using True a(1) b ticked_trans [OF a(2) b(2)] by (auto simp: range_read_def)
  next
    case False
    then show ?thesis using a by (auto simp: range_read_def)
  qed
qed

lemma blocks_write: "file_ok fs sin \<Longrightarrow> m \<le> nblocks sin \<Longrightarrow> m + n \<le> 32768 \<Longrightarrow> 4096 * n \<le> length buf
  \<Longrightarrow> range_write fs sin (4096 * m) (4096 * n) buf (io_blocks True n buf m sin fs)"
proof (induction n arbitrary: m buf fs sin)
  case 0
  then show ?case by (simp add: range_write_def wrote_nil)
next
  case (Suc n)
  have len: "4096 \<le> length buf" using Suc.prems(4) by simp
  obtain r s1 f1 where a: "io_block True buf m sin fs = Some (r, [], s1, f1)"
    "if r = 0 then wrote fs sin (4096 * m) (take 4096 buf) f1 s1 \<and> 4096 * m + length (take 4096 buf) \<le> 4096 * nblocks s1
      else wrote fs sin (4096 * m) [] f1 s1 \<and> out_of_space fs"
    using chunk_write_ok(2) [OF Suc.prems(1,2) _ len] Suc.prems(3) unfolding chunk_write_def by auto
  show ?case
  proof (cases "r = 0")
    case True
    then have w: "wrote fs sin (4096 * m) (take 4096 buf) f1 s1" "4096 * (m + 1) \<le> 4096 * nblocks s1" using a(2) len by simp_all
    have ih: "range_write f1 s1 (4096 * (m + 1)) (4096 * n) (drop 4096 buf) (io_blocks True n (drop 4096 buf) (m + 1) s1 f1)"
      by (rule Suc.IH [OF wrote_ok(1) [OF w(1)]]) (use w(2) Suc.prems(3,4) in auto)
    obtain r2 al s2 f2 where b: "io_blocks True n (drop 4096 buf) (m + 1) s1 f1 = Some (r2, [], al, s2, f2)"
      "wrote f1 s1 (4096 * (m + 1)) (take al (drop 4096 buf)) f2 s2" "al \<le> 4096 * n" "al = 0 \<or> 4096 * (m + 1) + al \<le> 4096 * nblocks s2"
      "r2 = 0 \<longrightarrow> al = 4096 * n" "r2 \<noteq> 0 \<longrightarrow> out_of_space f2"
      using ih unfolding range_write_def by auto
    have "wrote fs sin (4096 * m) (take 4096 buf @ take al (drop 4096 buf)) f2 s2"
      by (rule wrote_append [OF w(1)]) (use b(2) w(2) len in \<open>simp_all add: algebra_simps\<close>)
    then have "wrote fs sin (4096 * m) (take (4096 + al) buf) f2 s2" by (simp add: take_add)
    moreover have "4096 * m + (4096 + al) \<le> 4096 * nblocks s2" using b(4) w(2) wrote_ok(2) [OF b(2)] by auto
    ultimately show ?thesis using True a(1) b by (auto simp: range_write_def)
  next
    case False
    then show ?thesis using a wrote_ok(3) by (auto simp: range_write_def)
  qed
qed

lemma io_out_read: "offset + alen \<le> unat (size_or_slots (din sin)) \<Longrightarrow> io_out ret bs offset alen sin fs = (ret, bs, alen, sin, fs)"
  by (simp add: io_out_def)

lemma tail_read:
  assumes ok: "file_ok fs sin" and p: "endpos div 4096 = m + n" "endpos \<le> unat (size_or_slots (din sin))" "endpos \<le> 4096 * nblocks sin"
    and d: "offset + cnt = 4096 * m" "d0 = map (fbyte fs sin) [offset..<offset + cnt]"
  shows "range_read fs sin offset (endpos - offset) (io_tail False buf offset endpos m n d0 cnt sin fs)"
proof -
  let ?t = "endpos mod 4096"
  have e: "endpos = 4096 * m + 4096 * n + ?t" using p(1) by (metis add_mult_distrib2 div_mult_mod_eq mult.commute)
  have mn: "4096 * (m + n) \<le> 4096 * nblocks sin" using e p(3) by simp
  then have mn: "m + n \<le> nblocks sin" by simp
  obtain r bs al f1 where a: "io_blocks False n buf m sin fs = Some (r, bs, al, sin, f1)" "ticked fs f1" "bs = map (fbyte fs sin) [4096 * m..<4096 * m + al]"
    "al \<le> 4096 * n" "r = 0 \<longrightarrow> al = 4096 * n" "r \<noteq> 0 \<longrightarrow> io_failed fs"
    using blocks_read [OF ok mn, of buf] unfolding range_read_def by auto
  note t = ticked_read [OF a(2) ok]
  have d1: "d0 @ bs = map (fbyte fs sin) [offset..<offset + (cnt + al)]" unfolding d(2) a(3) d(1) [symmetric] by (rule map_upt_append)
  have le: "offset + (cnt + al) \<le> unat (size_or_slots (din sin))" using e p(2) d(1) a(4) by simp
  have alen: "cnt + al \<le> endpos - offset" using e d(1) a(4) by simp
  show ?thesis
  proof (cases "r = 0 \<and> ?t \<noteq> 0")
    case True
    then have al: "al = 4096 * n" using a(5) by simp
    have m1: "m + n < nblocks sin" using e p(3) True by (metis add_mult_distrib2 less_add_same_cancel1 mn le_neq_implies_less not_less bot_nat_0.not_eq_extremum)
    have chunk: "chunk_read f1 sin (4096 * (m + n) + 0) ?t (io_part False (drop al buf) ?t (m + n) 0 sin f1)" using t(1) m1
      by (intro chunk_read_ok(1)) simp_all
    then obtain r2 b2 f2 where b: "io_part False (drop al buf) ?t (m + n) 0 sin f1 = Some (r2, b2, sin, f2)" "ticked f1 f2"
      "if r2 = 0 then b2 = map (fbyte f1 sin) [4096 * (m + n) + 0..<4096 * (m + n) + 0 + ?t] else io_failed f1"
      unfolding chunk_read_def by auto
    have pos: "4096 * (m + n) + 0 = offset + (cnt + al)" using d(1) al by simp
    show ?thesis
    proof (cases "r2 = 0")
      case r2: True
      have "d0 @ bs @ b2 = map (fbyte fs sin) [offset..<offset + (cnt + al)] @ map (fbyte fs sin) [offset + (cnt + al)..<offset + (cnt + al) + ?t]"
        using b(3) r2 d1 t(2) unfolding pos by simp
      then have d2: "d0 @ bs @ b2 = map (fbyte fs sin) [offset..<offset + (cnt + al + ?t)]" unfolding map_upt_append .
      have "offset + (cnt + al + ?t) = endpos" using e d(1) al by simp
      then have "io_out 0 (d0 @ bs @ b2) offset (cnt + al + ?t) sin f2 = (0, d0 @ bs @ b2, cnt + al + ?t, sin, f2)" "cnt + al + ?t = endpos - offset"
        using p(2) by (auto intro: io_out_read)
      then show ?thesis using True a(1) b(1) r2 d2 ticked_trans [OF a(2) b(2)] by (auto simp: io_tail_def range_read_def)
    next
      case False
      then show ?thesis using True a(1) b d1 alen ticked_trans [OF a(2) b(2)] io_out_read [OF le] t(3) by (auto simp: io_tail_def range_read_def)
    qed
  next
    case False
    then have "r = 0 \<longrightarrow> cnt + al = endpos - offset" using a(5) e d(1) by auto
    then show ?thesis using False a d1 alen io_out_read [OF le] by (auto simp: io_tail_def range_read_def)
  qed
qed

lemma io_range_unfold:
  assumes "q = offset div 4096" "r = offset mod 4096" "n = endpos div 4096 - q" "sz = (if n \<noteq> 0 then 4096 - r else endpos - offset)"
  shows "io_range w buf offset endpos sin fs = (if r = 0 then io_tail w buf offset endpos q n [] 0 sin fs else do {
      (ret, d0, sin, fs) \<leftarrow> io_part w buf sz q r sin fs;
      if ret \<noteq> 0 then Some (io_out ret [] offset 0 sin fs)
      else if n = 0 then Some (io_out 0 d0 offset sz sin fs)
      else io_tail w (drop sz buf) offset endpos (q + 1) (n - 1) d0 sz sin fs
    })"
  unfolding assms io_range_def Let_def SFS_BLKSIZE_def by simp

lemma range_read_ok:
  assumes ok: "file_ok fs sin" and p: "offset < endpos" "endpos \<le> unat (size_or_slots (din sin))" "endpos \<le> 4096 * nblocks sin"
  shows "range_read fs sin offset (endpos - offset) (io_range False buf offset endpos sin fs)"
proof -
  define q r where "q = offset div 4096" and "r = offset mod 4096"
  have o: "offset = 4096 * q + r" "r < 4096" by (simp_all add: q_def r_def)
  have qe: "q \<le> endpos div 4096" using p(1) by (simp add: q_def div_le_mono)
  have qn: "q < nblocks sin" using p o(1) by (metis add_lessD1 less_le_trans nat_mult_less_cancel1 zero_less_numeral)
  define n where "n = endpos div 4096 - q"
  have en: "endpos div 4096 = q + n" using qe by (simp add: n_def)
  show ?thesis
  proof (cases "r = 0")
    case True
    have "range_read fs sin offset (endpos - offset) (io_tail False buf offset endpos q n [] 0 sin fs)"
      by (rule tail_read [OF ok en p(2,3)]) (use o True in simp_all)
    then show ?thesis unfolding io_range_unfold [OF q_def r_def n_def refl] using True by simp
  next
    case False
    define sz where "sz = (if n \<noteq> 0 then 4096 - r else endpos - offset)"
    have e: "endpos = 4096 * q + 4096 * n + endpos mod 4096" using en by (metis add_mult_distrib2 div_mult_mod_eq mult.commute)
    have sz: "r + sz \<le> 4096" "sz \<le> endpos - offset" "n \<noteq> 0 \<longrightarrow> offset + sz = 4096 * (q + 1)" "n = 0 \<longrightarrow> sz = endpos - offset"
      using e o by (auto simp: sz_def)
    have "chunk_read fs sin (4096 * q + r) sz (io_part False buf sz q r sin fs)" by (rule chunk_read_ok(1) [OF ok qn sz(1) o(2)])
    then obtain r1 b1 f1 where a: "io_part False buf sz q r sin fs = Some (r1, b1, sin, f1)" "ticked fs f1"
      "if r1 = 0 then b1 = map (fbyte fs sin) [offset..<offset + sz] else io_failed fs"
      unfolding chunk_read_def o(1) [symmetric] by auto
    note t = ticked_read [OF a(2) ok]
    have eq: "io_range False buf offset endpos sin fs = (if r1 \<noteq> 0 then Some (io_out r1 [] offset 0 sin f1) else if n = 0 then Some (io_out 0 b1 offset sz sin f1)
        else io_tail False (drop sz buf) offset endpos (q + 1) (n - 1) b1 sz sin f1)"
      unfolding io_range_unfold [OF q_def r_def n_def sz_def] using False a(1) by simp
    have o1: "io_out ret bs offset x sin f1 = (ret, bs, x, sin, f1)" if "x \<le> endpos - offset" for ret bs x using that p by (intro io_out_read) simp
    show ?thesis
    proof (cases "r1 = 0 \<and> n \<noteq> 0")
      case True
      then have "range_read f1 sin offset (endpos - offset) (io_tail False (drop sz buf) offset endpos (q + 1) (n - 1) b1 sz sin f1)"
        using a(3) t en p sz by (intro tail_read) auto
      then show ?thesis using True eq t ticked_trans [OF a(2)] unfolding range_read_def by auto
    next
      case f: False
      then show ?thesis using eq o1 sz a(2,3) by (auto simp: range_read_def)
    qed
  qed
qed

definition out_write :: "sfs_fs \<Rightarrow> sfs_inode \<Rightarrow> nat \<Rightarrow> nat \<Rightarrow> u8 list \<Rightarrow> (int \<times> u8 list \<times> nat \<times> sfs_inode \<times> sfs_fs) option \<Rightarrow> bool" where
  "out_write fs sin pos sz buf r \<longleftrightarrow> (\<exists>ret alen sin' fs'. r = Some (io_out ret [] pos alen sin' fs') \<and> wrote fs sin pos (take alen buf) fs' sin' \<and>
     alen \<le> sz \<and> (alen = 0 \<or> pos + alen \<le> 4096 * nblocks sin') \<and> (ret = 0 \<longrightarrow> alen = sz) \<and> (ret \<noteq> 0 \<longrightarrow> out_of_space fs'))"

lemma out_writeI:
  assumes "wrote fs sin pos (take alen buf) fs' sin'" "alen \<le> sz" "alen = 0 \<or> pos + alen \<le> 4096 * nblocks sin'" "ret = 0 \<Longrightarrow> alen = sz" "ret \<noteq> 0 \<Longrightarrow> out_of_space fs'"
  shows "out_write fs sin pos sz buf (Some (io_out ret [] pos alen sin' fs'))"
  unfolding out_write_def using assms by blast

lemma tail_write:
  assumes w: "wrote fs0 sin0 offset (take cnt buf) fs sin" and p: "endpos div 4096 = m + n" "endpos \<le> 4096 * 32768" "endpos - offset \<le> length buf"
    and d: "offset + cnt = 4096 * m" "m \<le> nblocks sin"
  shows "out_write fs0 sin0 offset (endpos - offset) buf (io_tail True (drop cnt buf) offset endpos m n [] cnt sin fs)"
proof -
  let ?t = "endpos mod 4096"
  have e: "endpos = 4096 * m + 4096 * n + ?t" using p(1) by (metis add_mult_distrib2 div_mult_mod_eq mult.commute)
  have ok: "file_ok fs sin" by (rule wrote_ok(1) [OF w])
  have mn: "m + n \<le> 32768" "4096 * n + ?t \<le> length (drop cnt buf)" "cnt \<le> length buf" using e p(2,3) d(1) by auto
  obtain r al s1 f1 where a: "io_blocks True n (drop cnt buf) m sin fs = Some (r, [], al, s1, f1)" "wrote fs sin (4096 * m) (take al (drop cnt buf)) f1 s1"
    "al \<le> 4096 * n" "al = 0 \<or> 4096 * m + al \<le> 4096 * nblocks s1" "r = 0 \<longrightarrow> al = 4096 * n" "r \<noteq> 0 \<longrightarrow> out_of_space f1"
    using blocks_write [OF ok d(2) mn(1), of "drop cnt buf"] mn(2) unfolding range_write_def by auto
  have lc: "length (take cnt buf) = cnt" "length (take (cnt + al) buf) = cnt + al" using mn(2,3) a(3) by auto
  have "wrote fs0 sin0 offset (take cnt buf @ take al (drop cnt buf)) f1 s1"
    by (rule wrote_append [OF w]) (use a(2) d lc in auto)
  then have w1: "wrote fs0 sin0 offset (take (cnt + al) buf) f1 s1" by (simp add: take_add)
  have n1: "offset + (cnt + al) \<le> 4096 * nblocks s1" using a(4) d wrote_ok(2) [OF a(2)] by auto
  have alen: "cnt + al \<le> endpos - offset" using e d(1) a(3) by simp
  show ?thesis
  proof (cases "r = 0 \<and> ?t \<noteq> 0")
    case True
    then have al: "al = 4096 * n" using a(5) by simp
    then have m1: "m + n \<le> nblocks s1" "4096 * (m + n) + 0 = offset + (cnt + al)" using n1 d(1) by auto
    have m2: "m + n < 32768" using e p(2) True mn(1) by (cases "m + n = 32768") auto
    have "chunk_write f1 s1 (4096 * (m + n) + 0) (take ?t (drop al (drop cnt buf))) (io_part True (drop al (drop cnt buf)) ?t (m + n) 0 s1 f1)"
      using mn(2) al by (intro chunk_write_ok(1) [OF wrote_ok(1) [OF a(2)] m1(1) m2]) simp_all
    then obtain r2 s2 f2 where b: "io_part True (drop al (drop cnt buf)) ?t (m + n) 0 s1 f1 = Some (r2, [], s2, f2)"
      "if r2 = 0 then wrote f1 s1 (offset + (cnt + al)) (take ?t (drop al (drop cnt buf))) f2 s2 \<and> offset + (cnt + al) + length (take ?t (drop al (drop cnt buf))) \<le> 4096 * nblocks s2
       else wrote f1 s1 (offset + (cnt + al)) [] f2 s2 \<and> out_of_space f1"
      unfolding chunk_write_def m1(2) by auto
    show ?thesis
    proof (cases "r2 = 0")
      case r2: True
      then have w2: "wrote f1 s1 (offset + (cnt + al)) (take ?t (drop (cnt + al) buf)) f2 s2" "offset + (cnt + al) + ?t \<le> 4096 * nblocks s2"
        using b(2) mn(2) al by (simp_all add: add.commute)
      have "wrote fs0 sin0 offset (take (cnt + al) buf @ take ?t (drop (cnt + al) buf)) f2 s2"
        by (rule wrote_append [OF w1]) (use w2(1) lc(2) n1 in auto)
      then have "wrote fs0 sin0 offset (take (cnt + al + ?t) buf) f2 s2" by (simp add: take_add)
      moreover have "cnt + al + ?t = endpos - offset" using e d(1) al by simp
      ultimately have "out_write fs0 sin0 offset (endpos - offset) buf (Some (io_out 0 [] offset (cnt + al + ?t) s2 f2))"
        using w2(2) by (intro out_writeI) simp_all
      then show ?thesis using True a(1) b(1) r2 by (simp add: io_tail_def)
    next
      case False
      then have f: "wrote f1 s1 (offset + (cnt + al)) [] f2 s2" "out_of_space f2" using b(2) wrote_ok(3) by (auto simp: split: if_splits)
      have "wrote fs0 sin0 offset (take (cnt + al) buf @ []) f2 s2" by (rule wrote_append [OF w1]) (use f(1) lc(2) n1 in auto)
      moreover have "offset + (cnt + al) \<le> 4096 * nblocks s2" using n1 wrote_ok(2) [OF f(1)] by auto
      ultimately have "out_write fs0 sin0 offset (endpos - offset) buf (Some (io_out r2 [] offset (cnt + al) s2 f2))"
        using False f(2) alen by (intro out_writeI) simp_all
      then show ?thesis using True a(1) b(1) False by (simp add: io_tail_def)
    qed
  next
    case False
    then have "r = 0 \<longrightarrow> cnt + al = endpos - offset" using a(5) e d(1) by auto
    then have "out_write fs0 sin0 offset (endpos - offset) buf (Some (io_out r [] offset (cnt + al) s1 f1))"
      using a(6) w1 n1 alen by (intro out_writeI) simp_all
    then show ?thesis using False a(1) by (auto simp: io_tail_def)
  qed
qed

lemma range_write_ok:
  assumes ok: "file_ok fs sin" and p: "offset < endpos" "offset div 4096 \<le> nblocks sin" "endpos \<le> 4096 * 32768" "endpos - offset \<le> length buf"
  shows "out_write fs sin offset (endpos - offset) buf (io_range True buf offset endpos sin fs)"
proof -
  define q r where "q = offset div 4096" and "r = offset mod 4096"
  have o: "offset = 4096 * q + r" "r < 4096" by (simp_all add: q_def r_def)
  have qe: "q \<le> endpos div 4096" using p(1) by (simp add: q_def div_le_mono)
  have qn: "q \<le> nblocks sin" using p(2) by (simp add: q_def)
  have q2: "q < 32768" using p(1,3) o(1) by linarith
  define n where "n = endpos div 4096 - q"
  have en: "endpos div 4096 = q + n" using qe by (simp add: n_def)
  show ?thesis
  proof (cases "r = 0")
    case True
    have "out_write fs sin offset (endpos - offset) buf (io_tail True (drop 0 buf) offset endpos q n [] 0 sin fs)"
      by (rule tail_write [OF _ en p(3,4)]) (use o True ok qn q2 in \<open>simp_all add: wrote_nil\<close>)
    then show ?thesis unfolding io_range_unfold [OF q_def r_def n_def refl] using True by simp
  next
    case False
    define sz where "sz = (if n \<noteq> 0 then 4096 - r else endpos - offset)"
    have e: "endpos = 4096 * q + 4096 * n + endpos mod 4096" using en by (metis add_mult_distrib2 div_mult_mod_eq mult.commute)
    have sz: "r + sz \<le> 4096" "sz \<le> endpos - offset" "n \<noteq> 0 \<longrightarrow> offset + sz = 4096 * (q + 1)" "n = 0 \<longrightarrow> sz = endpos - offset"
      using e o by (auto simp: sz_def)
    have len: "sz \<le> length buf" using sz(2) p(4) by simp
    have "chunk_write fs sin (4096 * q + r) (take sz buf) (io_part True buf sz q r sin fs)" by (rule chunk_write_ok(1) [OF ok qn q2 sz(1) o(2) len])
    then obtain r1 s1 f1 where a: "io_part True buf sz q r sin fs = Some (r1, [], s1, f1)"
      "if r1 = 0 then wrote fs sin offset (take sz buf) f1 s1 \<and> offset + length (take sz buf) \<le> 4096 * nblocks s1
       else wrote fs sin offset [] f1 s1 \<and> out_of_space fs"
      unfolding chunk_write_def o(1) [symmetric] by auto
    have eq: "io_range True buf offset endpos sin fs = (if r1 \<noteq> 0 then Some (io_out r1 [] offset 0 s1 f1) else if n = 0 then Some (io_out 0 [] offset sz s1 f1)
        else io_tail True (drop sz buf) offset endpos (q + 1) (n - 1) [] sz s1 f1)"
      unfolding io_range_unfold [OF q_def r_def n_def sz_def] using False a(1) by simp
    show ?thesis
    proof (cases "r1 = 0")
      case True
      then have w: "wrote fs sin offset (take sz buf) f1 s1" "offset + sz \<le> 4096 * nblocks s1" using a(2) len by simp_all
      have "out_write fs sin offset (endpos - offset) buf (io_tail True (drop sz buf) offset endpos (q + 1) (n - 1) [] sz s1 f1)" if "n \<noteq> 0"
        by (rule tail_write [OF w(1) _ p(3,4)]) (use that w(2) sz en in auto)
      moreover have "out_write fs sin offset (endpos - offset) buf (Some (io_out 0 [] offset sz s1 f1))" if "n = 0"
        using w sz(4) that unfolding out_write_def by blast
      ultimately show ?thesis using eq True by simp
    next
      case f: False
      then have w: "wrote fs sin offset (take 0 buf) f1 s1" "out_of_space f1" using a(2) wrote_ok(3) by (auto split: if_splits)
      then have "out_write fs sin offset (endpos - offset) buf (Some (io_out r1 [] offset 0 s1 f1))" using f unfolding out_write_def by blast
      then show ?thesis using eq f by simp
    qed
  qed
qed

text \<open>Behind the block after the last one the assertion of \<^verbatim>\<open>sfs_bmap_load_nolock\<close> fails.\<close>

lemma range_write_panics:
  assumes "offset < endpos" "nblocks sin < offset div 4096"
  shows "io_range True buf offset endpos sin fs = None"
proof -
  define q r n where "q = offset div 4096" and "r = offset mod 4096" and "n = endpos div 4096 - q"
  have l: "sfs_bmap_load_nolock sin q fs = None" using assms(2) by (simp add: sfs_bmap_load_nolock_def q_def)
  then have x: "io_part True b z q o1 sin fs = None" "io_block True b q sin fs = None" for b z o1 by (simp_all add: io_part_def io_block_def)
  have "endpos mod 4096 \<noteq> 0" if "n = 0" "r = 0"
    using assms(1) that by (metis add.right_neutral div_le_mono div_mult_mod_eq le_antisym less_imp_le less_irrefl n_def diff_is_0_eq q_def r_def)
  then have "io_tail True b offset endpos q n d c sin fs = None" if "r = 0" for b d c using that x by (cases n) (simp_all add: io_tail_def)
  then show ?thesis unfolding io_range_unfold [OF q_def r_def n_def refl] using x by simp
qed

section \<open>Regular files\<close>

abbreviation fsize :: "sfs_inode \<Rightarrow> nat" where "fsize sin \<equiv> unat (size_or_slots (din sin))"

definition reg_ok :: "sfs_fs \<Rightarrow> sfs_inode \<Rightarrow> bool" where
  "reg_ok fs sin \<longleftrightarrow> file_ok fs sin \<and> di_type (din sin) \<noteq> SFS_TYPE_DIR \<and> fsize sin \<le> 4096 * nblocks sin"

definition contents :: "sfs_fs \<Rightarrow> sfs_inode \<Rightarrow> u8 list" where
  "contents fs sin = map (fbyte fs sin) [0..<fsize sin]"

lemma ptr_size [simp]: "ptr fs (d\<lparr>size_or_slots := x\<rparr>) = ptr fs d"
proof
  show "ptr fs (d\<lparr>size_or_slots := x\<rparr>) s = ptr fs d s" for s by (cases s) simp_all
qed

lemma size_update [simp]: "din_ok fs (d\<lparr>size_or_slots := x\<rparr>) = din_ok fs d" "fblk fs (d\<lparr>size_or_slots := x\<rparr>) = fblk fs d"
  "owned fs (d\<lparr>size_or_slots := x\<rparr>) = owned fs d"
  by (simp_all add: din_ok_def fblk_def owned_def fun_eq_iff)

definition set_size :: "sfs_inode \<Rightarrow> u32 \<Rightarrow> sfs_inode" where
  "set_size sin x = sin\<lparr>din := (din sin)\<lparr>size_or_slots := x\<rparr>, sin_dirty := True\<rparr>"

lemma set_size_simps [simp]: "fbyte fs (set_size sin x) = fbyte fs sin" "nblocks (set_size sin x) = nblocks sin" "fsize (set_size sin x) = unat x"
  "file_ok fs (set_size sin x) = file_ok fs sin" "others_kept fs0 sin0 fs (set_size sin x) = others_kept fs0 sin0 fs sin" "di_type (din (set_size sin x)) = di_type (din sin)"
  by (simp_all add: set_size_def fbyte_def file_ok_def others_kept_def fun_eq_iff)

text \<open>A range of a list is overwritten, which may extend it.\<close>

definition overwrite :: "nat \<Rightarrow> u8 list \<Rightarrow> u8 list \<Rightarrow> u8 list" where
  "overwrite pos bs xs = take pos xs @ bs @ drop (pos + length bs) xs"

lemma overwrite_nil [simp]: "overwrite pos [] xs = xs"
  by (simp add: overwrite_def)

lemma nth_overwrite:
  assumes "pos \<le> length xs" "i < length (overwrite pos bs xs)"
  shows "overwrite pos bs xs ! i = (if pos \<le> i \<and> i < pos + length bs then bs ! (i - pos) else xs ! i)"
  using assms by (auto simp: overwrite_def nth_append)

lemma length_overwrite: "pos \<le> length xs \<Longrightarrow> length (overwrite pos bs xs) = max (length xs) (pos + length bs)"
  by (simp add: overwrite_def)

text \<open>What the blocks of a file hold at a place, which may be behind its end; a place that has no block yet gets a cleared one.\<close>

definition raw_byte :: "sfs_fs \<Rightarrow> sfs_inode \<Rightarrow> nat \<Rightarrow> u8" where
  "raw_byte fs sin i = (if i < 4096 * nblocks sin then fbyte fs sin i else 0)"

definition contents_to :: "nat \<Rightarrow> sfs_fs \<Rightarrow> sfs_inode \<Rightarrow> u8 list" where
  "contents_to pos fs sin = contents fs sin @ map (raw_byte fs sin) [fsize sin..<pos]"

lemma contents_to_within [simp]: "pos \<le> fsize sin \<Longrightarrow> contents_to pos fs sin = contents fs sin"
  by (simp add: contents_to_def)

lemma contents_to_nth:
  assumes "fsize sin \<le> 4096 * nblocks sin"
  shows "length (contents_to pos fs sin) = max (fsize sin) pos" "i < max (fsize sin) pos \<Longrightarrow> contents_to pos fs sin ! i = raw_byte fs sin i"
  using assms by (auto simp: contents_to_def contents_def nth_append raw_byte_def)

lemma wrote_contents:
  assumes r: "reg_ok fs sin" and w: "wrote fs sin pos bs fs' sin'" and p: "pos \<le> fsize sin \<or> bs \<noteq> []" "bs = [] \<or> pos + length bs \<le> 4096 * nblocks sin'"
    and s: "s' = (if pos + length bs > fsize sin' then set_size sin' (of_nat (pos + length bs)) else sin')"
  shows "reg_ok fs' s' \<and> contents fs' s' = overwrite pos bs (contents_to pos fs sin)"
proof -
  have f: "fop fs sin fs' sin'" using w by (simp add: wrote_def)
  then have a: "fsize sin' = fsize sin" "di_type (din sin') = di_type (din sin)" "file_ok fs' sin'" "nblocks sin \<le> nblocks sin'"
    by (simp_all add: fop_def same_attr_def)
  have le: "fsize sin \<le> 4096 * nblocks sin" using r by (simp add: reg_ok_def)
  have nb: "nblocks sin' \<le> 32768" using a(3) by (simp add: file_ok_def)
  have big: "max (fsize sin) (pos + length bs) \<le> 4096 * nblocks sin'" using p le a(4) by auto
  then have "pos + length bs < 2 ^ 32" using nb by simp
  then have u: "unat (of_nat (pos + length bs) :: u32) = pos + length bs" by (intro unat_of_nat_less) simp
  have fs: "fsize s' = max (fsize sin) (pos + length bs)" "fbyte fs' s' = fbyte fs' sin'" "file_ok fs' s'" "nblocks s' = nblocks sin'" "di_type (din s') = di_type (din sin)"
    unfolding s using a(1-3) u by auto
  then have "reg_ok fs' s'" using r big by (simp add: reg_ok_def)
  moreover have "contents fs' s' = overwrite pos bs (contents_to pos fs sin)"
  proof (rule nth_equalityI)
    note c = contents_to_nth [OF le, where pos = pos and fs = fs]
    show l: "length (contents fs' s') = length (overwrite pos bs (contents_to pos fs sin))"
      using length_overwrite [of pos "contents_to pos fs sin" bs] fs(1) c(1) by (simp add: contents_def)
    fix i assume i: "i < length (contents fs' s')"
    then have i1: "i < max (fsize sin) (pos + length bs)" using fs(1) by (simp add: contents_def)
    then have i2: "i < 4096 * nblocks sin'" using big by linarith
    have "contents fs' s' ! i = fbyte fs' sin' i" using i fs by (simp add: contents_def)
    also have "\<dots> = (if pos \<le> i \<and> i < pos + length bs then bs ! (i - pos) else raw_byte fs sin i)"
      using w i2 by (simp add: wrote_def raw_byte_def)
    also have "\<dots> = (if pos \<le> i \<and> i < pos + length bs then bs ! (i - pos) else contents_to pos fs sin ! i)"
      using i1 c(2) by auto
    also have "\<dots> = overwrite pos bs (contents_to pos fs sin) ! i" using nth_overwrite [of pos "contents_to pos fs sin" i bs] i l c(1) by simp
    finally show "contents fs' s' ! i = overwrite pos bs (contents_to pos fs sin) ! i" .
  qed
  ultimately show ?thesis by simp
qed

lemma sint_nonneg:
  assumes "unat (x :: u64) < 2 ^ 63"
  shows "sint x = int (unat x)"
proof -
  have "int (unat x) < int (2 ^ 63)" using assms by (simp only: of_nat_less_iff)
  then have "uint x < 2 ^ 63" by simp
  moreover have "- (2 ^ 63) \<le> uint x" by (rule order_trans [OF _ uint_ge_0]) simp
  ultimately have "signed_take_bit 63 (uint x) = uint x" by (intro signed_take_bit_int_eq_self) simp_all
  then show ?thesis by (simp add: sint_uint)
qed

text \<open>The checks at the start of a transfer, for a buffer of less than \<open>2 ^ 62\<close> bytes.\<close>

lemma io_checks:
  assumes "unat offset < 2 ^ 62" "unat (len :: u64) < 2 ^ 62"
  shows "unat (offset + len) = unat offset + unat len" "\<not> offset <s 0" "\<not> offset + len <s offset" "(offset = offset + len) = (len = 0)"
proof -
  show u: "unat (offset + len) = unat offset + unat len" using assms by (simp add: unat_word_ariths)
  then show "\<not> offset <s 0" "\<not> offset + len <s offset" using assms sint_nonneg [of offset] sint_nonneg [of "offset + len"] by (simp_all add: word_sless_alt)
qed simp

section \<open>A small file system\<close>

text \<open>32 blocks, of which the superblock, the root directory, the free map and the inode of one empty file are in use.\<close>

definition demo_fs :: sfs_fs where
  "demo_fs = \<lparr>super_blocks = 32, super_unused = 28, super_dirty = False, freemap = \<lparr>nbits = 32, nwords = 1, bm_map = [0xFFFFFFF0]\<rparr>,
     dev = (\<lambda>_ _. 0), io_ret = (\<lambda>_. 0), io_calls = 0\<rparr>"

definition demo_sin :: sfs_inode where
  "demo_sin = \<lparr>din = \<lparr>size_or_slots = 0, parent = 0, di_type = SFS_TYPE_FILE, nlinks = 1, di_blocks = 0, direct = replicate 12 0, indirect = 0, db_indirect = 0\<rparr>,
     ino = 3, sin_removed = False, sin_dirty = True, reclaim_count = 1\<rparr>"

lemma demo_free: "free_bits (freemap demo_fs) = {4..<32}"
proof -
  have "free_bits (freemap demo_fs) = set (filter (\<lambda>i. bit (0xFFFFFFF0 :: u32) i) [0..<32])"
    by (auto simp: free_bits_def demo_fs_def bm_bit_def)
  also have "\<dots> = set [4..<32]" by code_simp
  finally show ?thesis by (simp only: set_upt)
qed

lemma demo_avail: "i \<in> avail demo_fs \<longleftrightarrow> 4 \<le> unat i \<and> unat i < 32"
  by (simp add: free_indices_def demo_free)

lemma demo_fs_ok: "fs_ok demo_fs"
proof -
  have "unat ` avail demo_fs = {4..<32}"
  proof (intro set_eqI iffI)
    fix k :: nat assume "k \<in> {4..<32}"
    then show "k \<in> unat ` avail demo_fs" using unat_of_nat_less [of k, where 'a = 32] by (intro image_eqI [of _ _ "of_nat k"]) (simp_all add: demo_avail)
  qed (auto simp: demo_avail)
  moreover have "card (unat ` avail demo_fs) = card (avail demo_fs)" by (rule card_image) (simp add: inj_on_def word_unat_eq_iff)
  ultimately have c: "card (avail demo_fs) = 28" by simp
  have "b \<noteq> 0 \<and> b < 32" if "b \<in> avail demo_fs" for b using that by (auto simp: demo_avail word_less_nat_alt)
  moreover have "bitmap_inv (freemap demo_fs)" by (simp add: bitmap_inv_def demo_fs_def)
  ultimately show ?thesis using c by (simp add: fs_ok_def) (simp add: demo_fs_def)
qed

lemma demo_ptr: "slot_ok s \<Longrightarrow> ptr demo_fs (din demo_sin) s = 0"
  by (cases s) (simp_all add: demo_sin_def)

lemma demo_file_ok: "file_ok demo_fs demo_sin"
proof -
  have "in_use demo_fs (ino demo_sin)" by (simp add: in_use_def demo_avail) (simp add: demo_sin_def demo_fs_def)
  moreover have "ino demo_sin \<noteq> 0" "nblocks demo_sin = 0" "length (direct (din demo_sin)) = 12" by (simp_all add: demo_sin_def)
  moreover from this have "din_ok demo_fs (din demo_sin)" using demo_ptr unfolding din_ok_def by metis
  ultimately show ?thesis using demo_ptr demo_fs_ok data_slot_ok by (simp add: file_ok_def fblk_def)
qed

lemma demo_nblocks: "nblocks demo_sin = 0"
  by (simp add: demo_sin_def)

lemma demo_reg_ok: "reg_ok demo_fs demo_sin"
  using demo_file_ok by (simp add: reg_ok_def) (simp add: demo_sin_def)

section \<open>Reading and writing\<close>

text \<open>
  C1: A write at any offset. When the offset is past the block after the last one of the file, an assertion fails. Otherwise a prefix of the
  buffer replaces the bytes from the offset on, all of it unless the largest file size is reached; it stops early only when the device fails
  or is full. Between the end of the file and an offset past it the file gets what its last block happens to hold. No block of another
  file is touched. Only when the offset is past the end and not a single byte could be written is nothing said of the contents.
\<close>

theorem sfs_write_overwrites:
  assumes "reg_ok fs sin" "length buf = unat len" "unat len < 2 ^ 62"
  shows "if nblocks sin < unat offset div 4096 \<and> unat offset < SFS_MAX_FILE_SIZE \<and> len \<noteq> 0 then sfs_io_nolock sin buf offset len True fs = None
    else \<exists>ret alen sin' fs'. sfs_io_nolock sin buf offset len True fs = Some (ret, [], alen, sin', fs') \<and> others_kept fs sin fs' sin' \<and>
      (unat offset \<le> fsize sin \<or> 0 < alen \<longrightarrow> reg_ok fs' sin' \<and> contents fs' sin' = overwrite (unat offset) (take alen buf) (contents_to (unat offset) fs sin)) \<and>
      (ret = 0 \<longrightarrow> alen = min (length buf) (SFS_MAX_FILE_SIZE - unat offset)) \<and>
      (ret \<noteq> 0 \<longrightarrow> out_of_space fs' \<or> ret = - E_INVAL \<and> SFS_MAX_FILE_SIZE \<le> unat offset \<and> sin' = sin \<and> fs' = fs)"
proof -
  have f: "file_ok fs sin" and ty: "di_type (din sin) \<noteq> SFS_TYPE_DIR" and le: "fsize sin \<le> 4096 * nblocks sin" using assms(1) by (simp_all add: reg_ok_def)
  have ot: "others_kept fs sin fs sin" by (simp add: others_kept_def)
  let ?e = "min (unat offset + unat len) SFS_MAX_FILE_SIZE"
  consider "SFS_MAX_FILE_SIZE \<le> unat offset" | "unat offset < SFS_MAX_FILE_SIZE" "len = 0" | "unat offset < SFS_MAX_FILE_SIZE" "len \<noteq> 0" by linarith
  then show ?thesis
  proof cases
    case 1
    then have "sfs_io_nolock sin buf offset len True fs = Some (- E_INVAL, [], 0, sin, fs)" using ty by (simp add: sfs_io_nolock_def)
    then show ?thesis using assms(1) ot 1 by auto
  next
    case 2
    then have "sfs_io_nolock sin buf offset len True fs = Some (0, [], 0, sin, fs)" using ty io_checks [OF _ assms(3)] by (simp add: sfs_io_nolock_def)
    then show ?thesis using assms(1,2) ot 2 by auto
  next
    case 3
    then have pos: "0 < unat len" by (simp add: unat_gt_0)
    have eq: "sfs_io_nolock sin buf offset len True fs = io_range True buf (unat offset) ?e sin fs" using 3 io_checks [OF _ assms(3), of offset] ty by (simp add: sfs_io_nolock_def Let_def)
    have oe: "unat offset < ?e" using 3(1) pos by simp
    show ?thesis
    proof (cases "nblocks sin < unat offset div 4096")
      case True
      then show ?thesis using eq 3 range_write_panics [OF oe] by simp
    next
      case False
      have "out_write fs sin (unat offset) (?e - unat offset) buf (io_range True buf (unat offset) ?e sin fs)"
        by (rule range_write_ok [OF f oe]) (use False assms(2) in auto)
      then obtain ret alen s1 fs' where w: "io_range True buf (unat offset) ?e sin fs = Some (io_out ret [] (unat offset) alen s1 fs')"
        "wrote fs sin (unat offset) (take alen buf) fs' s1" "alen \<le> ?e - unat offset" "alen = 0 \<or> unat offset + alen \<le> 4096 * nblocks s1"
        "ret = 0 \<longrightarrow> alen = ?e - unat offset" "ret \<noteq> 0 \<longrightarrow> out_of_space fs'"
        unfolding out_write_def by blast
      have len: "length (take alen buf) = alen" using w(3) assms(2) by simp
      define s2 where "s2 = (if unat offset + length (take alen buf) > fsize s1 then set_size s1 (of_nat (unat offset + length (take alen buf))) else s1)"
      have out: "io_out ret [] (unat offset) alen s1 fs' = (ret, [], alen, s2, fs')" using len by (simp add: io_out_def s2_def set_size_def)
      have "fop fs sin fs' s1" using w(2) by (simp add: wrote_def)
      then have "others_kept fs sin fs' s2" using fop_others unfolding s2_def by simp
      moreover have "reg_ok fs' s2 \<and> contents fs' s2 = overwrite (unat offset) (take alen buf) (contents_to (unat offset) fs sin)" if "unat offset \<le> fsize sin \<or> 0 < alen"
        by (rule wrote_contents [OF assms(1) w(2) _ _ s2_def]) (use that w(4) len in auto)
      moreover have "?e - unat offset = min (length buf) (SFS_MAX_FILE_SIZE - unat offset)" using assms(2) by linarith
      ultimately show ?thesis using eq w(1,5,6) out False by auto
    qed
  qed
qed

theorem sfs_write_overwrites_witness:
  "(\<exists>ret alen sin' fs'. sfs_io_nolock demo_sin [7, 8, 9] 0 3 True demo_fs = Some (ret, [], alen, sin', fs') \<and> others_kept demo_fs demo_sin fs' sin' \<and>
    reg_ok fs' sin' \<and> contents fs' sin' = overwrite 0 (take alen [7, 8, 9]) (contents demo_fs demo_sin) \<and>
    (ret = 0 \<longrightarrow> alen = length ([7, 8, 9] :: u8 list)) \<and> (ret \<noteq> 0 \<longrightarrow> out_of_space fs')) \<and>
   sfs_io_nolock demo_sin [7, 8, 9] 9000 3 True demo_fs = None"
  using sfs_write_overwrites [OF demo_reg_ok, of "[7, 8, 9]" 3 0] sfs_write_overwrites [OF demo_reg_ok, of "[7, 8, 9]" 3 9000]
  by (simp add: demo_nblocks)

text \<open>C2: A read returns the bytes from \<open>offset\<close> on, up to the end of the file, and changes nothing.\<close>

theorem sfs_read_returns:
  assumes "reg_ok fs sin" "unat offset < SFS_MAX_FILE_SIZE" "unat len < 2 ^ 62"
  shows "\<exists>ret bs fs'. sfs_io_nolock sin buf offset len False fs = Some (ret, bs, length bs, sin, fs') \<and> ticked fs fs' \<and>
    bs = take (length bs) (drop (unat offset) (contents fs sin)) \<and>
    (ret = 0 \<longrightarrow> bs = take (unat len) (drop (unat offset) (contents fs sin))) \<and> (ret \<noteq> 0 \<longrightarrow> io_failed fs)"
proof -
  have f: "file_ok fs sin" and ty: "di_type (din sin) \<noteq> SFS_TYPE_DIR" and le: "fsize sin \<le> 4096 * nblocks sin" using assms(1) by (simp_all add: reg_ok_def)
  have nb: "nblocks sin \<le> 32768" using f by (simp add: file_ok_def)
  have "unat offset < 2 ^ 62" using assms(2) by simp
  note c = io_checks [OF this assms(3)]
  let ?e = "min (min (unat offset + unat len) SFS_MAX_FILE_SIZE) (fsize sin)"
  show ?thesis
  proof (cases "len = 0 \<or> fsize sin \<le> unat offset")
    case True
    then have "sfs_io_nolock sin buf offset len False fs = Some (0, [], 0, sin, fs)" using ty c assms(2) by (auto simp: sfs_io_nolock_def Let_def)
    then show ?thesis using True by (auto simp: contents_def)
  next
    case False
    then have pos: "0 < unat len" by (simp add: unat_gt_0)
    have e: "?e = min (unat offset + unat len) (fsize sin)" using le nb by simp
    have eq: "sfs_io_nolock sin buf offset len False fs = io_range False buf (unat offset) ?e sin fs" using False c ty assms(2) by (simp add: sfs_io_nolock_def Let_def)
    have "range_read fs sin (unat offset) (?e - unat offset) (io_range False buf (unat offset) ?e sin fs)"
      by (rule range_read_ok [OF f]) (use False pos assms(2) le in auto)
    then obtain ret bs alen fs' where r: "io_range False buf (unat offset) ?e sin fs = Some (ret, bs, alen, sin, fs')" "ticked fs fs'"
      "bs = map (fbyte fs sin) [unat offset..<unat offset + alen]" "alen \<le> ?e - unat offset" "ret = 0 \<longrightarrow> alen = ?e - unat offset" "ret \<noteq> 0 \<longrightarrow> io_failed fs"
      unfolding range_read_def by blast
    have t: "take k (drop (unat offset) (contents fs sin)) = map (fbyte fs sin) [unat offset..<min (unat offset + k) (fsize sin)]" for k
      by (simp add: contents_def drop_map take_map min_def)
    have l: "length bs = alen" using r(3) by simp
    have m: "min (unat offset + alen) (fsize sin) = unat offset + alen" using r(4) False unfolding e by linarith
    have "bs = take (length bs) (drop (unat offset) (contents fs sin))" unfolding l t m by (rule r(3))
    moreover have "bs = take (unat len) (drop (unat offset) (contents fs sin))" if "ret = 0"
    proof -
      have "min (unat offset + unat len) (fsize sin) = unat offset + alen" using r(5) that False unfolding e by linarith
      then show ?thesis unfolding t using r(3) by simp
    qed
    moreover have "sfs_io_nolock sin buf offset len False fs = Some (ret, bs, length bs, sin, fs')" using eq r(1) l by simp
    ultimately show ?thesis using r(2,6) by blast
  qed
qed

theorem sfs_read_returns_witness:
  "\<exists>ret bs fs'. sfs_io_nolock demo_sin [] 0 5 False demo_fs = Some (ret, bs, length bs, demo_sin, fs') \<and> ticked demo_fs fs' \<and>
    bs = take (length bs) (contents demo_fs demo_sin) \<and> (ret = 0 \<longrightarrow> bs = take 5 (contents demo_fs demo_sin)) \<and> (ret \<noteq> 0 \<longrightarrow> io_failed demo_fs)"
  using sfs_read_returns [OF demo_reg_ok, of 0 5 "[]"] by simp

end
