(* ===== verification/Sfs_Trunc.thy ===== *)
theory Sfs_Trunc
  imports Sfs_Bytes
begin

text \<open>
  Truncation and extension of a file, seeking past its end, and writing the inode back and reading it again.
\<close>

section \<open>Truncation\<close>

lemma load_next:
  assumes ok: "file_ok fs sin" and n: "nblocks sin < 32768"
  shows "\<exists>ret b sin' fs'. sfs_bmap_load_nolock sin (nblocks sin) fs = Some (ret, b, sin', fs') \<and> wrote fs sin 0 [] fs' sin' \<and>
    (ret = 0 \<longrightarrow> nblocks sin' = Suc (nblocks sin)) \<and> (ret \<noteq> 0 \<longrightarrow> out_of_space fs')"
proof -
  let ?n = "nblocks sin"
  obtain r b s1 f1 where l: "sfs_bmap_load_nolock sin ?n fs = Some (r, b, s1, f1)" "fop fs sin f1 s1"
      "\<forall>k < nblocks sin. blk_of f1 (fblk f1 (din s1) k) = blk_of fs (fblk fs (din sin) k)"
    and c: "if r = 0 then b = fblk f1 (din s1) ?n \<and> nblocks s1 = max (nblocks sin) (Suc ?n) \<and> (?n = nblocks sin \<longrightarrow> blk_of f1 b = (\<lambda>i. 0)) \<and>
         (?n < nblocks sin \<longrightarrow> s1 = sin \<and> ticked fs f1)
       else nblocks s1 = nblocks sin \<and> out_of_space fs \<and> (?n < nblocks sin \<longrightarrow> s1 = sin \<and> ticked fs f1 \<and> io_failed fs)"
    using bmap_load_ok [OF ok order_refl n] by blast
  show ?thesis
  proof (cases "r = 0")
    case True
    then have b: "b = fblk f1 (din s1) ?n" "nblocks s1 = max (nblocks sin) (Suc ?n)" "?n = nblocks sin \<longrightarrow> blk_of f1 b = (\<lambda>i. 0)" using c by auto
    have "step {b} f1 f1" using l(2) by (auto simp: step_def fop_def file_ok_def)
    then have "wrote fs sin (4096 * ?n + 0) [] f1 s1 \<and> 4096 * ?n + 0 + length ([] :: u8 list) \<le> 4096 * nblocks s1"
      by (rule write_loaded [OF l(2,3) order_refl b]) simp_all
    then have "wrote fs sin 0 [] f1 s1" by (auto simp: wrote_def)
    then show ?thesis using l(1) b(2) True by simp
  next
    case False
    then have "wrote fs sin 0 [] f1 s1" "out_of_space fs" using wrote_same [OF l(2)] l(3) c by simp_all
    then show ?thesis using l(1) False wrote_ok(3) by auto
  qed
qed

lemma wrote_nil_trans: "wrote a s 0 [] b t \<Longrightarrow> wrote b t 0 [] c u \<Longrightarrow> wrote a s 0 [] c u"
  using wrote_append [of a s 0 "[]" b t "[]" c u] by simp

lemma trunc_grow_ok:
  "file_ok fs sin \<Longrightarrow> nblocks sin + k \<le> 32768 \<Longrightarrow> \<exists>ret sin' fs'. trunc_grow k (nblocks sin) sin fs = Some (ret, sin', fs') \<and> wrote fs sin 0 [] fs' sin' \<and>
    (ret = 0 \<longrightarrow> nblocks sin' = nblocks sin + k) \<and> (ret \<noteq> 0 \<longrightarrow> out_of_space fs')"
proof (induction k arbitrary: fs sin)
  case 0
  then show ?case by (simp add: wrote_nil)
next
  case (Suc k)
  obtain r b s1 f1 where l: "sfs_bmap_load_nolock sin (nblocks sin) fs = Some (r, b, s1, f1)" "wrote fs sin 0 [] f1 s1" "r = 0 \<longrightarrow> nblocks s1 = Suc (nblocks sin)"
    "r \<noteq> 0 \<longrightarrow> out_of_space f1"
    using load_next [OF Suc.prems(1)] Suc.prems(2) by auto
  show ?case
  proof (cases "r = 0")
    case True
    then have n: "nblocks s1 = Suc (nblocks sin)" "nblocks s1 + k \<le> 32768" using l(3) Suc.prems(2) by simp_all
    obtain r2 s2 f2 where g: "trunc_grow k (nblocks s1) s1 f1 = Some (r2, s2, f2)" "wrote f1 s1 0 [] f2 s2" "r2 = 0 \<longrightarrow> nblocks s2 = nblocks s1 + k" "r2 \<noteq> 0 \<longrightarrow> out_of_space f2"
      using Suc.IH [OF wrote_ok(1) [OF l(2)] n(2)] by auto
    show ?thesis using True l(1) g(1,3,4) n(1) wrote_nil_trans [OF l(2) g(2)] by simp
  next
    case False
    then show ?thesis using l by auto
  qed
qed

text \<open>The first blocks of the file are kept.\<close>

definition shrunk :: "sfs_fs \<Rightarrow> sfs_inode \<Rightarrow> sfs_fs \<Rightarrow> sfs_inode \<Rightarrow> bool" where
  "shrunk fs sin fs' sin' \<longleftrightarrow> file_ok fs' sin' \<and> same_attr sin sin' \<and> others_kept fs sin fs' sin' \<and> nblocks sin' \<le> nblocks sin \<and>
     (\<forall>i < 4096 * nblocks sin'. fbyte fs' sin' i = fbyte fs sin i)"

lemma shrunk_trans: "shrunk a s b t \<Longrightarrow> shrunk b t c u \<Longrightarrow> shrunk a s c u"
  using others_kept_trans [of a s b t c u] by (simp add: shrunk_def same_attr_def)

text \<open>The blocks from number \<open>n\<close> on have become free, and no others; the ones before are the same blocks.\<close>

definition freed_from :: "nat \<Rightarrow> sfs_fs \<Rightarrow> sfs_inode \<Rightarrow> sfs_fs \<Rightarrow> sfs_inode \<Rightarrow> bool" where
  "freed_from n fs sin fs' sin' \<longleftrightarrow> avail fs' = avail fs \<union> fblk fs (din sin) ` {n..<nblocks sin} \<and> (\<forall>m < n. fblk fs' (din sin') m = fblk fs (din sin) m)"

lemma freed_from_trans:
  assumes "freed_from n a s b t" "freed_from m b t c u" "nblocks t = n" "m \<le> n" "n \<le> nblocks s"
  shows "freed_from m a s c u"
proof -
  have "fblk b (din t) ` {m..<n} = fblk a (din s) ` {m..<n}" using assms(1) by (intro image_cong) (simp_all add: freed_from_def)
  moreover have "{m..<nblocks s} = {m..<n} \<union> {n..<nblocks s}" using assms(4,5) by auto
  ultimately show ?thesis using assms(1-4) by (auto simp: freed_from_def)
qed

lemma truncate_last:
  assumes "file_ok fs sin" "0 < nblocks sin"
  shows "\<exists>ret sin' fs'. sfs_bmap_truncate_nolock sin fs = Some (ret, sin', fs') \<and> shrunk fs sin fs' sin' \<and>
    (ret = 0 \<longrightarrow> nblocks sin' = nblocks sin - 1 \<and> freed_from (nblocks sin - 1) fs sin fs' sin') \<and> (ret \<noteq> 0 \<longrightarrow> io_failed fs)"
proof -
  obtain r s1 f1 where t: "sfs_bmap_truncate_nolock sin fs = Some (r, s1, f1)" "file_ok f1 s1" "same_attr sin s1" "others_kept fs sin f1 s1"
    "\<forall>m < nblocks s1. blk_of f1 (fblk f1 (din s1) m) = blk_of fs (fblk fs (din sin) m)"
    "if r = 0 then nblocks s1 = nblocks sin - 1 \<and> sin_dirty s1 \<and> avail f1 = insert (fblk fs (din sin) (nblocks sin - 1)) (avail fs) \<and>
       (\<forall>m < nblocks sin - 1. fblk f1 (din s1) m = fblk fs (din sin) m)
     else nblocks s1 = nblocks sin \<and> io_failed fs"
    using bmap_truncate_ok [OF assms] by blast
  have "fbyte f1 s1 i = fbyte fs sin i" if "i < 4096 * nblocks s1" for i
    using t(5) that by (simp add: fbyte_def less_mult_imp_div_less mult.commute)
  then have "shrunk fs sin f1 s1" using t(2-4,6) by (auto simp: shrunk_def split: if_splits)
  moreover have "{nblocks sin - 1..<nblocks sin} = {nblocks sin - 1}" using assms(2) by auto
  then have "freed_from (nblocks sin - 1) fs sin f1 s1" if "r = 0" using t(6) that by (simp add: freed_from_def)
  ultimately show ?thesis using t(1,6) by (auto split: if_splits)
qed

lemma trunc_shrink_ok:
  "file_ok fs sin \<Longrightarrow> k \<le> nblocks sin \<Longrightarrow> \<exists>ret sin' fs'. trunc_shrink k sin fs = Some (ret, sin', fs') \<and> shrunk fs sin fs' sin' \<and>
    (ret = 0 \<longrightarrow> nblocks sin' = nblocks sin - k \<and> freed_from (nblocks sin - k) fs sin fs' sin') \<and> (ret \<noteq> 0 \<longrightarrow> io_failed fs)"
proof (induction k arbitrary: fs sin)
  case 0
  then show ?case by (simp add: shrunk_def same_attr_def others_kept_def freed_from_def)
next
  case (Suc k)
  let ?n = "nblocks sin - 1"
  obtain r s1 f1 where t: "sfs_bmap_truncate_nolock sin fs = Some (r, s1, f1)" "shrunk fs sin f1 s1" "r = 0 \<longrightarrow> nblocks s1 = ?n \<and> freed_from ?n fs sin f1 s1" "r \<noteq> 0 \<longrightarrow> io_failed fs"
    using truncate_last [OF Suc.prems(1)] Suc.prems(2) by auto
  show ?case
  proof (cases "r = 0")
    case True
    have s: "file_ok f1 s1" "io_ret f1 = io_ret fs" using t(2) by (simp_all add: shrunk_def others_kept_def)
    have k: "k \<le> nblocks s1" "nblocks s1 = ?n" "freed_from ?n fs sin f1 s1" using t(3) True Suc.prems(2) by simp_all
    obtain r2 s2 f2 where g: "trunc_shrink k s1 f1 = Some (r2, s2, f2)" "shrunk f1 s1 f2 s2"
      "r2 = 0 \<longrightarrow> nblocks s2 = nblocks s1 - k \<and> freed_from (nblocks s1 - k) f1 s1 f2 s2" "r2 \<noteq> 0 \<longrightarrow> io_failed f1"
      using Suc.IH [OF s(1) k(1)] by auto
    have "freed_from (nblocks s1 - k) fs sin f2 s2" if "r2 = 0" using g(3) that k by (intro freed_from_trans [OF k(3)]) simp_all
    then show ?thesis using True t(1) k(2) g s(2) shrunk_trans [OF t(2) g(2)] by (auto simp: io_failed_def)
  next
    case False
    then show ?thesis using t by auto
  qed
qed

definition resized :: "sfs_fs \<Rightarrow> sfs_inode \<Rightarrow> nat \<Rightarrow> u8 list" where
  "resized fs sin n = map (raw_byte fs sin) [0..<n]"

definition tight :: "sfs_inode \<Rightarrow> bool" where
  "tight sin \<longleftrightarrow> nblocks sin = (fsize sin + 4095) div 4096"

text \<open>
  C10: Truncation on every branch. A length over the limit is refused. A file that has the length already is left alone, but the code asserts
  that its number of blocks fits the length, and fails the assertion otherwise. A removed file gives an error. In all other cases the
  file gets the new length, with the bytes it had up to there and zeros where it had no block (between the old end and the end of the last
  block it is whatever that block holds); the blocks past the new end become free and no others do; no block of another file is touched;
  it fails only when the device fails or is full.
\<close>

theorem sfs_truncfile_resizes:
  assumes r: "reg_ok fs sin"
  shows "if unat len > SFS_MAX_FILE_SIZE then sfs_truncfile sin len fs = Some (- E_INVAL, sin, fs)
    else if fsize sin = unat len then sfs_truncfile sin len fs = (if tight sin then Some (0, sin, fs) else None)
    else if sin_removed sin then sfs_truncfile sin len fs = Some (- E_NOENT, sin, fs)
    else \<exists>ret sin' fs'. sfs_truncfile sin len fs = Some (ret, sin', fs') \<and> file_ok fs' sin' \<and> others_kept fs sin fs' sin' \<and>
      (ret = 0 \<longrightarrow> reg_ok fs' sin' \<and> tight sin' \<and> contents fs' sin' = resized fs sin (unat len) \<and>
         (nblocks sin' \<le> nblocks sin \<longrightarrow> avail fs' = avail fs \<union> fblk fs (din sin) ` {nblocks sin'..<nblocks sin})) \<and>
      (ret \<noteq> 0 \<longrightarrow> out_of_space fs')"
proof -
  have f: "file_ok fs sin" and ty: "di_type (din sin) \<noteq> SFS_TYPE_DIR" and le: "fsize sin \<le> 4096 * nblocks sin" using r by (simp_all add: reg_ok_def)
  consider "unat len > SFS_MAX_FILE_SIZE" | "unat len \<le> SFS_MAX_FILE_SIZE" "fsize sin = unat len \<or> sin_removed sin"
    | "unat len \<le> SFS_MAX_FILE_SIZE" "fsize sin \<noteq> unat len" "\<not> sin_removed sin" by linarith
  then show ?thesis
  proof cases
    case 1
    then show ?thesis by (simp add: sfs_truncfile_def)
  next
    case 2
    then have "\<not> len <s 0" using sint_nonneg [of len] by (simp add: word_sless_alt)
    then show ?thesis using 2 ty by (auto simp: sfs_truncfile_def tight_def trylock_sin_def kassert_def add.commute)
  next
    case len: 3
    have ln: "\<not> len <s 0" "unat (ucast len :: u32) = unat len" using len(1) sint_nonneg [of len] by (simp_all add: word_sless_alt unsigned_ucast_eq take_bit_eq_mod)
    define tb where "tb = (unat len + 4096 - 1) div 4096"
    have tb: "tb \<le> 32768" "unat len \<le> 4096 * tb" "tb = (unat len + 4095) div 4096" using len(1) by (auto simp: tb_def)
    let ?free = "\<lambda>f. tb \<le> nblocks sin \<longrightarrow> avail f = avail fs \<union> fblk fs (din sin) ` {tb..<nblocks sin}"
    define res where "res = (if nblocks sin < tb then trunc_grow (tb - nblocks sin) (nblocks sin) sin fs else trunc_shrink (nblocks sin - tb) sin fs)"
    have "\<exists>ret s1 f1. res = Some (ret, s1, f1) \<and> file_ok f1 s1 \<and> same_attr sin s1 \<and> others_kept fs sin f1 s1 \<and>
      (ret = 0 \<longrightarrow> nblocks s1 = tb \<and> (\<forall>i < 4096 * tb. fbyte f1 s1 i = raw_byte fs sin i) \<and> ?free f1) \<and> (ret \<noteq> 0 \<longrightarrow> out_of_space f1)"
    proof (cases "nblocks sin < tb")
      case True
      then obtain ret s1 f1 where g: "res = Some (ret, s1, f1)" "wrote fs sin 0 [] f1 s1" "ret = 0 \<longrightarrow> nblocks s1 = tb" "ret \<noteq> 0 \<longrightarrow> out_of_space f1"
        using trunc_grow_ok [OF f, of "tb - nblocks sin"] tb(1) by (auto simp: res_def)
      then show ?thesis using True fop_others [of fs sin f1 s1] by (auto simp: wrote_def fop_def raw_byte_def)
    next
      case False
      then obtain ret s1 f1 where g: "res = Some (ret, s1, f1)" "shrunk fs sin f1 s1" "ret = 0 \<longrightarrow> nblocks s1 = tb \<and> freed_from tb fs sin f1 s1" "ret \<noteq> 0 \<longrightarrow> io_failed fs"
        using trunc_shrink_ok [OF f, of "nblocks sin - tb"] by (auto simp: res_def)
      have "io_failed f1 = io_failed fs" using g(2) by (simp add: shrunk_def others_kept_def io_failed_def)
      then show ?thesis using g False by (auto simp: shrunk_def out_of_space_def raw_byte_def freed_from_def)
    qed
    then obtain ret s1 f1 where g: "res = Some (ret, s1, f1)" "file_ok f1 s1" "same_attr sin s1" "others_kept fs sin f1 s1"
      "ret = 0 \<longrightarrow> nblocks s1 = tb \<and> (\<forall>i < 4096 * tb. fbyte f1 s1 i = raw_byte fs sin i) \<and> ?free f1" "ret \<noteq> 0 \<longrightarrow> out_of_space f1"
      by blast
    have eq: "sfs_truncfile sin len fs = (if ret \<noteq> 0 then Some (ret, s1, f1) else if nblocks s1 = tb then Some (0, set_size s1 (ucast len), f1) else None)"
      unfolding sfs_truncfile_def Let_def SFS_BLKSIZE_def tb_def [symmetric] res_def [symmetric] g(1) using len ty ln
      by (simp add: trylock_sin_def set_size_def)
    show ?thesis
    proof (cases "ret = 0")
      case True
      let ?s = "set_size s1 (ucast len)"
      have t: "nblocks s1 = tb" "\<forall>i < 4096 * tb. fbyte f1 s1 i = raw_byte fs sin i" "?free f1" using g(5) True by simp_all
      have "contents f1 ?s = resized fs sin (unat len)" using t(2) tb(2) ln(2) by (auto simp: contents_def resized_def)
      moreover have "reg_ok f1 ?s" "tight ?s" using g(2,3) ty ln(2) t(1) tb by (simp_all add: reg_ok_def tight_def same_attr_def)
      ultimately show ?thesis using eq True t(1,3) g(2,4) len by simp
    next
      case False
      then show ?thesis using eq g len by auto
    qed
  qed
qed

theorem sfs_truncfile_resizes_witness:
  "\<exists>ret sin' fs'. sfs_truncfile demo_sin 5000 demo_fs = Some (ret, sin', fs') \<and> file_ok fs' sin' \<and> others_kept demo_fs demo_sin fs' sin' \<and>
    (ret = 0 \<longrightarrow> reg_ok fs' sin' \<and> tight sin' \<and> contents fs' sin' = resized demo_fs demo_sin 5000) \<and> (ret \<noteq> 0 \<longrightarrow> out_of_space fs')"
proof -
  have "\<not> sin_removed demo_sin" "fsize demo_sin \<noteq> unat (5000 :: u64)" by (simp_all add: demo_sin_def)
  then have "\<exists>ret sin' fs'. sfs_truncfile demo_sin 5000 demo_fs = Some (ret, sin', fs') \<and> file_ok fs' sin' \<and> others_kept demo_fs demo_sin fs' sin' \<and>
      (ret = 0 \<longrightarrow> reg_ok fs' sin' \<and> tight sin' \<and> contents fs' sin' = resized demo_fs demo_sin (unat (5000 :: u64)) \<and>
         (nblocks sin' \<le> nblocks demo_sin \<longrightarrow> avail fs' = avail demo_fs \<union> fblk demo_fs (din demo_sin) ` {nblocks sin'..<nblocks demo_sin})) \<and>
      (ret \<noteq> 0 \<longrightarrow> out_of_space fs')"
    using sfs_truncfile_resizes [OF demo_reg_ok, of 5000] by simp
  then show ?thesis by auto
qed

section \<open>The inode on the device\<close>

lemma word4_append [simp]: "word4 (bytes4 v @ bs) = v"
proof -
  have "word4 (bytes4 v @ bs) = word4 (bytes4 v)" by (simp add: word4_def bytes4_def)
  then show ?thesis by simp
qed

lemma word2_append [simp]: "word2 (bytes2 v @ bs) = v"
proof (rule bit_word_eqI)
  fix n assume "n < LENGTH(16)"
  then consider "n < 8" | "8 \<le> n" "n < 16" by (simp add: not_less) linarith
  then show "bit (word2 (bytes2 v @ bs)) n = bit v n"
    by cases (auto simp: word2_def bytes2_def bit_or_iff bit_push_bit_iff bit_ucast_iff bit_drop_bit_eq)
qed

lemma length_bytes2 [simp]: "length (bytes2 v) = 2"
  by (simp add: bytes2_def)

lemma word4_concat: "i < length ds \<Longrightarrow> word4 (drop (4 * i) (concat (map bytes4 ds) @ bs)) = ds ! i"
proof (induction ds arbitrary: i)
  case (Cons d ds)
  then show ?case by (cases i) simp_all
qed simp

lemma length_concat4 [simp]: "length (concat (map bytes4 ds)) = 4 * length ds"
  by (induction ds) simp_all

lemma length_din_bytes: "length (direct d) = 12 \<Longrightarrow> length (din_bytes d) = 72"
  by (simp add: din_bytes_def)

lemma bytes_din_bytes:
  assumes "length (direct d) = 12"
  shows "bytes_din (din_bytes d @ bs) = d"
proof -
  let ?t = "bytes4 (indirect d) @ bytes4 (db_indirect d) @ bs"
  have "drop (16 + 4 * i) (din_bytes d @ bs) = drop (4 * i) (concat (map bytes4 (direct d)) @ ?t)" for i by (simp add: din_bytes_def)
  then have "map (\<lambda>i. word4 (drop (16 + 4 * i) (din_bytes d @ bs))) [0..<12] = map (\<lambda>i. direct d ! i) [0..<length (direct d)]"
    using word4_concat [of _ "direct d" ?t] assms by simp
  then have "map (\<lambda>i. word4 (drop (16 + 4 * i) (din_bytes d @ bs))) [0..<12] = direct d" by (simp only: map_nth)
  moreover have "word4 (din_bytes d @ bs) = size_or_slots d" "word4 (drop 4 (din_bytes d @ bs)) = parent d" "word2 (drop 8 (din_bytes d @ bs)) = di_type d"
    "word2 (drop 10 (din_bytes d @ bs)) = nlinks d" "word4 (drop 12 (din_bytes d @ bs)) = di_blocks d" "word4 (drop 64 (din_bytes d @ bs)) = indirect d"
    "word4 (drop 68 (din_bytes d @ bs)) = db_indirect d"
    using assms by (simp_all add: din_bytes_def)
  ultimately show ?thesis by (simp add: bytes_din_def)
qed

text \<open>The inode that is in a block of the device.\<close>

definition disk_inode :: "sfs_fs \<Rightarrow> u32 \<Rightarrow> sfs_disk_inode" where
  "disk_inode fs b = bytes_din (map (blk_of fs b) [0..<72])"

text \<open>
  C38: Writing a dirty inode back puts on the device the bytes from which that inode is read, touches no other block and clears the dirty flag; when
  the transfer fails, the flag stays and the device is as it was.
\<close>

theorem sfs_fsync_roundtrip:
  assumes ok: "file_ok fs sin" and d: "nlinks (din sin) \<noteq> 0" "sin_dirty sin" "\<not> sin_removed sin"
  shows "\<exists>ret fs'. sfs_fsync sin fs = Some (ret, sin\<lparr>sin_dirty := (ret \<noteq> 0)\<rparr>, fs') \<and> step {ino sin} fs fs' \<and> avail fs' = avail fs \<and>
    (if ret = 0 then disk_inode fs' (ino sin) = din sin else disk_inode fs' (ino sin) = disk_inode fs (ino sin) \<and> io_failed fs)"
proof -
  have f: "fs_ok fs" "in_use fs (ino sin)" and len: "length (direct (din sin)) = 12" using ok by (simp_all add: file_ok_def din_ok_def)
  note l = length_din_bytes [OF len]
  obtain ret fs' where w: "sfs_wbuf (din_bytes (din sin)) (ino sin) 0 fs = Some (ret, fs')" "step {ino sin} fs fs'" "freemap fs' = freemap fs"
    "ret = 0 \<longrightarrow> blk_of fs' (ino sin) = patch (din_bytes (din sin)) 0 (blk_of fs (ino sin))" "ret \<noteq> 0 \<longrightarrow> blk_of fs' (ino sin) = blk_of fs (ino sin) \<and> io_failed fs"
    using wbuf_ok [OF f, of 0 "din_bytes (din sin)"] l by (auto simp: io_failed_def)
  have "map (patch (din_bytes (din sin)) 0 x) [0..<72] = din_bytes (din sin) @ []" for x
    using l by (intro nth_equalityI) (simp_all add: patch_def)
  then have "ret = 0 \<longrightarrow> disk_inode fs' (ino sin) = din sin" using w(4) bytes_din_bytes [OF len, of "[]"] by (simp add: disk_inode_def)
  then show ?thesis using w d by (auto simp: sfs_fsync_def trylock_sin_def disk_inode_def)
qed

theorem sfs_fsync_roundtrip_witness:
  "\<exists>ret fs'. sfs_fsync demo_sin demo_fs = Some (ret, demo_sin\<lparr>sin_dirty := (ret \<noteq> 0)\<rparr>, fs') \<and> step {ino demo_sin} demo_fs fs' \<and> avail fs' = avail demo_fs \<and>
    (if ret = 0 then disk_inode fs' (ino demo_sin) = din demo_sin else disk_inode fs' (ino demo_sin) = disk_inode demo_fs (ino demo_sin) \<and> io_failed demo_fs)"
  by (rule sfs_fsync_roundtrip [OF demo_file_ok]) (simp_all add: demo_sin_def)

end
