(* ===== verification/Sfs_Dir.thy ===== *)
theory Sfs_Dir
  imports Sfs_File
begin

text \<open>
  Inodes in memory and directories of the simple file system (\<^verbatim>\<open>fs/sfs/sfs_inode.c\<close>): the table of loaded inodes with their reference counts,
  directory entries, and creation, linking, renaming, removal and lookup of names. Inodes are heap objects named by addresses. \<^verbatim>\<open>hash_list\<close> is
  searched by inode number only, so one list stands for all its buckets. Every \<^verbatim>\<open>kmalloc\<close> may fail (\<open>mem_ok\<close>). Operations that lock inodes are
  modelled from the point where they hold the locks. Names are lists of bytes without the closing 0.
\<close>

section \<open>The table of inodes\<close>

type_synonym fname = "u8 list"

record vnode =
  v_sin :: sfs_inode
  ref_count :: int
  open_count :: int

record sfs_state =
  fsys :: sfs_fs
  vnodes :: "nat \<Rightarrow> vnode option"
  inode_list :: "nat list"
  next_node :: nat
  mem_ok :: "nat \<Rightarrow> bool"
  mem_calls :: nat

definition E_TOO_BIG :: int where [simp]: "E_TOO_BIG = 12"
definition E_NOTDIR :: int where [simp]: "E_NOTDIR = 18"
definition E_EXISTS :: int where [simp]: "E_EXISTS = 23"
definition E_NOTEMPTY :: int where [simp]: "E_NOTEMPTY = 24"
definition SFS_MAX_FNAME_LEN :: nat where [simp]: "SFS_MAX_FNAME_LEN = 255"
definition SFS_BLKN_ROOT :: u32 where [simp]: "SFS_BLKN_ROOT = 1"

definition kmalloc :: "sfs_state \<Rightarrow> bool \<times> sfs_state" where
  "kmalloc st = (mem_ok st (mem_calls st), st\<lparr>mem_calls := mem_calls st + 1\<rparr>)"

text \<open>\<^verbatim>\<open>vop_info(node, sfs_inode)\<close>, and a change of it.\<close>

definition sin_of :: "nat \<Rightarrow> sfs_state \<Rightarrow> sfs_inode option" where
  "sin_of a st = map_option v_sin (vnodes st a)"

definition set_sin :: "nat \<Rightarrow> sfs_inode \<Rightarrow> sfs_state \<Rightarrow> sfs_state" where
  "set_sin a s st = st\<lparr>vnodes := (vnodes st)(a := map_option (\<lambda>v. v\<lparr>v_sin := s\<rparr>) (vnodes st a))\<rparr>"

definition set_refs :: "nat \<Rightarrow> int \<Rightarrow> sfs_state \<Rightarrow> sfs_state" where
  "set_refs a n st = st\<lparr>vnodes := (vnodes st)(a := map_option (\<lambda>v. v\<lparr>ref_count := n\<rparr>) (vnodes st a))\<rparr>"

definition sfs_set_links :: "nat \<Rightarrow> sfs_state \<Rightarrow> sfs_state" where
  "sfs_set_links a st = st\<lparr>inode_list := a # inode_list st\<rparr>"

definition sfs_remove_links :: "nat \<Rightarrow> sfs_state \<Rightarrow> sfs_state" where
  "sfs_remove_links a st = st\<lparr>inode_list := remove1 a (inode_list st)\<rparr>"

definition sfs_create_inode :: "sfs_disk_inode \<Rightarrow> u32 \<Rightarrow> sfs_state \<Rightarrow> (int \<times> nat \<times> sfs_state) option" where
  "sfs_create_inode d i st =
     (let (ok, st) = kmalloc st; a = next_node st in
      if ok then do {
        kassert (di_type d = SFS_TYPE_DIR \<or> di_type d = SFS_TYPE_FILE);
        Some (0, a, st\<lparr>next_node := a + 1, vnodes := (vnodes st)(a \<mapsto>
          \<lparr>v_sin = \<lparr>din = d, ino = i, sin_removed = False, sin_dirty = False, reclaim_count = 1\<rparr>, ref_count = 1, open_count = 0\<rparr>)\<rparr>)
      }
      else Some (- E_NO_MEM, 0, st))"

fun find_node :: "nat list \<Rightarrow> u32 \<Rightarrow> sfs_state \<Rightarrow> nat option option" where
  "find_node [] i st = Some None"
| "find_node (a # as) i st = do {
     s \<leftarrow> sin_of a st;
     if ino s = i then Some (Some a) else find_node as i st
   }"

definition lookup_sfs_nolock :: "u32 \<Rightarrow> sfs_state \<Rightarrow> (nat option \<times> sfs_state) option" where
  "lookup_sfs_nolock i st = do {
     r \<leftarrow> find_node (inode_list st) i st;
     case r of
       None \<Rightarrow> Some (None, st)
     | Some a \<Rightarrow> do {
         v \<leftarrow> vnodes st a;
         st \<leftarrow> Some (set_refs a (ref_count v + 1) st);
         Some (Some a, if ref_count v + 1 = 1 then set_sin a ((v_sin v)\<lparr>reclaim_count := reclaim_count (v_sin v) + 1\<rparr>) st else st)
       }
   }"

definition sfs_load_inode :: "u32 \<Rightarrow> sfs_state \<Rightarrow> (int \<times> nat \<times> sfs_state) option" where
  "sfs_load_inode i st = do {
     (r, st) \<leftarrow> lookup_sfs_nolock i st;
     case r of
       Some a \<Rightarrow> Some (0, a, st)
     | None \<Rightarrow> (let (ok, st) = kmalloc st in
         if \<not> ok then Some (- E_NO_MEM, 0, st)
         else do {
           used \<leftarrow> sfs_block_inuse i (fsys st);
           kassert used;
           (ret, bs, fs) \<leftarrow> sfs_rbuf 72 i 0 (fsys st);
           st \<leftarrow> Some (st\<lparr>fsys := fs\<rparr>);
           if ret \<noteq> 0 then Some (ret, 0, st)
           else do {
             kassert (nlinks (bytes_din bs) \<noteq> 0);
             (ret, a, st) \<leftarrow> sfs_create_inode (bytes_din bs) i st;
             if ret \<noteq> 0 then Some (ret, 0, st) else Some (0, a, sfs_set_links a st)
           }
         })
   }"

section \<open>Reference counts and reclaiming\<close>

fun reclaim_blocks :: "nat \<Rightarrow> sfs_inode \<Rightarrow> sfs_fs \<Rightarrow> (sfs_inode \<times> sfs_fs) option" where
  "reclaim_blocks 0 s fs = Some (s, fs)"
| "reclaim_blocks (Suc nblks) s fs = do { (_, s, fs) \<leftarrow> sfs_bmap_truncate_nolock s fs; reclaim_blocks nblks s fs }"

fun reclaim_subs :: "nat list \<Rightarrow> u32 \<Rightarrow> sfs_fs \<Rightarrow> sfs_fs option" where
  "reclaim_subs [] ent fs = Some fs"
| "reclaim_subs (i # is) ent fs = do { (_, fs) \<leftarrow> sfs_bmap_free_sub_nolock ent i fs; reclaim_subs is ent fs }"

definition reclaim_free :: "sfs_inode \<Rightarrow> sfs_fs \<Rightarrow> sfs_fs option" where
  "reclaim_free s fs = do {
     fs \<leftarrow> sfs_block_free (ino s) fs;
     fs \<leftarrow> (if indirect (din s) \<noteq> 0 then sfs_block_free (indirect (din s)) fs else Some fs);
     if db_indirect (din s) \<noteq> 0 then do {
       fs \<leftarrow> reclaim_subs [0..<SFS_BLK_NENTRY] (db_indirect (din s)) fs;
       sfs_block_free (db_indirect (din s)) fs
     }
     else Some fs
   }"

definition sfs_reclaim :: "nat \<Rightarrow> sfs_state \<Rightarrow> (int \<times> sfs_state) option" where
  "sfs_reclaim a st = do {
     v \<leftarrow> vnodes st a;
     kassert (reclaim_count (v_sin v) > 0);
     s \<leftarrow> Some ((v_sin v)\<lparr>reclaim_count := reclaim_count (v_sin v) - 1\<rparr>);
     if reclaim_count s \<noteq> 0 then Some (- E_BUSY, set_sin a s st)
     else do {
       kassert (ref_count v = 0 \<and> open_count v = 0);
       (ret, s, fs) \<leftarrow> (if nlinks (din s) = 0 then do { (s, fs) \<leftarrow> reclaim_blocks (unat (di_blocks (din s))) s (fsys st); Some (0, s, fs) }
         else if sin_dirty s then sfs_fsync s (fsys st) else Some (0, s, fsys st));
       st \<leftarrow> Some (set_sin a s (st\<lparr>fsys := fs\<rparr>));
       if ret \<noteq> 0 then Some (ret, st)
       else do {
         st \<leftarrow> Some (sfs_remove_links a st);
         fs \<leftarrow> (if nlinks (din s) = 0 then reclaim_free s (fsys st) else Some (fsys st));
         Some (0, st\<lparr>fsys := fs, vnodes := (vnodes st)(a := None)\<rparr>)
       }
     }
   }"

definition vop_ref_inc :: "nat \<Rightarrow> sfs_state \<Rightarrow> sfs_state option" where
  "vop_ref_inc a st = do { v \<leftarrow> vnodes st a; Some (set_refs a (ref_count v + 1) st) }"

text \<open>\<^verbatim>\<open>inode_ref_dec\<close>: the result of reclaiming is only reported on the console.\<close>

definition vop_ref_dec :: "nat \<Rightarrow> sfs_state \<Rightarrow> sfs_state option" where
  "vop_ref_dec a st = do {
     v \<leftarrow> vnodes st a;
     kassert (ref_count v > 0);
     st \<leftarrow> Some (set_refs a (ref_count v - 1) st);
     if ref_count v - 1 = 0 then do {
       kassert (open_count v = 0);
       (_, st) \<leftarrow> sfs_reclaim a st;
       Some st
     }
     else Some st
   }"

section \<open>Directory entries\<close>

text \<open>An operation on block maps, on the inode at \<open>a\<close>.\<close>

definition bmap_load :: "nat \<Rightarrow> nat \<Rightarrow> sfs_state \<Rightarrow> (int \<times> u32 \<times> sfs_state) option" where
  "bmap_load a index st = do {
     s \<leftarrow> sin_of a st;
     (ret, b, s, fs) \<leftarrow> sfs_bmap_load_nolock s index (fsys st);
     Some (ret, b, set_sin a s (st\<lparr>fsys := fs\<rparr>))
   }"

text \<open>\<^verbatim>\<open>struct sfs_disk_entry\<close> in memory order, and a name up to its closing 0.\<close>

definition entry_bytes :: "u32 \<Rightarrow> fname \<Rightarrow> u8 list" where
  "entry_bytes i name = bytes4 i @ name @ replicate (SFS_MAX_FNAME_LEN + 1 - length name) 0"

definition entry_name :: "u8 list \<Rightarrow> fname" where
  "entry_name bs = takeWhile (\<lambda>c. c \<noteq> 0) (drop 4 bs)"

text \<open>The entry is returned as its bytes, of which \<open>word4\<close> is the inode number.\<close>

definition sfs_dirent_read_nolock :: "nat \<Rightarrow> nat \<Rightarrow> sfs_state \<Rightarrow> (int \<times> u8 list \<times> sfs_state) option" where
  "sfs_dirent_read_nolock a slot st = do {
     s \<leftarrow> sin_of a st;
     kassert (di_type (din s) = SFS_TYPE_DIR \<and> slot < unat (di_blocks (din s)));
     (ret, b, st) \<leftarrow> bmap_load a slot st;
     if ret \<noteq> 0 then Some (ret, [], st)
     else do {
       used \<leftarrow> sfs_block_inuse b (fsys st);
       kassert used;
       (ret, bs, fs) \<leftarrow> sfs_rbuf 260 b 0 (fsys st);
       st \<leftarrow> Some (st\<lparr>fsys := fs\<rparr>);
       if ret \<noteq> 0 then Some (ret, [], st) else Some (0, bs[4 + SFS_MAX_FNAME_LEN := 0], st)
     }
   }"

definition sfs_dirent_write_nolock :: "nat \<Rightarrow> nat \<Rightarrow> u32 \<Rightarrow> fname \<Rightarrow> sfs_state \<Rightarrow> (int \<times> sfs_state) option" where
  "sfs_dirent_write_nolock a slot i name st = do {
     s \<leftarrow> sin_of a st;
     kassert (di_type (din s) = SFS_TYPE_DIR \<and> slot \<le> unat (di_blocks (din s)));
     let (ok, st) = kmalloc st in
     if \<not> ok then Some (- E_NO_MEM, st)
     else do {
       kassert (i \<noteq> 0 \<longrightarrow> length name \<le> SFS_MAX_FNAME_LEN);
       (ret, b, st) \<leftarrow> bmap_load a slot st;
       if ret \<noteq> 0 then Some (ret, st)
       else do {
         used \<leftarrow> sfs_block_inuse b (fsys st);
         kassert used;
         (ret, fs) \<leftarrow> sfs_wbuf (if i \<noteq> 0 then entry_bytes i name else entry_bytes 0 []) b 0 (fsys st);
         Some (ret, st\<lparr>fsys := fs\<rparr>)
       }
     }
   }"

definition add_slots :: "nat \<Rightarrow> u32 \<Rightarrow> sfs_state \<Rightarrow> sfs_state option" where
  "add_slots a n st = do {
     s \<leftarrow> sin_of a st;
     Some (set_sin a (s\<lparr>sin_dirty := True, din := (din s)\<lparr>size_or_slots := size_or_slots (din s) + n\<rparr>\<rparr>) st)
   }"

definition add_nlinks :: "nat \<Rightarrow> u16 \<Rightarrow> sfs_state \<Rightarrow> sfs_state option" where
  "add_nlinks a n st = do {
     s \<leftarrow> sin_of a st;
     Some (set_sin a (s\<lparr>sin_dirty := True, din := (din s)\<lparr>nlinks := nlinks (din s) + n\<rparr>\<rparr>) st)
   }"

definition sfs_dirent_link_nolock :: "nat \<Rightarrow> nat \<Rightarrow> nat \<Rightarrow> fname \<Rightarrow> sfs_state \<Rightarrow> (int \<times> sfs_state) option" where
  "sfs_dirent_link_nolock a slot l name st = do {
     ls \<leftarrow> sin_of l st;
     (ret, st) \<leftarrow> sfs_dirent_write_nolock a slot (ino ls) name st;
     if ret \<noteq> 0 then Some (ret, st)
     else do { st \<leftarrow> add_slots a 1 st; st \<leftarrow> add_nlinks l 1 st; Some (0, st) }
   }"

definition sfs_dirent_unlink_nolock :: "nat \<Rightarrow> nat \<Rightarrow> nat \<Rightarrow> sfs_state \<Rightarrow> (int \<times> sfs_state) option" where
  "sfs_dirent_unlink_nolock a slot l st = do {
     (ret, st) \<leftarrow> sfs_dirent_write_nolock a slot 0 [] st;
     if ret \<noteq> 0 then Some (ret, st)
     else do {
       s \<leftarrow> sin_of a st;
       ls \<leftarrow> sin_of l st;
       kassert (size_or_slots (din s) \<noteq> 0 \<and> nlinks (din ls) \<noteq> 0);
       st \<leftarrow> add_slots a (- 1) st;
       st \<leftarrow> add_nlinks l (- 1) st;
       Some (0, st)
     }
   }"

text \<open>The loop over the slots: the results are the error code, inode number and slot of the name, the empty slot and the state.\<close>

fun search_loop :: "nat \<Rightarrow> nat \<Rightarrow> nat \<Rightarrow> fname \<Rightarrow> nat \<Rightarrow> sfs_state \<Rightarrow> (int \<times> u32 \<times> nat \<times> nat \<times> sfs_state) option" where
  "search_loop a i 0 name hole st = Some (- E_NOENT, 0, 0, hole, st)"
| "search_loop a i (Suc k) name hole st = do {
     (ret, e, st) \<leftarrow> sfs_dirent_read_nolock a i st;
     if ret \<noteq> 0 then Some (ret, 0, 0, hole, st)
     else if word4 e = 0 then search_loop a (i + 1) k name i st
     else if name = entry_name e then Some (0, word4 e, i, hole, st)
     else search_loop a (i + 1) k name hole st
   }"

definition sfs_dirent_search_nolock :: "nat \<Rightarrow> fname \<Rightarrow> sfs_state \<Rightarrow> (int \<times> u32 \<times> nat \<times> nat \<times> sfs_state) option" where
  "sfs_dirent_search_nolock a name st = do {
     kassert (length name \<le> SFS_MAX_FNAME_LEN);
     s \<leftarrow> sin_of a st;
     let (ok, st) = kmalloc st; nslots = unat (di_blocks (din s)) in
     if \<not> ok then Some (- E_NO_MEM, 0, 0, 0, st) else search_loop a 0 nslots name nslots st
   }"

fun findino_loop :: "nat \<Rightarrow> nat \<Rightarrow> nat \<Rightarrow> u32 \<Rightarrow> sfs_state \<Rightarrow> (int \<times> fname \<times> sfs_state) option" where
  "findino_loop a i 0 n st = Some (- E_NOENT, [], st)"
| "findino_loop a i (Suc k) n st = do {
     (ret, e, st) \<leftarrow> sfs_dirent_read_nolock a i st;
     if ret \<noteq> 0 then Some (ret, [], st)
     else if word4 e = n then Some (0, entry_name e, st)
     else findino_loop a (i + 1) k n st
   }"

definition sfs_dirent_findino_nolock :: "nat \<Rightarrow> u32 \<Rightarrow> sfs_state \<Rightarrow> (int \<times> fname \<times> sfs_state) option" where
  "sfs_dirent_findino_nolock a n st = do { s \<leftarrow> sin_of a st; findino_loop a 0 (unat (di_blocks (din s))) n st }"

definition sfs_dirent_create_inode :: "u16 \<Rightarrow> sfs_state \<Rightarrow> (int \<times> nat \<times> sfs_state) option" where
  "sfs_dirent_create_inode t st =
     (let (ok, st) = kmalloc st;
          d = \<lparr>size_or_slots = 0, parent = 0, di_type = t, nlinks = 0, di_blocks = 0, direct = replicate SFS_NDIRECT 0, indirect = 0, db_indirect = 0\<rparr> in
      if \<not> ok then Some (- E_NO_MEM, 0, st)
      else do {
        (ret, i, fs) \<leftarrow> sfs_block_alloc (fsys st);
        st \<leftarrow> Some (st\<lparr>fsys := fs\<rparr>);
        if ret \<noteq> 0 then Some (ret, 0, st)
        else do {
          (ret, a, st) \<leftarrow> sfs_create_inode d i st;
          if ret \<noteq> 0 then do { fs \<leftarrow> sfs_block_free i (fsys st); Some (ret, 0, st\<lparr>fsys := fs\<rparr>) }
          else Some (0, a, sfs_set_links a st)
        }
      })"

section \<open>Operations on directories\<close>

definition sfs_load_parent :: "nat \<Rightarrow> sfs_state \<Rightarrow> (int \<times> nat \<times> sfs_state) option" where
  "sfs_load_parent a st = do { s \<leftarrow> sin_of a st; sfs_load_inode (parent (din s)) st }"

definition sfs_lookup_once :: "nat \<Rightarrow> fname \<Rightarrow> sfs_state \<Rightarrow> (int \<times> nat \<times> sfs_state) option" where
  "sfs_lookup_once a name st = do {
     s \<leftarrow> sin_of a st;
     if trylock_sin s \<noteq> 0 then Some (trylock_sin s, 0, st)
     else do {
       (ret, i, _, _, st) \<leftarrow> sfs_dirent_search_nolock a name st;
       if ret \<noteq> 0 then Some (ret, 0, st) else sfs_load_inode i st
     }
   }"

definition sfs_dirinfo_set_parent :: "nat \<Rightarrow> nat \<Rightarrow> sfs_state \<Rightarrow> sfs_state option" where
  "sfs_dirinfo_set_parent a p st = do {
     s \<leftarrow> sin_of a st;
     ps \<leftarrow> sin_of p st;
     Some (set_sin a (s\<lparr>sin_dirty := True, din := (din s)\<lparr>parent := ino ps\<rparr>\<rparr>) st)
   }"

definition nlinks_inc :: "nat \<Rightarrow> sfs_state \<Rightarrow> sfs_state option" where
  "nlinks_inc a st = do { s \<leftarrow> sin_of a st; Some (set_sin a (sfs_nlinks_inc_nolock s) st) }"

definition nlinks_dec :: "nat \<Rightarrow> sfs_state \<Rightarrow> sfs_state option" where
  "nlinks_dec a st = do { s \<leftarrow> sin_of a st; s \<leftarrow> sfs_nlinks_dec_nolock s; Some (set_sin a s st) }"

definition sfs_mkdir_nolock :: "nat \<Rightarrow> fname \<Rightarrow> sfs_state \<Rightarrow> (int \<times> sfs_state) option" where
  "sfs_mkdir_nolock a name st = do {
     (ret, _, _, slot, st) \<leftarrow> sfs_dirent_search_nolock a name st;
     if ret \<noteq> - E_NOENT then Some (if ret \<noteq> 0 then ret else - E_EXISTS, st)
     else do {
       (ret, l, st) \<leftarrow> sfs_dirent_create_inode SFS_TYPE_DIR st;
       if ret \<noteq> 0 then Some (ret, st)
       else do {
         (ret, st) \<leftarrow> sfs_dirent_link_nolock a slot l name st;
         st \<leftarrow> (if ret \<noteq> 0 then do {
             v \<leftarrow> vnodes st l;
             kassert (nlinks (din (v_sin v)) = 0 \<and> ref_count v = 1 \<and> open_count v = 0);
             Some st
           }
           else do { st \<leftarrow> sfs_dirinfo_set_parent l a st; st \<leftarrow> nlinks_inc l st; nlinks_inc a st });
         st \<leftarrow> vop_ref_dec l st;
         Some (ret, st)
       }
     }
   }"

definition dot :: fname where "dot = [46]"
definition dotdot :: fname where "dotdot = [46, 46]"

definition locked :: "nat \<Rightarrow> (sfs_state \<Rightarrow> (int \<times> sfs_state) option) \<Rightarrow> sfs_state \<Rightarrow> (int \<times> sfs_state) option" where
  "locked a f st = do { s \<leftarrow> sin_of a st; if trylock_sin s = 0 then f st else Some (trylock_sin s, st) }"

definition sfs_mkdir :: "nat \<Rightarrow> fname \<Rightarrow> sfs_state \<Rightarrow> (int \<times> sfs_state) option" where
  "sfs_mkdir a name st =
     (if length name > SFS_MAX_FNAME_LEN then Some (- E_TOO_BIG, st)
      else if name = dot \<or> name = dotdot then Some (- E_EXISTS, st)
      else locked a (sfs_mkdir_nolock a name) st)"

definition sfs_link_nolock :: "nat \<Rightarrow> nat \<Rightarrow> fname \<Rightarrow> sfs_state \<Rightarrow> (int \<times> sfs_state) option" where
  "sfs_link_nolock a l name st = do {
     (ret, _, _, slot, st) \<leftarrow> sfs_dirent_search_nolock a name st;
     if ret \<noteq> - E_NOENT then Some (if ret \<noteq> 0 then ret else - E_EXISTS, st)
     else sfs_dirent_link_nolock a slot l name st
   }"

definition sfs_link :: "nat \<Rightarrow> fname \<Rightarrow> nat \<Rightarrow> sfs_state \<Rightarrow> (int \<times> sfs_state) option" where
  "sfs_link a name l st =
     (if length name > SFS_MAX_FNAME_LEN then Some (- E_TOO_BIG, st)
      else if name = dot \<or> name = dotdot then Some (- E_EXISTS, st)
      else do {
        ls \<leftarrow> sin_of l st;
        if di_type (din ls) = SFS_TYPE_DIR then Some (- E_ISDIR, st)
        else locked a (sfs_link_nolock a l name) st
      })"

definition sfs_rename1_nolock :: "nat \<Rightarrow> fname \<Rightarrow> fname \<Rightarrow> sfs_state \<Rightarrow> (int \<times> sfs_state) option" where
  "sfs_rename1_nolock a name new_name st =
     (if name = new_name then Some (0, st)
      else do {
        (ret, i, slot, _, st) \<leftarrow> sfs_dirent_search_nolock a name st;
        if ret \<noteq> 0 then Some (ret, st)
        else do {
          (ret, _, _, _, st) \<leftarrow> sfs_dirent_search_nolock a new_name st;
          if ret \<noteq> - E_NOENT then Some (if ret \<noteq> 0 then ret else - E_EXISTS, st)
          else sfs_dirent_write_nolock a slot i new_name st
        }
      })"

definition rename_move :: "nat \<Rightarrow> nat \<Rightarrow> nat \<Rightarrow> fname \<Rightarrow> nat \<Rightarrow> nat \<Rightarrow> fname \<Rightarrow> sfs_state \<Rightarrow> (int \<times> sfs_state) option" where
  "rename_move l a slot1 name b slot2 new_name st = do {
     (ret, st) \<leftarrow> sfs_dirent_unlink_nolock a slot1 l st;
     if ret \<noteq> 0 then Some (ret, st)
     else do {
       ls \<leftarrow> sin_of l st;
       let isdir = (di_type (din ls) = SFS_TYPE_DIR) in do {
       st \<leftarrow> (if isdir then nlinks_dec a st else Some st);
       (ret, st) \<leftarrow> sfs_dirent_link_nolock b slot2 l new_name st;
       if ret \<noteq> 0 then do {
         (err, st) \<leftarrow> sfs_dirent_link_nolock a slot1 l name st;
         st \<leftarrow> (if err = 0 \<and> isdir then nlinks_inc a st else Some st);
         Some (ret, st)
       }
       else do {
         st \<leftarrow> (if isdir then do { st \<leftarrow> nlinks_inc b st; sfs_dirinfo_set_parent l b st } else Some st);
         Some (0, st)
       }
     }}
   }"

definition sfs_rename2_nolock :: "nat \<Rightarrow> fname \<Rightarrow> nat \<Rightarrow> fname \<Rightarrow> sfs_state \<Rightarrow> (int \<times> sfs_state) option" where
  "sfs_rename2_nolock a name b new_name st = do {
     (ret, i, slot1, _, st) \<leftarrow> sfs_dirent_search_nolock a name st;
     if ret \<noteq> 0 then Some (ret, st)
     else do {
       (ret, _, _, slot2, st) \<leftarrow> sfs_dirent_search_nolock b new_name st;
       if ret \<noteq> - E_NOENT then Some (if ret \<noteq> 0 then ret else - E_EXISTS, st)
       else do {
         (ret, l, st) \<leftarrow> sfs_load_inode i st;
         if ret \<noteq> 0 then Some (ret, st)
         else do {
           (ret, st) \<leftarrow> rename_move l a slot1 name b slot2 new_name st;
           st \<leftarrow> vop_ref_dec l st;
           Some (ret, st)
         }
       }
     }
   }"

definition sfs_rename :: "nat \<Rightarrow> fname \<Rightarrow> nat \<Rightarrow> fname \<Rightarrow> sfs_state \<Rightarrow> (int \<times> sfs_state) option" where
  "sfs_rename a name b new_name st =
     (if length name > SFS_MAX_FNAME_LEN \<or> length new_name > SFS_MAX_FNAME_LEN then Some (- E_TOO_BIG, st)
      else if name = dot \<or> name = dotdot then Some (- E_INVAL, st)
      else if new_name = dot \<or> new_name = dotdot then Some (- E_EXISTS, st)
      else locked a (\<lambda>st. if a = b then sfs_rename1_nolock a name new_name st else locked b (sfs_rename2_nolock a name b new_name) st) st)"

section \<open>Paths\<close>

partial_function (option) name_loop :: "nat \<Rightarrow> nat \<Rightarrow> fname \<Rightarrow> sfs_state \<Rightarrow> (int \<times> nat \<times> fname \<times> sfs_state) option" where
  "name_loop a resid acc st = do {
     s \<leftarrow> sin_of a st;
     if ino s = SFS_BLKN_ROOT then Some (0, a, acc, st)
     else do {
       (ret, p, st) \<leftarrow> sfs_load_parent a st;
       if ret \<noteq> 0 then Some (ret, a, acc, st)
       else do {
         st \<leftarrow> vop_ref_dec a st;
         ps \<leftarrow> sin_of p st;
         kassert (ino s \<noteq> ino ps \<and> di_type (din ps) = SFS_TYPE_DIR);
         if trylock_sin ps \<noteq> 0 then Some (trylock_sin ps, p, acc, st)
         else do {
           (ret, nm, st) \<leftarrow> sfs_dirent_findino_nolock p (ino s) st;
           if ret \<noteq> 0 then Some (ret, p, acc, st)
           else if length nm + 1 > resid then Some (- E_NO_MEM, p, acc, st)
           else name_loop p (resid - (length nm + 1)) (nm @ [47] @ acc) st
         }
       }
     }
   }"

text \<open>The name is built from the end of the buffer towards its start and then moved to the start.\<close>

definition sfs_namefile :: "nat \<Rightarrow> iobuf \<Rightarrow> sfs_state \<Rightarrow> (int \<times> iobuf \<times> sfs_state) option" where
  "sfs_namefile a iob st =
     (let resid = unat (io_resid iob) in
      if resid \<le> 2 then Some (- E_NO_MEM, iob, st)
      else let (ok, st) = kmalloc st in
      if \<not> ok then Some (- E_NO_MEM, iob, st)
      else do {
        st \<leftarrow> vop_ref_inc a st;
        (ret, p, acc, st) \<leftarrow> name_loop a (resid - 2) [] st;
        st \<leftarrow> vop_ref_dec p st;
        iob \<leftarrow> Some (iob\<lparr>io_buf := put_bytes acc (io_base iob + resid - length acc) (io_buf iob)\<rparr>);
        if ret \<noteq> 0 then Some (ret, iob, st)
        else do {
          iob \<leftarrow> iobuf_skip (iob\<lparr>io_buf := put_bytes ([47] @ acc @ [0]) (io_base iob) (io_buf iob)\<rparr>) (of_nat (length acc));
          Some (0, iob, st)
        }
      })"

fun getdirentry_loop :: "nat \<Rightarrow> nat \<Rightarrow> nat \<Rightarrow> nat \<Rightarrow> sfs_state \<Rightarrow> (int \<times> u8 list \<times> sfs_state) option" where
  "getdirentry_loop a i 0 slot st = Some (- E_NOENT, [], st)"
| "getdirentry_loop a i (Suc k) slot st = do {
     (ret, e, st) \<leftarrow> sfs_dirent_read_nolock a i st;
     if ret \<noteq> 0 then Some (ret, [], st)
     else if word4 e = 0 then getdirentry_loop a (i + 1) k slot st
     else if slot = 0 then Some (0, e, st)
     else getdirentry_loop a (i + 1) k (slot - 1) st
   }"

text \<open>\<open>garbage\<close> is what the memory of the entry held.\<close>

definition sfs_getdirentry :: "u8 list \<Rightarrow> nat \<Rightarrow> iobuf \<Rightarrow> sfs_state \<Rightarrow> (int \<times> iobuf \<times> sfs_state) option" where
  "sfs_getdirentry garbage a iob st =
     (let (ok, st) = kmalloc st; offset = io_offset iob in
      if \<not> ok then Some (- E_NO_MEM, iob, st)
      else if offset <s 0 \<or> unat offset mod 256 \<noteq> 0 then Some (- E_INVAL, iob, st)
      else do {
        s \<leftarrow> sin_of a st;
        let slot = unat offset div 256 in
        if slot \<ge> unat (size_or_slots (din s) + 2) then Some (- E_NOENT, iob, st)
        else do {
          (ret, nm, st) \<leftarrow> (if slot = 0 then Some (0, put_bytes (dot @ [0]) 0 garbage, st)
            else if slot = 1 then Some (0, put_bytes (dotdot @ [0]) 0 garbage, st)
            else if trylock_sin s \<noteq> 0 then Some (trylock_sin s, [], st)
            else do { (ret, e, st) \<leftarrow> getdirentry_loop a 0 (unat (di_blocks (din s))) (slot - 2) st; Some (ret, drop 4 e, st) });
          if ret \<noteq> 0 then Some (ret, iob, st)
          else do { (ret, _, _, iob) \<leftarrow> iobuf_move iob nm 256 True; Some (ret, iob, st) }
        }
      })"

definition sfs_create_nolock :: "nat \<Rightarrow> fname \<Rightarrow> bool \<Rightarrow> sfs_state \<Rightarrow> (int \<times> nat \<times> sfs_state) option" where
  "sfs_create_nolock a name excl st = do {
     (ret, i, _, slot, st) \<leftarrow> sfs_dirent_search_nolock a name st;
     if ret \<noteq> - E_NOENT then
       if ret \<noteq> 0 then Some (ret, 0, st)
       else if excl then Some (- E_EXISTS, 0, st)
       else do {
         (ret, l, st) \<leftarrow> sfs_load_inode i st;
         if ret \<noteq> 0 then Some (ret, 0, st)
         else do {
           ls \<leftarrow> sin_of l st;
           if di_type (din ls) = SFS_TYPE_FILE then Some (0, l, st)
           else do { st \<leftarrow> vop_ref_dec l st; Some (- E_EXISTS, 0, st) }
         }
       }
     else do {
       (ret, l, st) \<leftarrow> sfs_dirent_create_inode SFS_TYPE_FILE st;
       if ret \<noteq> 0 then Some (ret, 0, st)
       else do {
         (ret, st) \<leftarrow> sfs_dirent_link_nolock a slot l name st;
         if ret \<noteq> 0 then do { st \<leftarrow> vop_ref_dec l st; Some (ret, 0, st) } else Some (0, l, st)
       }
     }
   }"

definition sfs_create :: "nat \<Rightarrow> fname \<Rightarrow> bool \<Rightarrow> sfs_state \<Rightarrow> (int \<times> nat \<times> sfs_state) option" where
  "sfs_create a name excl st =
     (if length name > SFS_MAX_FNAME_LEN then Some (- E_TOO_BIG, 0, st)
      else if name = dot \<or> name = dotdot then Some (- E_EXISTS, 0, st)
      else do { s \<leftarrow> sin_of a st; if trylock_sin s = 0 then sfs_create_nolock a name excl st else Some (trylock_sin s, 0, st) })"

definition sfs_unlink_nolock :: "nat \<Rightarrow> fname \<Rightarrow> sfs_state \<Rightarrow> (int \<times> sfs_state) option" where
  "sfs_unlink_nolock a name st = do {
     (ret, i, slot, _, st) \<leftarrow> sfs_dirent_search_nolock a name st;
     if ret \<noteq> 0 then Some (ret, st)
     else do {
       (ret, l, st) \<leftarrow> sfs_load_inode i st;
       if ret \<noteq> 0 then Some (ret, st)
       else do {
         ls \<leftarrow> sin_of l st;
         (ret, st) \<leftarrow> (if di_type (din ls) \<noteq> SFS_TYPE_DIR then sfs_dirent_unlink_nolock a slot l st
           else if trylock_sin ls \<noteq> 0 then Some (trylock_sin ls, st)
           else if size_or_slots (din ls) \<noteq> 0 then Some (- E_NOTEMPTY, st)
           else do {
             (ret, st) \<leftarrow> sfs_dirent_unlink_nolock a slot l st;
             if ret \<noteq> 0 then Some (ret, st)
             else do {
               ls \<leftarrow> sin_of l st;
               st \<leftarrow> Some (set_sin l (ls\<lparr>sin_removed := True\<rparr>) st);
               st \<leftarrow> nlinks_dec l st;
               st \<leftarrow> nlinks_dec a st;
               Some (0, st)
             }
           });
         st \<leftarrow> vop_ref_dec l st;
         Some (ret, st)
       }
     }
   }"

definition sfs_unlink :: "nat \<Rightarrow> fname \<Rightarrow> sfs_state \<Rightarrow> (int \<times> sfs_state) option" where
  "sfs_unlink a name st =
     (if length name > SFS_MAX_FNAME_LEN then Some (- E_TOO_BIG, st)
      else if name = dot \<or> name = dotdot then Some (- E_ISDIR, st)
      else locked a (sfs_unlink_nolock a name) st)"

text \<open>The first component of a path, and the rest if there is one.\<close>

definition sfs_lookup_subpath :: "u8 list \<Rightarrow> fname \<times> u8 list option" where
  "sfs_lookup_subpath path =
     (let rest = dropWhile (\<lambda>c. c = 47) (dropWhile (\<lambda>c. c \<noteq> 47) path) in
      (takeWhile (\<lambda>c. c \<noteq> 47) path, if rest = [] then None else Some rest))"

lemma subpath_shorter:
  assumes "sfs_lookup_subpath path = (c, Some rest)"
  shows "length rest < length path"
proof -
  define t where "t = dropWhile (\<lambda>c. c \<noteq> 47) path"
  have r: "rest = dropWhile (\<lambda>c. c = 47) t" "rest \<noteq> []" using assms unfolding sfs_lookup_subpath_def Let_def t_def [symmetric] by (auto split: if_splits)
  then have "t \<noteq> []" by auto
  then have "hd t = 47" using hd_dropWhile [of "\<lambda>c. c \<noteq> 47" path] by (simp add: t_def)
  then have "rest = dropWhile (\<lambda>c. c = 47) (tl t)" using r(1) \<open>t \<noteq> []\<close> by (cases t) simp_all
  then have "length rest \<le> length (tl t)" using length_dropWhile_le [of "\<lambda>c. c = 47" "tl t"] by simp
  moreover have "length t \<le> length path" by (simp add: t_def length_dropWhile_le)
  moreover have "length (tl t) < length t" using \<open>t \<noteq> []\<close> by simp
  ultimately show ?thesis by linarith
qed

text \<open>One step of a path: the inode of \<open>c\<close> in the directory at \<open>a\<close>, whose reference is given back.\<close>

definition lookup_step :: "nat \<Rightarrow> fname \<Rightarrow> sfs_state \<Rightarrow> (int \<times> nat \<times> sfs_state) option" where
  "lookup_step a c st = do {
     (ret, sub, st) \<leftarrow> (if c = dotdot then sfs_load_parent a st
       else if length c > SFS_MAX_FNAME_LEN then Some (- E_TOO_BIG, 0, st)
       else sfs_lookup_once a c st);
     st \<leftarrow> vop_ref_dec a st;
     Some (ret, sub, st)
   }"

function lookup_loop :: "nat \<Rightarrow> u8 list \<Rightarrow> sfs_state \<Rightarrow> (int \<times> nat \<times> sfs_state) option" where
  "lookup_loop a path st = do {
     s \<leftarrow> sin_of a st;
     if di_type (din s) \<noteq> SFS_TYPE_DIR then do { st \<leftarrow> vop_ref_dec a st; Some (- E_NOTDIR, 0, st) }
     else case sfs_lookup_subpath path of
         (c, sub) \<Rightarrow>
           if c = dot then (case sub of None \<Rightarrow> Some (0, a, st) | Some rest \<Rightarrow> lookup_loop a rest st)
           else do {
             (ret, n, st) \<leftarrow> lookup_step a c st;
             if ret \<noteq> 0 then Some (ret, 0, st)
             else case sub of None \<Rightarrow> Some (0, n, st) | Some rest \<Rightarrow> lookup_loop n rest st
           }
   }"
  by pat_completeness auto
termination by (relation "measure (\<lambda>(a, path, st). length path)") (auto intro: subpath_shorter sym)

definition sfs_lookup :: "nat \<Rightarrow> u8 list \<Rightarrow> sfs_state \<Rightarrow> (int \<times> nat \<times> sfs_state) option" where
  "sfs_lookup a path st = do {
     kassert (path \<noteq> [] \<and> hd path \<noteq> 47);
     st \<leftarrow> vop_ref_inc a st;
     lookup_loop a path st
   }"

function lookup_parent_loop :: "nat \<Rightarrow> u8 list \<Rightarrow> sfs_state \<Rightarrow> (int \<times> nat \<times> u8 list \<times> sfs_state) option" where
  "lookup_parent_loop a path st = do {
     s \<leftarrow> sin_of a st;
     if di_type (din s) \<noteq> SFS_TYPE_DIR then do { st \<leftarrow> vop_ref_dec a st; Some (- E_NOTDIR, 0, [], st) }
     else case sfs_lookup_subpath path of
         (c, None) \<Rightarrow> Some (0, a, c, st)
       | (c, Some rest) \<Rightarrow>
           if c = dot then lookup_parent_loop a rest st
           else do {
             (ret, n, st) \<leftarrow> lookup_step a c st;
             if ret \<noteq> 0 then Some (ret, 0, [], st) else lookup_parent_loop n rest st
           }
   }"
  by pat_completeness auto
termination by (relation "measure (\<lambda>(a, path, st). length path)") (auto intro: subpath_shorter sym)

definition sfs_lookup_parent :: "nat \<Rightarrow> u8 list \<Rightarrow> sfs_state \<Rightarrow> (int \<times> nat \<times> u8 list \<times> sfs_state) option" where
  "sfs_lookup_parent a path st = do {
     kassert (path \<noteq> [] \<and> hd path \<noteq> 47);
     st \<leftarrow> vop_ref_inc a st;
     lookup_parent_loop a path st
   }"

end
