(* ===== verification/Sfs_Names.thy ===== *)
theory Sfs_Names
  imports Sfs_Bytes Sfs_Dir
begin

text \<open>
  Directories as finite maps from names to inode numbers: searching is lookup in the map, linking adds a name and renaming in one directory
  moves it, whatever slots the entries are in.
\<close>

section \<open>Entries\<close>

definition entry :: "sfs_fs \<Rightarrow> sfs_inode \<Rightarrow> nat \<Rightarrow> u8 list" where
  "entry fs s i = (map (\<lambda>j. fbyte fs s (4096 * i + j)) [0..<260])[259 := 0]"

definition dir_ok :: "nat \<Rightarrow> sfs_inode \<Rightarrow> sfs_state \<Rightarrow> bool" where
  "dir_ok a s st \<longleftrightarrow> sin_of a st = Some s \<and> file_ok (fsys st) s \<and> di_type (din s) = SFS_TYPE_DIR"

text \<open>A valid name is what a C string in an entry can hold.\<close>

definition name_ok :: "fname \<Rightarrow> bool" where
  "name_ok name \<longleftrightarrow> length name \<le> 255 \<and> 0 \<notin> set name"

lemma set_sin_same: "sin_of a st = Some s \<Longrightarrow> set_sin a s (st\<lparr>fsys := f\<rparr>) = st\<lparr>fsys := f\<rparr>"
  by (auto simp: set_sin_def sin_of_def fun_upd_idem)

lemma sin_of_update [simp]: "sin_of a (st\<lparr>fsys := f\<rparr>) = sin_of a st" "sin_of a (st\<lparr>mem_calls := n\<rparr>) = sin_of a st"
  "sin_of b (set_sin a s st) = (if b = a then map_option (\<lambda>_. s) (sin_of a st) else sin_of b st)" "fsys (set_sin a s st) = fsys st"
  by (simp_all add: sin_of_def set_sin_def option.map_comp o_def)

lemma set_sin_twice [simp]: "set_sin a s (set_sin a t st) = set_sin a s st"
  by (simp add: set_sin_def option.map_comp o_def)

lemma load_inuse:
  assumes ok: "file_ok fs s" and n: "n \<le> nblocks s" "n < 32768" and l: "sfs_bmap_load_nolock s n fs = Some (0, b, s1, f1)"
  shows "sfs_block_inuse b f1 = Some True"
proof -
  have "fop fs s f1 s1" "b = fblk f1 (din s1) n" "nblocks s1 = max (nblocks s) (Suc n)" using bmap_load_ok [OF ok n] l by (auto split: if_splits)
  then have "file_ok f1 s1" "n < nblocks s1" "b = fblk f1 (din s1) n" by (simp_all add: fop_def)
  then show ?thesis using block_inuse [OF file_ok_fs file_ok_blk(1)] by simp
qed

text \<open>Reading and writing an entry is reading and writing the first bytes of a block.\<close>

lemma dirent_read_part:
  assumes d: "dir_ok a s st" and i: "i < nblocks s"
  shows "sfs_dirent_read_nolock a i st = do {
    (ret, bs, s, fs) \<leftarrow> io_part False [] 260 i 0 s (fsys st);
    Some (ret, if ret = 0 then bs[259 := 0] else [], set_sin a s (st\<lparr>fsys := fs\<rparr>)) }"
proof -
  have ok: "file_ok (fsys st) s" "sin_of a st = Some s" "di_type (din s) = SFS_TYPE_DIR" using d by (simp_all add: dir_ok_def)
  have n: "i \<le> nblocks s" "i < 32768" using i ok(1) by (simp_all add: file_ok_def)
  obtain r b s1 f1 where l: "sfs_bmap_load_nolock s i (fsys st) = Some (r, b, s1, f1)" using bmap_load_ok [OF ok(1) n] by blast
  show ?thesis
  proof (cases "r = 0")
    case True
    then show ?thesis using ok l i load_inuse [OF ok(1) n, of b s1 f1]
      by (cases "sfs_rbuf 260 b 0 f1") (auto simp: sfs_dirent_read_nolock_def bmap_load_def io_part_def set_sin_def)
  next
    case False
    then show ?thesis using ok l i by (auto simp: sfs_dirent_read_nolock_def bmap_load_def io_part_def)
  qed
qed

lemma dirent_read_ok:
  assumes d: "dir_ok a s st" and i: "i < nblocks s"
  shows "\<exists>ret e f. sfs_dirent_read_nolock a i st = Some (ret, e, st\<lparr>fsys := f\<rparr>) \<and> ticked (fsys st) f \<and>
    (ret = 0 \<longrightarrow> e = entry (fsys st) s i) \<and> (ret \<noteq> 0 \<longrightarrow> io_failed (fsys st))"
proof -
  have ok: "file_ok (fsys st) s" "sin_of a st = Some s" using d by (simp_all add: dir_ok_def)
  have "chunk_read (fsys st) s (4096 * i + 0) 260 (io_part False [] 260 i 0 s (fsys st))" by (rule chunk_read_ok(1) [OF ok(1) i]) simp_all
  then obtain ret bs f where c: "io_part False [] 260 i 0 s (fsys st) = Some (ret, bs, s, f)" "ticked (fsys st) f"
    "if ret = 0 then bs = map (fbyte (fsys st) s) [4096 * i + 0..<4096 * i + 0 + 260] else io_failed (fsys st)"
    unfolding chunk_read_def by blast
  have "map (fbyte (fsys st) s) [4096 * i + 0..<4096 * i + 0 + 260] = map (\<lambda>j. fbyte (fsys st) s (4096 * i + j)) [0..<260]"
    by (rule nth_equalityI) simp_all
  then show ?thesis using dirent_read_part [OF d i] c set_sin_same [OF ok(2)] by (auto simp: entry_def)
qed

section \<open>Searching\<close>

definition live :: "sfs_fs \<Rightarrow> sfs_inode \<Rightarrow> fname \<Rightarrow> nat \<Rightarrow> bool" where
  "live fs s name i \<longleftrightarrow> word4 (entry fs s i) \<noteq> 0 \<and> entry_name (entry fs s i) = name"

text \<open>The directory as a map, from the first entry with the name, and the slot for a new entry.\<close>

definition dir_slot :: "sfs_fs \<Rightarrow> sfs_inode \<Rightarrow> fname \<Rightarrow> nat option" where
  "dir_slot fs s name = find (live fs s name) [0..<nblocks s]"

definition dirmap :: "sfs_fs \<Rightarrow> sfs_inode \<Rightarrow> fname \<Rightarrow> u32 option" where
  "dirmap fs s name = map_option (\<lambda>i. word4 (entry fs s i)) (dir_slot fs s name)"

definition dir_hole :: "sfs_fs \<Rightarrow> sfs_inode \<Rightarrow> nat" where
  "dir_hole fs s = last (nblocks s # filter (\<lambda>i. word4 (entry fs s i) = 0) [0..<nblocks s])"

lemma entry_ticked: "ticked fs f \<Longrightarrow> entry f s = entry fs s"
proof
  fix i assume "ticked fs f"
  then have "fbyte f s = fbyte fs s" using ticked_same [of fs f] by (simp add: fbyte_def fun_eq_iff)
  then show "entry f s i = entry fs s i" by (simp add: entry_def)
qed

lemma dir_ok_ticked: "dir_ok a s st \<Longrightarrow> ticked (fsys st) f \<Longrightarrow> dir_ok a s (st\<lparr>fsys := f\<rparr>)"
  using ticked_read(1) [of "fsys st" f s] by (simp add: dir_ok_def)

text \<open>The result of a search of the slots \<open>sl\<close>, unless the device failed.\<close>

definition found :: "sfs_fs \<Rightarrow> sfs_inode \<Rightarrow> fname \<Rightarrow> nat list \<Rightarrow> nat \<Rightarrow> int \<Rightarrow> u32 \<Rightarrow> nat \<Rightarrow> nat \<Rightarrow> bool" where
  "found fs s name sl hole ret j slot h \<longleftrightarrow> io_failed fs \<or> (case find (live fs s name) sl of
     None \<Rightarrow> ret = - E_NOENT \<and> h = last (hole # filter (\<lambda>i. word4 (entry fs s i) = 0) sl)
   | Some n \<Rightarrow> ret = 0 \<and> slot = n \<and> j = word4 (entry fs s n))"

lemma found_ticked:
  assumes "ticked fs f"
  shows "found f s = found fs s"
  unfolding found_def [abs_def] live_def [abs_def] io_failed_def entry_ticked [OF assms] ticked_same(4) [OF assms] ..

lemma found_steps:
  "found fs s name sl i ret j slot h \<Longrightarrow> word4 (entry fs s i) = 0 \<Longrightarrow> found fs s name (i # sl) hole ret j slot h"
  "found fs s name sl hole ret j slot h \<Longrightarrow> word4 (entry fs s i) \<noteq> 0 \<Longrightarrow> name \<noteq> entry_name (entry fs s i) \<Longrightarrow> found fs s name (i # sl) hole ret j slot h"
  "word4 (entry fs s i) \<noteq> 0 \<Longrightarrow> found fs s (entry_name (entry fs s i)) (i # sl) hole 0 (word4 (entry fs s i)) i h"
  by (auto simp: found_def live_def split: option.splits)

lemma search_loop_ok:
  "dir_ok a s st \<Longrightarrow> i + k \<le> nblocks s \<Longrightarrow> \<exists>ret j slot h f. search_loop a i k name hole st = Some (ret, j, slot, h, st\<lparr>fsys := f\<rparr>) \<and>
    ticked (fsys st) f \<and> found (fsys st) s name [i..<i + k] hole ret j slot h"
proof (induction k arbitrary: i hole st)
  case 0
  have "st = st\<lparr>fsys := fsys st\<rparr>" by simp
  then show ?case using ticked_refl by (auto simp: found_def intro!: exI [of _ "fsys st"])
next
  case (Suc k)
  let ?fs = "fsys st"
  obtain ret e f where r: "sfs_dirent_read_nolock a i st = Some (ret, e, st\<lparr>fsys := f\<rparr>)" "ticked ?fs f" "ret = 0 \<longrightarrow> e = entry ?fs s i" "ret \<noteq> 0 \<longrightarrow> io_failed ?fs"
    using dirent_read_ok [OF Suc.prems(1), of i] Suc.prems(2) by auto
  let ?st = "st\<lparr>fsys := f\<rparr>"
  have d: "dir_ok a s ?st" "Suc i + k \<le> nblocks s" using dir_ok_ticked [OF Suc.prems(1) r(2)] Suc.prems(2) by simp_all
  have ih: "\<exists>ret j slot h f'. search_loop a (i + 1) k name hl ?st = Some (ret, j, slot, h, st\<lparr>fsys := f'\<rparr>) \<and> ticked ?fs f' \<and>
    found ?fs s name [Suc i..<Suc i + k] hl ret j slot h" for hl
  proof -
    obtain r2 j slot h f' where q: "search_loop a (Suc i) k name hl ?st = Some (r2, j, slot, h, ?st\<lparr>fsys := f'\<rparr>)" "ticked (fsys ?st) f'"
      "found (fsys ?st) s name [Suc i..<Suc i + k] hl r2 j slot h" using Suc.IH [OF d, of hl] by blast
    have "search_loop a (i + 1) k name hl ?st = Some (r2, j, slot, h, st\<lparr>fsys := f'\<rparr>)" "ticked f f'" "found f s name [Suc i..<Suc i + k] hl r2 j slot h"
      using q by (simp_all del: upt_Suc)
    then show ?thesis using ticked_trans [OF r(2)] unfolding found_ticked [OF r(2)] by blast
  qed
  have u: "[i..<i + Suc k] = i # [Suc i..<Suc i + k]" by (simp add: upt_conv_Cons)
  show ?case
  proof (cases "ret = 0")
    case False
    then show ?thesis using r by (auto simp: found_def)
  next
    case True
    then have e: "e = entry ?fs s i" using r(3) by simp
    consider "word4 e = 0" | "word4 e \<noteq> 0" "name = entry_name e" | "word4 e \<noteq> 0" "name \<noteq> entry_name e" by blast
    then show ?thesis
    proof cases
      case 1
      then have "search_loop a i (Suc k) name hole st = search_loop a (i + 1) k name i ?st" using True r(1) by simp
      then show ?thesis using ih [of i] found_steps(1) 1 unfolding u e by metis
    next
      case 2
      then have "search_loop a i (Suc k) name hole st = Some (0, word4 e, i, hole, ?st)" using True r(1) by simp
      then show ?thesis using found_steps(3) 2 r(2) unfolding u e by metis
    next
      case 3
      then have "search_loop a i (Suc k) name hole st = search_loop a (i + 1) k name hole ?st" using True r(1) by simp
      then show ?thesis using ih [of hole] found_steps(2) 3 unfolding u e by metis
    qed
  qed
qed

lemma search_ok:
  assumes d: "dir_ok a s st" and n: "length name \<le> 255" and m: "mem_ok st (mem_calls st)"
  shows "\<exists>ret j slot h f. sfs_dirent_search_nolock a name st = Some (ret, j, slot, h, st\<lparr>mem_calls := mem_calls st + 1, fsys := f\<rparr>) \<and> ticked (fsys st) f \<and>
    found (fsys st) s name [0..<nblocks s] (nblocks s) ret j slot h"
proof -
  let ?st = "st\<lparr>mem_calls := mem_calls st + 1\<rparr>"
  have d': "dir_ok a s ?st" using d by (simp add: dir_ok_def)
  have eq: "sfs_dirent_search_nolock a name st = search_loop a 0 (nblocks s) name (nblocks s) ?st"
    using d n m by (simp add: sfs_dirent_search_nolock_def kmalloc_def dir_ok_def Let_def)
  show ?thesis using search_loop_ok [OF d', of 0 "nblocks s" name "nblocks s"] unfolding eq by simp
qed

lemma found_dir:
  assumes "found fs s name [0..<nblocks s] (nblocks s) ret j slot h" "\<not> io_failed fs"
  shows "case dir_slot fs s name of None \<Rightarrow> ret = - E_NOENT \<and> h = dir_hole fs s | Some n \<Rightarrow> ret = 0 \<and> slot = n \<and> j = word4 (entry fs s n)"
  using assms by (simp add: found_def dir_slot_def dir_hole_def split: option.splits)

section \<open>Writing an entry\<close>

lemma dirent_write_ok:
  assumes d: "dir_ok a s st" and n: "n \<le> nblocks s" "n < 32768" and m: "mem_ok st (mem_calls st)" and i: "i \<noteq> 0" and len: "length name \<le> 255"
  shows "\<exists>ret s' f. sfs_dirent_write_nolock a n i name st = Some (ret, set_sin a s' (st\<lparr>mem_calls := mem_calls st + 1, fsys := f\<rparr>)) \<and>
    (if ret = 0 then wrote (fsys st) s (4096 * n) (entry_bytes i name) f s' \<and> n < nblocks s' else wrote (fsys st) s (4096 * n) [] f s' \<and> out_of_space (fsys st))"
proof -
  have ok: "file_ok (fsys st) s" "sin_of a st = Some s" "di_type (din s) = SFS_TYPE_DIR" using d by (simp_all add: dir_ok_def)
  have l260: "length (entry_bytes i name) = 260" using len by (simp add: entry_bytes_def)
  have "chunk_write (fsys st) s (4096 * n) (entry_bytes i name) (io_part True (entry_bytes i name) 260 n 0 s (fsys st))"
    using chunk_write_ok(1) [OF ok(1) n, of 0 260 "entry_bytes i name"] l260 by simp
  then obtain ret s' f where c: "io_part True (entry_bytes i name) 260 n 0 s (fsys st) = Some (ret, [], s', f)"
    "if ret = 0 then wrote (fsys st) s (4096 * n) (entry_bytes i name) f s' \<and> 4096 * n + 260 \<le> 4096 * nblocks s'
     else wrote (fsys st) s (4096 * n) [] f s' \<and> out_of_space (fsys st)"
    unfolding chunk_write_def l260 by blast
  obtain r b s1 f1 where l: "sfs_bmap_load_nolock s n (fsys st) = Some (r, b, s1, f1)" using bmap_load_ok [OF ok(1) n] by blast
  have "sfs_dirent_write_nolock a n i name st = Some (ret, set_sin a s' (st\<lparr>mem_calls := mem_calls st + 1, fsys := f\<rparr>))"
  proof (cases "r = 0")
    case True
    then show ?thesis using ok l n i len m c(1) l260 load_inuse [OF ok(1) n, of b s1 f1]
      by (cases "sfs_wbuf (entry_bytes i name) b 0 f1") (auto simp: sfs_dirent_write_nolock_def bmap_load_def io_part_def set_sin_def kmalloc_def)
  next
    case False
    then show ?thesis using ok l n i len m c(1) by (auto simp: sfs_dirent_write_nolock_def bmap_load_def io_part_def kmalloc_def)
  qed
  moreover have "if ret = 0 then wrote (fsys st) s (4096 * n) (entry_bytes i name) f s' \<and> n < nblocks s' else wrote (fsys st) s (4096 * n) [] f s' \<and> out_of_space (fsys st)"
    using c(2) by (cases "ret = 0") simp_all
  ultimately show ?thesis by blast
qed

text \<open>Overwriting an entry of the directory needs no block of the device.\<close>

lemma dirent_write_in_place:
  assumes d: "dir_ok a s st" and n: "n < nblocks s" and m: "mem_ok st (mem_calls st)" and i: "i \<noteq> 0" and len: "length name \<le> 255" and io: "\<not> io_failed (fsys st)"
  shows "\<exists>s' f. sfs_dirent_write_nolock a n i name st = Some (0, set_sin a s' (st\<lparr>mem_calls := mem_calls st + 1, fsys := f\<rparr>)) \<and>
    wrote (fsys st) s (4096 * n) (entry_bytes i name) f s' \<and> n < nblocks s'"
proof -
  have ok: "file_ok (fsys st) s" "sin_of a st = Some s" "di_type (din s) = SFS_TYPE_DIR" using d by (simp_all add: dir_ok_def)
  have n': "n \<le> nblocks s" "n < 32768" using n ok(1) by (simp_all add: file_ok_def)
  obtain b f1 where l: "sfs_bmap_load_nolock s n (fsys st) = Some (0, b, s, f1)" "ticked (fsys st) f1" "b = fblk f1 (din s) n"
    using bmap_load_ok [OF ok(1) n'] n io by (auto split: if_splits)
  have f1: "file_ok f1 s" using ticked_read(1) [OF l(2)] ok(1) by simp
  have l260: "length (entry_bytes i name) = 260" using len by (simp add: entry_bytes_def)
  have "\<exists>ret f2. sfs_wbuf (entry_bytes i name) b 0 f1 = Some (ret, f2) \<and> (ret \<noteq> 0 \<longrightarrow> (\<exists>n. io_ret f1 n \<noteq> 0))"
    using wbuf_ok [OF file_ok_fs [OF f1] file_ok_blk(1) [OF f1 n], of 0 "entry_bytes i name"] l260 l(3) by auto
  then obtain f2 where w: "sfs_wbuf (entry_bytes i name) b 0 f1 = Some (0, f2)" using io ticked_same(4) [OF l(2)] by (auto simp: io_failed_def)
  have z: "fst (the (sfs_dirent_write_nolock a n i name st)) = 0" using ok l(1) n' i len m w load_inuse [OF ok(1) n' l(1)]
    by (simp add: sfs_dirent_write_nolock_def bmap_load_def kmalloc_def)
  obtain ret s' f where e: "sfs_dirent_write_nolock a n i name st = Some (ret, set_sin a s' (st\<lparr>mem_calls := mem_calls st + 1, fsys := f\<rparr>))"
    "if ret = 0 then wrote (fsys st) s (4096 * n) (entry_bytes i name) f s' \<and> n < nblocks s' else wrote (fsys st) s (4096 * n) [] f s' \<and> out_of_space (fsys st)"
    using dirent_write_ok [OF d n' m i len] by blast
  then have "ret = 0" using z by simp
  then show ?thesis using e by (intro exI [of _ s'] exI [of _ f]) simp
qed

lemma entry_bytes_ok:
  assumes "name_ok name"
  shows "(entry_bytes i name)[259 := 0] = entry_bytes i name" "word4 (entry_bytes i name) = i" "entry_name (entry_bytes i name) = name" "length (entry_bytes i name) = 260"
proof -
  have len: "length name \<le> 255" "\<forall>c \<in> set name. c \<noteq> 0" using assms by (auto simp: name_ok_def)
  then show l: "length (entry_bytes i name) = 260" by (simp add: entry_bytes_def)
  obtain k where k: "SFS_MAX_FNAME_LEN + 1 - length name = Suc k" using len(1) by (cases "SFS_MAX_FNAME_LEN + 1 - length name") simp_all
  have "entry_bytes i name ! 259 = 0" using len(1) by (simp add: entry_bytes_def nth_append)
  then show "(entry_bytes i name)[259 := 0] = entry_bytes i name" by (metis list_update_id)
  show "word4 (entry_bytes i name) = i"
  proof -
    have "word4 (bytes4 i @ bs) = word4 (bytes4 i)" for bs by (simp add: word4_def bytes4_def)
    then show ?thesis by (simp add: entry_bytes_def)
  qed
  show "entry_name (entry_bytes i name) = name" using len(2) unfolding entry_name_def entry_bytes_def k by (simp add: takeWhile_append2)
qed

lemma wrote_entry:
  assumes w: "wrote fs s (4096 * n) bs f s'" and bs: "bs = [] \<or> length bs = 260" and k: "k < nblocks s'"
  shows "entry f s' k = (if k = n \<and> bs \<noteq> [] then bs[259 := 0] else if k < nblocks s then entry fs s k else replicate 260 0)"
proof -
  have b: "fbyte f s' (4096 * k + j) = (if k = n \<and> j < length bs then bs ! j else if k < nblocks s then fbyte fs s (4096 * k + j) else 0)" if j: "j < 260" for j
  proof -
    have lt: "(4096 * k + j < 4096 * m) = (k < m)" for m using j by (cases "k < m") (auto simp: not_less dest: mult_le_mono2 [of m k 4096])
    have "(4096 * n \<le> 4096 * k + j \<and> 4096 * k + j < 4096 * n + length bs) = (k = n \<and> j < length bs)"
      using j bs by (cases k n rule: linorder_cases) auto
    moreover have "4096 * k + j - 4096 * n = j" if "k = n" using that by simp
    ultimately show ?thesis using w k lt unfolding wrote_def by auto
  qed
  show ?thesis
  proof (cases "k = n \<and> bs \<noteq> []")
    case True
    then have "map (\<lambda>j. fbyte f s' (4096 * k + j)) [0..<260] = bs" using b bs by (intro nth_equalityI) auto
    then show ?thesis using True by (simp add: entry_def)
  next
    case False
    have z: "(replicate 260 0)[259 := 0] = (replicate 260 (0 :: u8))" by (simp add: list_eq_iff_nth_eq nth_list_update)
    have "map (\<lambda>j. fbyte f s' (4096 * k + j)) [0..<260] = (if k < nblocks s then map (\<lambda>j. fbyte fs s (4096 * k + j)) [0..<260] else replicate 260 0)"
      using b False by (intro nth_equalityI) auto
    then show ?thesis using False z by (auto simp: entry_def)
  qed
qed

section \<open>The map of names\<close>

definition uniq :: "sfs_fs \<Rightarrow> sfs_inode \<Rightarrow> bool" where
  "uniq fs s \<longleftrightarrow> (\<forall>i j name. i < nblocks s \<and> j < nblocks s \<and> live fs s name i \<and> live fs s name j \<longrightarrow> i = j)"

lemma dirmap_Some:
  assumes "uniq fs s"
  shows "dirmap fs s name = Some x \<longleftrightarrow> (\<exists>i < nblocks s. live fs s name i \<and> word4 (entry fs s i) = x)"
proof (cases "dir_slot fs s name")
  case None
  then have "\<not> (\<exists>i < nblocks s. live fs s name i)" by (auto simp: dir_slot_def find_None_iff)
  then show ?thesis using None by (auto simp: dirmap_def)
next
  case (Some n)
  then have "n < nblocks s" "live fs s name n" by (auto simp: dir_slot_def find_Some_iff)
  then show ?thesis using Some assms by (auto simp: dirmap_def uniq_def)
qed

lemma Some_ext: "(\<And>y. a = Some y \<longleftrightarrow> b = Some y) \<Longrightarrow> a = b"
  by (cases a; cases b) auto

text \<open>A valid name that is not in the directory is entered in a slot; what the slot held is removed.\<close>

lemma update_entry:
  assumes u: "uniq fs s" and w: "wrote fs s (4096 * n) (entry_bytes i name) f s'" and n: "n \<le> nblocks s" "n < nblocks s'"
    and i: "i \<noteq> 0" and nm: "name_ok name" "dirmap fs s name = None"
  shows "uniq f s' \<and> dirmap f s' = (if n < nblocks s \<and> word4 (entry fs s n) \<noteq> 0 then (dirmap fs s)(entry_name (entry fs s n) := None) else dirmap fs s)(name \<mapsto> i)"
proof -
  note e = entry_bytes_ok [OF nm(1), of i]
  have ne: "entry_bytes i name \<noteq> []" using e(4) by auto
  have nb: "nblocks s \<le> nblocks s'" using wrote_ok(2) [OF w] .
  have ent: "entry f s' k = (if k = n then entry_bytes i name else if k < nblocks s then entry fs s k else replicate 260 0)" if "k < nblocks s'" for k
    using wrote_entry [OF w _ that] e ne by simp
  have z: "word4 (replicate 260 0) = 0" by (simp add: word4_def)
  have lv: "live f s' x k = (if k = n then x = name else k < nblocks s \<and> live fs s x k)" if "k < nblocks s'" for k x
    using ent [OF that] e(2,3) i z by (auto simp: live_def)
  have no: "\<not> live fs s name k" if "k < nblocks s" for k using nm(2) that dirmap_Some [OF u, of name] by fastforce
  have uq: "k = j" if "k < nblocks s" "j < nblocks s" "live fs s x k" "live fs s x j" for k j x using u that unfolding uniq_def by blast
  have u': "uniq f s'"
    unfolding uniq_def
  proof (intro allI impI)
    fix k j x assume "k < nblocks s' \<and> j < nblocks s' \<and> live f s' x k \<and> live f s' x j"
    then show "k = j" using lv [of k x] lv [of j x] no uq [of k j x] by (auto split: if_splits)
  qed
  have "dirmap f s' x = Some y \<longleftrightarrow>
    ((if n < nblocks s \<and> word4 (entry fs s n) \<noteq> 0 then (dirmap fs s)(entry_name (entry fs s n) := None) else dirmap fs s)(name \<mapsto> i)) x = Some y" for x y
  proof (cases "x = name")
    case True
    have "dirmap f s' name = Some y \<longleftrightarrow> y = i"
      unfolding dirmap_Some [OF u'] using lv ent n(2) no e(2) by (auto split: if_splits)
    then show ?thesis using True by auto
  next
    case False
    have k: "k < nblocks s' \<and> live f s' x k \<and> word4 (entry f s' k) = y \<longleftrightarrow> k < nblocks s \<and> k \<noteq> n \<and> live fs s x k \<and> word4 (entry fs s k) = y" for k
      using lv [of k x] ent [of k] False nb by (auto split: if_splits)
    have "dirmap f s' x = Some y \<longleftrightarrow> (\<exists>k < nblocks s. k \<noteq> n \<and> live fs s x k \<and> word4 (entry fs s k) = y)"
      unfolding dirmap_Some [OF u'] using k by blast
    also have "\<dots> \<longleftrightarrow> \<not> (n < nblocks s \<and> live fs s x n) \<and> dirmap fs s x = Some y"
      unfolding dirmap_Some [OF u] using uq by blast
    finally show ?thesis using False by (auto simp: live_def)
  qed
  then have "dirmap f s' x = ((if n < nblocks s \<and> word4 (entry fs s n) \<noteq> 0 then (dirmap fs s)(entry_name (entry fs s n) := None) else dirmap fs s)(name \<mapsto> i)) x" for x
    by (rule Some_ext)
  then show ?thesis using u' by blast
qed

lemma failed_entry:
  assumes u: "uniq fs s" and w: "wrote fs s (4096 * n) [] f s'"
  shows "uniq f s' \<and> dirmap f s' = dirmap fs s"
proof -
  have nb: "nblocks s \<le> nblocks s'" using wrote_ok(2) [OF w] .
  have ent: "entry f s' k = (if k < nblocks s then entry fs s k else replicate 260 0)" if "k < nblocks s'" for k
    using wrote_entry [OF w _ that] by simp
  have z: "word4 (replicate 260 0) = 0" by (simp add: word4_def)
  have lv: "live f s' x k = (k < nblocks s \<and> live fs s x k)" if "k < nblocks s'" for k x using ent [OF that] z by (auto simp: live_def)
  have u': "uniq f s'" using u lv unfolding uniq_def by blast
  have k: "k < nblocks s' \<and> live f s' x k \<and> word4 (entry f s' k) = y \<longleftrightarrow> k < nblocks s \<and> live fs s x k \<and> word4 (entry fs s k) = y" for k x y
    using lv [of k x] ent [of k] nb by auto
  have "dirmap f s' x = Some y \<longleftrightarrow> dirmap fs s x = Some y" for x y
    unfolding dirmap_Some [OF u'] dirmap_Some [OF u] using k by blast
  then have "dirmap f s' x = dirmap fs s x" for x by (rule Some_ext)
  then show ?thesis using u' by blast
qed

section \<open>Operations\<close>

lemma dir_hole_ok: "dir_hole fs s = nblocks s \<or> dir_hole fs s < nblocks s \<and> word4 (entry fs s (dir_hole fs s)) = 0"
proof (cases "filter (\<lambda>i. word4 (entry fs s i) = 0) [0..<nblocks s] = []")
  case False
  then have "last (filter (\<lambda>i. word4 (entry fs s i) = 0) [0..<nblocks s]) \<in> set (filter (\<lambda>i. word4 (entry fs s i) = 0) [0..<nblocks s])" by (rule last_in_set)
  then show ?thesis using False by (auto simp: dir_hole_def)
qed (simp add: dir_hole_def)

lemma dirmap_ticked:
  assumes "ticked fs f"
  shows "dirmap f s = dirmap fs s" "uniq f s = uniq fs s" "dir_hole f s = dir_hole fs s"
  unfolding dirmap_def [abs_def] dir_slot_def uniq_def live_def [abs_def] dir_hole_def entry_ticked [OF assms] by (rule refl)+

lemma dir_ok_set:
  assumes "sin_of a st = Some s0" "file_ok (fsys st) s" "di_type (din s) = SFS_TYPE_DIR"
  shows "dir_ok a s (set_sin a s st)"
  using assms by (simp add: dir_ok_def)

lemma wrote_dir: "wrote fs s n bs f s' \<Longrightarrow> file_ok f s' \<and> di_type (din s') = di_type (din s) \<and> size_or_slots (din s') = size_or_slots (din s)"
  by (simp add: wrote_def fop_def same_attr_def)

section \<open>A small directory\<close>

definition demo_dir :: sfs_inode where
  "demo_dir = demo_sin\<lparr>din := (din demo_sin)\<lparr>di_type := SFS_TYPE_DIR\<rparr>\<rparr>"

definition demo_st :: sfs_state where
  "demo_st = \<lparr>fsys = demo_fs, vnodes = [0 \<mapsto> \<lparr>v_sin = demo_dir, ref_count = 1, open_count = 0\<rparr>, 1 \<mapsto> \<lparr>v_sin = demo_sin\<lparr>ino := 2\<rparr>, ref_count = 1, open_count = 0\<rparr>],
     inode_list = [0, 1], next_node = 2, mem_ok = (\<lambda>_. True), mem_calls = 0\<rparr>"

lemma demo_dir_ok: "dir_ok 0 demo_dir demo_st"
proof -
  have "ptr demo_fs (din demo_dir) s = ptr demo_fs (din demo_sin) s" for s by (cases s) (simp_all add: demo_dir_def)
  then have "file_ok demo_fs demo_dir" using demo_file_ok by (simp add: file_ok_def din_ok_def fblk_def) (auto simp add: demo_dir_def)
  then show ?thesis by (simp add: dir_ok_def sin_of_def demo_st_def) (simp add: demo_dir_def)
qed

lemma demo_dir_facts: "uniq (fsys demo_st) demo_dir" "nblocks demo_dir = 0" "name_ok [97]" "name_ok [98]" "\<forall>k. mem_ok demo_st k" "\<not> io_failed (fsys demo_st)"
  "sin_of 1 demo_st = Some (demo_sin\<lparr>ino := 2\<rparr>)"
  by (simp_all add: uniq_def demo_dir_def demo_sin_def name_ok_def demo_st_def io_failed_def demo_fs_def sin_of_def)

lemma demo_space: "\<not> out_of_space (fsys demo_st)"
proof -
  have "card (avail demo_fs) = unat (super_unused demo_fs)" using demo_fs_ok by (simp add: fs_ok_def)
  then show ?thesis by (simp add: out_of_space_def demo_st_def io_failed_def) (simp add: demo_fs_def)
qed

lemma demo_dirmap: "dirmap (fsys demo_st) demo_dir name = None"
  using demo_dir_facts(2) by (simp add: dirmap_def dir_slot_def)

section \<open>Names\<close>

text \<open>C20: Searching a name is looking it up in the map.\<close>

theorem search_is_map_lookup:
  assumes d: "dir_ok a s st" and n: "length name \<le> SFS_MAX_FNAME_LEN" and m: "mem_ok st (mem_calls st)" and io: "\<not> io_failed (fsys st)"
  shows "\<exists>ret j slot h st'. sfs_dirent_search_nolock a name st = Some (ret, j, slot, h, st') \<and> dir_ok a s st' \<and> dirmap (fsys st') s = dirmap (fsys st) s \<and>
    (case dirmap (fsys st) s name of
       Some i \<Rightarrow> ret = 0 \<and> j = i \<and> slot < nblocks s \<and> live (fsys st) s name slot
     | None \<Rightarrow> ret = - E_NOENT \<and> (h = nblocks s \<or> h < nblocks s \<and> word4 (entry (fsys st) s h) = 0))"
proof -
  let ?st = "\<lambda>f. st\<lparr>mem_calls := mem_calls st + 1, fsys := f\<rparr>"
  have n': "length name \<le> 255" using n by simp
  obtain ret j slot h f where s: "sfs_dirent_search_nolock a name st = Some (ret, j, slot, h, ?st f)" "ticked (fsys st) f"
    "found (fsys st) s name [0..<nblocks s] (nblocks s) ret j slot h" using search_ok [OF d n' m] by blast
  note c = found_dir [OF s(3) io]
  have "dir_ok a s (?st f)" "dirmap (fsys (?st f)) s = dirmap (fsys st) s"
    using d ticked_read(1) [OF s(2)] dirmap_ticked(1) [OF s(2)] by (simp_all add: dir_ok_def)
  moreover have "case dirmap (fsys st) s name of
       Some i \<Rightarrow> ret = 0 \<and> j = i \<and> slot < nblocks s \<and> live (fsys st) s name slot
     | None \<Rightarrow> ret = - E_NOENT \<and> (h = nblocks s \<or> h < nblocks s \<and> word4 (entry (fsys st) s h) = 0)"
  proof (cases "dir_slot (fsys st) s name")
    case None
    then show ?thesis using c dir_hole_ok [of "fsys st" s] by (simp add: dirmap_def)
  next
    case (Some k)
    then have "k < nblocks s \<and> live (fsys st) s name k" by (auto simp: dir_slot_def find_Some_iff)
    then show ?thesis using c Some by (simp add: dirmap_def)
  qed
  ultimately show ?thesis using s(1) by blast
qed

theorem search_is_map_lookup_witness:
  "\<exists>ret j slot h st'. sfs_dirent_search_nolock 0 [97] demo_st = Some (ret, j, slot, h, st') \<and> dir_ok 0 demo_dir st' \<and> ret = - E_NOENT \<and> h = 0"
  using search_is_map_lookup [OF demo_dir_ok, of "[97]"] demo_dir_facts demo_dirmap by auto

definition adds_slot :: "sfs_inode \<Rightarrow> u32 \<Rightarrow> sfs_inode" where
  "adds_slot s n = s\<lparr>sin_dirty := True, din := (din s)\<lparr>size_or_slots := size_or_slots (din s) + n\<rparr>\<rparr>"

lemma adds_slot_set: "adds_slot s n = set_size s (size_or_slots (din s) + n)"
  by (simp add: adds_slot_def set_size_def)

lemma adds_slot_simps [simp]: "file_ok fs (adds_slot s n) = file_ok fs s" "di_type (din (adds_slot s n)) = di_type (din s)"
  "size_or_slots (din (adds_slot s n)) = size_or_slots (din s) + n"
  by (simp_all add: adds_slot_set) (simp add: set_size_def)

lemma entry_adds [simp]: "entry fs (adds_slot s n) = entry fs s"
  by (simp add: entry_def fun_eq_iff adds_slot_set)

lemma dirmap_adds [simp]: "dirmap fs (adds_slot s n) = dirmap fs s" "uniq fs (adds_slot s n) = uniq fs s"
  by (simp_all add: dirmap_def dir_slot_def uniq_def live_def [abs_def] fun_eq_iff) (simp_all add: adds_slot_set)

text \<open>
  C8: Linking adds a new name for the inode and counts it, and is refused exactly when the name is taken; it fails otherwise only for want of
  blocks, and then no name changes.
\<close>

theorem sfs_link_adds_name:
  assumes d: "dir_ok a s st" "uniq (fsys st) s" "nblocks s < 32768" and nm: "name_ok name"
    and m: "mem_ok st (mem_calls st)" "mem_ok st (mem_calls st + 1)" and io: "\<not> io_failed (fsys st)"
    and l: "sin_of l st = Some ls" "l \<noteq> a" "ino ls \<noteq> 0"
  shows "\<exists>ret st' s'. sfs_link_nolock a l name st = Some (ret, st') \<and> dir_ok a s' st' \<and> uniq (fsys st') s' \<and>
    (if dirmap (fsys st) s name \<noteq> None then ret = - E_EXISTS \<and> dirmap (fsys st') s' = dirmap (fsys st) s
     else if ret = 0 then dirmap (fsys st') s' = (dirmap (fsys st) s)(name \<mapsto> ino ls) \<and> size_or_slots (din s') = size_or_slots (din s) + 1 \<and>
       sin_of l st' = Some (ls\<lparr>sin_dirty := True, din := (din ls)\<lparr>nlinks := nlinks (din ls) + 1\<rparr>\<rparr>)
     else dirmap (fsys st') s' = dirmap (fsys st) s \<and> out_of_space (fsys st))"
proof -
  let ?st = "\<lambda>f. st\<lparr>mem_calls := mem_calls st + 1, fsys := f\<rparr>"
  have n: "length name \<le> 255" using nm by (simp add: name_ok_def)
  obtain ret j slot h f where s: "sfs_dirent_search_nolock a name st = Some (ret, j, slot, h, ?st f)" "ticked (fsys st) f"
    "found (fsys st) s name [0..<nblocks s] (nblocks s) ret j slot h" using search_ok [OF d(1) n m(1)] by blast
  note c = found_dir [OF s(3) io] and t = dirmap_ticked [OF s(2), of s]
  have d1: "dir_ok a s (?st f)" using d(1) ticked_read(1) [OF s(2)] by (simp add: dir_ok_def)
  show ?thesis
  proof (cases "dir_slot (fsys st) s name")
    case (Some k)
    then have "sfs_link_nolock a l name st = Some (- E_EXISTS, ?st f)" using c s(1) by (simp add: sfs_link_nolock_def)
    then show ?thesis using Some d1 d(2) t by (auto simp: dirmap_def)
  next
    case None
    then have r: "ret = - E_NOENT" "h = dir_hole (fsys st) s" and no: "dirmap (fsys st) s name = None" using c by (simp_all add: dirmap_def)
    have h: "h \<le> nblocks s" "h < 32768" "h < nblocks s \<longrightarrow> word4 (entry (fsys st) s h) = 0" using dir_hole_ok [of "fsys st" s] r(2) d(3) by auto
    obtain r2 s' f2 where w: "sfs_dirent_write_nolock a h (ino ls) name (?st f) = Some (r2, set_sin a s' ((?st f)\<lparr>mem_calls := mem_calls (?st f) + 1, fsys := f2\<rparr>))"
      "if r2 = 0 then wrote (fsys (?st f)) s (4096 * h) (entry_bytes (ino ls) name) f2 s' \<and> h < nblocks s' else wrote (fsys (?st f)) s (4096 * h) [] f2 s' \<and> out_of_space (fsys (?st f))"
      using dirent_write_ok [OF d1 h(1,2) _ l(3) n] m(2) by auto
    let ?st2 = "st\<lparr>mem_calls := mem_calls st + 2, fsys := f2\<rparr>"
    have eq: "sfs_link_nolock a l name st = (if r2 \<noteq> 0 then Some (r2, set_sin a s' ?st2)
        else do { st \<leftarrow> add_slots a 1 (set_sin a s' ?st2); st \<leftarrow> add_nlinks l 1 st; Some (0, st) })"
      using s(1) r(1) l(1) w(1) by (simp add: sfs_link_nolock_def sfs_dirent_link_nolock_def)
    have sa: "sin_of a st = Some s" "di_type (din s) = SFS_TYPE_DIR" using d(1) by (simp_all add: dir_ok_def)
    show ?thesis
    proof (cases "r2 = 0")
      case False
      then have w2: "wrote f s (4096 * h) [] f2 s'" "out_of_space f" using w(2) by simp_all
      have "out_of_space (fsys st)" using w2(2) ticked_same [OF s(2)] by (simp add: out_of_space_def io_failed_def)
      moreover have "uniq f2 s' \<and> dirmap f2 s' = dirmap (fsys st) s" using failed_entry [OF _ w2(1)] d(2) t by simp
      moreover have "dir_ok a s' (set_sin a s' ?st2)" using wrote_dir [OF w2(1)] sa by (intro dir_ok_set) simp_all
      ultimately show ?thesis using eq False no by (intro exI [of _ r2] exI [of _ "set_sin a s' ?st2"] exI [of _ s']) simp
    next
      case True
      then have w2: "wrote f s (4096 * h) (entry_bytes (ino ls) name) f2 s'" "h < nblocks s'" using w(2) by simp_all
      have m2: "uniq f2 s' \<and> dirmap f2 s' = (dirmap (fsys st) s)(name \<mapsto> ino ls)"
        using update_entry [OF _ w2(1) h(1) w2(2) l(3) nm] d(2) t no h(3) entry_ticked [OF s(2)] by auto
      let ?s2 = "adds_slot s' 1"
      let ?ls = "ls\<lparr>sin_dirty := True, din := (din ls)\<lparr>nlinks := nlinks (din ls) + 1\<rparr>\<rparr>"
      have "sfs_link_nolock a l name st = Some (0, set_sin l ?ls (set_sin a ?s2 ?st2))"
        using eq True sa(1) l by (simp add: add_slots_def add_nlinks_def adds_slot_def)
      moreover have "dir_ok a ?s2 (set_sin l ?ls (set_sin a ?s2 ?st2))" "sin_of l (set_sin l ?ls (set_sin a ?s2 ?st2)) = Some ?ls"
        using wrote_dir [OF w2(1)] sa l by (simp_all add: dir_ok_def)
      moreover have "size_or_slots (din ?s2) = size_or_slots (din s) + 1" using wrote_dir [OF w2(1)] by simp
      ultimately show ?thesis using m2 no by (intro exI [of _ 0] exI [of _ "set_sin l ?ls (set_sin a ?s2 ?st2)"] exI [of _ ?s2]) simp
    qed
  qed
qed

theorem sfs_link_adds_name_witness:
  "\<exists>st' s'. sfs_link_nolock 0 1 [97] demo_st = Some (0, st') \<and> dir_ok 0 s' st' \<and> dirmap (fsys st') s' = [[97] \<mapsto> 2]"
proof -
  have "mem_ok demo_st (mem_calls demo_st)" "mem_ok demo_st (mem_calls demo_st + 1)" "nblocks demo_dir < 32768" "(1::nat) \<noteq> 0" "ino (demo_sin\<lparr>ino := 2\<rparr>) \<noteq> 0"
    using demo_dir_facts(2,5) by simp_all
  note h = this and d = demo_dir_facts
  show ?thesis using sfs_link_adds_name [OF demo_dir_ok d(1) h(3) d(3) h(1,2) d(6) d(7) h(4,5)] demo_space by (auto simp: demo_dirmap fun_eq_iff split: if_splits)
qed

text \<open>
  C28: Renaming in one directory moves the name and nothing else; it is refused exactly when the old name is missing or the new one is taken.
\<close>

theorem sfs_rename_in_directory:
  assumes d: "dir_ok a s st" "uniq (fsys st) s" and nm: "name_ok name" "name_ok new_name"
    and m: "\<forall>k. mem_ok st k" and io: "\<not> io_failed (fsys st)"
  shows "\<exists>ret st' s'. sfs_rename1_nolock a name new_name st = Some (ret, st') \<and> dir_ok a s' st' \<and> uniq (fsys st') s' \<and>
    (if name = new_name then ret = 0 \<and> dirmap (fsys st') s' = dirmap (fsys st) s
     else case dirmap (fsys st) s name of
         None \<Rightarrow> ret = - E_NOENT \<and> dirmap (fsys st') s' = dirmap (fsys st) s
       | Some i \<Rightarrow>
           if dirmap (fsys st) s new_name \<noteq> None then ret = - E_EXISTS \<and> dirmap (fsys st') s' = dirmap (fsys st) s
           else ret = 0 \<and> dirmap (fsys st') s' = (dirmap (fsys st) s)(name := None, new_name \<mapsto> i))"
proof (cases "name = new_name")
  case True
  then show ?thesis using d by (auto simp: sfs_rename1_nolock_def)
next
  case ne: False
  let ?st = "\<lambda>n f. st\<lparr>mem_calls := mem_calls st + n, fsys := f\<rparr>"
  have n: "length name \<le> 255" "length new_name \<le> 255" using nm by (simp_all add: name_ok_def)
  have m1: "mem_ok st (mem_calls st)" using m by blast
  obtain ret j slot h f where s: "sfs_dirent_search_nolock a name st = Some (ret, j, slot, h, ?st 1 f)" "ticked (fsys st) f"
    "found (fsys st) s name [0..<nblocks s] (nblocks s) ret j slot h" using search_ok [OF d(1) n(1) m1] by blast
  note c = found_dir [OF s(3) io] and t = dirmap_ticked [OF s(2), of s]
  have d1: "dir_ok a s (?st 1 f)" using d(1) ticked_read(1) [OF s(2)] by (simp add: dir_ok_def)
  have io1: "\<not> io_failed (fsys (?st 1 f))" using io ticked_same(4) [OF s(2)] by (simp add: io_failed_def)
  show ?thesis
  proof (cases "dir_slot (fsys st) s name")
    case None
    then have "sfs_rename1_nolock a name new_name st = Some (- E_NOENT, ?st 1 f)" "dirmap (fsys st) s name = None"
      using c s(1) ne by (simp_all add: sfs_rename1_nolock_def dirmap_def)
    then show ?thesis using ne d1 d(2) t by (intro exI [of _ "- E_NOENT"] exI [of _ "?st 1 f"] exI [of _ s]) simp
  next
    case (Some k)
    then have r: "ret = 0" "slot = k" "j = word4 (entry (fsys st) s k)" using c by simp_all
    have k: "k < nblocks s" "live (fsys st) s name k" using Some by (auto simp: dir_slot_def find_Some_iff)
    have j0: "j \<noteq> 0" "entry_name (entry (fsys st) s k) = name" using k(2) r(3) by (simp_all add: live_def)
    have dm: "dirmap (fsys st) s name = Some j" using Some r(3) by (simp add: dirmap_def)
    have m2: "mem_ok (?st 1 f) (mem_calls (?st 1 f))" using m by simp
    obtain r2 j2 slot2 h2 f2 where s2: "sfs_dirent_search_nolock a new_name (?st 1 f) = Some (r2, j2, slot2, h2, (?st 1 f)\<lparr>mem_calls := mem_calls (?st 1 f) + 1, fsys := f2\<rparr>)"
      "ticked (fsys (?st 1 f)) f2" "found (fsys (?st 1 f)) s new_name [0..<nblocks s] (nblocks s) r2 j2 slot2 h2"
      using search_ok [OF d1 n(2) m2] by blast
    note c2 = found_dir [OF s2(3) io1]
    have tt: "ticked (fsys st) f2" using ticked_trans [OF s(2)] s2(2) by simp
    note t2 = dirmap_ticked [OF tt, of s]
    have d2: "dir_ok a s (?st 2 f2)" using d(1) ticked_read(1) [OF tt] by (simp add: dir_ok_def)
    have s2': "sfs_dirent_search_nolock a new_name (?st 1 f) = Some (r2, j2, slot2, h2, ?st 2 f2)" using s2(1) by simp
    have sl: "dir_slot (fsys (?st 1 f)) s new_name = dir_slot (fsys st) s new_name" using entry_ticked [OF s(2)] by (simp add: dir_slot_def live_def [abs_def])
    show ?thesis
    proof (cases "dir_slot (fsys st) s new_name")
      case taken: (Some k2)
      then have "sfs_rename1_nolock a name new_name st = Some (- E_EXISTS, ?st 2 f2)" "dirmap (fsys st) s new_name \<noteq> None"
        using c2 s(1) s2' sl ne r by (simp_all add: sfs_rename1_nolock_def dirmap_def)
      then show ?thesis using ne dm d2 d(2) t2 by (intro exI [of _ "- E_EXISTS"] exI [of _ "?st 2 f2"] exI [of _ s]) simp
    next
      case None
      then have free: "r2 = - E_NOENT" "dirmap (fsys st) s new_name = None" using c2 sl by (simp_all add: dirmap_def)
      have k2: "k \<le> nblocks s" "k < 32768" using k(1) d(1) by (simp_all add: dir_ok_def file_ok_def)
      have m3: "mem_ok (?st 2 f2) (mem_calls (?st 2 f2))" using m by simp
      have io2: "\<not> io_failed (fsys (?st 2 f2))" using io ticked_same(4) [OF tt] by (simp add: io_failed_def)
      obtain s' f3 where w: "sfs_dirent_write_nolock a k j new_name (?st 2 f2) = Some (0, set_sin a s' ((?st 2 f2)\<lparr>mem_calls := mem_calls (?st 2 f2) + 1, fsys := f3\<rparr>))"
        "wrote f2 s (4096 * k) (entry_bytes j new_name) f3 s'" "k < nblocks s'"
        using dirent_write_in_place [OF d2 k(1) m3 j0(1) n(2) io2] by auto
      let ?st3 = "set_sin a s' (?st 3 f3)"
      have eq: "sfs_rename1_nolock a name new_name st = Some (0, ?st3)"
        using s(1) s2' r free(1) ne w(1) by (simp add: sfs_rename1_nolock_def numeral_3_eq_3)
      have sa: "sin_of a st = Some s" "di_type (din s) = SFS_TYPE_DIR" using d(1) by (simp_all add: dir_ok_def)
      have "uniq f3 s' \<and> dirmap f3 s' = (dirmap (fsys st) s)(name := None, new_name \<mapsto> j)"
        using update_entry [OF _ w(2) k2(1) w(3) j0(1) nm(2)] d(2) t2 free(2) k(1) j0 r(3) entry_ticked [OF tt] by auto
      moreover have "dir_ok a s' ?st3" using wrote_dir [OF w(2)] sa by (intro dir_ok_set) simp_all
      ultimately show ?thesis using eq ne dm free(2) by (intro exI [of _ 0] exI [of _ ?st3] exI [of _ s']) simp
    qed
  qed
qed

theorem sfs_rename_in_directory_witness:
  "\<exists>ret st' s'. sfs_rename1_nolock 0 [97] [98] demo_st = Some (ret, st') \<and> dir_ok 0 s' st' \<and> ret = - E_NOENT"
  using sfs_rename_in_directory [OF demo_dir_ok, of "[97]" "[98]"] demo_dir_facts demo_dirmap by auto

end
