(* ===== verification/Spec2Isabelle.thy ===== *)
theory Spec2Isabelle
  imports Strings List_Heap Buddy_Pmm Bitmap Pipe Rb_Tree Pgfault Sfs_Trunc Sfs_Names
begin

text \<open>
  A verification library for ucore-mp64: the page allocator of its supervisor and, of the kernel \<^verbatim>\<open>kern-ucore\<close>, the libraries, the scheduler,
  synchronisation, the memory manager and the simple file system (SFS). Paths below are relative to \<^verbatim>\<open>src/src\<close>; those without a directory
  of the top level are under \<^verbatim>\<open>kern-ucore\<close>.

  \<^bold>\<open>The program and its parts.\<close> The supervisor owns the machine and hands out physical pages (\<^verbatim>\<open>supervisor/mm/buddy_pmm.c\<close>). The kernel runs
  processes on it. The scheduler (\<^verbatim>\<open>schedule\<close>) keeps runnable processes in run queues and sleeping ones on timers; wait queues
  (\<^verbatim>\<open>sync/wait.c\<close>) put a process to sleep and wake it through the scheduler; semaphores (\<^verbatim>\<open>sync/sem.c\<close>) are built on wait queues and timers, and
  the pipe (\<^verbatim>\<open>fs/pipe/pipe_state.c\<close>) and the lock of an address space on semaphores. An address space (\<^verbatim>\<open>mm/vmm.c\<close>) is a set of areas kept in a
  list, and in a red-black tree (\<^verbatim>\<open>libs/rb_tree.c\<close>) when there are many; its pages are in a four-level page table (\<^verbatim>\<open>glue-ucore/pmm.c\<close>), in
  shared memory objects (\<^verbatim>\<open>mm/shmem.c\<close>) or on the swap device (\<^verbatim>\<open>mm/swap.c\<close>), and the fault handler joins these. SFS (\<^verbatim>\<open>fs/sfs\<close>) takes
  blocks from a bitmap, maps the blocks of a file to them and keeps directories in files.

  \<^bold>\<open>How code becomes definitions.\<close> Every operation is a function with the name it has in the source, on a record that holds the state it
  reads and writes. A result of type \<open>option\<close> is \<open>None\<close> when an assertion of the code fails, when the code panics or when a loop does not return,
  so a theorem which says that the result is \<open>Some\<close> says that none of these happens; error codes are negative integers as in the code. Words
  have the width of the source where they can wrap (\<open>u8\<close>, \<open>u32\<close>, \<open>u64\<close>); counters that the code keeps small are natural numbers. An operation that
  sleeps is cut at its call of \<^verbatim>\<open>schedule()\<close> into the part before and the part after. What is outside the modelled code is a parameter: the
  outcome of each \<^verbatim>\<open>kmalloc\<close>, of each transfer of a device, and the frames that the supervisor supplies.

  \<^bold>\<open>Theories, in the order of the imports.\<close>

  \<^item> \<open>Ucore_Prelude\<close>: words, error codes, \<open>kassert\<close>, the rounding macros and the lemmas that components share.

  \<^item> \<open>Strings\<close> (\<^verbatim>\<open>libs/string.c\<close>, \<^verbatim>\<open>glue-ucore/libs/string.c\<close>, \<^verbatim>\<open>printnum\<close> of \<^verbatim>\<open>glue-ucore/libs/printfmt.c\<close>), on a memory of bytes. The
  functions that \<^verbatim>\<open>glue-ucore/libs/x86.h\<close> replaces by inline assembly are sequences of its string instructions; the moves copy overlapping blocks, comparison is the lexicographic order, and \<^verbatim>\<open>strtol\<close> reads what \<^verbatim>\<open>printnum\<close> prints.

  \<^item> \<open>List_Heap\<close> (\<^verbatim>\<open>list.h\<close>), on a heap of previous and next fields: the predicate \<open>ring\<close> ties a heap to the HOL list of its members, and the
  locale \<open>dlist\<close> is the contract by which other components use lists as HOL lists.

  \<^item> \<open>Buddy\<close> and \<open>Buddy_Pmm\<close> (\<^verbatim>\<open>supervisor/mm/buddy_pmm.c\<close>): the free areas, splitting and merging; the invariant \<open>buddy_ok\<close>, what allocation and
  freeing do to the set of free pages, and the locale \<open>pmm_manager\<close>, from which follow the round trip and that blocks handed out are disjoint.

  \<^item> \<open>Bitmap\<close> (\<^verbatim>\<open>fs/sfs/bitmap.c\<close>): words of 32 bits; allocation returns the first free index. Its contract is the locale \<open>index_pool\<close>.

  \<^item> \<open>Proc_State\<close>, \<open>Sched\<close>, \<open>Timer\<close> (\<^verbatim>\<open>process/proc.h\<close>, \<^verbatim>\<open>schedule\<close>): the state of the kernel that these components share, the two scheduling classes
  as interpretations of the locale \<open>sched_class\<close>, the choice of the next process, and timers, whose stored distances are read as deadlines.

  \<^item> \<open>Wait\<close>, \<open>Sem\<close>, \<open>Pipe\<close> (\<^verbatim>\<open>sync/wait.c\<close>, \<^verbatim>\<open>sync/sem.c\<close>, \<^verbatim>\<open>fs/pipe/pipe_state.c\<close>): the users of a kernel semaphore are the step relation
  \<open>sem_step\<close>, with mutual exclusion, absence of panics and of lost wake-ups in every reachable state, and service in the order of arrival; a pipe delivers the
  bytes written to it in their order (locale \<open>byte_fifo\<close>), and each call on it gives back the lock and wakes exactly the waiters it serves.

  \<^item> \<open>Rb_Tree\<close> (\<^verbatim>\<open>libs/rb_tree.c\<close>): nodes with parent pointers as a subtree and the path to it; insertion and deletion keep order, colours and
  black height, and add or remove one node.

  \<^item> \<open>Swap\<close>, \<open>Page_Table\<close>, \<open>Shmem\<close> (\<^verbatim>\<open>mm/swap.c\<close>, \<^verbatim>\<open>glue-ucore/pmm.c\<close>, \<^verbatim>\<open>mm/shmem.c\<close>): frames and swap entries with their counts, what is swapped out
  is swapped in again, laundering frees exactly the pages nobody refers to; the walks over the four levels are walks over a flat map of pages, proved
  once per level through the locale \<open>lower_tables\<close>.

  \<^item> \<open>Vmm\<close>, \<open>Vmm_Unmap\<close>, \<open>Pgfault\<close> (\<^verbatim>\<open>mm/vmm.c\<close>): the search through cache, tree and list equals the search in the list; mapping and unmapping change
  the mapped addresses by exactly the range; the areas of every address space that the operations can build are sorted and disjoint
  (\<open>mm_reach\<close>); a fault that the area allows ends, when frames and the device suffice, with a page that allows the access, copied when
  others map it. The theorems on unmapping and faults are about private areas, those on unmapping about pages that are not swapped out; what goes
  wrong in shared areas is proved beside them. The directory of an address space is the null pointer until \<^verbatim>\<open>setup_pgdir\<close> (\<^verbatim>\<open>process/proc.c\<close>) has run.

  \<^item> \<open>Sfs_Block\<close>, \<open>Sfs_File\<close>, \<open>Sfs_Dir\<close> (\<^verbatim>\<open>fs/sfs/sfs_io.c\<close>, \<^verbatim>\<open>fs/sfs/sfs_inode.c\<close>, \<^verbatim>\<open>fs/iobuf.c\<close>, reference counts of \<^verbatim>\<open>fs/vfs/inode.c\<close>) hold the
  operations of SFS: blocks and block maps, files, and the table of inodes with the directories.

  \<^item> \<open>Sfs_Map\<close>, \<open>Sfs_Inode\<close>, \<open>Sfs_Bytes\<close>, \<open>Sfs_Trunc\<close>, \<open>Sfs_Names\<close> hold their theory, one abstraction on another: the block pointers of an inode are
  distinct blocks in use; a file is a list of blocks; it is an array of bytes, which reads return and writes overwrite, whatever transfers
  fail (a write that begins more than a block beyond the end fails an assertion); truncation resizes it, gives back exactly the blocks it cuts off, and the written inode is read back; a directory is a map from names to inode numbers, in which searching
  is lookup, linking adds a name and renaming moves one.

  \<^bold>\<open>Loops and bounds.\<close> There is no fuel. A loop over a structure or a range is structural recursion or a \<open>function\<close> with a termination
  proof; a loop whose end depends on the contents of memory is a \<open>partial_function\<close> into \<open>option\<close>, and the theorems about it state that it
  returns. The loops of \<^verbatim>\<open>exit_range\<close>, \<^verbatim>\<open>copy_range\<close>, \<^verbatim>\<open>copy_string\<close>, \<^verbatim>\<open>sfs_namefile\<close> and the walk of \<^verbatim>\<open>wakeup_queue\<close> that keeps its entries
  are defined and have no theorem. Files have at most 32768 blocks and
  devices at most \<open>0x100000\<close>, beyond which the 32-bit offset of a block wraps; \<open>fs_ok\<close> has the second as a condition. The directory theorems
  take the device as free of errors and \<^verbatim>\<open>kmalloc\<close> as successful; those on the bytes of a file allow every transfer to fail.

  \<^bold>\<open>Not modelled.\<close> Processors, traps, context switch, drivers, the boot loader and start-up code are machine state and input and output. Interrupt
  masking and the locks of an inode bracket the modelled operations, which start where the lock is held. The slab allocator is replaced by
  outcomes of \<^verbatim>\<open>kmalloc\<close>. Process creation and exit, the semaphores of user processes (\<^verbatim>\<open>ipc_sem_init\<close> and the tables behind it), system calls, open files, the dispatch of the VFS, mounting, mailboxes, events, the
  walk that chooses pages for swapping (\<^verbatim>\<open>swap_out_vma\<close>) and its thread, and the formats of \<^verbatim>\<open>vprintfmt\<close> are not modelled, nor are the self-tests in
  the sources, the River kernel, the user programs, the host tools and the Linux module. The flags of upper page-table levels and the
  invalidation of the TLB are not part of the state, nor is the entry by which a directory maps itself; writing a page to the swap device is one step, during
  which nothing else happens; the scheduler is modelled as seen from one processor.
\<close>

end
